(* ===== verification/Prelude.thy ===== *)
theory Prelude
  imports Main
    "HOL-Library.Word"
    "HOL-Library.List_Lexorder"
    "HOL-Library.Product_Lexorder"
    "HOL-Library.Option_ord"
    "HOL-Library.Char_ord"
    "HOL-Library.Sublist"
begin

text \<open>
  Shared vocabulary of the development: the machine types of the Rust sources
  (\<open>u8\<close>, \<open>u32\<close>, \<open>u64\<close>, byte strings), the storage error type, the result type with
  the propagation of errors that the \<open>?\<close> operator performs, the fallible loops over slices,
  checked and saturating arithmetic, and the big-endian integer encoding together with the
  facts every key encoding rests on: fixed length, injectivity and order preservation.

  Rust strings are modelled as HOL \<open>string\<close>s whose characters are the bytes of the UTF-8
  text, so \<open>as_bytes\<close> only changes the type of the elements. The order of HOL-Library's
  \<open>List_Lexorder\<close> on byte lists is the order of Rust's \<open>[u8]\<close>.
\<close>

named_theorems key_simps \<open>evaluation of key encodings\<close>
named_theorems res_simps \<open>unfolding of fallible sequencing\<close>

section \<open>Machine types\<close>

type_synonym u8 = "8 word"
type_synonym u16 = "16 word"
type_synonym u32 = "32 word"
type_synonym u64 = "64 word"
type_synonym bytes = "u8 list"

definition as_bytes :: "string \<Rightarrow> bytes" where
  "as_bytes s = map of_char s"

lemma unat_of_char_u8: "unat (of_char c :: u8) = of_char c"
proof -
  have "(of_char c :: u8) = of_nat (of_char c)"
    by (simp only: of_nat_of_char)
  moreover have "(of_char c :: nat) < 256"
    using nat_of_char_less_256 by simp
  ultimately show ?thesis
    by (simp add: unat_of_nat)
qed

lemma of_char_u8_inject [simp]: "(of_char c :: u8) = of_char d \<longleftrightarrow> c = d"
  by (metis unat_of_char_u8 of_char_eq_iff)

lemma as_bytes_inject [simp]: "as_bytes s = as_bytes t \<longleftrightarrow> s = t"
  by (simp add: as_bytes_def inj_map_eq_map inj_def)

lemma length_as_bytes [simp]: "length (as_bytes s) = length s"
  by (simp add: as_bytes_def)

lemma as_bytes_append [simp]: "as_bytes (s @ t) = as_bytes s @ as_bytes t"
  by (simp add: as_bytes_def)

lemma as_bytes_Nil [simp]: "as_bytes [] = []"
  by (simp add: as_bytes_def)

section \<open>Errors and results\<close>

text \<open>The error enum of \<open>storage/error.rs\<close>; the payload of \<open>Io\<close> is its message.\<close>

datatype storage_error =
    NotFound
  | Io string
  | Corruption string
  | Conflict
  | ResourceLimit string
  | Timeout string
  | Cancelled string
  | Backend string

type_synonym 'a res = "storage_error + 'a"

text \<open>\<open>rbind m f\<close> is \<open>f(m?)\<close>: the first error ends the computation.\<close>

definition rbind :: "'e + 'a \<Rightarrow> ('a \<Rightarrow> 'e + 'b) \<Rightarrow> 'e + 'b" where
  "rbind m f = (case m of Inl e \<Rightarrow> Inl e | Inr x \<Rightarrow> f x)"

lemma rbind_simps [simp]:
  "rbind (Inr x) f = f x"
  "rbind (Inl e) f = Inl e"
  by (simp_all add: rbind_def)

lemma rbind_eq_Inr: "rbind m f = Inr y \<longleftrightarrow> (\<exists>x. m = Inr x \<and> f x = Inr y)"
  by (cases m) simp_all

lemma rbind_eq_Inl: "rbind m f = Inl e \<longleftrightarrow> m = Inl e \<or> (\<exists>x. m = Inr x \<and> f x = Inl e)"
  by (cases m) auto

lemma rbind_InrE:
  assumes "rbind m f = Inr y"
  obtains x where "m = Inr x" "f x = Inr y"
  using assms by (auto simp: rbind_eq_Inr)

lemma rbind_assoc: "rbind (rbind m f) g = rbind m (\<lambda>x. rbind (f x) g)"
  by (cases m) simp_all

lemma rbind_cong [fundef_cong]:
  "m = m' \<Longrightarrow> (\<And>x. m' = Inr x \<Longrightarrow> f x = f' x) \<Longrightarrow> rbind m f = rbind m' f'"
  by (cases m') simp_all

declare rbind_eq_Inr [res_simps]

text \<open>\<open>map_err f m\<close> is Rust's \<open>map_err\<close>; \<open>ok_or e m\<close> turns an option into a result.\<close>

definition map_err :: "('e \<Rightarrow> 'f) \<Rightarrow> 'e + 'a \<Rightarrow> 'f + 'a" where
  "map_err f m = (case m of Inl e \<Rightarrow> Inl (f e) | Inr x \<Rightarrow> Inr x)"

lemma map_err_simps [simp]:
  "map_err f (Inl e) = Inl (f e)"
  "map_err f (Inr x) = Inr x"
  "map_err f m = Inr y \<longleftrightarrow> m = Inr y"
  by (cases m; simp add: map_err_def)+

definition ok_or :: "'e \<Rightarrow> 'a option \<Rightarrow> 'e + 'a" where
  "ok_or e m = (case m of None \<Rightarrow> Inl e | Some x \<Rightarrow> Inr x)"

lemma ok_or_simps [simp]:
  "ok_or e None = Inl e"
  "ok_or e (Some x) = Inr x"
  "ok_or e m = Inr y \<longleftrightarrow> m = Some y"
  by (cases m; simp add: ok_or_def)+

text \<open>\<open>opt_transpose\<close> is \<open>Option<Result<T, E>>::transpose\<close> after a \<open>map\<close>.\<close>

definition opt_transpose :: "('a \<Rightarrow> 'e + 'b) \<Rightarrow> 'a option \<Rightarrow> 'e + 'b option" where
  "opt_transpose f m = (case m of None \<Rightarrow> Inr None | Some x \<Rightarrow> rbind (f x) (\<lambda>y. Inr (Some y)))"

lemma opt_transpose_simps [simp]:
  "opt_transpose f None = Inr None"
  "opt_transpose f (Some x) = rbind (f x) (\<lambda>y. Inr (Some y))"
  by (simp_all add: opt_transpose_def)

text \<open>A \<open>for\<close> loop whose body may fail, and a fallible \<open>map ... collect\<close>.\<close>

fun rfold :: "('a \<Rightarrow> 's \<Rightarrow> 'e + 's) \<Rightarrow> 'a list \<Rightarrow> 's \<Rightarrow> 'e + 's" where
  "rfold f [] s = Inr s"
| "rfold f (x # xs) s = rbind (f x s) (rfold f xs)"

fun rmap :: "('a \<Rightarrow> 'e + 'b) \<Rightarrow> 'a list \<Rightarrow> 'e + 'b list" where
  "rmap f [] = Inr []"
| "rmap f (x # xs) = rbind (f x) (\<lambda>y. rbind (rmap f xs) (\<lambda>ys. Inr (y # ys)))"

lemma rfold_append: "rfold f (xs @ ys) s = rbind (rfold f xs s) (rfold f ys)"
  by (induction xs arbitrary: s) (auto simp: rbind_assoc intro: rbind_cong)

lemma rfold_cong [fundef_cong]:
  "xs = ys \<Longrightarrow> s = t \<Longrightarrow> (\<And>x s. x \<in> set ys \<Longrightarrow> f x s = g x s) \<Longrightarrow> rfold f xs s = rfold g ys t"
proof (induction xs arbitrary: ys s t)
  case (Cons x xs)
  then show ?case
    by (cases "g x t") auto
qed simp

lemma rfold_inv:
  assumes "rfold f xs s = Inr s'" and "P s"
    and "\<And>x s s'. x \<in> set xs \<Longrightarrow> P s \<Longrightarrow> f x s = Inr s' \<Longrightarrow> P s'"
  shows "P s'"
  using assms
proof (induction xs arbitrary: s)
  case (Cons x xs)
  from Cons.prems(1) obtain t where t: "f x s = Inr t" "rfold f xs t = Inr s'"
    by (auto simp: rbind_eq_Inr)
  have "P t"
    using Cons.prems(2,3) t(1) by auto
  with Cons.IH [OF t(2)] Cons.prems(3) show ?case
    by auto
qed simp

lemma rfold_total:
  "(\<And>x s. x \<in> set xs \<Longrightarrow> f x s = Inr (g x s)) \<Longrightarrow> rfold f xs s = Inr (fold g xs s)"
  by (induction xs arbitrary: s) auto

lemma rmap_Inr_iff: "rmap f xs = Inr ys \<longleftrightarrow> list_all2 (\<lambda>x y. f x = Inr y) xs ys"
  by (induction xs arbitrary: ys) (auto simp: rbind_eq_Inr list_all2_Cons1)

lemma rmap_total: "(\<And>x. x \<in> set xs \<Longrightarrow> f x = Inr (g x)) \<Longrightarrow> rmap f xs = Inr (map g xs)"
  by (induction xs) auto

section \<open>Checked and saturating arithmetic\<close>

definition checked_add :: "'a::len word \<Rightarrow> 'a word \<Rightarrow> 'a word option" where
  "checked_add a b = (if unat a + unat b < 2 ^ LENGTH('a) then Some (a + b) else None)"

definition checked_sub :: "'a::len word \<Rightarrow> 'a word \<Rightarrow> 'a word option" where
  "checked_sub a b = (if b \<le> a then Some (a - b) else None)"

definition saturating_add :: "'a::len word \<Rightarrow> 'a word \<Rightarrow> 'a word" where
  "saturating_add a b = (if unat a + unat b < 2 ^ LENGTH('a) then a + b else - 1)"

definition saturating_sub :: "'a::len word \<Rightarrow> 'a word \<Rightarrow> 'a word" where
  "saturating_sub a b = (if b \<le> a then a - b else 0)"

lemma checked_add_SomeD:
  "checked_add a b = Some c \<Longrightarrow> unat c = unat a + unat b"
  by (auto simp: checked_add_def unat_word_ariths split: if_splits)

lemma checked_add_None_iff:
  "checked_add a b = None \<longleftrightarrow> 2 ^ LENGTH('a) \<le> unat (a :: 'a::len word) + unat b"
  by (auto simp: checked_add_def)

lemma unat_saturating_add:
  "unat (saturating_add a b) = min (unat a + unat b) (2 ^ LENGTH('a) - 1)"
  for a b :: "'a::len word"
proof -
  have max: "unat (- 1 :: 'a word) = 2 ^ LENGTH('a) - 1"
    by (simp only: unsigned_minus_1_eq_mask mask_eq_exp_minus_1)
  show ?thesis
  proof (cases "unat a + unat b < 2 ^ LENGTH('a)")
    case True
    then show ?thesis
      by (simp add: saturating_add_def unat_word_ariths)
  next
    case False
    then have "unat (saturating_add a b) = 2 ^ LENGTH('a) - 1"
      by (simp only: saturating_add_def max if_False)
    with False show ?thesis
      by linarith
  qed
qed

lemma unat_saturating_sub: "unat (saturating_sub a b) = unat a - unat b"
  by (auto simp: saturating_sub_def unat_sub word_le_nat_alt)

text \<open>
  \<open>usize\<close> counters are natural numbers below \<open>2 ^ 64\<close>; their saturating operations are
  written out.
\<close>

definition usize_max :: nat where
  "usize_max = 2 ^ 64 - 1"

definition usize_saturating_add :: "nat \<Rightarrow> nat \<Rightarrow> nat" where
  "usize_saturating_add a b = min (a + b) usize_max"

definition u64_of_usize :: "nat \<Rightarrow> u64" where
  \<comment> \<open>\<open>u64::try_from(n).unwrap_or(u64::MAX)\<close>\<close>
  "u64_of_usize n = (if n < 2 ^ 64 then of_nat n else - 1)"

section \<open>Decimal rendering\<close>

text \<open>The \<open>Display\<close> text of an unsigned integer, used inside error messages.\<close>

fun show_nat :: "nat \<Rightarrow> string" where
  "show_nat n =
     (if n < 10 then [char_of (48 + n)] else show_nat (n div 10) @ [char_of (48 + n mod 10)])"

declare show_nat.simps [simp del]

abbreviation show_u64 :: "u64 \<Rightarrow> string" where
  "show_u64 w \<equiv> show_nat (unat w)"

section \<open>Big-endian integers\<close>

fun be_nat :: "nat \<Rightarrow> nat \<Rightarrow> bytes" where
  "be_nat 0 n = []"
| "be_nat (Suc k) n = be_nat k (n div 256) @ [of_nat (n mod 256)]"

definition of_be :: "bytes \<Rightarrow> nat" where
  "of_be bs = foldl (\<lambda>acc b. acc * 256 + unat b) 0 bs"

definition u64_to_be :: "u64 \<Rightarrow> bytes" where
  "u64_to_be w = be_nat 8 (unat w)"

definition u64_from_be :: "bytes \<Rightarrow> u64" where
  "u64_from_be bs = of_nat (of_be bs)"

definition u32_to_be :: "u32 \<Rightarrow> bytes" where
  "u32_to_be w = be_nat 4 (unat w)"

lemma length_be_nat [simp]: "length (be_nat k n) = k"
  by (induction k n rule: be_nat.induct) simp_all

lemma length_u64_to_be [simp]: "length (u64_to_be w) = 8"
  by (simp add: u64_to_be_def)

lemma of_be_Nil [simp]: "of_be [] = 0"
  by (simp add: of_be_def)

lemma of_be_snoc [simp]: "of_be (bs @ [b]) = of_be bs * 256 + unat b"
  by (simp add: of_be_def)

lemma unat_u8_less: "unat (b :: u8) < 256"
  using unsigned_less [of b, where ?'a = nat] by simp

lemma unat_u64_less: "unat (w :: u64) < 256 ^ 8"
  using unsigned_less [of w, where ?'a = nat] by simp

lemma of_be_be_nat: "of_be (be_nat k n) = n mod 256 ^ k"
proof (induction k n rule: be_nat.induct)
  case (2 k n)
  have "n mod 256 ^ Suc k = (n div 256 mod 256 ^ k) * 256 + n mod 256"
    using mod_mult2_eq [of n 256 "256 ^ k"] by (simp add: mult.commute)
  with 2 show ?case
    by (simp add: unat_of_nat)
qed simp

lemma of_be_less: "of_be bs < 256 ^ length bs"
proof (induction bs rule: rev_induct)
  case (snoc b bs)
  then have "of_be bs * 256 + unat b < (of_be bs + 1) * 256"
    using unat_u8_less [of b] by simp
  also have "\<dots> \<le> 256 ^ length bs * 256"
    using snoc by (intro mult_right_mono) auto
  finally show ?case
    by (simp add: mult.commute)
qed simp

lemma be_nat_of_be: "be_nat (length bs) (of_be bs) = bs"
proof (induction bs rule: rev_induct)
  case (snoc b bs)
  have d: "(of_be bs * 256 + unat b) div 256 = of_be bs"
    using unat_u8_less [of b] by simp
  show ?case
    using snoc unat_u8_less [of b] by (simp add: d)
qed simp

lemma u64_from_to_be [simp]: "u64_from_be (u64_to_be w) = w"
  using unat_u64_less [of w] by (simp add: u64_from_be_def u64_to_be_def of_be_be_nat)

lemma u64_to_from_be: "length bs = 8 \<Longrightarrow> u64_to_be (u64_from_be bs) = bs"
proof -
  assume len: "length bs = 8"
  then have "of_be bs < 2 ^ 64"
    using of_be_less [of bs] by simp
  then have "unat (u64_from_be bs) = of_be bs"
    by (simp add: u64_from_be_def unat_of_nat)
  then show ?thesis
    using be_nat_of_be [of bs] len by (simp add: u64_to_be_def)
qed

lemma u64_to_be_inject [simp]: "u64_to_be a = u64_to_be b \<longleftrightarrow> a = b"
  using u64_from_to_be by metis

section \<open>Lexicographic facts\<close>

lemma lex_append_same: "(p @ a < p @ b) \<longleftrightarrow> a < b"
  for a b p :: "'a::linorder list"
  by (induction p) simp_all

lemma lex_append_same_le: "(p @ a \<le> p @ b) \<longleftrightarrow> a \<le> b"
  for a b p :: "'a::linorder list"
  by (induction p) simp_all

lemma lex_append_less:
  fixes a b :: "'a::linorder list"
  assumes "a < b" and "length a = length b"
  shows "a @ c < b @ d"
  using assms
proof (induction a arbitrary: b)
  case (Cons x a)
  then show ?case
    by (cases b) auto
qed simp

lemma lex_append_iff:
  fixes a b :: "'a::linorder list"
  assumes "length a = length b"
  shows "a @ c < b @ d \<longleftrightarrow> a < b \<or> a = b \<and> c < d"
  using assms lex_append_less [of a b c d] lex_append_less [of b a d c]
  by (metis lex_append_same linorder_neqE not_less_iff_gr_or_eq)

lemma nat_less_div_mod_256:
  "(m div 256 < n div 256 \<or> m div 256 = n div 256 \<and> m mod 256 < n mod 256) \<longleftrightarrow> m < n"
  for m n :: nat
proof -
  have m: "m = 256 * (m div 256) + m mod 256" and n: "n = 256 * (n div 256) + n mod 256"
    by simp_all
  have "m mod 256 < 256" "n mod 256 < 256"
    by simp_all
  with m n show ?thesis
    by linarith
qed

lemma be_nat_less_iff:
  "m < 256 ^ k \<Longrightarrow> n < 256 ^ k \<Longrightarrow> be_nat k m < be_nat k n \<longleftrightarrow> m < n"
proof (induction k arbitrary: m n)
  case (Suc k)
  have bounds: "m div 256 < 256 ^ k" "n div 256 < 256 ^ k"
    using Suc.prems by (simp_all add: less_mult_imp_div_less mult.commute)
  have last: "(of_nat (m mod 256) :: u8) < of_nat (n mod 256) \<longleftrightarrow> m mod 256 < n mod 256"
    by (simp add: word_less_nat_alt unat_of_nat)
  have eq: "be_nat k (m div 256) = be_nat k (n div 256) \<longleftrightarrow> m div 256 = n div 256"
    using bounds of_be_be_nat by (metis mod_less)
  have "be_nat (Suc k) m < be_nat (Suc k) n \<longleftrightarrow>
      m div 256 < n div 256 \<or> m div 256 = n div 256 \<and> m mod 256 < n mod 256"
    using Suc.IH [OF bounds] by (simp add: lex_append_iff eq last)
  also have "\<dots> \<longleftrightarrow> m < n"
    by (rule nat_less_div_mod_256)
  finally show ?case .
qed simp

lemma u64_to_be_less_iff [simp]: "u64_to_be a < u64_to_be b \<longleftrightarrow> a < b"
  unfolding u64_to_be_def word_less_nat_alt
  using unat_u64_less unat_u64_less by (rule be_nat_less_iff)

lemma u64_to_be_le_iff [simp]: "u64_to_be a \<le> u64_to_be b \<longleftrightarrow> a \<le> b"
  by (simp flip: not_less)

lemma prefix_le: "prefix p k \<Longrightarrow> p \<le> (k :: 'a::linorder list)"
  by (auto simp: prefix_def lex_append_same_le [of p "[]", simplified])

end
