(* ===== verification/BTreeMap.thy ===== *)
theory BTreeMap
  imports Prelude
begin

text \<open>
  The ordered map of Rust's standard library, \<open>std::collections::BTreeMap\<close>, as far as the
  sources use it: construction, \<open>get\<close>, \<open>insert\<close>, \<open>remove\<close>, \<open>extend\<close>, iteration in
  key order, half-open ranges, \<open>first\<close>, emptiness. A value is a strictly sorted association
  list, so equality of maps is equality of their contents, as Rust's \<open>PartialEq\<close> has it.
  The locale \<open>ordered_map\<close> states the contract the storage engines rely on; it is
  interpreted on these operations, and on nothing else.
\<close>

section \<open>Strictly sorted association lists\<close>

abbreviation ordered_keys :: "('k::linorder \<times> 'v) list \<Rightarrow> bool" where
  "ordered_keys xs \<equiv> sorted_wrt (<) (map fst xs)"

fun al_put :: "'k::linorder \<Rightarrow> 'v \<Rightarrow> ('k \<times> 'v) list \<Rightarrow> ('k \<times> 'v) list" where
  "al_put k v [] = [(k, v)]"
| "al_put k v (e # es) =
     (if k < fst e then (k, v) # e # es
      else if k = fst e then (k, v) # es
      else e # al_put k v es)"

definition al_drop :: "'k \<Rightarrow> ('k \<times> 'v) list \<Rightarrow> ('k \<times> 'v) list" where
  "al_drop k es = filter (\<lambda>e. fst e \<noteq> k) es"

lemma keys_al_put: "fst ` set (al_put k v es) = insert k (fst ` set es)"
  by (induction es) auto

lemma ordered_al_put: "ordered_keys es \<Longrightarrow> ordered_keys (al_put k v es)"
proof (induction es)
  case (Cons e es)
  have "\<forall>j \<in> fst ` set es. fst e < j"
    using Cons.prems by simp
  then have "fst e < j" if "j \<in> fst ` set (al_put k v es)" "fst e < k" for j
    using that unfolding keys_al_put by blast
  with Cons show ?case
    by (auto intro: order.strict_trans)
qed simp

lemma ordered_filter: "ordered_keys es \<Longrightarrow> ordered_keys (filter P es)"
  by (induction es) auto

lemma map_of_al_put: "ordered_keys es \<Longrightarrow> map_of (al_put k v es) = (map_of es)(k \<mapsto> v)"
  by (induction es) auto

lemma map_of_al_drop: "map_of (al_drop k es) = (map_of es)(k := None)"
  unfolding al_drop_def by (induction es) auto

lemma ordered_distinct: "ordered_keys es \<Longrightarrow> distinct (map fst es)"
  by (induction es) auto

lemma ordered_map_of_inject:
  assumes "ordered_keys xs" "ordered_keys ys" "map_of xs = map_of ys"
  shows "xs = ys"
  using assms
proof (induction xs arbitrary: ys)
  case Nil
  then show ?case
    by (cases ys) (auto simp: fun_eq_iff split: if_splits)
next
  case (Cons x xs)
  have "ys \<noteq> []"
    using Cons.prems(3) by (cases x) (auto simp: fun_eq_iff split: if_splits)
  then obtain y ys' where ys: "ys = y # ys'"
    by (cases ys) auto
  have keys: "fst ` set (x # xs) = fst ` set ys"
    using Cons.prems(3) dom_map_of_conv_image_fst by metis
  have "fst y \<in> fst ` set (x # xs)" "fst x \<in> fst ` set (y # ys')"
    using keys ys by auto
  moreover have "\<forall>k \<in> fst ` set (x # xs). fst x \<le> k" "\<forall>k \<in> fst ` set (y # ys'). fst y \<le> k"
    using Cons.prems(1,2) ys by (auto simp: less_imp_le)
  ultimately have "fst x \<le> fst y" and "fst y \<le> fst x"
    by blast+
  then have fst_eq: "fst x = fst y"
    by simp
  have val_eq: "snd x = snd y"
    using fun_cong [OF Cons.prems(3), of "fst x"] fst_eq ys by (cases x; cases y) auto
  have "map_of xs k = map_of ys' k" for k
  proof (cases "k = fst x")
    case True
    have "map_of xs (fst x) = None" "map_of ys' (fst y) = None"
      using Cons.prems(1,2) ys by (fastforce simp: map_of_eq_None_iff)+
    then show ?thesis
      using True fst_eq by simp
  next
    case False
    then show ?thesis
      using fun_cong [OF Cons.prems(3), of k] ys fst_eq by (cases x; cases y) auto
  qed
  then have "xs = ys'"
    using Cons.IH [of ys'] Cons.prems(1,2) ys by auto
  then show ?case
    using ys fst_eq val_eq by (simp add: prod_eq_iff)
qed

section \<open>The map type\<close>

typedef (overloaded) ('k::linorder, 'v) btm = "{es :: ('k \<times> 'v) list. ordered_keys es}"
  morphisms bt_entries Abs_btm
  by (rule exI [of _ "[]"]) simp

setup_lifting type_definition_btm

lift_definition bt_empty :: "('k::linorder, 'v) btm" is "[]"
  by simp

lift_definition bt_insert :: "'k::linorder \<Rightarrow> 'v \<Rightarrow> ('k, 'v) btm \<Rightarrow> ('k, 'v) btm" is al_put
  by (rule ordered_al_put)

lift_definition bt_remove :: "'k::linorder \<Rightarrow> ('k, 'v) btm \<Rightarrow> ('k, 'v) btm" is al_drop
  by (simp add: al_drop_def ordered_filter)

definition bt_get :: "('k::linorder, 'v) btm \<Rightarrow> 'k \<Rightarrow> 'v option" where
  "bt_get m k = map_of (bt_entries m) k"

definition bt_keys :: "('k::linorder, 'v) btm \<Rightarrow> 'k list" where
  "bt_keys m = map fst (bt_entries m)"

definition bt_is_empty :: "('k::linorder, 'v) btm \<Rightarrow> bool" where
  "bt_is_empty m = (bt_entries m = [])"

text \<open>\<open>entry(k).or_default()\<close> followed by an in-place update.\<close>

definition bt_update :: "'k::linorder \<Rightarrow> 'v \<Rightarrow> ('v \<Rightarrow> 'v) \<Rightarrow> ('k, 'v) btm \<Rightarrow> ('k, 'v) btm" where
  "bt_update k d f m = bt_insert k (f (case bt_get m k of None \<Rightarrow> d | Some v \<Rightarrow> v)) m"

text \<open>\<open>extend\<close> inserts the entries of the second map in their order.\<close>

definition bt_extend :: "('k::linorder, 'v) btm \<Rightarrow> ('k, 'v) btm \<Rightarrow> ('k, 'v) btm" where
  "bt_extend m n = fold (\<lambda>(k, v). bt_insert k v) (bt_entries n) m"

text \<open>
  \<open>range((Bound::Included(lo), upper))\<close> on byte keys, where an empty \<open>hi\<close> stands for an
  unbounded end throughout the storage interface.
\<close>

definition in_range :: "bytes \<Rightarrow> bytes \<Rightarrow> bytes \<Rightarrow> bool" where
  "in_range lo hi k \<longleftrightarrow> lo \<le> k \<and> (hi = [] \<or> k < hi)"

definition bt_range :: "bytes \<Rightarrow> bytes \<Rightarrow> (bytes, 'v) btm \<Rightarrow> (bytes \<times> 'v) list" where
  "bt_range lo hi m = filter (\<lambda>e. in_range lo hi (fst e)) (bt_entries m)"

section \<open>Laws\<close>

lemma bt_entries_ordered [simp]: "ordered_keys (bt_entries m)"
  using bt_entries [of m] by simp

lemma bt_entries_empty [simp]: "bt_entries bt_empty = []"
  by (rule bt_empty.rep_eq)

lemma bt_entries_insert [simp]: "bt_entries (bt_insert k v m) = al_put k v (bt_entries m)"
  by (rule bt_insert.rep_eq)

lemma bt_entries_remove [simp]: "bt_entries (bt_remove k m) = al_drop k (bt_entries m)"
  by (rule bt_remove.rep_eq)

lemma bt_get_empty [simp]: "bt_get bt_empty k = None"
  by (simp add: bt_get_def)

lemma bt_get_insert [simp]: "bt_get (bt_insert k v m) j = (if j = k then Some v else bt_get m j)"
  by (simp add: bt_get_def map_of_al_put)

lemma bt_get_remove [simp]: "bt_get (bt_remove k m) j = (if j = k then None else bt_get m j)"
  by (simp add: bt_get_def map_of_al_drop)

lemma bt_get_update:
  "bt_get (bt_update k d f m) j =
     (if j = k then Some (f (case bt_get m k of None \<Rightarrow> d | Some v \<Rightarrow> v)) else bt_get m j)"
  by (simp add: bt_update_def)

lemma bt_eqI: "(\<And>k. bt_get m k = bt_get n k) \<Longrightarrow> m = n"
  by (metis bt_entries_inject bt_entries_ordered bt_get_def ext ordered_map_of_inject)

lemma bt_eq_iff: "m = n \<longleftrightarrow> (\<forall>k. bt_get m k = bt_get n k)"
  using bt_eqI by auto

lemma bt_entries_distinct [simp]: "distinct (map fst (bt_entries m))"
  by (rule ordered_distinct) simp

lemma bt_entries_iff: "(k, v) \<in> set (bt_entries m) \<longleftrightarrow> bt_get m k = Some v"
  by (simp add: bt_get_def)

lemma bt_keys_distinct [simp]: "distinct (bt_keys m)"
  by (simp add: bt_keys_def)

lemma bt_keys_iff: "k \<in> set (bt_keys m) \<longleftrightarrow> bt_get m k \<noteq> None"
  by (force simp: bt_keys_def bt_get_def map_of_eq_None_iff image_iff)

lemma bt_is_empty_iff: "bt_is_empty m \<longleftrightarrow> (\<forall>k. bt_get m k = None)"
proof -
  have "bt_entries m = [] \<longleftrightarrow> map_of (bt_entries m) = Map.empty"
    by simp
  then show ?thesis
    by (simp add: bt_is_empty_def bt_get_def fun_eq_iff)
qed

lemma bt_is_empty_insert [simp]: "\<not> bt_is_empty (bt_insert k v m)"
  by (auto simp: bt_is_empty_iff split: if_splits)

lemma bt_is_empty_empty [simp]: "bt_is_empty bt_empty"
  by (simp add: bt_is_empty_iff)

lemma bt_insert_commute: "j \<noteq> k \<Longrightarrow> bt_insert j v (bt_insert k w m) = bt_insert k w (bt_insert j v m)"
  by (rule bt_eqI) auto

lemma bt_insert_idem [simp]: "bt_insert k v (bt_insert k w m) = bt_insert k v m"
  by (rule bt_eqI) auto

lemma bt_get_fold_insert:
  "distinct (map fst es) \<Longrightarrow>
     bt_get (fold (\<lambda>(k, v). bt_insert k v) es m) j =
       (case map_of es j of None \<Rightarrow> bt_get m j | Some v \<Rightarrow> Some v)"
proof (induction es arbitrary: m)
  case (Cons e es)
  have "map_of es (fst e) = None"
    using Cons.prems by (simp add: map_of_eq_None_iff)
  with Cons show ?case
    by (cases e) (auto split: option.split)
qed simp

lemma bt_get_extend [simp]:
  "bt_get (bt_extend m n) j = (case bt_get n j of None \<Rightarrow> bt_get m j | Some v \<Rightarrow> Some v)"
  by (simp add: bt_extend_def bt_get_fold_insert bt_get_def [of n])

lemma bt_range_iff: "(k, v) \<in> set (bt_range lo hi m) \<longleftrightarrow> in_range lo hi k \<and> bt_get m k = Some v"
  by (auto simp: bt_range_def bt_entries_iff)

lemma bt_range_ordered [simp]: "ordered_keys (bt_range lo hi m)"
  by (simp add: bt_range_def ordered_filter)

lemma bt_range_all [simp]: "bt_range [] [] m = bt_entries m"
  by (simp add: bt_range_def in_range_def)

section \<open>The contract of an ordered map\<close>

locale ordered_map =
  fixes emp :: "'m"
    and ins :: "'k::linorder \<Rightarrow> 'v \<Rightarrow> 'm \<Rightarrow> 'm"
    and del :: "'k \<Rightarrow> 'm \<Rightarrow> 'm"
    and look :: "'m \<Rightarrow> 'k \<Rightarrow> 'v option"
    and items :: "'m \<Rightarrow> ('k \<times> 'v) list"
  assumes look_emp: "look emp k = None"
    and look_ins: "look (ins k v m) j = (if j = k then Some v else look m j)"
    and look_del: "look (del k m) j = (if j = k then None else look m j)"
    and items_ordered: "ordered_keys (items m)"
    and items_look: "map_of (items m) = look m"
begin

text \<open>
  Two maps with the same lookups list the same items in the same order, whatever sequence of
  updates built them: iteration order carries no history.
\<close>

lemma items_determined: "look m = look n \<Longrightarrow> items m = items n"
  by (rule ordered_map_of_inject) (simp_all add: items_ordered items_look)

lemma items_ins: "items (ins k v m) = al_put k v (items m)"
proof (rule ordered_map_of_inject)
  show "map_of (items (ins k v m)) = map_of (al_put k v (items m))"
    by (auto simp: items_look map_of_al_put items_ordered look_ins fun_eq_iff)
qed (simp_all add: items_ordered ordered_al_put)

lemma items_emp: "items emp = []"
proof (rule ordered_map_of_inject)
  show "map_of (items emp) = map_of []"
    by (auto simp: items_look look_emp fun_eq_iff)
qed (simp_all add: items_ordered)

end

interpretation bt: ordered_map bt_empty bt_insert bt_remove bt_get bt_entries
  by unfold_locales (auto simp: bt_get_def fun_eq_iff map_of_al_put map_of_al_drop)

end
