(* ===== verification/KeyEnc.thy ===== *)
theory KeyEnc
  imports BTreeMap
begin

unbundle bit_operations_syntax

text \<open>
  The order-preserving key encodings of \<open>src/keyenc.rs\<close>: prefix successors and prefix
  ranges, length-prefixed byte fields, and the ordered encodings of \<open>i64\<close>, \<open>f64\<close> and
  byte strings. An \<open>f64\<close> is its IEEE-754 bit pattern. \<open>usize\<close> is 64 bits wide, so
  \<open>usize::try_from(u64)\<close> never fails.
\<close>

section \<open>Prefix successors and ranges\<close>

function successor :: "bytes \<Rightarrow> bytes option" where
  "successor out =
     (if out = [] then None
      else if last out < 0xFF then Some (butlast out @ [last out + 1])
      else successor (butlast out))"
  by pat_completeness auto
termination
  by (relation "measure length") simp_all

declare successor.simps [simp del]

definition range_end :: "bytes \<Rightarrow> bytes" where
  "range_end p = (case successor p of None \<Rightarrow> [] | Some s \<Rightarrow> s)"

definition u32_prefix_range :: "u32 \<Rightarrow> bytes \<times> bytes" where
  "u32_prefix_range value = (let start = u32_to_be value; end = range_end start in (start, end))"

lemma successor_Nil [simp, key_simps]: "successor [] = None"
  by (simp add: successor.simps)

lemma successor_snoc [simp, key_simps]:
  "successor (p @ [b]) = (if b < 0xFF then Some (p @ [b + 1]) else successor p)"
  by (subst successor.simps) simp

lemma u8_less_max_iff: "(b :: u8) < 0xFF \<longleftrightarrow> b \<noteq> 0xFF"
proof -
  have "b \<le> 0xFF"
    using unat_u8_less [of b] by (simp add: word_le_nat_alt)
  then show ?thesis
    by (simp add: order.strict_iff_order)
qed

lemma u8_less_Suc_iff: "(b :: u8) < 0xFF \<Longrightarrow> c < b + 1 \<longleftrightarrow> c \<le> b"
proof -
  assume "b < 0xFF"
  then have "unat b < 255"
    by (simp add: word_less_nat_alt)
  then have "unat (b + 1) = unat b + 1"
    by (simp add: unat_word_ariths)
  then show ?thesis
    by (simp add: word_less_nat_alt word_le_nat_alt less_Suc_eq_le)
qed

lemma range_snoc_iff:
  "b < 0xFF \<Longrightarrow> p @ [b] \<le> k \<and> k < p @ [b + 1] \<longleftrightarrow> prefix (p @ [b]) (k :: bytes)"
proof (induction p arbitrary: k)
  case Nil
  show ?case
  proof (cases k)
    case (Cons c cs)
    then show ?thesis
      using u8_less_Suc_iff [OF Nil, of c] by (simp, metis order.asym order.order_iff_strict)
  qed simp
next
  case (Cons a p)
  then show ?case
    by (cases k) (simp_all, metis order.asym)
qed

lemma max_byte_range:
  "prefix q k \<and> q @ [0xFF] \<le> k \<longleftrightarrow> prefix (q @ [0xFF]) (k :: bytes)"
proof
  assume asm: "prefix q k \<and> q @ [0xFF] \<le> k"
  then obtain r where k: "k = q @ r"
    by (auto simp: prefix_def)
  with asm have "[0xFF] \<le> r"
    by (simp add: lex_append_same_le)
  then obtain c r' where "r = c # r'" "0xFF \<le> c"
    by (cases r) auto
  then show "prefix (q @ [0xFF]) k"
    using k u8_less_max_iff [of c] by (auto simp: not_less [symmetric])
next
  assume "prefix (q @ [0xFF]) k"
  then show "prefix q k \<and> q @ [0xFF] \<le> k"
    using append_prefixD prefix_le by blast
qed

lemma successor_not_Nil: "successor p \<noteq> Some []"
  by (induction p rule: rev_induct) simp_all

lemma range_end_exact: "in_range p (range_end p) k \<longleftrightarrow> prefix p k"
proof (induction p rule: rev_induct)
  case Nil
  then show ?case
    by (simp add: in_range_def range_end_def)
next
  case (snoc b q)
  show ?case
  proof (cases "b < 0xFF")
    case True
    then show ?thesis
      using range_snoc_iff [OF True] by (simp add: in_range_def range_end_def)
  next
    case False
    then have b: "b = 0xFF"
      by (simp add: u8_less_max_iff)
    have upper: "range_end (q @ [b]) = range_end q"
      using False by (simp add: range_end_def)
    have "q @ [b] \<le> k \<Longrightarrow> q \<le> k"
      by (rule order_trans [OF prefix_le]) simp_all
    then have "in_range (q @ [b]) (range_end (q @ [b])) k \<longleftrightarrow>
        in_range q (range_end q) k \<and> q @ [b] \<le> k"
      unfolding upper in_range_def by blast
    also have "\<dots> \<longleftrightarrow> prefix (q @ [b]) k"
      unfolding b snoc by (rule max_byte_range)
    finally show ?thesis .
  qed
qed

lemma successor_None_iff: "successor p = None \<longleftrightarrow> (\<forall>b \<in> set p. b = 0xFF)"
  by (induction p rule: rev_induct) (auto simp: u8_less_max_iff)

text \<open>
  C35. The successor of a prefix is the least byte string above every key that carries the
  prefix, and there is none exactly when the prefix consists of \<open>0xFF\<close> bytes only.
\<close>

theorem successor_least_upper_bound:
  "case successor p of
     None \<Rightarrow> (\<forall>b. b \<in> set p \<longrightarrow> b = 0xFF) \<and> (\<forall>u. \<exists>k. prefix p k \<and> \<not> k < u)
   | Some s \<Rightarrow> (\<forall>k. prefix p k \<longrightarrow> k < s) \<and> (\<forall>u. (\<forall>k. prefix p k \<longrightarrow> k < u) \<longrightarrow> s \<le> u)"
proof (cases "successor p")
  case None
  have "prefix p k" if "p \<le> k" for k
    using that range_end_exact [of p k] None by (simp add: in_range_def range_end_def)
  then have "\<exists>k. prefix p k \<and> \<not> k < u" for u
    by (metis linear not_less prefix_order.refl)
  with None show ?thesis
    using successor_None_iff [of p] by simp
next
  case (Some s)
  then have range: "in_range p s k \<longleftrightarrow> prefix p k" for k
    using range_end_exact [of p k] by (simp add: range_end_def)
  have ne: "s \<noteq> []"
    using Some successor_not_Nil by auto
  have "k < s" if "prefix p k" for k
    using that range [of k] ne by (simp add: in_range_def)
  moreover have "s \<le> u" if all: "\<forall>k. prefix p k \<longrightarrow> k < u" for u
  proof (rule ccontr)
    assume "\<not> s \<le> u"
    moreover have "p < u"
      using all by simp
    ultimately have "in_range p s u"
      by (simp add: in_range_def not_le)
    then show False
      using range all by auto
  qed
  ultimately show ?thesis
    using Some by simp
qed

theorem successor_least_upper_bound_witness:
  "successor [1, 0xFF] = Some [2] \<and> [1, 0xFF, 7] < ([2] :: bytes)"
proof -
  have s: "successor [1, 0xFF] = Some [2]"
    using successor_snoc [of "[1]" "0xFF"] successor_snoc [of "[]" 1] by simp
  moreover have "prefix [1, 0xFF] ([1, 0xFF, 7] :: bytes)"
    by simp
  ultimately show ?thesis
    using successor_least_upper_bound [of "[1, 0xFF]"] by auto
qed

text \<open>
  C34. The half-open range from a prefix to its \<open>range_end\<close>, an empty end being unbounded,
  holds exactly the keys with that prefix.
\<close>

theorem prefix_range_exact: "in_range p (range_end p) k \<longleftrightarrow> prefix p k"
  by (rule range_end_exact)

section \<open>Length-prefixed fields\<close>

definition push_len_bytes :: "bytes \<Rightarrow> bytes \<Rightarrow> bytes" where
  "push_len_bytes out bs = (out @ u64_to_be (u64_of_usize (length bs))) @ bs"

text \<open>
  The cursor is a \<open>&mut usize\<close>: the functions return it with the result, moved as far as
  the code moved it, also when the result is \<open>None\<close>.
\<close>

definition read_len :: "bytes \<Rightarrow> nat \<Rightarrow> nat option \<times> nat" where
  "read_len key cursor =
     (if cursor + 8 > usize_max then (None, cursor)
      else let end = cursor + 8 in
        if end > length key then (None, cursor)
        else let raw = take 8 (drop cursor key) in (Some (unat (u64_from_be raw)), end))"

definition read_len_bytes :: "bytes \<Rightarrow> nat \<Rightarrow> bytes option \<times> nat" where
  "read_len_bytes key cursor =
     (case read_len key cursor of
        (None, c) \<Rightarrow> (None, c)
      | (Some len, c) \<Rightarrow>
          if c + len > usize_max then (None, c)
          else let end = c + len in
            if end > length key then (None, c)
            else (Some (take len (drop c key)), end))"

text \<open>
  C39. A field written by \<open>push_len_bytes\<close> is read back by \<open>read_len_bytes\<close> from the
  position where it starts, whatever precedes and follows it, and the cursor ends behind it. A
  field cut off anywhere, within its length or within its bytes, is rejected.
\<close>

theorem len_bytes_roundtrip:
  assumes "length out + 8 + length bs + length rest \<le> usize_max"
  shows "read_len_bytes (push_len_bytes out bs @ rest) (length out) =
           (Some bs, length (push_len_bytes out bs)) \<and>
         (\<forall>m < length (push_len_bytes out bs). fst (read_len_bytes (take m (push_len_bytes out bs)) (length out)) = None)"
proof (intro conjI allI impI)
  have small: "length bs < 2 ^ 64"
    using assms by (simp add: usize_max_def)
  then have len: "unat (u64_of_usize (length bs)) = length bs"
    by (simp add: u64_of_usize_def unat_of_nat)
  have header: "read_len key (length out) = (Some (length bs), length out + 8)"
    if "take 8 (drop (length out) key) = u64_to_be (u64_of_usize (length bs))" "length out + 8 \<le> length key" for key
    using assms len that by (simp add: read_len_def)
  show "read_len_bytes (push_len_bytes out bs @ rest) (length out) = (Some bs, length (push_len_bytes out bs))"
    using assms header [of "push_len_bytes out bs @ rest"] by (simp add: read_len_bytes_def push_len_bytes_def)
  fix m
  assume m: "m < length (push_len_bytes out bs)"
  show "fst (read_len_bytes (take m (push_len_bytes out bs)) (length out)) = None"
  proof (cases "length out + 8 \<le> m")
    case True
    then have "take 8 (drop (length out) (take m (push_len_bytes out bs))) = u64_to_be (u64_of_usize (length bs))"
      by (simp add: push_len_bytes_def drop_take min_def)
    then show ?thesis
      using header [of "take m (push_len_bytes out bs)"] True m by (simp add: read_len_bytes_def push_len_bytes_def)
  next
    case False
    then show ?thesis
      using m by (simp add: read_len_bytes_def read_len_def)
  qed
qed

theorem len_bytes_roundtrip_witness:
  "read_len_bytes (push_len_bytes [9] [0xAA, 0xFF, 0] @ [5]) 1 =
     (Some [0xAA, 0xFF, 0], length (push_len_bytes [9] [0xAA, 0xFF, 0])) \<and>
   fst (read_len_bytes (take 11 (push_len_bytes [9] [0xAA, 0xFF, 0])) 1) = None"
proof -
  have "11 < length (push_len_bytes [9] [0xAA, 0xFF, 0])"
    by (simp add: push_len_bytes_def)
  then show ?thesis
    using len_bytes_roundtrip [of "[9]" "[0xAA, 0xFF, 0]" "[5]"] by (simp add: usize_max_def)
qed

section \<open>Ordered integers\<close>

definition encode_i64_ordered :: "u64 \<Rightarrow> bytes" where
  "encode_i64_ordered value =
     (let bits = u64_from_be (u64_to_be value) in u64_to_be (bits XOR push_bit 63 1))"

lemma u64_top_bit: "unat (push_bit 63 1 :: u64) = 2 ^ 63"
  by simp

lemma bit_top_iff: "bit (w :: u64) 63 \<longleftrightarrow> 2 ^ 63 \<le> unat w"
proof -
  have "unat w < 2 ^ 63 * 2"
    using unat_u64_less [of w] by simp
  then have "unat w div 2 ^ 63 < 2"
    by (rule less_mult_imp_div_less [of _ 2, simplified mult.commute])
  moreover have "bit w 63 \<longleftrightarrow> odd (unat w div 2 ^ 63)"
    by (metis bit_iff_odd bit_unsigned_iff possible_bit_nat)
  moreover have "unat w div 2 ^ 63 = 0 \<longleftrightarrow> unat w < 2 ^ 63"
    by (simp add: div_eq_0_iff)
  ultimately show ?thesis
    by (cases "unat w div 2 ^ 63 = 0") (simp_all add: not_less less_2_cases_iff)
qed

lemma bit_u64_top: "bit (push_bit 63 1 :: u64) n \<longleftrightarrow> n = 63"
  by (simp only: bit_push_bit_iff bit_1_iff) (auto simp: possible_bit_word)

lemma xor_top_bit_clear:
  assumes "\<not> bit (w :: u64) 63"
  shows "unat (w XOR push_bit 63 1) = unat w + 2 ^ 63"
proof -
  have "w + push_bit 63 1 = w XOR push_bit 63 1"
  proof (rule disjunctive_add_eq_xor, rule bit_eqI)
    fix n
    show "bit (w AND push_bit 63 1) n = bit 0 n"
      using assms by (simp only: bit_and_iff bit_u64_top bit_0_eq) auto
  qed
  moreover have "unat w + 2 ^ 63 < 2 ^ 64"
    using assms unfolding bit_top_iff by simp
  ultimately show ?thesis
    using unat_word_ariths(1) [of w "push_bit 63 1"] by (simp add: u64_top_bit)
qed

lemma xor_top_bit_set:
  assumes "bit (w :: u64) 63"
  shows "unat (w XOR push_bit 63 1) = unat w - 2 ^ 63"
proof -
  have "\<not> bit (w XOR push_bit 63 1) 63"
    using assms by (simp only: bit_xor_iff bit_u64_top) simp
  from xor_top_bit_clear [OF this] show ?thesis
    by (simp add: xor.assoc)
qed
lemma unat_xor_top_bit:
  "unat (w XOR push_bit 63 1 :: u64) =
     (if unat w < 2 ^ 63 then unat w + 2 ^ 63 else unat w - 2 ^ 63)"
  using xor_top_bit_clear [of w] xor_top_bit_set [of w] by (simp add: bit_top_iff not_less)

lemma signed_shift_64:
  assumes "n < 2 ^ 64"
  shows "(int n + 2 ^ 63) mod 2 ^ 64 - 2 ^ 63 = (if n < 2 ^ 63 then int n else int n - 2 ^ 64)"
proof (cases "n < 2 ^ 63")
  case True
  then have "(int n + 2 ^ 63) mod 2 ^ 64 = int n + 2 ^ 63"
    by simp
  with True show ?thesis
    by simp
next
  case False
  then have "(int n - 2 ^ 63 + 2 ^ 64) mod 2 ^ 64 = int n - 2 ^ 63"
    using assms by (simp only: mod_add_self2) simp
  moreover have "int n - 2 ^ 63 + 2 ^ 64 = int n + 2 ^ 63"
    by simp
  ultimately have "(int n + 2 ^ 63) mod 2 ^ 64 = int n - 2 ^ 63"
    by (simp only:)
  then show ?thesis
    using False by (simp only: if_False) simp
qed

lemma sint_u64:
  "sint (w :: u64) = (if unat w < 2 ^ 63 then int (unat w) else int (unat w) - 2 ^ 64)"
proof -
  have "sint w = (uint w + 2 ^ 63) mod 2 ^ 64 - 2 ^ 63"
    by (simp add: sint_uint signed_take_bit_eq_take_bit_shift take_bit_eq_mod)
  also have "uint w = int (unat w)"
    by simp
  finally show ?thesis
    using signed_shift_64 [of "unat w"] unat_u64_less [of w] by (simp only:) simp
qed

lemma signed_flip_less:
  fixes m n :: nat
  assumes "m < 2 ^ 64" and "n < 2 ^ 64"
  shows "((if m < 2 ^ 63 then m + 2 ^ 63 else m - 2 ^ 63) <
          (if n < 2 ^ 63 then n + 2 ^ 63 else n - 2 ^ 63)) =
         ((if m < 2 ^ 63 then int m else int m - 2 ^ 64) <
          (if n < 2 ^ 63 then int n else int n - 2 ^ 64))"
  using assms by auto

text \<open>
  C40. Keys of signed 64-bit integers compare as byte strings exactly as the integers do; in
  particular the encoding is injective.
\<close>

theorem encode_i64_ordered_mono:
  "(encode_i64_ordered a < encode_i64_ordered b) = (sint a < sint b) \<and>
   (encode_i64_ordered a = encode_i64_ordered b) = (a = b)"
proof
  show "(encode_i64_ordered a < encode_i64_ordered b) = (sint a < sint b)"
    unfolding encode_i64_ordered_def Let_def u64_from_to_be u64_to_be_less_iff word_less_nat_alt
      unat_xor_top_bit sint_u64
    by (rule signed_flip_less) (use unat_u64_less in simp_all)
  have "a = b" if "a XOR c = b XOR c" for c
    using arg_cong [OF that, of "\<lambda>w. w XOR c"] by (simp add: xor.assoc)
  then show "(encode_i64_ordered a = encode_i64_ordered b) = (a = b)"
    by (auto simp: encode_i64_ordered_def)
qed

section \<open>Ordered floating-point numbers\<close>

text \<open>
  \<open>f64_is_zero\<close> is the IEEE comparison \<open>value == 0.0\<close>, which both zeros satisfy.
\<close>

definition f64_is_zero :: "u64 \<Rightarrow> bool" where
  "f64_is_zero bits \<longleftrightarrow> bits = 0 \<or> bits = push_bit 63 1"

definition normalize_f64 :: "u64 \<Rightarrow> u64" where
  "normalize_f64 value = (if f64_is_zero value then 0 else value)"

definition encode_f64_ordered :: "u64 \<Rightarrow> bytes" where
  "encode_f64_ordered value =
     (let bits = normalize_f64 value;
          ordered = (if drop_bit 63 bits = 1 then NOT bits else bits XOR push_bit 63 1)
      in u64_to_be ordered)"

text \<open>
  The number a bit pattern denotes, scaled by \<open>2 ^ 1074\<close> so that it is an integer: a
  subnormal is its fraction, a normal number has the hidden bit. The infinities, whose
  exponent is 2047, come out above and below every finite number.
\<close>

definition f64_exponent :: "u64 \<Rightarrow> nat" where
  "f64_exponent bits = (unat bits mod 2 ^ 63) div 2 ^ 52"

definition f64_fraction :: "u64 \<Rightarrow> nat" where
  "f64_fraction bits = unat bits mod 2 ^ 52"

definition f64_is_nan :: "u64 \<Rightarrow> bool" where
  "f64_is_nan bits \<longleftrightarrow> f64_exponent bits = 2047 \<and> f64_fraction bits \<noteq> 0"

definition f64_scale :: "nat \<Rightarrow> nat \<Rightarrow> nat" where
  "f64_scale e f = (if e = 0 then f else (2 ^ 52 + f) * 2 ^ (e - 1))"

definition f64_value :: "u64 \<Rightarrow> int" where
  "f64_value bits =
     (if unat bits < 2 ^ 63 then int (f64_scale (f64_exponent bits) (f64_fraction bits))
      else - int (f64_scale (f64_exponent bits) (f64_fraction bits)))"

definition f64_magnitude :: "nat \<Rightarrow> nat" where
  "f64_magnitude n = f64_scale (n div 2 ^ 52) (n mod 2 ^ 52)"

lemma f64_scale_less_exponent:
  assumes "e < e'" and "f < 2 ^ 52"
  shows "f64_scale e f < f64_scale e' f'"
proof -
  obtain d where e': "e' = Suc d" "e \<le> d"
    using assms(1) by (cases e') auto
  have "f64_scale e f < 2 ^ 52 * 2 ^ e"
  proof (cases e)
    case (Suc c)
    have "(2 ^ 52 + f) * 2 ^ c < (2 ^ 52 * 2) * 2 ^ c"
      using assms(2) by (intro mult_strict_right_mono) simp_all
    then show ?thesis
      using Suc by (simp add: f64_scale_def mult.assoc)
  qed (use assms(2) in \<open>simp add: f64_scale_def\<close>)
  also have "\<dots> \<le> 2 ^ 52 * 2 ^ d"
    using e' by simp
  also have "\<dots> \<le> f64_scale e' f'"
    using e' by (simp add: f64_scale_def)
  finally show ?thesis .
qed

lemma f64_magnitude_mono: "m < n \<Longrightarrow> f64_magnitude m < f64_magnitude n"
proof -
  assume less: "m < n"
  show ?thesis
  proof (cases "m div 2 ^ 52 = n div 2 ^ 52")
    case True
    then have "m mod 2 ^ 52 < n mod 2 ^ 52"
      using less by (metis div_mult_mod_eq nat_add_left_cancel_less)
    then show ?thesis
      using True less by (simp add: f64_magnitude_def f64_scale_def)
  next
    case False
    then have "m div 2 ^ 52 < n div 2 ^ 52"
      using less div_le_mono [of m n "2 ^ 52"] by simp
    then show ?thesis
      unfolding f64_magnitude_def by (rule f64_scale_less_exponent) simp
  qed
qed

lemma f64_magnitude_less_iff [simp]: "f64_magnitude m < f64_magnitude n \<longleftrightarrow> m < n"
  using f64_magnitude_mono [of m n] f64_magnitude_mono [of n m] by (cases m n rule: linorder_cases) auto

lemma f64_magnitude_0 [simp]: "f64_magnitude 0 = 0"
  by (simp add: f64_magnitude_def f64_scale_def)

lemma f64_value_magnitude:
  "f64_value bits =
     (if unat bits < 2 ^ 63 then int (f64_magnitude (unat bits))
      else - int (f64_magnitude (unat bits - 2 ^ 63)))"
proof -
  have "unat bits mod 2 ^ 63 = (if unat bits < 2 ^ 63 then unat bits else unat bits - 2 ^ 63)"
    using unat_u64_less [of bits] by (simp add: mod_if)
  moreover have "unat bits mod 2 ^ 52 = unat bits mod 2 ^ 63 mod 2 ^ 52"
    by (simp add: mod_mod_cancel)
  then have "f64_scale (f64_exponent bits) (f64_fraction bits) = f64_magnitude (unat bits mod 2 ^ 63)"
    by (simp only: f64_exponent_def f64_fraction_def f64_magnitude_def)
  ultimately show ?thesis
    by (simp only: f64_value_def if_True if_False cong: if_cong)
qed

lemma unat_not_u64: "unat (NOT w :: u64) = 2 ^ 64 - 1 - unat w"
proof -
  have "NOT w = - 1 - w"
    by (simp add: not_eq_complement)
  then have "unat (NOT w) = unat (- 1 :: u64) - unat w"
    by (simp only: unat_sub word_n1_ge)
  then show ?thesis
    by (simp add: unsigned_minus_1_eq_mask mask_eq_exp_minus_1)
qed

definition f64_rank :: "nat \<Rightarrow> nat" where
  "f64_rank n = (if n < 2 ^ 63 then n + 2 ^ 63 else 2 ^ 64 - 1 - n)"

lemma encode_f64_rank:
  "encode_f64_ordered bits =
     u64_to_be (if drop_bit 63 (normalize_f64 bits) = 1 then NOT (normalize_f64 bits)
                else normalize_f64 bits XOR push_bit 63 1)"
  "unat (if drop_bit 63 w = 1 then NOT w else w XOR push_bit 63 1 :: u64) = f64_rank (unat w)"
proof -
  show "encode_f64_ordered bits =
     u64_to_be (if drop_bit 63 (normalize_f64 bits) = 1 then NOT (normalize_f64 bits)
                else normalize_f64 bits XOR push_bit 63 1)"
    by (simp only: encode_f64_ordered_def Let_def)
  have "unat (drop_bit 63 w) = unat w div 2 ^ 63"
    by (simp only: drop_bit_eq_div unat_div) simp
  then have "drop_bit 63 w = 1 \<longleftrightarrow> unat w div 2 ^ 63 = 1"
    by (metis unat_1 word_unat_eq_iff)
  moreover have "unat w div 2 ^ 63 = 1 \<longleftrightarrow> 2 ^ 63 \<le> unat w"
    using unat_u64_less [of w] by (auto simp: div_nat_eqI)
  ultimately show "unat (if drop_bit 63 w = 1 then NOT w else w XOR push_bit 63 1 :: u64) =
      f64_rank (unat w)"
    by (simp only: unat_not_u64 unat_xor_top_bit f64_rank_def not_less [symmetric]
        if_distrib [of unat] cong: if_cong) (simp only: if_not_P if_P split: if_split, blast)
qed

lemma f64_rank_less_iff:
  assumes "unat a \<noteq> 2 ^ 63" and "unat b \<noteq> 2 ^ 63"
  shows "f64_rank (unat a) < f64_rank (unat b) \<longleftrightarrow> f64_value a < f64_value b"
proof -
  have pos: "0 < f64_magnitude k" if "0 < k" for k
    using f64_magnitude_less_iff [of 0 k] that by simp
  show ?thesis
    using assms unat_u64_less [of a] unat_u64_less [of b]
      pos [of "unat a - 2 ^ 63"] pos [of "unat b - 2 ^ 63"]
    by (auto simp: f64_rank_def f64_value_magnitude)
qed

lemma f64_value_normalize: "f64_value (normalize_f64 bits) = f64_value bits"
  by (simp add: normalize_f64_def f64_is_zero_def f64_value_magnitude)

lemma normalize_f64_not_negative_zero: "unat (normalize_f64 bits) \<noteq> 2 ^ 63"
proof -
  have "bits = push_bit 63 1" if "unat bits = 2 ^ 63"
    using that by (intro word_unat_eq_iff [THEN iffD2]) simp
  then show ?thesis
    by (auto simp: normalize_f64_def f64_is_zero_def)
qed

lemma encode_f64_ordered_less_iff:
  "encode_f64_ordered a < encode_f64_ordered b \<longleftrightarrow> f64_value a < f64_value b"
  unfolding encode_f64_rank(1) u64_to_be_less_iff word_less_nat_alt encode_f64_rank(2)
    f64_rank_less_iff [OF normalize_f64_not_negative_zero normalize_f64_not_negative_zero]
    f64_value_normalize ..

text \<open>
  C32. Keys of floating-point numbers compare as the numbers do: for bit patterns that are not
  NaN the byte order is the IEEE order, and two keys coincide exactly when the numbers are
  equal, the two zeros included.
\<close>

theorem encode_f64_ordered_mono:
  assumes "\<not> f64_is_nan a" and "\<not> f64_is_nan b"
  shows "(encode_f64_ordered a < encode_f64_ordered b) = (f64_value a < f64_value b) \<and>
         (encode_f64_ordered a = encode_f64_ordered b) = (f64_value a = f64_value b)"
  using encode_f64_ordered_less_iff [of a b] encode_f64_ordered_less_iff [of b a]
  by (metis linorder_less_linear order.irrefl)

theorem encode_f64_ordered_mono_witness:
  "encode_f64_ordered 0xBFF0000000000000 < encode_f64_ordered 0x3FF0000000000000 \<and>
   f64_value 0xBFF0000000000000 < f64_value 0x3FF0000000000000"
proof -
  have "\<not> f64_is_nan 0xBFF0000000000000" "\<not> f64_is_nan 0x3FF0000000000000"
    by (simp_all add: f64_is_nan_def f64_exponent_def)
  moreover have "f64_value 0xBFF0000000000000 < f64_value 0x3FF0000000000000"
    by (simp add: f64_value_def f64_scale_def f64_exponent_def f64_fraction_def)
  ultimately show ?thesis
    using encode_f64_ordered_mono [of "0xBFF0000000000000" "0x3FF0000000000000"] by blast
qed

section \<open>Terminated byte strings\<close>

fun escape_bytes :: "bytes \<Rightarrow> bytes \<Rightarrow> bytes" where
  "escape_bytes [] out = out"
| "escape_bytes (byte # value) out =
     escape_bytes value (if byte = 0 then out @ [0, 0xFF] else out @ [byte])"

definition encode_terminated_bytes :: "bytes \<Rightarrow> bytes \<Rightarrow> bytes" where
  "encode_terminated_bytes value out = escape_bytes value out @ [0, 0]"

fun terminated :: "bytes \<Rightarrow> bytes" where
  "terminated [] = [0, 0]"
| "terminated (b # bs) = (if b = 0 then [0, 0xFF] else [b]) @ terminated bs"

lemma encode_terminated_bytes_eq: "encode_terminated_bytes bs out = out @ terminated bs"
  unfolding encode_terminated_bytes_def by (induction bs out rule: escape_bytes.induct) simp_all

lemma u8_gt_0 [simp]: "0 < b \<longleftrightarrow> b \<noteq> (0 :: u8)"
  by (simp add: word_gt_0)

lemma terminated_less_iff:
  "terminated a @ x < terminated b @ y \<longleftrightarrow> a < b \<or> (a = b \<and> x < (y :: bytes))"
proof (induction a arbitrary: b)
  case Nil
  show ?case
    by (cases b) simp_all
next
  case (Cons c cs)
  show ?case
    by (cases b) (use Cons in \<open>auto simp: word_gt_0\<close>)
qed

text \<open>
  C33. Appending the terminated form of a byte string to equal prefixes keeps the order of the
  byte strings, whatever is appended behind it: composite keys sort field by field.
\<close>

theorem terminated_bytes_order:
  "encode_terminated_bytes a out @ x < encode_terminated_bytes b out @ y \<longleftrightarrow>
     a < b \<or> (a = b \<and> x < y)"
  by (simp add: encode_terminated_bytes_eq lex_append_same terminated_less_iff)

end
