(* ===== verification/Storage.thy ===== *)
theory Storage
  imports KeyEnc
begin

text \<open>
  The storage interface of \<open>src/storage/traits.rs\<close>. A \<open>ReadTransaction\<close> is a record of its
  two reading functions; a \<open>WriteTransaction\<close> and a \<open>StorageEngine\<close> are dictionaries of
  operations on a transaction type \<open>'t\<close> and a database type \<open>'db\<close>, which is how Rust's
  generic functions receive them. The contract of an engine is the locale
  \<open>storage_engine\<close>: its transactions behave like values of the abstract \<open>store\<close>, a byte map
  per table, on which the reference engine \<open>store_engine\<close> works. The theory also has the
  budgeted visitors, which the trait defines for every reader.
\<close>

section \<open>Interfaces\<close>

text \<open>An item of a range iterator is a result of its own, since it is decoded when it is pulled.\<close>

type_synonym row = "bytes \<times> bytes"
type_synonym range_iter = "row res list"

record reader =
  rd_get :: "string \<Rightarrow> bytes \<Rightarrow> bytes option res"
  rd_range :: "string \<Rightarrow> bytes \<Rightarrow> bytes \<Rightarrow> range_iter res"

record 't writer_ops =
  w_reader :: "'t \<Rightarrow> reader"
  w_put :: "'t \<Rightarrow> string \<Rightarrow> bytes \<Rightarrow> bytes \<Rightarrow> 't res"
  w_delete :: "'t \<Rightarrow> string \<Rightarrow> bytes \<Rightarrow> 't res"

text \<open>A commit returns the database it leaves behind, also when it reports an error.\<close>

record ('db, 't) engine_ops =
  e_writer :: "'t writer_ops"
  e_begin_read :: "'db \<Rightarrow> reader res"
  e_begin_write :: "'db \<Rightarrow> 't res"
  e_commit :: "'db \<Rightarrow> 't \<Rightarrow> 'db \<times> unit res"

abbreviation w_get :: "'t writer_ops \<Rightarrow> 't \<Rightarrow> string \<Rightarrow> bytes \<Rightarrow> bytes option res" where
  "w_get ops t \<equiv> rd_get (w_reader ops t)"

abbreviation w_range :: "'t writer_ops \<Rightarrow> 't \<Rightarrow> string \<Rightarrow> bytes \<Rightarrow> bytes \<Rightarrow> range_iter res" where
  "w_range ops t \<equiv> rd_range (w_reader ops t)"

text \<open>Collecting an iterator with \<open>?\<close> on every item.\<close>

definition try_collect :: "range_iter \<Rightarrow> row list res" where
  "try_collect items = rmap (\<lambda>item. item) items"

definition rd_rows :: "reader \<Rightarrow> string \<Rightarrow> bytes \<Rightarrow> bytes \<Rightarrow> row list res" where
  "rd_rows r table start end = rbind (rd_range r table start end) try_collect"

section \<open>Budgeted visitors\<close>

text \<open>
  A budget is consulted at successive moments, numbered from 0: \<open>bg_check n\<close> is the answer to
  the \<open>n\<close>-th check, \<open>bg_reserve n size\<close> the answer to a reservation made after \<open>n\<close> checks.
  A visitor is a closure with a state of its own. A visit returns the number of checks made,
  the state of the visitor and the result.
\<close>

record budget =
  bg_check :: "nat \<Rightarrow> unit res"
  bg_reserve :: "nat \<Rightarrow> nat \<Rightarrow> unit res"

type_synonym 's visit = "nat \<Rightarrow> 's \<Rightarrow> nat \<times> 's \<times> unit res"

definition check_then :: "budget \<Rightarrow> 's visit \<Rightarrow> 's visit" where
  "check_then bg k n s =
     (case bg_check bg n of Inl e \<Rightarrow> (Suc n, s, Inl e) | Inr _ \<Rightarrow> k (Suc n) s)"

definition check_last :: "budget \<Rightarrow> 's visit" where
  "check_last bg n s = (Suc n, s, bg_check bg n)"

definition visit_get ::
  "reader \<Rightarrow> string \<Rightarrow> bytes \<Rightarrow> budget \<Rightarrow> (bytes option \<Rightarrow> 's \<Rightarrow> 's \<times> bool res) \<Rightarrow> 's visit" where
  "visit_get r table key bg visitor =
     check_then bg (\<lambda>n s.
       case rd_get r table key of
         Inl e \<Rightarrow> (n, s, Inl e)
       | Inr found \<Rightarrow>
           check_then bg (\<lambda>n s.
             case opt_transpose (\<lambda>v. bg_reserve bg n (length v)) found of
               Inl e \<Rightarrow> (n, s, Inl e)
             | Inr _ \<Rightarrow>
                 (case visitor found s of
                    (s, Inl e) \<Rightarrow> (n, s, Inl e)
                  | (s, Inr _) \<Rightarrow> check_last bg n s)) n s)"

text \<open>
  \<open>visit_many\<close> calls the \<open>visit_get\<close> of its reader, which may be the native one; the closure
  it passes keeps \<open>keep_going\<close> beside the state of the visitor.
\<close>

fun visit_many ::
  "(bytes \<Rightarrow> (bytes option \<Rightarrow> 's \<times> bool \<Rightarrow> ('s \<times> bool) \<times> bool res) \<Rightarrow> ('s \<times> bool) visit) \<Rightarrow>
   budget \<Rightarrow> (nat \<Rightarrow> bytes option \<Rightarrow> 's \<Rightarrow> 's \<times> bool res) \<Rightarrow> nat \<Rightarrow> bytes list \<Rightarrow> 's visit" where
  "visit_many getter bg visitor index [] n s = check_last bg n s"
| "visit_many getter bg visitor index (key # keys) n s =
     (case getter key (\<lambda>found (s, keep_going).
             case visitor index found s of
               (s, Inl e) \<Rightarrow> ((s, keep_going), Inl e)
             | (s, Inr go) \<Rightarrow> ((s, go), Inr go)) n (s, True) of
        (n, (s, _), Inl e) \<Rightarrow> (n, s, Inl e)
      | (n, (s, keep_going), Inr _) \<Rightarrow>
          if keep_going then visit_many getter bg visitor (Suc index) keys n s
          else check_last bg n s)"

fun visit_items ::
  "budget \<Rightarrow> (bytes \<Rightarrow> bytes \<Rightarrow> 's \<Rightarrow> 's \<times> bool res) \<Rightarrow> range_iter \<Rightarrow> 's visit" where
  "visit_items bg visitor [] = check_then bg (check_last bg)"
| "visit_items bg visitor (entry # entries) =
     check_then bg (\<lambda>n s.
       case entry of
         Inl e \<Rightarrow> (n, s, Inl e)
       | Inr (key, v) \<Rightarrow>
           (case bg_reserve bg n (usize_saturating_add (length key) (length v)) of
              Inl e \<Rightarrow> (n, s, Inl e)
            | Inr _ \<Rightarrow>
                (case visitor key v s of
                   (s, Inl e) \<Rightarrow> (n, s, Inl e)
                 | (s, Inr go) \<Rightarrow>
                     if go then visit_items bg visitor entries n s else check_last bg n s)))"

definition visit_range ::
  "reader \<Rightarrow> string \<Rightarrow> bytes \<Rightarrow> bytes \<Rightarrow> budget \<Rightarrow>
   (bytes \<Rightarrow> bytes \<Rightarrow> 's \<Rightarrow> 's \<times> bool res) \<Rightarrow> 's visit" where
  "visit_range r table start end bg visitor =
     check_then bg (\<lambda>n s.
       case rd_range r table start end of
         Inl e \<Rightarrow> (n, s, Inl e)
       | Inr entries \<Rightarrow> visit_items bg visitor entries n s)"

definition permissive :: "budget \<Rightarrow> bool" where
  "permissive bg \<longleftrightarrow> (\<forall>n. bg_check bg n = Inr ()) \<and> (\<forall>n amount. bg_reserve bg n amount = Inr ())"

lemma permissive_simps [simp]:
  "permissive bg \<Longrightarrow> check_then bg k n s = k (Suc n) s"
  "permissive bg \<Longrightarrow> check_last bg n s = (Suc n, s, Inr ())"
  "permissive bg \<Longrightarrow> bg_reserve bg n amount = Inr ()"
  "permissive bg \<Longrightarrow> bg_check bg n = Inr ()"
  by (simp_all add: permissive_def check_then_def check_last_def)

section \<open>The abstract store\<close>

type_synonym store = "string \<Rightarrow> (bytes, bytes) btm"

definition store_put :: "string \<Rightarrow> bytes \<Rightarrow> bytes \<Rightarrow> store \<Rightarrow> store" where
  "store_put table key v s = s(table := bt_insert key v (s table))"

definition store_delete :: "string \<Rightarrow> bytes \<Rightarrow> store \<Rightarrow> store" where
  "store_delete table key s = s(table := bt_remove key (s table))"

definition store_reader :: "store \<Rightarrow> reader" where
  "store_reader s =
     \<lparr>rd_get = (\<lambda>table key. Inr (bt_get (s table) key)),
      rd_range = (\<lambda>table start end. Inr (map Inr (bt_range start end (s table))))\<rparr>"

definition store_writer :: "store writer_ops" where
  "store_writer =
     \<lparr>w_reader = store_reader,
      w_put = (\<lambda>s table key v. Inr (store_put table key v s)),
      w_delete = (\<lambda>s table key. Inr (store_delete table key s))\<rparr>"

definition store_engine :: "(store, store) engine_ops" where
  "store_engine =
     \<lparr>e_writer = store_writer,
      e_begin_read = (\<lambda>db. Inr (store_reader db)),
      e_begin_write = Inr,
      e_commit = (\<lambda>db t. (t, Inr ()))\<rparr>"

named_theorems store_simps \<open>evaluation of the reference engine\<close>

lemma try_collect_Inr [simp]: "try_collect (map Inr xs) = Inr xs"
  unfolding try_collect_def by (induction xs) simp_all

lemma store_reader_simps [simp, store_simps]:
  "rd_get (store_reader s) table key = Inr (bt_get (s table) key)"
  "rd_range (store_reader s) table start end = Inr (map Inr (bt_range start end (s table)))"
  "rd_rows (store_reader s) table start end = Inr (bt_range start end (s table))"
  by (simp_all add: store_reader_def rd_rows_def)

lemma store_writer_simps [simp, store_simps]:
  "w_reader store_writer = store_reader"
  "w_put store_writer s table key v = Inr (store_put table key v s)"
  "w_delete store_writer s table key = Inr (store_delete table key s)"
  by (simp_all add: store_writer_def)

lemma store_engine_simps [simp, store_simps]:
  "e_writer store_engine = store_writer"
  "e_begin_read store_engine s = Inr (store_reader s)"
  "e_begin_write store_engine s = Inr s"
  "e_commit store_engine s t = (t, Inr ())"
  by (simp_all add: store_engine_def)

lemma store_put_apply [simp]:
  "store_put table key v s t = (if t = table then bt_insert key v (s table) else s t)"
  by (simp add: store_put_def)

lemma store_delete_apply [simp]:
  "store_delete table key s t = (if t = table then bt_remove key (s table) else s t)"
  by (simp add: store_delete_def)

lemma rfold_map: "rfold f (map g xs) s = rfold (\<lambda>x. f (g x)) xs s"
  by (induction xs arbitrary: s) (auto intro: rbind_cong)

section \<open>Parametricity\<close>

text \<open>
  Operations of the layers above are written against a dictionary. A relation between the
  transactions of two engines that the dictionary operations respect is respected by every
  such operation; the rules below let \<open>transfer_prover\<close> derive that from the definitions.
\<close>

abbreviation rel_res :: "('a \<Rightarrow> 'b \<Rightarrow> bool) \<Rightarrow> 'e + 'a \<Rightarrow> 'e + 'b \<Rightarrow> bool" where
  "rel_res \<equiv> rel_sum (=)"

lemma rbind_transfer [transfer_rule]:
  "(rel_fun (rel_sum E A) (rel_fun (rel_fun A (rel_sum E B)) (rel_sum E B))) rbind rbind"
  unfolding rbind_def by transfer_prover

lemma rfold_transfer [transfer_rule]:
  "(rel_fun (rel_fun A (rel_fun S (rel_sum E S))) (rel_fun (list_all2 A) (rel_fun S (rel_sum E S)))) rfold rfold"
proof (intro rel_funI)
  fix f g s t xs ys
  assume f: "(rel_fun A (rel_fun S (rel_sum E S))) f g"
  assume "list_all2 A xs ys" "S s t"
  then show "rel_sum E S (rfold f xs s) (rfold g ys t)"
  proof (induction arbitrary: s t rule: list_all2_induct)
    case (Cons x xs y ys)
    have "rel_sum E S (f x s) (g y t)"
      by (rule rel_funD [OF rel_funD [OF f Cons.hyps(1)] Cons.prems])
    then show ?case
      using Cons.IH by (cases "f x s"; cases "g y t") auto
  qed simp
qed

definition rel_writer :: "('t \<Rightarrow> 'u \<Rightarrow> bool) \<Rightarrow> 't writer_ops \<Rightarrow> 'u writer_ops \<Rightarrow> bool" where
  "rel_writer R ops ops' \<longleftrightarrow>
     (rel_fun R (=)) (w_reader ops) (w_reader ops') \<and>
     (rel_fun R (rel_fun (=) (rel_fun (=) (rel_fun (=) (rel_res R))))) (w_put ops) (w_put ops') \<and>
     (rel_fun R (rel_fun (=) (rel_fun (=) (rel_res R)))) (w_delete ops) (w_delete ops')"

lemma w_reader_transfer [transfer_rule]:
  "(rel_fun (rel_writer R) (rel_fun R (=))) w_reader w_reader"
  by (rule rel_funI) (simp add: rel_writer_def)

lemma w_put_transfer [transfer_rule]:
  "(rel_fun (rel_writer R) (rel_fun R (rel_fun (=) (rel_fun (=) (rel_fun (=) (rel_res R)))))) w_put w_put"
  by (rule rel_funI) (simp add: rel_writer_def)

lemma w_delete_transfer [transfer_rule]:
  "(rel_fun (rel_writer R) (rel_fun R (rel_fun (=) (rel_fun (=) (rel_res R))))) w_delete w_delete"
  by (rule rel_funI) (simp add: rel_writer_def)

section \<open>The contract of an engine\<close>

locale storage_engine =
  fixes eng :: "('db, 't) engine_ops"
    and db_store :: "'db \<Rightarrow> store"
    and tx_store :: "'t \<Rightarrow> store"
    and tx_of :: "'db \<Rightarrow> 't \<Rightarrow> bool"
    and healthy :: "'db \<Rightarrow> bool"
  assumes begin_read: "healthy db \<Longrightarrow> e_begin_read eng db = Inr (store_reader (db_store db))"
    and begin_write: "healthy db \<Longrightarrow>
      \<exists>t. e_begin_write eng db = Inr t \<and> tx_of db t \<and> tx_store t = db_store db"
    and reader: "tx_of db t \<Longrightarrow> w_reader (e_writer eng) t = store_reader (tx_store t)"
    and put: "tx_of db t \<Longrightarrow>
      \<exists>t'. w_put (e_writer eng) t table key v = Inr t' \<and> tx_of db t' \<and>
           tx_store t' = store_put table key v (tx_store t)"
    and delete: "tx_of db t \<Longrightarrow>
      \<exists>t'. w_delete (e_writer eng) t table key = Inr t' \<and> tx_of db t' \<and>
           tx_store t' = store_delete table key (tx_store t)"
    and commit: "healthy db \<Longrightarrow> tx_of db t \<Longrightarrow>
      \<exists>db'. e_commit eng db t = (db', Inr ()) \<and> healthy db' \<and> db_store db' = tx_store t"
begin

definition tx_rel :: "'db \<Rightarrow> 't \<Rightarrow> store \<Rightarrow> bool" where
  "tx_rel db t s \<longleftrightarrow> tx_of db t \<and> s = tx_store t"

lemma writer_rel: "rel_writer (tx_rel db) (e_writer eng) store_writer"
  unfolding rel_writer_def rel_fun_def tx_rel_def
proof (intro conjI allI impI; elim conjE)
  fix t s assume "tx_of db t" "s = tx_store t"
  then show "w_reader (e_writer eng) t = w_reader store_writer s"
    by (simp add: reader)
next
  fix t s table table' key key' v v'
  assume asm: "tx_of db t" "s = tx_store t" "table = (table' :: string)" "key = (key' :: bytes)"
    "v = (v' :: bytes)"
  then show "rel_res (\<lambda>t s. tx_of db t \<and> s = tx_store t) (w_put (e_writer eng) t table key v)
      (w_put store_writer s table' key' v')"
    using put [OF asm(1), of table key v] by auto
next
  fix t s table table' key key'
  assume asm: "tx_of db t" "s = tx_store t" "table = (table' :: string)" "key = (key' :: bytes)"
  then show "rel_res (\<lambda>t s. tx_of db t \<and> s = tx_store t) (w_delete (e_writer eng) t table key)
      (w_delete store_writer s table' key')"
    using delete [OF asm(1), of table key] by auto
qed

text \<open>
  An update is an operation on an open write transaction that is committed when it succeeds,
  as every writer of the layers above does it. Its effect on the database is the one it has
  on the abstract store.
\<close>

lemma update_committed:
  assumes "healthy db"
    and rel: "\<And>t. tx_rel db t (db_store db) \<Longrightarrow>
      rel_res (rel_prod (tx_rel db) (=)) (f t) (g (db_store db))"
    and g: "g (db_store db) = Inr (s', x)"
  shows "\<exists>t t' db'. e_begin_write eng db = Inr t \<and> f t = Inr (t', x) \<and>
      e_commit eng db t' = (db', Inr ()) \<and> healthy db' \<and> db_store db' = s'"
proof -
  obtain t where t: "e_begin_write eng db = Inr t" "tx_rel db t (db_store db)"
    using begin_write [OF assms(1)] by (auto simp: tx_rel_def)
  obtain t' where t': "f t = Inr (t', x)" "tx_rel db t' s'"
    using rel [OF t(2)] unfolding g by (cases "f t") auto
  then show ?thesis
    using t(1) commit [OF assms(1), of t'] by (auto simp: tx_rel_def)
qed

lemma update_refused:
  assumes "healthy db"
    and rel: "\<And>t. tx_rel db t (db_store db) \<Longrightarrow>
      rel_res (rel_prod (tx_rel db) (=)) (f t) (g (db_store db))"
    and g: "g (db_store db) = Inl e"
  shows "\<exists>t. e_begin_write eng db = Inr t \<and> f t = Inl e"
proof -
  obtain t where t: "e_begin_write eng db = Inr t" "tx_rel db t (db_store db)"
    using begin_write [OF assms(1)] by (auto simp: tx_rel_def)
  then show ?thesis
    using rel [OF t(2)] unfolding g by (cases "f t") auto
qed

end

interpretation ref: storage_engine store_engine "\<lambda>s. s" "\<lambda>s. s" "\<lambda>_ _. True" "\<lambda>_. True"
  by unfold_locales simp_all

end
