(* ===== verification/Hlc.thy ===== *)
theory Hlc
  imports Prelude
begin

text \<open>
  Hybrid logical clocks, \<open>HlcTimestamp\<close> of \<open>src/phase30.rs\<close>. The derived \<open>Ord\<close> of the
  struct compares the fields in order, which is the \<open>linorder\<close> instance below. A reading of
  the wall clock (\<open>unix_ms\<close>) is an argument.
\<close>

datatype hlc = Hlc (physical_ms: u64) (logical: u32)

instantiation hlc :: linorder
begin

definition less_eq_hlc :: "hlc \<Rightarrow> hlc \<Rightarrow> bool" where
  "less_eq_hlc a b \<longleftrightarrow>
     physical_ms a < physical_ms b \<or> (physical_ms a = physical_ms b \<and> logical a \<le> logical b)"

definition less_hlc :: "hlc \<Rightarrow> hlc \<Rightarrow> bool" where
  "less_hlc a b \<longleftrightarrow>
     physical_ms a < physical_ms b \<or> (physical_ms a = physical_ms b \<and> logical a < logical b)"

instance
proof
  fix a b c :: hlc
  show "a < b \<longleftrightarrow> a \<le> b \<and> \<not> b \<le> a"
    by (auto simp: less_hlc_def less_eq_hlc_def)
  show "a \<le> a"
    by (simp add: less_eq_hlc_def)
  show "a \<le> b \<Longrightarrow> b \<le> c \<Longrightarrow> a \<le> c"
    by (auto simp: less_eq_hlc_def)
  show "a \<le> b \<Longrightarrow> b \<le> a \<Longrightarrow> a = b"
    by (cases a; cases b) (auto simp: less_eq_hlc_def)
  show "a \<le> b \<or> b \<le> a"
    by (auto simp: less_eq_hlc_def)
qed

end

definition hlc_default :: hlc where
  "hlc_default = Hlc 0 0"

definition hlc_now :: "u64 \<Rightarrow> hlc" where
  "hlc_now now = Hlc now 0"

definition tick :: "u64 \<Rightarrow> hlc \<Rightarrow> hlc" where
  "tick now self =
     (if now > physical_ms self then Hlc now 0
      else Hlc (physical_ms self) (saturating_add (logical self) 1))"

definition observe :: "u64 \<Rightarrow> hlc \<Rightarrow> hlc \<Rightarrow> hlc" where
  "observe now self remote =
     (let physical = max (max now (physical_ms self)) (physical_ms remote);
          logic =
            (if physical = physical_ms self \<and> physical = physical_ms remote
             then saturating_add (max (logical self) (logical remote)) 1
             else if physical = physical_ms self then saturating_add (logical self) 1
             else if physical = physical_ms remote then saturating_add (logical remote) 1
             else 0)
      in Hlc physical logic)"

lemma saturating_succ_greater: "(l :: u32) \<noteq> - 1 \<Longrightarrow> l < saturating_add l 1"
proof -
  assume ne: "l \<noteq> - 1"
  have "l \<le> - 1"
    by (rule word_n1_ge)
  with ne have "l < - 1"
    by (rule order.not_eq_order_implies_strict)
  then have "unat l < unat (- 1 :: u32)"
    by (simp only: word_less_nat_alt)
  then have "unat l < 2 ^ 32 - 1"
    by (simp only: unsigned_minus_1_eq_mask mask_eq_exp_minus_1) simp
  then show ?thesis
    by (simp add: word_less_nat_alt unat_saturating_add)
qed

lemma saturating_succ_ge: "(l :: u32) \<le> saturating_add l 1"
  using unsigned_less [of l, where ?'a = nat] by (simp add: word_le_nat_alt unat_saturating_add)

lemma tick_ge: "self \<le> tick now self"
  using saturating_succ_ge [of "logical self"]
  by (auto simp: tick_def less_eq_hlc_def)

text \<open>
  C27. As long as the logical counter is not exhausted, a tick moves strictly forward and
  never behind the wall clock, whatever the wall clock does in between; an observation of a
  remote timestamp moves strictly past both the local and the remote one.
\<close>

theorem hlc_strictly_monotone:
  assumes "logical self \<noteq> - 1" and "logical remote \<noteq> - 1"
  shows "self < tick now self \<and> now \<le> physical_ms (tick now self) \<and>
         self < observe now self remote \<and> remote < observe now self remote \<and>
         now \<le> physical_ms (observe now self remote)"
proof -
  note succ = saturating_succ_greater [OF assms(1)] saturating_succ_greater [OF assms(2)]
  have tick: "self < tick now self" "now \<le> physical_ms (tick now self)"
    using succ by (auto simp: tick_def less_hlc_def)
  have "logical self < saturating_add (max (logical self) (logical remote)) 1"
    "logical remote < saturating_add (max (logical self) (logical remote)) 1"
    using succ by (auto simp: max_def)
  then have "self < observe now self remote" "remote < observe now self remote"
    using succ by (auto simp: observe_def less_hlc_def Let_def max_def)
  moreover have "now \<le> physical_ms (observe now self remote)"
    by (simp add: observe_def Let_def le_max_iff_disj)
  ultimately show ?thesis
    using tick by blast
qed

theorem hlc_strictly_monotone_witness:
  "Hlc 5 7 < tick 3 (Hlc 5 7) \<and> Hlc 9 2 < observe 3 (Hlc 5 7) (Hlc 9 2)"
  using hlc_strictly_monotone [of "Hlc 5 7" "Hlc 9 2" 3] by simp

end
