(* ===== verification/Txn_Base.thy ===== *)
theory Txn_Base
  imports Storage Hlc "HOL-Library.Multiset"
begin

text \<open>
  The data of the transaction layer, \<open>src/txn/mod.rs\<close>: operations and write sets, the
  records of the commit log and of the version history with their keys and codecs, the
  validation of public writes, and the registry of active snapshots. The serializers
  (\<open>postcard\<close>, \<open>serde_json\<close>) are not part of the sources: they are a record of functions that
  the definitions receive, and \<open>codecs_ok\<close> states that what they write they read back.
\<close>

section \<open>Operations and records\<close>

datatype op = OpPut (op_table: string) (op_key: bytes) bytes | OpDelete (op_table: string) (op_key: bytes)

datatype write_condition =
    KeyMissing string bytes
  | ValueEquals string bytes "bytes option"

type_synonym txn_id = u64
type_synonym write_key = "string \<times> bytes"
type_synonym write_set = "(write_key, bytes option) btm"

datatype commit_log_write =
  CommitLogWrite (clw_table: string) (clw_key: bytes) (clw_value: "bytes option")

text \<open>A \<open>SystemTime\<close> is the number of nanoseconds since the epoch.\<close>

datatype commit_log_record =
  CommitLogRecord (clr_txn_id: txn_id) (clr_committed_at: nat) (clr_hlc: "hlc option")
    (clr_writes: "commit_log_write list")

datatype mvcc_record = MvccRecord (mvcc_value: "bytes option")

datatype decision = DCommit | DAbort

datatype vote = VYes | VNo

type_synonym dist_txn_id = u64

datatype prepared_txn_record =
  PreparedTxnRecord (pr_version: "16 word") (pr_txn_id: dist_txn_id) (pr_ops: "op list")
    (pr_prepared_at_ms: u64) (pr_deadline_ms: u64) (pr_retry_count: u32)

datatype coordinator_decision_record =
  CoordinatorDecisionRecord (cd_version: "16 word") (cd_txn_id: dist_txn_id) (cd_decision: decision)
    (cd_decided_at_ms: u64) (cd_deadline_ms: u64) (cd_retry_count: u32)

datatype finished_txn_record =
  FinishedTxnRecord (fr_version: "16 word") (fr_txn_id: dist_txn_id) (fr_decision: decision)
    (fr_finished_at_ms: u64)

section \<open>Keyspaces\<close>

definition RESERVED_KEYSPACE_PREFIX :: string where "RESERVED_KEYSPACE_PREFIX = ''__''"
definition TXN_META_TABLE :: string where "TXN_META_TABLE = ''__txn_meta''"
definition TXN_VERSIONS_TABLE :: string where "TXN_VERSIONS_TABLE = ''__txn_versions''"
definition TXN_MVCC_TABLE :: string where "TXN_MVCC_TABLE = ''__txn_mvcc''"
definition COMMIT_LOG_TABLE :: string where "COMMIT_LOG_TABLE = ''__commit_log''"
definition KEYSPACE_REGISTRY_TABLE :: string where "KEYSPACE_REGISTRY_TABLE = ''__keyspaces''"
definition TABLE_DATA_VERSION_TABLE :: string where
  "TABLE_DATA_VERSION_TABLE = ''__txn_table_data_versions''"
definition HLC_TABLE :: string where "HLC_TABLE = ''__hlc_clock''"
definition HLC_LOCAL_KEY :: bytes where "HLC_LOCAL_KEY = as_bytes ''local''"
definition CURRENT_TXN_ID_KEY :: bytes where "CURRENT_TXN_ID_KEY = as_bytes ''current_txn_id''"
definition KEYSPACE_PRESENT_VALUE :: bytes where "KEYSPACE_PRESENT_VALUE = as_bytes ''1''"
definition COMMIT_LOG_BINARY_MAGIC :: bytes where "COMMIT_LOG_BINARY_MAGIC = as_bytes ''MDBCLOG2''"

lemmas table_name_defs =
  TXN_META_TABLE_def TXN_VERSIONS_TABLE_def TXN_MVCC_TABLE_def COMMIT_LOG_TABLE_def
  KEYSPACE_REGISTRY_TABLE_def TABLE_DATA_VERSION_TABLE_def HLC_TABLE_def

definition table_is_reserved :: "string \<Rightarrow> bool" where
  "table_is_reserved table = prefix RESERVED_KEYSPACE_PREFIX table"

section \<open>Serializers\<close>

record 'a postcard =
  to_allocvec :: "'a \<Rightarrow> string + bytes"
  take_from_bytes :: "bytes \<Rightarrow> string + ('a \<times> bytes)"

record 'a json =
  to_vec :: "'a \<Rightarrow> string + bytes"
  from_slice :: "bytes \<Rightarrow> string + 'a"

record codecs =
  c_log :: "commit_log_record postcard"
  c_log_json :: "commit_log_record json"
  c_mvcc :: "mvcc_record postcard"
  c_hlc :: "hlc postcard"
  c_prepared :: "prepared_txn_record json"
  c_decision :: "coordinator_decision_record json"
  c_finished :: "finished_txn_record json"

definition postcard_ok :: "'a postcard \<Rightarrow> bool" where
  "postcard_ok c \<longleftrightarrow> (\<forall>x. \<exists>bs. to_allocvec c x = Inr bs \<and> take_from_bytes c bs = Inr (x, []))"

definition json_ok :: "'a json \<Rightarrow> bool" where
  "json_ok c \<longleftrightarrow> (\<forall>x. \<exists>bs. to_vec c x = Inr bs \<and> from_slice c bs = Inr x)"

definition codecs_ok :: "codecs \<Rightarrow> bool" where
  "codecs_ok cs \<longleftrightarrow>
     postcard_ok (c_log cs) \<and> postcard_ok (c_mvcc cs) \<and> postcard_ok (c_hlc cs) \<and>
     json_ok (c_prepared cs) \<and> json_ok (c_decision cs) \<and> json_ok (c_finished cs)"

definition decode_binary_exact :: "'a postcard \<Rightarrow> bytes \<Rightarrow> string \<Rightarrow> 'a res" where
  "decode_binary_exact c bs ctx =
     (case take_from_bytes c bs of
        Inl err \<Rightarrow> Inl (Corruption (ctx @ '': '' @ err))
      | Inr (x, trailing) \<Rightarrow>
          if trailing \<noteq> [] then Inl (Corruption (ctx @ '': trailing bytes'')) else Inr x)"

definition decode_commit_log_record :: "codecs \<Rightarrow> bytes \<Rightarrow> commit_log_record res" where
  "decode_commit_log_record cs bs =
     (if prefix COMMIT_LOG_BINARY_MAGIC bs
      then decode_binary_exact (c_log cs) (drop (length COMMIT_LOG_BINARY_MAGIC) bs)
             ''binary commit log record''
      else map_err (\<lambda>err. Corruption (''commit log record is not binary v2 or legacy JSON: '' @ err))
             (from_slice (c_log_json cs) bs))"

definition encode_commit_log_record :: "codecs \<Rightarrow> commit_log_record \<Rightarrow> bytes res" where
  "encode_commit_log_record cs record =
     rbind (map_err Backend (to_allocvec (c_log cs) record)) (\<lambda>payload.
     Inr (COMMIT_LOG_BINARY_MAGIC @ payload))"

definition encode_mvcc_record :: "codecs \<Rightarrow> mvcc_record \<Rightarrow> bytes res" where
  "encode_mvcc_record cs record = map_err Backend (to_allocvec (c_mvcc cs) record)"

definition decode_mvcc_record :: "codecs \<Rightarrow> bytes \<Rightarrow> mvcc_record res" where
  "decode_mvcc_record cs bs = decode_binary_exact (c_mvcc cs) bs ''mvcc record''"

definition encode_hlc :: "codecs \<Rightarrow> hlc \<Rightarrow> bytes res" where
  "encode_hlc cs timestamp = map_err Backend (to_allocvec (c_hlc cs) timestamp)"

definition decode_hlc :: "codecs \<Rightarrow> bytes \<Rightarrow> hlc res" where
  "decode_hlc cs bs = decode_binary_exact (c_hlc cs) bs ''hlc timestamp''"

section \<open>Keys of the internal tables\<close>

definition commit_log_key :: "txn_id \<Rightarrow> bytes" where
  "commit_log_key txn_id = u64_to_be txn_id"

definition encode_txn_id :: "txn_id \<Rightarrow> bytes" where
  "encode_txn_id v = u64_to_be v"

definition decode_txn_id :: "bytes \<Rightarrow> txn_id res" where
  "decode_txn_id bs =
     (if length bs = 8 then Inr (u64_from_be bs)
      else Inl (Corruption ''transaction id must be exactly 8 bytes''))"

definition version_key :: "string \<Rightarrow> bytes \<Rightarrow> bytes res" where
  "version_key table key =
     (if length table < 2 ^ 64
      then let table_len = of_nat (length table) :: u64
           in Inr (u64_to_be table_len @ as_bytes table @ key)
      else Inl (Backend ''out of range integral type conversion attempted''))"

definition mvcc_key :: "string \<Rightarrow> bytes \<Rightarrow> txn_id \<Rightarrow> bytes res" where
  "mvcc_key table key txn_id = rbind (version_key table key) (\<lambda>out. Inr (out @ u64_to_be txn_id))"

definition split_mvcc_version_key :: "bytes \<Rightarrow> (bytes \<times> txn_id) res" where
  "split_mvcc_version_key key =
     (if length key < 8 then Inl (Corruption ''mvcc key is missing version suffix'')
      else let split = length key - 8 in
        rbind (decode_txn_id (drop split key)) (\<lambda>version. Inr (take split key, version)))"

section \<open>Write sets and validation\<close>

fun op_to_write :: "op \<Rightarrow> write_set \<Rightarrow> write_set" where
  "op_to_write (OpPut table key v) ws = bt_insert (table, key) (Some v) ws"
| "op_to_write (OpDelete table key) ws = bt_insert (table, key) None ws"

definition ops_to_write_set :: "op list \<Rightarrow> write_set" where
  "ops_to_write_set ops = fold op_to_write ops bt_empty"

definition validate_public_table :: "string \<Rightarrow> unit res" where
  "validate_public_table table =
     (if table_is_reserved table
      then Inl (Backend (''reserved keyspace '' @ table @ '' cannot be written through public APIs''))
      else Inr ())"

definition validate_public_ops :: "op list \<Rightarrow> unit res" where
  "validate_public_ops ops = rfold (\<lambda>op _. validate_public_table (op_table op)) ops ()"

fun condition_table :: "write_condition \<Rightarrow> string" where
  "condition_table (KeyMissing table key) = table"
| "condition_table (ValueEquals table key expected) = table"

definition validate_public_conditions :: "write_condition list \<Rightarrow> unit res" where
  "validate_public_conditions conditions =
     rfold (\<lambda>condition _. validate_public_table (condition_table condition)) conditions ()"

definition validate_public_write_set :: "write_set \<Rightarrow> unit res" where
  "validate_public_write_set ws = rfold (\<lambda>(table, _) _. validate_public_table table) (bt_keys ws) ()"

section \<open>Active snapshots\<close>

record active_snapshot_registry =
  asr_active :: "(txn_id, nat) btm"
  asr_retention_pins :: "(txn_id, nat) btm"

definition count_up :: "txn_id \<Rightarrow> (txn_id, nat) btm \<Rightarrow> (txn_id, nat) btm" where
  "count_up i m = bt_update i 0 (\<lambda>n. n + 1) m"

definition count_down :: "txn_id \<Rightarrow> (txn_id, nat) btm \<Rightarrow> (txn_id, nat) btm" where
  "count_down i m =
     (case bt_get m i of
        None \<Rightarrow> m
      | Some n \<Rightarrow>
          let n = n - 1 in
          if n = 0 then bt_remove i m else bt_insert i n m)"

definition register_snapshot :: "txn_id \<Rightarrow> active_snapshot_registry \<Rightarrow> active_snapshot_registry" where
  "register_snapshot i r = r\<lparr>asr_active := count_up i (asr_active r)\<rparr>"

definition unregister_snapshot :: "txn_id \<Rightarrow> active_snapshot_registry \<Rightarrow> active_snapshot_registry" where
  "unregister_snapshot i r = r\<lparr>asr_active := count_down i (asr_active r)\<rparr>"

definition pin_retention_lsn :: "txn_id \<Rightarrow> active_snapshot_registry \<Rightarrow> active_snapshot_registry" where
  "pin_retention_lsn i r = r\<lparr>asr_retention_pins := count_up i (asr_retention_pins r)\<rparr>"

definition unpin_retention_lsn :: "txn_id \<Rightarrow> active_snapshot_registry \<Rightarrow> active_snapshot_registry" where
  "unpin_retention_lsn i r = r\<lparr>asr_retention_pins := count_down i (asr_retention_pins r)\<rparr>"

definition watermark :: "active_snapshot_registry \<Rightarrow> txn_id \<Rightarrow> txn_id" where
  "watermark r current =
     (case bt_keys (asr_active r) @ bt_keys (asr_retention_pins r) of
        [] \<Rightarrow> current
      | i # js \<Rightarrow> fold min js i)"

section \<open>Facts about codecs and keys\<close>

named_theorems codec_simps \<open>round trips of the serializers\<close>

lemma postcard_okE:
  assumes "postcard_ok c"
  obtains bs where "to_allocvec c x = Inr bs" "take_from_bytes c bs = Inr (x, [])"
  using assms unfolding postcard_ok_def by blast

lemma json_okE:
  assumes "json_ok c"
  obtains bs where "to_vec c x = Inr bs" "from_slice c bs = Inr x"
  using assms unfolding json_ok_def by blast

lemma commit_log_record_roundtrip:
  assumes "codecs_ok cs"
  obtains bs where "encode_commit_log_record cs record = Inr bs"
    "decode_commit_log_record cs bs = Inr record"
proof -
  obtain p where "to_allocvec (c_log cs) record = Inr p" "take_from_bytes (c_log cs) p = Inr (record, [])"
    using assms unfolding codecs_ok_def by (blast elim: postcard_okE)
  then show ?thesis
    by (intro that [of "COMMIT_LOG_BINARY_MAGIC @ p"])
      (simp_all add: encode_commit_log_record_def decode_commit_log_record_def decode_binary_exact_def)
qed

lemma mvcc_record_roundtrip:
  assumes "codecs_ok cs"
  obtains bs where "encode_mvcc_record cs record = Inr bs" "decode_mvcc_record cs bs = Inr record"
proof -
  obtain p where "to_allocvec (c_mvcc cs) record = Inr p" "take_from_bytes (c_mvcc cs) p = Inr (record, [])"
    using assms unfolding codecs_ok_def by (blast elim: postcard_okE)
  then show ?thesis
    by (intro that [of p])
      (simp_all add: encode_mvcc_record_def decode_mvcc_record_def decode_binary_exact_def)
qed

lemma hlc_roundtrip:
  assumes "codecs_ok cs"
  obtains bs where "encode_hlc cs h = Inr bs" "decode_hlc cs bs = Inr h"
proof -
  obtain p where "to_allocvec (c_hlc cs) h = Inr p" "take_from_bytes (c_hlc cs) p = Inr (h, [])"
    using assms unfolding codecs_ok_def by (blast elim: postcard_okE)
  then show ?thesis
    by (intro that [of p]) (simp_all add: encode_hlc_def decode_hlc_def decode_binary_exact_def)
qed

lemma decode_encode_txn_id [simp, codec_simps]: "decode_txn_id (encode_txn_id i) = Inr i"
  by (simp add: decode_txn_id_def encode_txn_id_def)

lemma length_encode_txn_id [simp]: "length (encode_txn_id i) = 8"
  by (simp add: encode_txn_id_def)

lemma decode_txn_id_Inr: "decode_txn_id bs = Inr i \<longleftrightarrow> bs = encode_txn_id i"
proof
  assume "decode_txn_id bs = Inr i"
  then show "bs = encode_txn_id i"
    by (auto simp: decode_txn_id_def encode_txn_id_def u64_to_from_be split: if_splits)
qed simp

lemma encode_txn_id_inject [simp]: "encode_txn_id i = encode_txn_id j \<longleftrightarrow> i = j"
  by (simp add: encode_txn_id_def)

lemma commit_log_key_inject [simp]: "commit_log_key i = commit_log_key j \<longleftrightarrow> i = j"
  by (simp add: commit_log_key_def)

lemma version_key_Inr:
  "version_key table key = Inr x \<longleftrightarrow>
     length table < 2 ^ 64 \<and> x = u64_to_be (of_nat (length table)) @ as_bytes table @ key"
  by (auto simp: version_key_def Let_def)

lemma version_key_inject:
  assumes "version_key table key = Inr x" and "version_key table' key' = Inr (x @ y)"
  shows "table' = table \<and> key' = key @ y"
proof -
  have len: "length table < 2 ^ 64" "length table' < 2 ^ 64"
    using assms by (simp_all add: version_key_Inr)
  have eq: "u64_to_be (of_nat (length table)) @ as_bytes table @ key @ y =
      u64_to_be (of_nat (length table')) @ as_bytes table' @ key'"
    using assms by (simp add: version_key_Inr)
  then have "u64_to_be (of_nat (length table)) = u64_to_be (of_nat (length table'))"
    by (metis append_eq_append_conv length_u64_to_be)
  then have "unat (of_nat (length table) :: u64) = unat (of_nat (length table') :: u64)"
    by simp
  then have "length table = length table'"
    using len by (simp add: unat_of_nat)
  then show ?thesis
    using eq append_eq_append_conv [of "as_bytes table" "as_bytes table'" "key @ y" key'] by simp
qed

lemma version_key_eq:
  "version_key table key = Inr x \<Longrightarrow> version_key table' key' = Inr x \<Longrightarrow> table' = table \<and> key' = key"
  using version_key_inject [of table key x table' key' "[]"] by simp

lemma mvcc_key_Inr:
  "mvcc_key table key i = Inr x \<longleftrightarrow> (\<exists>v. version_key table key = Inr v \<and> x = v @ encode_txn_id i)"
  by (auto simp: mvcc_key_def rbind_eq_Inr encode_txn_id_def)

lemma split_version_suffix [simp]: "split_mvcc_version_key (v @ encode_txn_id i) = Inr (v, i)"
  by (simp add: split_mvcc_version_key_def)

lemma split_mvcc_version_key_Inr:
  "split_mvcc_version_key key = Inr (v, i) \<longleftrightarrow> key = v @ encode_txn_id i"
proof
  assume "split_mvcc_version_key key = Inr (v, i)"
  then have "v = take (length key - 8) key" "drop (length key - 8) key = encode_txn_id i"
    by (auto simp: split_mvcc_version_key_def Let_def rbind_eq_Inr decode_txn_id_Inr split: if_splits)
  then show "key = v @ encode_txn_id i"
    by (metis append_take_drop_id)
qed simp

lemma mvcc_key_inject:
  assumes "mvcc_key table key i = Inr x" and "mvcc_key table' key' j = Inr x"
  shows "table' = table \<and> key' = key \<and> j = i"
proof -
  obtain v v' where v: "version_key table key = Inr v" "x = v @ encode_txn_id i"
      "version_key table' key' = Inr v'" "x = v' @ encode_txn_id j"
    using assms by (auto simp: mvcc_key_Inr)
  then have "(v, i) = (v', j)"
    by (metis Inr_inject split_version_suffix)
  with v show ?thesis
    using version_key_eq by auto
qed

text \<open>
  C29. Internal keys identify what they stand for: two version keys or two history keys are
  equal only for the same table, row key and version, whatever bytes table names and row keys
  contain; versions of one row sort by their number; and a history key is split again into
  its version key and its version.
\<close>

theorem internal_keys_faithful:
  assumes "mvcc_key table key i = Inr x" and "mvcc_key table' key' j = Inr y"
  shows "(x = y \<longleftrightarrow> table = table' \<and> key = key' \<and> i = j) \<and>
         (table = table' \<and> key = key' \<longrightarrow> (x < y \<longleftrightarrow> i < j)) \<and>
         (\<exists>v. version_key table key = Inr v \<and> split_mvcc_version_key x = Inr (v, i))"
proof (intro conjI impI)
  show "x = y \<longleftrightarrow> table = table' \<and> key = key' \<and> i = j"
    using assms mvcc_key_inject [OF assms(1), of table' key' j] by auto
  show "x < y \<longleftrightarrow> i < j" if "table = table' \<and> key = key'"
    using assms that by (auto simp: mvcc_key_Inr lex_append_same encode_txn_id_def)
  show "\<exists>v. version_key table key = Inr v \<and> split_mvcc_version_key x = Inr (v, i)"
    using assms(1) by (auto simp: mvcc_key_Inr)
qed

theorem internal_keys_faithful_witness:
  "\<exists>x y. mvcc_key ''a'' [98] 1 = Inr x \<and> mvcc_key ''ab'' [] 1 = Inr y \<and> x \<noteq> y"
proof -
  obtain x y where xy: "mvcc_key ''a'' [98] 1 = Inr x" "mvcc_key ''ab'' [] 1 = Inr y"
    by (simp add: mvcc_key_def version_key_def)
  then have "x \<noteq> y"
    using internal_keys_faithful [OF xy] by simp
  with xy show ?thesis
    by blast
qed

section \<open>Facts about write sets and validation\<close>

lemma rfold_unit_check:
  "rfold (\<lambda>x _. f x) xs () = Inr () \<longleftrightarrow> (\<forall>x \<in> set xs. f x = Inr ())"
  by (induction xs) (auto simp: rbind_eq_Inr)

lemma rfold_unit_check_first:
  "rfold (\<lambda>x _. f x) xs () = Inl e \<Longrightarrow> \<exists>x \<in> set xs. f x = Inl e"
  by (induction xs) (auto simp: rbind_eq_Inl)

lemma validate_public_table_iff [simp]: "validate_public_table table = Inr () \<longleftrightarrow> \<not> table_is_reserved table"
  by (simp add: validate_public_table_def)

lemma validate_public_ops_iff:
  "validate_public_ops ops = Inr () \<longleftrightarrow> (\<forall>op \<in> set ops. \<not> table_is_reserved (op_table op))"
  unfolding validate_public_ops_def rfold_unit_check by simp

lemma validate_public_write_set_iff:
  "validate_public_write_set ws = Inr () \<longleftrightarrow>
     (\<forall>table key. bt_get ws (table, key) \<noteq> None \<longrightarrow> \<not> table_is_reserved table)"
proof -
  have "validate_public_write_set ws = Inr () \<longleftrightarrow>
      (\<forall>tk \<in> set (bt_keys ws). \<not> table_is_reserved (fst tk))"
    unfolding validate_public_write_set_def case_prod_beta rfold_unit_check by simp
  then show ?thesis
    by (simp add: Ball_def bt_keys_iff)
qed

lemma get_fold_op_to_write:
  "bt_get (fold op_to_write ops ws) tk =
     (case find (\<lambda>op. (op_table op, op_key op) = tk) (rev ops) of
        Some (OpPut _ _ v) \<Rightarrow> Some (Some v)
      | Some (OpDelete _ _) \<Rightarrow> Some None
      | None \<Rightarrow> bt_get ws tk)"
proof (induction ops arbitrary: ws rule: rev_induct)
  case (snoc op ops)
  then show ?case
    by (cases op) (auto split: option.split op.split)
qed simp

text \<open>
  C30. Turning operations into a write set keeps, for every row, exactly the effect of the
  last operation on it, and no other row.
\<close>

theorem ops_to_write_set_last_wins:
  "bt_get (ops_to_write_set ops) (table, key) =
     (case find (\<lambda>op. op_table op = table \<and> op_key op = key) (rev ops) of
        None \<Rightarrow> None
      | Some (OpPut _ _ v) \<Rightarrow> Some (Some v)
      | Some (OpDelete _ _) \<Rightarrow> Some None)"
  unfolding ops_to_write_set_def get_fold_op_to_write by (simp split: option.split op.split)

lemma fold_op_to_write_keys:
  "bt_get (fold op_to_write ops ws) tk \<noteq> None \<longleftrightarrow>
     bt_get ws tk \<noteq> None \<or> (\<exists>op \<in> set ops. (op_table op, op_key op) = tk)"
proof (induction ops arbitrary: ws)
  case (Cons op ops)
  show ?case
    unfolding fold_Cons comp_def Cons.IH by (cases op) auto
qed simp

lemma ops_to_write_set_keys:
  "bt_get (ops_to_write_set ops) tk \<noteq> None \<longleftrightarrow> (\<exists>op \<in> set ops. (op_table op, op_key op) = tk)"
  unfolding ops_to_write_set_def fold_op_to_write_keys by simp

section \<open>Facts about the snapshot registry\<close>

text \<open>
  A counter map stands for a multiset of transaction ids; it never holds a count of zero.
\<close>

definition counts :: "(txn_id, nat) btm \<Rightarrow> txn_id multiset \<Rightarrow> bool" where
  "counts m M \<longleftrightarrow> (\<forall>i. bt_get m i = (if count M i = 0 then None else Some (count M i)))"

lemma counts_empty: "counts bt_empty {#}"
  by (simp add: counts_def)

lemma counts_up: "counts m M \<Longrightarrow> counts (count_up i m) (add_mset i M)"
  by (auto simp: counts_def count_up_def bt_get_update count_eq_zero_iff)

lemma counts_down: "counts m M \<Longrightarrow> counts (count_down i m) (M - {#i#})"
  by (auto simp: counts_def count_down_def Let_def count_eq_zero_iff split: option.split)
    (metis count_eq_zero_iff le0 order_trans)

lemma counts_keys: "counts m M \<Longrightarrow> set (bt_keys m) = set_mset M"
  by (auto simp: counts_def bt_keys_iff set_eq_iff count_eq_zero_iff split: if_splits)

lemma fold_min_Min: "fold min js i = Min (set (i # js))"
  by (metis Min.set_eq_fold)

datatype registry_event = Register txn_id | Unregister txn_id | Pin txn_id | Unpin txn_id

fun registry_step :: "registry_event \<Rightarrow> active_snapshot_registry \<Rightarrow> active_snapshot_registry" where
  "registry_step (Register i) r = register_snapshot i r"
| "registry_step (Unregister i) r = unregister_snapshot i r"
| "registry_step (Pin i) r = pin_retention_lsn i r"
| "registry_step (Unpin i) r = unpin_retention_lsn i r"

fun held_step :: "registry_event \<Rightarrow> txn_id multiset \<times> txn_id multiset \<Rightarrow> txn_id multiset \<times> txn_id multiset" where
  "held_step (Register i) (A, P) = (add_mset i A, P)"
| "held_step (Unregister i) (A, P) = (A - {#i#}, P)"
| "held_step (Pin i) (A, P) = (A, add_mset i P)"
| "held_step (Unpin i) (A, P) = (A, P - {#i#})"

definition registry_holds :: "active_snapshot_registry \<Rightarrow> txn_id multiset \<times> txn_id multiset \<Rightarrow> bool" where
  "registry_holds r AP \<longleftrightarrow> counts (asr_active r) (fst AP) \<and> counts (asr_retention_pins r) (snd AP)"

lemma registry_step_holds: "registry_holds r AP \<Longrightarrow> registry_holds (registry_step ev r) (held_step ev AP)"
  by (cases ev; cases AP)
    (simp_all add: registry_holds_def register_snapshot_def unregister_snapshot_def
      pin_retention_lsn_def unpin_retention_lsn_def counts_up counts_down)

lemma registry_run_holds:
  "registry_holds r AP \<Longrightarrow> registry_holds (fold registry_step evs r) (fold held_step evs AP)"
proof (induction evs arbitrary: r AP)
  case (Cons ev evs)
  from Cons.IH [OF registry_step_holds [OF Cons.prems]] show ?case
    by simp
qed simp

lemma watermark_holds:
  assumes "registry_holds r (A, P)"
  shows "watermark r current = (if A + P = {#} then current else Min (set_mset (A + P)))"
proof -
  let ?ks = "bt_keys (asr_active r) @ bt_keys (asr_retention_pins r)"
  have ks: "set ?ks = set_mset (A + P)"
    using assms counts_keys by (auto simp: registry_holds_def)
  show ?thesis
  proof (cases ?ks)
    case Nil
    then show ?thesis
      using ks by (simp add: watermark_def)
  next
    case (Cons i js)
    then have "watermark r current = Min (set ?ks)"
      by (simp add: watermark_def fold_min_Min)
    moreover have "A + P \<noteq> {#}"
      using ks Cons by auto
    ultimately show ?thesis
      unfolding ks by (simp only: if_False)
  qed
qed

text \<open>
  C28. After any sequence of registrations, releases, pins and unpins the watermark is the
  smallest transaction id still held by a snapshot or a pin, each held as often as it was
  taken and not yet released, and the current id when nothing is held.
\<close>

theorem watermark_protects_held_snapshots:
  "watermark (fold registry_step evs \<lparr>asr_active = bt_empty, asr_retention_pins = bt_empty\<rparr>) current =
     (case fold held_step evs ({#}, {#}) of
        (A, P) \<Rightarrow> if A + P = {#} then current else Min (set_mset (A + P)))"
proof -
  have "registry_holds \<lparr>asr_active = bt_empty, asr_retention_pins = bt_empty\<rparr> ({#}, {#})"
    by (simp add: registry_holds_def counts_empty)
  from registry_run_holds [OF this, of evs] show ?thesis
    by (cases "fold held_step evs ({#}, {#})") (simp add: watermark_holds)
qed

end
