(* ===== verification/Mem_Engine.thy ===== *)
theory Mem_Engine
  imports Storage
begin

text \<open>
  The in-memory engine of \<open>src/storage/memory.rs\<close>. The database is a B-tree map of tables; a
  read transaction owns the snapshot that was current when it began, a write transaction
  stages its writes in a pending map and applies them to the current database when it
  commits. A poisoned lock is a flag of the engine. The second half is the engine as a
  concurrent system: readers and one writer at a time, interleaved step by step.
\<close>

section \<open>Engine and transactions\<close>

type_synonym table = "(bytes, bytes) btm"
type_synonym database_map = "(string, table) btm"
type_synonym pending_map = "(string \<times> bytes, bytes option) btm"

record mem_engine =
  me_inner :: database_map
  me_inner_poisoned :: bool
  me_writer_poisoned :: bool

record mem_read_txn =
  mr_snapshot :: database_map

record mem_write_txn =
  mw_snapshot :: database_map
  mw_pending :: pending_map

definition mem_new :: mem_engine where
  "mem_new = \<lparr>me_inner = bt_empty, me_inner_poisoned = False, me_writer_poisoned = False\<rparr>"

definition read_inner :: "mem_engine \<Rightarrow> database_map res" where
  "read_inner e =
     (if me_inner_poisoned e then Inl (Backend ''memory lock poisoned'') else Inr (me_inner e))"

definition write_inner :: "mem_engine \<Rightarrow> database_map res" where
  "write_inner e =
     (if me_inner_poisoned e then Inl (Backend ''memory lock poisoned'') else Inr (me_inner e))"

definition lock_writer :: "mem_engine \<Rightarrow> unit res" where
  "lock_writer e =
     (if me_writer_poisoned e then Inl (Backend ''memory writer lock poisoned'') else Inr ())"

definition mem_begin_read :: "mem_engine \<Rightarrow> mem_read_txn res" where
  "mem_begin_read e = rbind (read_inner e) (\<lambda>snapshot. Inr \<lparr>mr_snapshot = snapshot\<rparr>)"

definition mem_begin_write :: "mem_engine \<Rightarrow> mem_write_txn res" where
  "mem_begin_write e =
     rbind (lock_writer e) (\<lambda>_.
     rbind (read_inner e) (\<lambda>snapshot.
     Inr \<lparr>mw_snapshot = snapshot, mw_pending = bt_empty\<rparr>))"

text \<open>\<open>collect_range\<close>: an inverted range is empty, an empty end is unbounded.\<close>

definition collect_range :: "table \<Rightarrow> bytes \<Rightarrow> bytes \<Rightarrow> row list" where
  "collect_range data start end =
     (if end \<noteq> [] \<and> start \<ge> end then [] else bt_range start end data)"

section \<open>Reading\<close>

definition mem_read_get :: "mem_read_txn \<Rightarrow> string \<Rightarrow> bytes \<Rightarrow> bytes option res" where
  "mem_read_get t table key =
     Inr (Option.bind (bt_get (mr_snapshot t) table) (\<lambda>data. bt_get data key))"

definition mem_read_range :: "mem_read_txn \<Rightarrow> string \<Rightarrow> bytes \<Rightarrow> bytes \<Rightarrow> range_iter res" where
  "mem_read_range t table start end =
     (case bt_get (mr_snapshot t) table of
        None \<Rightarrow> Inr []
      | Some data \<Rightarrow>
          if end \<noteq> [] \<and> start \<ge> end then Inr []
          else Inr (map Inr (bt_range start end data)))"

definition mem_reader :: "mem_read_txn \<Rightarrow> reader" where
  "mem_reader t = \<lparr>rd_get = mem_read_get t, rd_range = mem_read_range t\<rparr>"

definition mem_visit_get ::
  "mem_read_txn \<Rightarrow> string \<Rightarrow> bytes \<Rightarrow> budget \<Rightarrow> (bytes option \<Rightarrow> 's \<Rightarrow> 's \<times> bool res) \<Rightarrow> 's visit" where
  "mem_visit_get t table key bg visitor =
     check_then bg (\<lambda>n s.
       let found = Option.bind (bt_get (mr_snapshot t) table) (\<lambda>data. bt_get data key) in
       (case visitor found s of
          (s, Inl e) \<Rightarrow> (n, s, Inl e)
        | (s, Inr _) \<Rightarrow> check_last bg n s))"

fun mem_visit_entries ::
  "budget \<Rightarrow> (bytes \<Rightarrow> bytes \<Rightarrow> 's \<Rightarrow> 's \<times> bool res) \<Rightarrow> row list \<Rightarrow> 's visit" where
  "mem_visit_entries bg visitor [] = check_then bg (check_last bg)"
| "mem_visit_entries bg visitor ((key, v) # entries) =
     check_then bg (\<lambda>n s.
       case visitor key v s of
         (s, Inl e) \<Rightarrow> (n, s, Inl e)
       | (s, Inr go) \<Rightarrow>
           if go then mem_visit_entries bg visitor entries n s else check_last bg n s)"

definition mem_visit_range ::
  "mem_read_txn \<Rightarrow> string \<Rightarrow> bytes \<Rightarrow> bytes \<Rightarrow> budget \<Rightarrow>
   (bytes \<Rightarrow> bytes \<Rightarrow> 's \<Rightarrow> 's \<times> bool res) \<Rightarrow> 's visit" where
  "mem_visit_range t table start end bg visitor =
     check_then bg (\<lambda>n s.
       if end \<noteq> [] \<and> start \<ge> end then (n, s, Inr ())
       else case bt_get (mr_snapshot t) table of
         None \<Rightarrow> (n, s, Inr ())
       | Some data \<Rightarrow> mem_visit_entries bg visitor (bt_range start end data) n s)"

section \<open>Writing\<close>

definition apply_pending :: "bytes \<times> bytes option \<Rightarrow> table \<Rightarrow> table" where
  "apply_pending = (\<lambda>(key, v) data.
     case v of Some b \<Rightarrow> bt_insert key b data | None \<Rightarrow> bt_remove key data)"

definition materialized_table :: "mem_write_txn \<Rightarrow> string \<Rightarrow> table" where
  "materialized_table t table =
     fold (\<lambda>((pending_table, key), v) materialized.
             if pending_table = table then apply_pending (key, v) materialized else materialized)
          (bt_entries (mw_pending t))
          (case bt_get (mw_snapshot t) table of None \<Rightarrow> bt_empty | Some data \<Rightarrow> data)"

definition mem_write_get :: "mem_write_txn \<Rightarrow> string \<Rightarrow> bytes \<Rightarrow> bytes option res" where
  "mem_write_get t table key =
     (case bt_get (mw_pending t) (table, key) of
        Some v \<Rightarrow> Inr v
      | None \<Rightarrow> Inr (Option.bind (bt_get (mw_snapshot t) table) (\<lambda>data. bt_get data key)))"

definition mem_write_range :: "mem_write_txn \<Rightarrow> string \<Rightarrow> bytes \<Rightarrow> bytes \<Rightarrow> range_iter res" where
  "mem_write_range t table start end =
     (let materialized = materialized_table t table;
          rows = collect_range materialized start end
      in Inr (map Inr rows))"

definition mem_put :: "mem_write_txn \<Rightarrow> string \<Rightarrow> bytes \<Rightarrow> bytes \<Rightarrow> mem_write_txn res" where
  "mem_put t table key v =
     Inr (t\<lparr>mw_pending := bt_insert (table, key) (Some v) (mw_pending t)\<rparr>)"

definition mem_delete :: "mem_write_txn \<Rightarrow> string \<Rightarrow> bytes \<Rightarrow> mem_write_txn res" where
  "mem_delete t table key =
     Inr (t\<lparr>mw_pending := bt_insert (table, key) None (mw_pending t)\<rparr>)"

definition apply_to_database :: "(string \<times> bytes) \<times> bytes option \<Rightarrow> database_map \<Rightarrow> database_map" where
  "apply_to_database = (\<lambda>((table, key), v) next. bt_update table bt_empty (apply_pending (key, v)) next)"

definition mem_commit :: "mem_engine \<Rightarrow> mem_write_txn \<Rightarrow> mem_engine \<times> unit res" where
  "mem_commit e t =
     (if bt_is_empty (mw_pending t) then (e, Inr ())
      else case write_inner e of
        Inl err \<Rightarrow> (e, Inl err)
      | Inr current \<Rightarrow>
          (e\<lparr>me_inner := fold apply_to_database (bt_entries (mw_pending t)) current\<rparr>, Inr ()))"

definition mem_writer :: "mem_write_txn writer_ops" where
  "mem_writer =
     \<lparr>w_reader = (\<lambda>t. \<lparr>rd_get = mem_write_get t, rd_range = mem_write_range t\<rparr>),
      w_put = mem_put,
      w_delete = mem_delete\<rparr>"

definition mem_engine_ops :: "(mem_engine, mem_write_txn) engine_ops" where
  "mem_engine_ops =
     \<lparr>e_writer = mem_writer,
      e_begin_read = (\<lambda>e. rbind (mem_begin_read e) (\<lambda>t. Inr (mem_reader t))),
      e_begin_write = mem_begin_write,
      e_commit = mem_commit\<rparr>"

section \<open>Correctness against the abstract store\<close>

definition mem_store :: "database_map \<Rightarrow> store" where
  "mem_store db table = (case bt_get db table of None \<Rightarrow> bt_empty | Some data \<Rightarrow> data)"

lemma get_mem_store:
  "bt_get (mem_store db table) key = Option.bind (bt_get db table) (\<lambda>data. bt_get data key)"
  by (simp add: mem_store_def split: option.split)

lemma get_apply_pending:
  "bt_get (apply_pending (key, v) data) k = (if k = key then v else bt_get data k)"
  by (simp add: apply_pending_def split: option.split)

lemma get_materialized_fold:
  "distinct (map fst es) \<Longrightarrow>
     bt_get (fold (\<lambda>((pending_table, key), v) m.
               if pending_table = table then apply_pending (key, v) m else m) es m) k =
       (case map_of es (table, k) of Some v \<Rightarrow> v | None \<Rightarrow> bt_get m k)"
proof (induction es arbitrary: m)
  case (Cons e es)
  obtain tb key v where e: "e = ((tb, key), v)"
    by (metis prod.collapse)
  have "map_of es (tb, key) = None"
    using Cons.prems e by (simp add: map_of_eq_None_iff)
  then show ?case
    using Cons e by (auto simp: get_apply_pending split: option.split)
qed simp

lemma get_materialized_table:
  "bt_get (materialized_table t table) k =
     (case bt_get (mw_pending t) (table, k) of
        Some v \<Rightarrow> v
      | None \<Rightarrow> bt_get (mem_store (mw_snapshot t) table) k)"
  unfolding materialized_table_def mem_store_def [symmetric]
  by (simp add: get_materialized_fold bt_get_def [of "mw_pending t"])

lemma get_fold_database:
  "distinct (map fst es) \<Longrightarrow>
     bt_get (mem_store (fold apply_to_database es db) table) k =
       (case map_of es (table, k) of Some v \<Rightarrow> v | None \<Rightarrow> bt_get (mem_store db table) k)"
proof (induction es arbitrary: db)
  case (Cons e es)
  obtain tb key v where e: "e = ((tb, key), v)"
    by (metis prod.collapse)
  have "map_of es (tb, key) = None"
    using Cons.prems e by (simp add: map_of_eq_None_iff)
  moreover have "bt_get (mem_store (apply_to_database ((tb, key), v) db) table) k =
      (if table = tb \<and> k = key then v else bt_get (mem_store db table) k)"
    by (simp add: apply_to_database_def mem_store_def bt_get_update get_apply_pending split: option.split)
  ultimately show ?case
    using Cons e by (auto split: option.split)
qed simp

lemma inverted_range_empty: "end \<noteq> [] \<Longrightarrow> start \<ge> end \<Longrightarrow> bt_range start end m = []"
  by (auto simp: bt_range_def in_range_def filter_empty_conv)

lemma bt_range_empty [simp]: "bt_range start end bt_empty = []"
  by (simp add: bt_range_def)

lemma collect_range_eq [simp]: "collect_range data start end = bt_range start end data"
  by (simp add: collect_range_def inverted_range_empty)

lemma mem_reader_eq: "mem_reader t = store_reader (mem_store (mr_snapshot t))"
proof -
  have "mem_read_get t table key = rd_get (store_reader (mem_store (mr_snapshot t))) table key"
    for table key
    by (simp add: mem_read_get_def get_mem_store)
  moreover have "mem_read_range t table start end =
      rd_range (store_reader (mem_store (mr_snapshot t))) table start end" for table start "end"
    by (simp add: mem_read_range_def mem_store_def inverted_range_empty split: option.split)
  ultimately show ?thesis
    by (simp add: mem_reader_def store_reader_def fun_eq_iff)
qed

lemma mem_writer_reader:
  "w_reader mem_writer t = store_reader (materialized_table t)"
proof -
  have "mem_write_get t table key = Inr (bt_get (materialized_table t table) key)" for table key
    by (simp add: mem_write_get_def get_materialized_table get_mem_store split: option.split)
  then show ?thesis
    by (simp add: mem_writer_def store_reader_def fun_eq_iff mem_write_range_def)
qed

lemma materialized_put:
  "materialized_table (t\<lparr>mw_pending := bt_insert (table, key) (Some v) (mw_pending t)\<rparr>) =
     store_put table key v (materialized_table t)"
  by (rule ext, rule bt_eqI) (simp add: get_materialized_table cong: option.case_cong)

lemma materialized_delete:
  "materialized_table (t\<lparr>mw_pending := bt_insert (table, key) None (mw_pending t)\<rparr>) =
     store_delete table key (materialized_table t)"
  by (rule ext, rule bt_eqI) (simp add: get_materialized_table cong: option.case_cong)

lemma materialized_begin:
  "materialized_table \<lparr>mw_snapshot = db, mw_pending = bt_empty\<rparr> = mem_store db"
  by (rule ext, rule bt_eqI) (simp add: get_materialized_table cong: option.case_cong)

definition mem_healthy :: "mem_engine \<Rightarrow> bool" where
  "mem_healthy e \<longleftrightarrow> \<not> me_inner_poisoned e \<and> \<not> me_writer_poisoned e"

definition mem_txn_of :: "mem_engine \<Rightarrow> mem_write_txn \<Rightarrow> bool" where
  "mem_txn_of e t \<longleftrightarrow> mw_snapshot t = me_inner e"

lemma mem_commit_healthy:
  assumes "mem_healthy e" and "mem_txn_of e t"
  shows "\<exists>e'. mem_commit e t = (e', Inr ()) \<and> mem_healthy e' \<and>
    mem_store (me_inner e') = materialized_table t"
proof (cases "bt_is_empty (mw_pending t)")
  case True
  then have "mem_store (me_inner e) = materialized_table t"
    using assms(2) by (intro ext bt_eqI) (simp add: bt_is_empty_iff get_materialized_table mem_txn_of_def)
  with True assms(1) show ?thesis
    by (simp add: mem_commit_def)
next
  case False
  have "mem_store (fold apply_to_database (bt_entries (mw_pending t)) (me_inner e)) =
      materialized_table t"
    using assms(2) by (intro ext bt_eqI)
      (simp add: get_fold_database get_materialized_table mem_txn_of_def bt_get_def [of "mw_pending t"]
        cong: option.case_cong)
  with False assms(1) show ?thesis
    by (simp add: mem_commit_def write_inner_def mem_healthy_def)
qed

lemma mem_dictionary [simp]:
  "e_writer mem_engine_ops = mem_writer"
  "e_begin_write mem_engine_ops = mem_begin_write"
  "e_commit mem_engine_ops = mem_commit"
  "w_put mem_writer = mem_put"
  "w_delete mem_writer = mem_delete"
  by (simp_all add: mem_engine_ops_def mem_writer_def)

interpretation mem: storage_engine mem_engine_ops "\<lambda>e. mem_store (me_inner e)" materialized_table
  mem_txn_of mem_healthy
proof unfold_locales
  fix e assume "mem_healthy e"
  then show "e_begin_read mem_engine_ops e = Inr (store_reader (mem_store (me_inner e)))"
    by (simp add: mem_engine_ops_def mem_begin_read_def read_inner_def mem_healthy_def mem_reader_eq)
next
  fix e assume "mem_healthy e"
  then show "\<exists>t. e_begin_write mem_engine_ops e = Inr t \<and> mem_txn_of e t \<and>
      materialized_table t = mem_store (me_inner e)"
    by (simp add: mem_engine_ops_def mem_begin_write_def lock_writer_def read_inner_def
        mem_healthy_def mem_txn_of_def materialized_begin)
next
  fix e t assume "mem_healthy e" "mem_txn_of e t"
  then show "\<exists>e'. e_commit mem_engine_ops e t = (e', Inr ()) \<and> mem_healthy e' \<and>
      mem_store (me_inner e') = materialized_table t"
    using mem_commit_healthy by simp
qed (simp_all add: mem_writer_reader mem_put_def mem_delete_def mem_txn_of_def materialized_put
      materialized_delete)

datatype mem_write = WPut string bytes bytes | WDelete string bytes

fun mem_apply :: "mem_write \<Rightarrow> mem_write_txn \<Rightarrow> mem_write_txn res" where
  "mem_apply (WPut table key v) t = mem_put t table key v"
| "mem_apply (WDelete table key) t = mem_delete t table key"

fun store_apply :: "mem_write \<Rightarrow> store \<Rightarrow> store" where
  "store_apply (WPut table key v) s = store_put table key v s"
| "store_apply (WDelete table key) s = store_delete table key s"

lemma mem_apply_run:
  "\<exists>t'. rfold mem_apply ws t = Inr t' \<and> mw_snapshot t' = mw_snapshot t \<and>
        materialized_table t' = fold store_apply ws (materialized_table t)"
proof (induction ws arbitrary: t)
  case (Cons w ws)
  have "\<exists>t'. mem_apply w t = Inr t' \<and> mw_snapshot t' = mw_snapshot t \<and>
      materialized_table t' = store_apply w (materialized_table t)"
    by (cases w) (simp_all add: mem_put_def mem_delete_def materialized_put materialized_delete)
  then show ?case
    using Cons by fastforce
qed simp

text \<open>
  C20. A write transaction on a sound engine is a transaction on the abstract store: any
  sequence of puts and deletes succeeds, every read in between sees the store with the writes
  made so far, range reads included, and the commit makes exactly these writes the state of
  the database.
\<close>

theorem mem_transaction_refines_store:
  assumes "\<not> me_inner_poisoned e" and "\<not> me_writer_poisoned e"
  shows "\<exists>t t' e'. mem_begin_write e = Inr t \<and> rfold mem_apply ws t = Inr t' \<and>
           w_reader mem_writer t' = store_reader (fold store_apply ws (mem_store (me_inner e))) \<and>
           mem_commit e t' = (e', Inr ()) \<and>
           mem_store (me_inner e') = fold store_apply ws (mem_store (me_inner e))"
proof -
  have healthy: "mem_healthy e"
    using assms by (simp add: mem_healthy_def)
  obtain t where t: "mem_begin_write e = Inr t" "mem_txn_of e t"
      "materialized_table t = mem_store (me_inner e)"
    using mem.begin_write [OF healthy] by auto
  obtain t' where t': "rfold mem_apply ws t = Inr t'" "mem_txn_of e t'"
      "materialized_table t' = fold store_apply ws (mem_store (me_inner e))"
    using mem_apply_run [of ws t] t(2,3) by (auto simp: mem_txn_of_def)
  then show ?thesis
    using t(1) mem_commit_healthy [OF healthy t'(2)] mem_writer_reader [of t'] by auto
qed

theorem mem_transaction_refines_store_witness:
  "\<exists>t t' e'. mem_begin_write mem_new = Inr t \<and> rfold mem_apply [WPut ''t'' [1] [2]] t = Inr t' \<and>
     mem_commit mem_new t' = (e', Inr ()) \<and> bt_get (mem_store (me_inner e') ''t'') [1] = Some [2]"
  using mem_transaction_refines_store [of mem_new "[WPut ''t'' [1] [2]]"]
  by (auto simp: mem_new_def)

section \<open>Visitors\<close>

definition without_reserve :: "budget \<Rightarrow> budget" where
  "without_reserve bg = bg\<lparr>bg_reserve := (\<lambda>_ _. Inr ())\<rparr>"

lemma without_reserve_simps [simp]:
  "check_then (without_reserve bg) = check_then bg"
  "check_last (without_reserve bg) = check_last bg"
  "bg_reserve (without_reserve bg) n amount = Inr ()"
  by (auto simp: without_reserve_def check_then_def check_last_def fun_eq_iff)

lemma without_reserve_id: "(\<And>n amount. bg_reserve bg n amount = Inr ()) \<Longrightarrow> without_reserve bg = bg"
  by (cases bg) (simp add: without_reserve_def fun_eq_iff)

lemma visit_entries_eq:
  "mem_visit_entries bg visitor rows = visit_items (without_reserve bg) visitor (map Inr rows)"
proof (induction rows)
  case (Cons row rows)
  obtain key v where "row = (key, v)"
    by (cases row)
  then show ?case
    using Cons by (auto simp: fun_eq_iff check_then_def split: prod.split sum.split)
qed simp

text \<open>
  C31. The native visitor of a snapshot against the one the trait derives from \<open>range\<close>, for
  every visitor and every budget. On a table of the snapshot and a range that is not inverted
  the native visitor makes exactly the run, budget checks included, that the derived one makes
  when every reservation is granted: it never reserves, since it borrows the rows. On a missing
  table or an inverted range it makes one budget check and calls the visitor for nothing. So
  under a budget that refuses no reservation the two runs on such a table are the same, and
  under a budget that refuses nothing both leave the same visitor state and the same result.
\<close>

theorem mem_visit_range_native:
  "mem_visit_range t table start end bg visitor n s =
     (if end \<noteq> [] \<and> start \<ge> end \<or> bt_get (mr_snapshot t) table = None then (Suc n, s, bg_check bg n)
      else visit_range (mem_reader t) table start end (without_reserve bg) visitor n s) \<and>
   ((\<forall>n amount. bg_reserve bg n amount = Inr ()) \<and> \<not> (end \<noteq> [] \<and> start \<ge> end) \<and>
      bt_get (mr_snapshot t) table \<noteq> None \<longrightarrow>
      mem_visit_range t table start end bg visitor n s =
      visit_range (mem_reader t) table start end bg visitor n s) \<and>
   (permissive bg \<longrightarrow>
      snd (mem_visit_range t table start end bg visitor n s) =
      snd (visit_range (mem_reader t) table start end bg visitor n s))"
proof -
  have run: "mem_visit_range t table start end bg visitor n s =
     (if end \<noteq> [] \<and> start \<ge> end \<or> bt_get (mr_snapshot t) table = None then (Suc n, s, bg_check bg n)
      else visit_range (mem_reader t) table start end (without_reserve bg) visitor n s)"
    by (cases "bg_check bg n")
      (auto simp: mem_visit_range_def visit_range_def mem_reader_eq mem_store_def visit_entries_eq
        check_then_def without_reserve_def)
  moreover have "snd (mem_visit_range t table start end bg visitor n s) =
      snd (visit_range (mem_reader t) table start end bg visitor n s)" if "permissive bg"
    using that run without_reserve_id [of bg]
    by (auto simp: visit_range_def mem_reader_eq mem_store_def inverted_range_empty)
  ultimately show ?thesis
    using without_reserve_id [of bg] by auto
qed

definition collect_visitor :: "bytes \<Rightarrow> bytes \<Rightarrow> row list \<Rightarrow> row list \<times> bool res" where
  "collect_visitor key v acc = (acc @ [(key, v)], Inr True)"

theorem mem_visit_range_native_witness:
  "snd (mem_visit_range \<lparr>mr_snapshot = bt_insert ''t'' (bt_insert [1] [2] bt_empty) bt_empty\<rparr>
          ''t'' [0] [] \<lparr>bg_check = (\<lambda>_. Inr ()), bg_reserve = (\<lambda>_ _. Inr ())\<rparr> collect_visitor 0 []) =
   ([([1], [2])], Inr ())"
proof -
  have "permissive \<lparr>bg_check = (\<lambda>_. Inr ()), bg_reserve = (\<lambda>_ _. Inr ())\<rparr>"
    by (simp add: permissive_def)
  then show ?thesis
    by (subst mem_visit_range_native [THEN conjunct2, THEN conjunct2, THEN mp])
      (simp_all add: visit_range_def mem_reader_eq mem_store_def bt_range_def in_range_def collect_visitor_def)
qed

section \<open>The engine as a concurrent system\<close>

text \<open>
  Read transactions are numbered; the writer mutex admits one write transaction at a time, so
  \<open>BeginWrite\<close> is possible only when none is open.
\<close>

datatype mem_event =
    BeginRead nat
  | EndRead nat
  | BeginWrite
  | Put string bytes bytes
  | Delete string bytes
  | Commit
  | Rollback

record mem_system =
  ms_engine :: mem_engine
  ms_writer :: "mem_write_txn option"
  ms_readers :: "nat \<Rightarrow> mem_read_txn option"

definition mem_system_init :: mem_system where
  "mem_system_init = \<lparr>ms_engine = mem_new, ms_writer = None, ms_readers = (\<lambda>_. None)\<rparr>"

inductive mem_step :: "mem_system \<Rightarrow> mem_event \<Rightarrow> mem_system \<Rightarrow> bool" where
  begin_read: "mem_begin_read (ms_engine \<sigma>) = Inr t \<Longrightarrow> ms_readers \<sigma> r = None \<Longrightarrow>
     mem_step \<sigma> (BeginRead r) (\<sigma>\<lparr>ms_readers := (ms_readers \<sigma>)(r \<mapsto> t)\<rparr>)"
| end_read: "ms_readers \<sigma> r = Some t \<Longrightarrow>
     mem_step \<sigma> (EndRead r) (\<sigma>\<lparr>ms_readers := (ms_readers \<sigma>)(r := None)\<rparr>)"
| begin_write: "ms_writer \<sigma> = None \<Longrightarrow> mem_begin_write (ms_engine \<sigma>) = Inr t \<Longrightarrow>
     mem_step \<sigma> BeginWrite (\<sigma>\<lparr>ms_writer := Some t\<rparr>)"
| put: "ms_writer \<sigma> = Some t \<Longrightarrow> mem_put t table key v = Inr t' \<Longrightarrow>
     mem_step \<sigma> (Put table key v) (\<sigma>\<lparr>ms_writer := Some t'\<rparr>)"
| delete: "ms_writer \<sigma> = Some t \<Longrightarrow> mem_delete t table key = Inr t' \<Longrightarrow>
     mem_step \<sigma> (Delete table key) (\<sigma>\<lparr>ms_writer := Some t'\<rparr>)"
| commit: "ms_writer \<sigma> = Some t \<Longrightarrow> mem_commit (ms_engine \<sigma>) t = (e, outcome) \<Longrightarrow>
     mem_step \<sigma> Commit (\<sigma>\<lparr>ms_engine := e, ms_writer := None\<rparr>)"
| rollback: "ms_writer \<sigma> = Some t \<Longrightarrow> mem_step \<sigma> Rollback (\<sigma>\<lparr>ms_writer := None\<rparr>)"

inductive mem_run :: "mem_event list \<Rightarrow> mem_system \<Rightarrow> bool" where
  start: "mem_run [] mem_system_init"
| step: "mem_run evs \<sigma> \<Longrightarrow> mem_step \<sigma> ev \<sigma>' \<Longrightarrow> mem_run (evs @ [ev]) \<sigma>'"

text \<open>
  The specification: a list of committed versions of the store, of which the last is current.
  A reader is pinned to the number of a version, a writer works on its own copy of the
  current version, and a commit appends that copy as one new version.
\<close>

record mvcc_spec =
  sp_versions :: "store list"
  sp_writer :: "store option"
  sp_readers :: "nat \<Rightarrow> nat option"

definition spec_init :: mvcc_spec where
  "spec_init = \<lparr>sp_versions = [\<lambda>_. bt_empty], sp_writer = None, sp_readers = (\<lambda>_. None)\<rparr>"

fun spec_step :: "mem_event \<Rightarrow> mvcc_spec \<Rightarrow> mvcc_spec" where
  "spec_step (BeginRead r) a =
     a\<lparr>sp_readers := (sp_readers a)(r \<mapsto> length (sp_versions a) - 1)\<rparr>"
| "spec_step (EndRead r) a = a\<lparr>sp_readers := (sp_readers a)(r := None)\<rparr>"
| "spec_step BeginWrite a = a\<lparr>sp_writer := Some (last (sp_versions a))\<rparr>"
| "spec_step (Put table key v) a = a\<lparr>sp_writer := map_option (store_put table key v) (sp_writer a)\<rparr>"
| "spec_step (Delete table key) a = a\<lparr>sp_writer := map_option (store_delete table key) (sp_writer a)\<rparr>"
| "spec_step Commit a =
     a\<lparr>sp_versions := sp_versions a @ (case sp_writer a of None \<Rightarrow> [] | Some s \<Rightarrow> [s]),
       sp_writer := None\<rparr>"
| "spec_step Rollback a = a\<lparr>sp_writer := None\<rparr>"

definition pinned :: "store list \<Rightarrow> mem_read_txn \<Rightarrow> nat \<Rightarrow> bool" where
  "pinned versions t i \<longleftrightarrow> i < length versions \<and> mem_reader t = store_reader (versions ! i)"

definition mem_refines :: "mem_system \<Rightarrow> mvcc_spec \<Rightarrow> bool" where
  "mem_refines \<sigma> a \<longleftrightarrow>
     sp_versions a \<noteq> [] \<and>
     mem_store (me_inner (ms_engine \<sigma>)) = last (sp_versions a) \<and>
     rel_option (\<lambda>t s. w_reader mem_writer t = store_reader s) (ms_writer \<sigma>) (sp_writer a) \<and>
     (\<forall>r. rel_option (pinned (sp_versions a)) (ms_readers \<sigma> r) (sp_readers a r))"

definition mem_system_inv :: "mem_system \<Rightarrow> bool" where
  "mem_system_inv \<sigma> \<longleftrightarrow>
     mem_healthy (ms_engine \<sigma>) \<and> (\<forall>t. ms_writer \<sigma> = Some t \<longrightarrow> mem_txn_of (ms_engine \<sigma>) t)"

inductive_cases mem_stepE: "mem_step \<sigma> ev \<sigma>'"

lemma store_reader_inject [simp]: "store_reader s = store_reader s' \<longleftrightarrow> s = s'"
proof
  assume "store_reader s = store_reader s'"
  then have "rd_get (store_reader s) table key = rd_get (store_reader s') table key" for table key
    by simp
  then have "bt_get (s table) key = bt_get (s' table) key" for table key
    by simp
  then show "s = s'"
    by (intro ext bt_eqI)
qed simp

lemma mem_step_inv: "mem_step \<sigma> ev \<sigma>' \<Longrightarrow> mem_system_inv \<sigma> \<Longrightarrow> mem_system_inv \<sigma>'"
proof (induction rule: mem_step.induct)
  case (commit \<sigma> t e outcome)
  then show ?case
    using mem_commit_healthy [of "ms_engine \<sigma>" t] by (auto simp: mem_system_inv_def)
qed (auto simp: mem_system_inv_def mem_begin_write_def mem_put_def mem_delete_def mem_txn_of_def
      lock_writer_def read_inner_def mem_healthy_def)

lemma pinned_append: "pinned versions t i \<Longrightarrow> pinned (versions @ vs) t i"
  by (simp add: pinned_def nth_append)

lemma mem_step_refines:
  assumes "mem_step \<sigma> ev \<sigma>'" and "mem_system_inv \<sigma>" and "mem_refines \<sigma> a"
  shows "mem_refines \<sigma>' (spec_step ev a)"
  using assms
proof (induction rule: mem_step.induct)
  case (begin_read \<sigma> t r)
  then have "sp_versions a \<noteq> []" "mem_reader t = store_reader (last (sp_versions a))"
    by (auto simp: mem_refines_def mem_begin_read_def read_inner_def mem_reader_eq rbind_eq_Inr
        split: if_splits)
  then show ?case
    using begin_read by (simp add: mem_refines_def pinned_def last_conv_nth)
next
  case (commit \<sigma> t e outcome)
  then have "mem_store (me_inner e) = materialized_table t"
    using mem_commit_healthy [of "ms_engine \<sigma>" t] by (auto simp: mem_system_inv_def)
  moreover have "sp_writer a = Some (materialized_table t)"
    using commit by (cases "sp_writer a") (auto simp: mem_refines_def mem_writer_reader)
  ultimately show ?case
    using commit by (auto simp: mem_refines_def intro: option.rel_mono_strong pinned_append)
next
  case (begin_write \<sigma> t)
  then show ?case
    by (auto simp: mem_refines_def mem_begin_write_def lock_writer_def read_inner_def
        mem_writer_reader materialized_begin rbind_eq_Inr split: if_splits)
qed (auto simp: mem_refines_def mem_writer_reader mem_put_def mem_delete_def materialized_put
      materialized_delete option_rel_Some1)

lemma mem_run_inv: "mem_run evs \<sigma> \<Longrightarrow> mem_system_inv \<sigma>"
proof (induction rule: mem_run.induct)
  case start
  then show ?case
    by (simp add: mem_system_inv_def mem_system_init_def mem_new_def mem_healthy_def)
qed (auto intro: mem_step_inv)

lemma mem_run_snoc: "mem_run evs \<sigma> \<Longrightarrow> mem_step \<sigma> ev \<sigma>' \<Longrightarrow> evs' = evs @ [ev] \<Longrightarrow> mem_run evs' \<sigma>'"
  by (simp add: mem_run.step)

lemma mem_init_refines: "mem_refines mem_system_init spec_init"
  by (simp add: mem_refines_def mem_system_init_def spec_init_def mem_new_def mem_store_def fun_eq_iff)

text \<open>
  C19. Snapshot isolation: under every interleaving of readers with the writer, the engine
  behaves like a list of committed versions. Each reader keeps seeing the version that was
  current when it began, the writer sees the current version overlaid with its own writes,
  and a commit publishes exactly that view in one step.
\<close>

theorem mem_engine_snapshot_isolation:
  assumes "mem_run evs \<sigma>"
  shows "mem_refines \<sigma> (fold spec_step evs spec_init)"
  using assms
proof (induction rule: mem_run.induct)
  case (step evs \<sigma> ev \<sigma>')
  then show ?case
    using mem_step_refines mem_run_inv by simp
qed (simp add: mem_init_refines)

theorem mem_engine_snapshot_isolation_witness:
  "\<exists>\<sigma>. mem_run [BeginRead 0, BeginWrite, Put ''t'' [1] [2], Commit] \<sigma> \<and>
       mem_refines \<sigma> (fold spec_step [BeginRead 0, BeginWrite, Put ''t'' [1] [2], Commit] spec_init) \<and>
       bt_get (mem_store (me_inner (ms_engine \<sigma>)) ''t'') [1] = Some [2]"
proof -
  let ?s1 = "mem_system_init\<lparr>ms_readers := (ms_readers mem_system_init)(0 \<mapsto> \<lparr>mr_snapshot = bt_empty\<rparr>)\<rparr>"
  let ?t = "\<lparr>mw_snapshot = bt_empty, mw_pending = bt_empty\<rparr>"
  let ?t' = "\<lparr>mw_snapshot = bt_empty, mw_pending = bt_insert (''t'', [1]) (Some [2]) bt_empty\<rparr>"
  have "mem_step mem_system_init (BeginRead 0) ?s1"
    by (rule mem_step.begin_read)
      (simp_all add: mem_system_init_def mem_new_def mem_begin_read_def read_inner_def)
  from mem_run.start this have "mem_run [BeginRead 0] ?s1"
    by (rule mem_run_snoc) simp
  moreover have "mem_step ?s1 BeginWrite (?s1\<lparr>ms_writer := Some ?t\<rparr>)"
    by (rule mem_step.begin_write)
      (simp_all add: mem_system_init_def mem_new_def mem_begin_write_def lock_writer_def read_inner_def)
  ultimately have "mem_run [BeginRead 0, BeginWrite] (?s1\<lparr>ms_writer := Some ?t\<rparr>)"
    by (rule mem_run_snoc) simp
  moreover have "mem_step (?s1\<lparr>ms_writer := Some ?t\<rparr>) (Put ''t'' [1] [2])
      (?s1\<lparr>ms_writer := Some ?t, ms_writer := Some ?t'\<rparr>)" (is "mem_step _ _ ?s3")
    by (rule mem_step.put [where t = ?t]) (simp_all add: mem_put_def)
  ultimately have run3: "mem_run [BeginRead 0, BeginWrite, Put ''t'' [1] [2]] ?s3"
    by (rule mem_run_snoc) simp
  obtain e outcome where "mem_commit (ms_engine ?s3) ?t' = (e, outcome)"
    by (cases "mem_commit (ms_engine ?s3) ?t'")
  then have "mem_step ?s3 Commit (?s3\<lparr>ms_engine := e, ms_writer := None\<rparr>)"
    by (intro mem_step.commit [where t = ?t']) simp_all
  with run3 obtain \<sigma> where run: "mem_run [BeginRead 0, BeginWrite, Put ''t'' [1] [2], Commit] \<sigma>"
    using mem_run_snoc by fastforce
  then have refines:
    "mem_refines \<sigma> (fold spec_step [BeginRead 0, BeginWrite, Put ''t'' [1] [2], Commit] spec_init)"
    by (rule mem_engine_snapshot_isolation)
  then have "bt_get (mem_store (me_inner (ms_engine \<sigma>)) ''t'') [1] = Some [2]"
    by (simp add: mem_refines_def spec_init_def)
  with run refines show ?thesis
    by blast
qed

end
