(* ===== verification/Dist_Locks.thy ===== *)
theory Dist_Locks
  imports Txn_Base Mem_Engine
begin

text \<open>
  The records of distributed transactions (\<open>src/repl/dist_txn.rs\<close>) and the key locks they
  hold on a participant (\<open>src/repl/dist_txn/locks.rs\<close>): the write sets of a prepare and of a
  finish, the check every commit makes against the locks, and the checks of reads, plain and
  budgeted. Clock readings are arguments.
\<close>

section \<open>Records\<close>

definition DIST_TXN_PARTICIPANT_TABLE :: string where
  "DIST_TXN_PARTICIPANT_TABLE = ''__dist_txn_participants''"
definition DIST_TXN_COORDINATOR_TABLE :: string where
  "DIST_TXN_COORDINATOR_TABLE = ''__dist_txn_coordinator''"
definition DIST_TXN_FINISHED_TABLE :: string where
  "DIST_TXN_FINISHED_TABLE = ''__dist_txn_finished''"
definition LOCKS_TABLE :: string where "LOCKS_TABLE = ''__dist_txn_key_locks''"
definition LOCK_FORMAT_KEY :: bytes where "LOCK_FORMAT_KEY = as_bytes ''dist_txn_key_lock_format''"
definition LOCK_FORMAT :: bytes where "LOCK_FORMAT = as_bytes ''1''"
definition DIST_TXN_RECORD_VERSION :: "16 word" where "DIST_TXN_RECORD_VERSION = 1"

lemmas dist_table_defs =
  DIST_TXN_PARTICIPANT_TABLE_def DIST_TXN_COORDINATOR_TABLE_def DIST_TXN_FINISHED_TABLE_def
  LOCKS_TABLE_def

definition txn_key :: "dist_txn_id \<Rightarrow> bytes" where
  "txn_key txn_id = u64_to_be txn_id"

definition prepared_new :: "dist_txn_id \<Rightarrow> op list \<Rightarrow> u64 \<Rightarrow> u64 \<Rightarrow> prepared_txn_record" where
  "prepared_new txn_id ops deadline_ms now_ms =
     PreparedTxnRecord DIST_TXN_RECORD_VERSION txn_id ops now_ms deadline_ms 0"

definition decision_new :: "dist_txn_id \<Rightarrow> decision \<Rightarrow> u64 \<Rightarrow> u64 \<Rightarrow> coordinator_decision_record" where
  "decision_new txn_id decision deadline_ms now_ms =
     CoordinatorDecisionRecord DIST_TXN_RECORD_VERSION txn_id decision now_ms deadline_ms 0"

definition finished_new :: "dist_txn_id \<Rightarrow> decision \<Rightarrow> u64 \<Rightarrow> finished_txn_record" where
  "finished_new txn_id decision now_ms =
     FinishedTxnRecord DIST_TXN_RECORD_VERSION txn_id decision now_ms"

text \<open>The \<open>Display\<close> texts of \<open>storage/error.rs\<close>.\<close>

fun show_storage_error :: "storage_error \<Rightarrow> string" where
  "show_storage_error NotFound = ''not found''"
| "show_storage_error (Io m) = ''io error: '' @ m"
| "show_storage_error (Corruption m) = ''data corruption: '' @ m"
| "show_storage_error Conflict = ''write conflict''"
| "show_storage_error (ResourceLimit m) = ''read resource limit: '' @ m"
| "show_storage_error (Timeout m) = ''read timeout: '' @ m"
| "show_storage_error (Cancelled m) = ''read cancelled: '' @ m"
| "show_storage_error (Backend m) = ''storage backend error: '' @ m"

definition validate_record_version :: "16 word \<Rightarrow> unit res" where
  "validate_record_version version =
     (if version \<noteq> DIST_TXN_RECORD_VERSION
      then Inl (Corruption (''unsupported dist txn record version '' @ show_nat (unat version)))
      else Inr ())"

definition encode_prepared :: "codecs \<Rightarrow> prepared_txn_record \<Rightarrow> bytes res" where
  "encode_prepared cs record = map_err Backend (to_vec (c_prepared cs) record)"

definition decode_prepared :: "codecs \<Rightarrow> bytes \<Rightarrow> prepared_txn_record res" where
  "decode_prepared cs bs =
     rbind (map_err (\<lambda>err. Corruption (''dist txn prepared record: '' @ err))
              (from_slice (c_prepared cs) bs)) (\<lambda>record.
     rbind (validate_record_version (pr_version record)) (\<lambda>_.
     rbind (map_err (\<lambda>err. Corruption (''invalid prepared transaction operations: '' @ show_storage_error err))
              (validate_public_ops (pr_ops record))) (\<lambda>_.
     Inr record)))"

definition encode_decision :: "codecs \<Rightarrow> coordinator_decision_record \<Rightarrow> bytes res" where
  "encode_decision cs record = map_err Backend (to_vec (c_decision cs) record)"

definition decode_decision :: "codecs \<Rightarrow> bytes \<Rightarrow> coordinator_decision_record res" where
  "decode_decision cs bs =
     rbind (map_err (\<lambda>err. Corruption (''dist txn decision record: '' @ err))
              (from_slice (c_decision cs) bs)) (\<lambda>record.
     rbind (validate_record_version (cd_version record)) (\<lambda>_.
     Inr record))"

definition encode_finished :: "codecs \<Rightarrow> finished_txn_record \<Rightarrow> bytes res" where
  "encode_finished cs record = map_err Backend (to_vec (c_finished cs) record)"

definition decode_finished :: "codecs \<Rightarrow> bytes \<Rightarrow> finished_txn_record res" where
  "decode_finished cs bs =
     rbind (map_err (\<lambda>err. Corruption (''dist txn finished record: '' @ err))
              (from_slice (c_finished cs) bs)) (\<lambda>record.
     rbind (validate_record_version (fr_version record)) (\<lambda>_.
     Inr record))"

section \<open>Prepare and finish\<close>

definition lock_format :: "reader \<Rightarrow> bool res" where
  "lock_format read =
     rbind (rd_get read TXN_META_TABLE LOCK_FORMAT_KEY) (\<lambda>found.
       case found of
         None \<Rightarrow> Inr False
       | Some b \<Rightarrow>
           if b = LOCK_FORMAT then Inr True
           else Inl (Corruption ''unsupported distributed transaction lock format''))"

definition reject_legacy_prepares :: "reader \<Rightarrow> unit res" where
  "reject_legacy_prepares read =
     rbind (lock_format read) (\<lambda>supported.
       if supported then Inr ()
       else rbind (rd_range read DIST_TXN_PARTICIPANT_TABLE [] []) (\<lambda>items.
         if items \<noteq> [] then Inl Conflict else Inr ()))"

text \<open>The keys a prepare locks: each must be free, and is added to the write set.\<close>

definition acquire_lock :: "reader \<Rightarrow> dist_txn_id \<Rightarrow> write_key \<Rightarrow> write_set \<Rightarrow> write_set res" where
  "acquire_lock read txn_id = (\<lambda>(table, row_key) writes.
     rbind (version_key table row_key) (\<lambda>lock.
     rbind (rd_get read LOCKS_TABLE lock) (\<lambda>owner.
       if owner \<noteq> None then Inl Conflict
       else Inr (bt_insert (LOCKS_TABLE, lock) (Some (encode_txn_id txn_id)) writes))))"

definition check_lock_kept :: "reader \<Rightarrow> dist_txn_id \<Rightarrow> write_key \<Rightarrow> unit res" where
  "check_lock_kept read txn_id = (\<lambda>(table, row_key).
     rbind (version_key table row_key) (\<lambda>lock.
     rbind (rd_get read LOCKS_TABLE lock) (\<lambda>owner.
       if owner \<noteq> Some (encode_txn_id txn_id)
       then Inl (Corruption ''prepared transaction lost a key lock'')
       else Inr ())))"

definition prepare_write_set ::
  "codecs \<Rightarrow> reader \<Rightarrow> dist_txn_id \<Rightarrow> op list \<Rightarrow> u64 \<Rightarrow> u64 \<Rightarrow> write_set res" where
  "prepare_write_set cs read txn_id ops deadline_ms prepared_at_ms =
     rbind (validate_public_ops ops) (\<lambda>_.
     let key = txn_key txn_id in
     rbind (rd_get read DIST_TXN_FINISHED_TABLE key) (\<lambda>finished_bytes.
     case finished_bytes of
       Some bs \<Rightarrow>
         rbind (decode_finished cs bs) (\<lambda>finished.
           if fr_txn_id finished \<noteq> txn_id
           then Inl (Corruption ''finished transaction id mismatch'')
           else Inl Conflict)
     | None \<Rightarrow>
         rbind (reject_legacy_prepares read) (\<lambda>_.
         let public = ops_to_write_set ops in
         rbind (rd_get read DIST_TXN_PARTICIPANT_TABLE key) (\<lambda>prepared_bytes.
         case prepared_bytes of
           Some bs \<Rightarrow>
             rbind (decode_prepared cs bs) (\<lambda>prepared.
               if pr_txn_id prepared \<noteq> txn_id \<or> pr_ops prepared \<noteq> ops then Inl Conflict
               else rbind (rfold (\<lambda>tk _. check_lock_kept read txn_id tk) (bt_keys public) ()) (\<lambda>_.
                 Inr bt_empty))
         | None \<Rightarrow>
             rbind (rfold (acquire_lock read txn_id) (bt_keys public) bt_empty) (\<lambda>writes.
             let writes = bt_insert (TXN_META_TABLE, LOCK_FORMAT_KEY) (Some LOCK_FORMAT) writes;
                 record = prepared_new txn_id ops deadline_ms prepared_at_ms
             in rbind (encode_prepared cs record) (\<lambda>encoded.
                Inr (bt_insert (DIST_TXN_PARTICIPANT_TABLE, key) (Some encoded) writes)))))))"

definition release_lock ::
  "reader \<Rightarrow> dist_txn_id \<Rightarrow> decision \<Rightarrow> write_key \<Rightarrow> write_set \<Rightarrow> write_set res" where
  "release_lock read txn_id decision = (\<lambda>(table, row_key) writes.
     rbind (version_key table row_key) (\<lambda>lock.
     rbind (rd_get read LOCKS_TABLE lock) (\<lambda>found.
       case found of
         Some owner \<Rightarrow>
           rbind (decode_txn_id owner) (\<lambda>owner_id.
             if owner_id = txn_id then Inr (bt_insert (LOCKS_TABLE, lock) None writes)
             else Inl (Corruption ''prepared transaction key lock mismatch''))
       | None \<Rightarrow>
           if decision = DAbort then Inr writes
           else Inl (Corruption ''prepared transaction key lock mismatch''))))"

definition finish_write_set ::
  "codecs \<Rightarrow> reader \<Rightarrow> dist_txn_id \<Rightarrow> decision \<Rightarrow> u64 \<Rightarrow> write_set res" where
  "finish_write_set cs read txn_id decision finished_at_ms =
     (let key = txn_key txn_id in
     rbind (rd_get read DIST_TXN_FINISHED_TABLE key) (\<lambda>finished_bytes.
     case finished_bytes of
       Some bs \<Rightarrow>
         rbind (decode_finished cs bs) (\<lambda>finished.
           if fr_txn_id finished \<noteq> txn_id
           then Inl (Corruption ''finished transaction id mismatch'')
           else if fr_decision finished = decision then Inr bt_empty
           else Inl Conflict)
     | None \<Rightarrow>
         rbind (rd_get read DIST_TXN_PARTICIPANT_TABLE key) (\<lambda>prepared_bytes.
         rbind (opt_transpose (decode_prepared cs) prepared_bytes) (\<lambda>prepared.
         rbind (case prepared of
                  None \<Rightarrow> Inr bt_empty
                | Some prepared \<Rightarrow>
                    if pr_txn_id prepared \<noteq> txn_id
                    then Inl (Corruption ''prepared transaction id mismatch'')
                    else let public = ops_to_write_set (pr_ops prepared) in
                      rbind (rfold (release_lock read txn_id decision) (bt_keys public) bt_empty) (\<lambda>writes.
                      Inr (if decision = DCommit then bt_extend writes public else writes))) (\<lambda>writes.
         rbind (encode_finished cs (finished_new txn_id decision finished_at_ms)) (\<lambda>encoded.
         let writes = bt_insert (DIST_TXN_FINISHED_TABLE, key) (Some encoded) writes
         in Inr (bt_insert (DIST_TXN_PARTICIPANT_TABLE, key) None writes)))))))"

section \<open>Locks against commits and reads\<close>

definition check_write_lock :: "codecs \<Rightarrow> reader \<Rightarrow> write_set \<Rightarrow> write_key \<Rightarrow> unit res" where
  "check_write_lock cs read writes = (\<lambda>(table, key).
     rbind (version_key table key) (\<lambda>lock.
     rbind (rd_get read LOCKS_TABLE lock) (\<lambda>found.
       case found of
         None \<Rightarrow> Inr ()
       | Some owner_bytes \<Rightarrow>
           rbind (decode_txn_id owner_bytes) (\<lambda>owner.
           rbind (opt_transpose (decode_finished cs)
                    (Option.bind (bt_get writes (DIST_TXN_FINISHED_TABLE, txn_key owner)) (\<lambda>v. v))) (\<lambda>finished.
             if bt_get writes (LOCKS_TABLE, lock) \<noteq> Some None
                \<or> bt_get writes (DIST_TXN_PARTICIPANT_TABLE, txn_key owner) \<noteq> Some None
                \<or> \<not> (case finished of
                        None \<Rightarrow> False
                      | Some record \<Rightarrow> fr_txn_id record = owner \<and> fr_decision record = DCommit)
             then Inl Conflict else Inr ())))))"

definition validate_write_locks :: "codecs \<Rightarrow> reader \<Rightarrow> write_set \<Rightarrow> unit res" where
  "validate_write_locks cs read writes =
     (if \<forall>(table, _) \<in> set (bt_keys writes). table_is_reserved table then Inr ()
      else rbind (reject_legacy_prepares read) (\<lambda>_.
        rfold (\<lambda>tk _. check_write_lock cs read writes tk)
          (filter (\<lambda>(table, _). \<not> table_is_reserved table) (bt_keys writes)) ()))"

definition validate_read_key :: "reader \<Rightarrow> string \<Rightarrow> bytes \<Rightarrow> unit res" where
  "validate_read_key read table key =
     (if table_is_reserved table then Inr ()
      else rbind (reject_legacy_prepares read) (\<lambda>_.
        rbind (version_key table key) (\<lambda>lock.
        rbind (rd_get read LOCKS_TABLE lock) (\<lambda>owner.
          if owner \<noteq> None then Inl Conflict else Inr ()))))"

definition validate_read_keys :: "reader \<Rightarrow> string \<Rightarrow> bytes list \<Rightarrow> unit res" where
  "validate_read_keys read table keys =
     (if table_is_reserved table then Inr ()
      else rbind (reject_legacy_prepares read) (\<lambda>_.
        rfold (\<lambda>key _.
          rbind (version_key table key) (\<lambda>lock.
          rbind (rd_get read LOCKS_TABLE lock) (\<lambda>owner.
            if owner \<noteq> None then Inl Conflict else Inr ()))) keys ()))"

definition lock_range :: "string \<Rightarrow> bytes \<Rightarrow> bytes \<Rightarrow> (bytes \<times> bytes) res" where
  "lock_range table start end =
     rbind (version_key table []) (\<lambda>pre.
     rbind (version_key table start) (\<lambda>first.
     rbind (if end = [] then Inr (range_end pre) else version_key table end) (\<lambda>last.
     Inr (first, last))))"

definition has_range_locks :: "reader \<Rightarrow> string \<Rightarrow> bytes \<Rightarrow> bytes \<Rightarrow> bool res" where
  "has_range_locks read table start end =
     (if table_is_reserved table then Inr False
      else rbind (reject_legacy_prepares read) (\<lambda>_.
        rbind (lock_range table start end) (\<lambda>(first, last).
        rbind (rd_range read LOCKS_TABLE first last) (\<lambda>items.
          case items of
            [] \<Rightarrow> Inr False
          | entry # _ \<Rightarrow> rbind entry (\<lambda>_. Inr True)))))"

definition validate_read_range :: "reader \<Rightarrow> string \<Rightarrow> bytes \<Rightarrow> bytes \<Rightarrow> unit res" where
  "validate_read_range read table start end =
     rbind (has_range_locks read table start end) (\<lambda>locked.
       if locked then Inl Conflict else Inr ())"

section \<open>Budgeted checks\<close>

text \<open>
  The budgeted checks call the visitors of a reader with closures that set one flag. A check
  carries the number of budget checks made so far.
\<close>

record guarded_reader =
  gr_visit_get :: "string \<Rightarrow> bytes \<Rightarrow> budget \<Rightarrow> (bytes option \<Rightarrow> bool \<Rightarrow> bool \<times> bool res) \<Rightarrow> bool visit"
  gr_visit_range :: "string \<Rightarrow> bytes \<Rightarrow> bytes \<Rightarrow> budget \<Rightarrow> (bytes \<Rightarrow> bytes \<Rightarrow> bool \<Rightarrow> bool \<times> bool res) \<Rightarrow> bool visit"

definition default_guarded :: "reader \<Rightarrow> guarded_reader" where
  "default_guarded r = \<lparr>gr_visit_get = visit_get r, gr_visit_range = visit_range r\<rparr>"

definition mem_guarded :: "mem_read_txn \<Rightarrow> guarded_reader" where
  "mem_guarded t = \<lparr>gr_visit_get = mem_visit_get t, gr_visit_range = mem_visit_range t\<rparr>"

definition gbind :: "nat \<times> 'a res \<Rightarrow> (nat \<Rightarrow> 'a \<Rightarrow> nat \<times> 'b res) \<Rightarrow> nat \<times> 'b res" where
  "gbind m f = (case m of (n, Inl e) \<Rightarrow> (n, Inl e) | (n, Inr x) \<Rightarrow> f n x)"

definition flag_of :: "nat \<times> bool \<times> unit res \<Rightarrow> nat \<times> bool res" where
  "flag_of v = (case v of (n, flag, Inl e) \<Rightarrow> (n, Inl e) | (n, flag, Inr _) \<Rightarrow> (n, Inr flag))"

definition reject_legacy_prepares_guarded :: "guarded_reader \<Rightarrow> budget \<Rightarrow> nat \<Rightarrow> nat \<times> unit res" where
  "reject_legacy_prepares_guarded read bg n =
     gbind (flag_of (gr_visit_get read TXN_META_TABLE LOCK_FORMAT_KEY bg
              (\<lambda>found supported.
                 case found of
                   None \<Rightarrow> (False, Inr False)
                 | Some b \<Rightarrow>
                     if b = LOCK_FORMAT then (True, Inr False)
                     else (supported, Inl (Corruption ''unsupported distributed transaction lock format'')))
              n False)) (\<lambda>n supported.
       if supported then (n, Inr ())
       else gbind (flag_of (gr_visit_range read DIST_TXN_PARTICIPANT_TABLE [] [] bg
                    (\<lambda>_ _ _. (True, Inr False)) n False)) (\<lambda>n found.
         if found then (n, Inl Conflict) else (n, Inr ())))"

definition bytes_struct_size :: nat where
  \<comment> \<open>\<open>std::mem::size_of::<Bytes>()\<close> of a vector: pointer, capacity, length\<close>
  "bytes_struct_size = 24"

definition check_key_guarded :: "guarded_reader \<Rightarrow> string \<Rightarrow> budget \<Rightarrow> bytes \<Rightarrow> nat \<Rightarrow> nat \<times> unit res" where
  "check_key_guarded read table bg key n =
     gbind (n, bg_reserve bg n
              (usize_saturating_add (usize_saturating_add (usize_saturating_add 8 (length table)) (length key))
                bytes_struct_size)) (\<lambda>n _.
     gbind (n, version_key table key) (\<lambda>n lock_key.
     gbind (flag_of (gr_visit_get read LOCKS_TABLE lock_key bg
              (\<lambda>found _. (found \<noteq> None, Inr False)) n False)) (\<lambda>n found.
       if found then (n, Inl Conflict) else (n, Inr ()))))"

definition validate_read_key_guarded ::
  "guarded_reader \<Rightarrow> string \<Rightarrow> bytes \<Rightarrow> budget \<Rightarrow> nat \<Rightarrow> nat \<times> unit res" where
  "validate_read_key_guarded read table key bg n =
     (if table_is_reserved table then (Suc n, bg_check bg n)
      else gbind (reject_legacy_prepares_guarded read bg n) (\<lambda>n _.
        gbind (check_key_guarded read table bg key n) (\<lambda>n _.
        (Suc n, bg_check bg n))))"

fun check_keys_guarded :: "guarded_reader \<Rightarrow> string \<Rightarrow> budget \<Rightarrow> bytes list \<Rightarrow> nat \<Rightarrow> nat \<times> unit res" where
  "check_keys_guarded read table bg [] n = (Suc n, bg_check bg n)"
| "check_keys_guarded read table bg (key # keys) n =
     gbind (check_key_guarded read table bg key n) (\<lambda>n _. check_keys_guarded read table bg keys n)"

definition validate_read_keys_guarded ::
  "guarded_reader \<Rightarrow> string \<Rightarrow> bytes list \<Rightarrow> budget \<Rightarrow> nat \<Rightarrow> nat \<times> unit res" where
  "validate_read_keys_guarded read table keys bg n =
     (if table_is_reserved table then (Suc n, bg_check bg n)
      else gbind (reject_legacy_prepares_guarded read bg n) (\<lambda>n _.
        check_keys_guarded read table bg keys n))"

definition validate_read_range_guarded ::
  "guarded_reader \<Rightarrow> string \<Rightarrow> bytes \<Rightarrow> bytes \<Rightarrow> budget \<Rightarrow> nat \<Rightarrow> nat \<times> unit res" where
  "validate_read_range_guarded read table start end bg n =
     (if table_is_reserved table then (Suc n, bg_check bg n)
      else gbind (reject_legacy_prepares_guarded read bg n) (\<lambda>n _.
        let key_bytes = usize_saturating_add (usize_saturating_add (usize_saturating_add
              (min (3 * usize_saturating_add 8 (length table)) usize_max) (length start)) (length end))
              (4 * bytes_struct_size) in
        gbind (n, bg_reserve bg n key_bytes) (\<lambda>n _.
        gbind (n, lock_range table start end) (\<lambda>n (first, last).
        gbind (flag_of (gr_visit_range read LOCKS_TABLE first last bg
                 (\<lambda>_ _ _. (True, Inr False)) n False)) (\<lambda>n found.
          if found then (n, Inl Conflict) else (Suc n, bg_check bg n))))))"

lemma gbind_simps [simp]:
  "gbind (n, Inl e) f = (n, Inl e)"
  "gbind (n, Inr x) f = f n x"
  by (simp_all add: gbind_def)

lemma reject_legacy_prepares_store:
  "reject_legacy_prepares (store_reader s) =
     (case bt_get (s TXN_META_TABLE) LOCK_FORMAT_KEY of
        None \<Rightarrow> if bt_entries (s DIST_TXN_PARTICIPANT_TABLE) \<noteq> [] then Inl Conflict else Inr ()
      | Some b \<Rightarrow> if b = LOCK_FORMAT then Inr ()
                 else Inl (Corruption ''unsupported distributed transaction lock format''))"
  by (simp add: reject_legacy_prepares_def lock_format_def split: option.split)

text \<open>
  A budgeted check agrees with a plain result when it returns that result or an error with
  which the budget refused a check or a reservation. The relation is kept by sequencing, so it
  is enough that the visitors of the reader agree with the store.
\<close>

definition budget_refuses :: "budget \<Rightarrow> storage_error \<Rightarrow> bool" where
  "budget_refuses bg e \<longleftrightarrow> (\<exists>n. bg_check bg n = Inl e) \<or> (\<exists>n amount. bg_reserve bg n amount = Inl e)"

definition agrees :: "budget \<Rightarrow> nat \<times> 'a res \<Rightarrow> 'a res \<Rightarrow> bool" where
  "agrees bg m r \<longleftrightarrow> snd m = r \<or> (\<exists>e. budget_refuses bg e \<and> snd m = Inl e)"

definition flag_after :: "bool \<times> bool res \<Rightarrow> bool res" where
  "flag_after v = (case v of (flag, Inl e) \<Rightarrow> Inl e | (flag, Inr _) \<Rightarrow> Inr flag)"

lemma agrees_pair [simp]: "agrees bg (n, r) r"
  by (simp add: agrees_def)

lemma agrees_check: "agrees bg (m, bg_check bg n) (Inr ())"
  by (cases "bg_check bg n") (auto simp: agrees_def budget_refuses_def)

lemma agrees_reserve: "agrees bg (m, bg_reserve bg n amount) (Inr ())"
  by (cases "bg_reserve bg n amount") (auto simp: agrees_def budget_refuses_def)

lemma agrees_bind:
  assumes "agrees bg m r" and "\<And>n x. r = Inr x \<Longrightarrow> agrees bg (f n x) (k x)"
  shows "agrees bg (gbind m f) (rbind r k)"
proof (cases m)
  case (Pair n outcome)
  then show ?thesis
    using assms by (cases outcome; cases r) (auto simp: agrees_def)
qed

lemma agrees_bind_reserve:
  "(\<And>n. agrees bg (f n ()) r) \<Longrightarrow> agrees bg (gbind (n, bg_reserve bg n' amount) f) r"
  by (cases "bg_reserve bg n' amount") (auto simp: agrees_def budget_refuses_def)

lemma agrees_permissive: "permissive bg \<Longrightarrow> agrees bg m r \<longleftrightarrow> snd m = r"
  by (simp add: agrees_def budget_refuses_def)

locale guarded_visits =
  fixes read :: guarded_reader and s :: store
  assumes visits_get: "agrees bg (flag_of (gr_visit_get read table key bg visitor n False))
      (flag_after (visitor (bt_get (s table) key) False))"
    and visits_range: "agrees bg (flag_of (gr_visit_range read table start end bg
      (\<lambda>_ _ _. (True, Inr False)) n False)) (Inr (bt_range start end (s table) \<noteq> []))"
begin

lemma finds_rows:
  assumes "\<And>n. agrees bg (f n (bt_range start end (s table) \<noteq> [])) r"
  shows "agrees bg (gbind (flag_of (gr_visit_range read table start end bg (\<lambda>_ _ _. (True, Inr False)) n False)) f) r"
  using agrees_bind [OF visits_range, where f = f and k = "\<lambda>_. r"] assms by auto

lemma finds_value:
  assumes "\<And>n. agrees bg (f n (bt_get (s table) key \<noteq> None)) r"
  shows "agrees bg (gbind (flag_of (gr_visit_get read table key bg (\<lambda>found _. (found \<noteq> None, Inr False)) n False)) f) r"
  using agrees_bind [OF visits_get [where visitor = "\<lambda>found _. (found \<noteq> None, Inr False)"], where f = f and k = "\<lambda>_. r"]
    assms by (auto simp: flag_after_def)

lemma rejects_legacy:
  "agrees bg (reject_legacy_prepares_guarded read bg n) (reject_legacy_prepares (store_reader s))"
proof -
  let ?format = "\<lambda>found supported. case found of
      None \<Rightarrow> (False, Inr False)
    | Some b \<Rightarrow> if b = LOCK_FORMAT then (True, Inr False)
        else (supported, Inl (Corruption ''unsupported distributed transaction lock format''))"
  have "agrees bg (reject_legacy_prepares_guarded read bg n)
    (rbind (flag_after (?format (bt_get (s TXN_META_TABLE) LOCK_FORMAT_KEY) False))
      (\<lambda>supported. if supported then Inr ()
        else if bt_range [] [] (s DIST_TXN_PARTICIPANT_TABLE) \<noteq> [] then Inl Conflict else Inr ()))"
    unfolding reject_legacy_prepares_guarded_def
    by (rule agrees_bind [OF visits_get])
      (auto intro!: finds_rows)
  then show ?thesis
    by (cases "bt_get (s TXN_META_TABLE) LOCK_FORMAT_KEY")
      (simp_all add: reject_legacy_prepares_store flag_after_def split: if_split_asm)
qed

lemma checks_key:
  "agrees bg (check_key_guarded read table bg key n)
     (rbind (version_key table key) (\<lambda>lock. rbind (rd_get (store_reader s) LOCKS_TABLE lock)
       (\<lambda>owner. if owner \<noteq> None then Inl Conflict else Inr ())))"
  unfolding check_key_guarded_def
  by (intro agrees_bind_reserve agrees_bind [where r = "version_key table key"] finds_value) simp_all

lemma checks_keys:
  "agrees bg (check_keys_guarded read table bg keys n)
     (rfold (\<lambda>key _. rbind (version_key table key) (\<lambda>lock. rbind (rd_get (store_reader s) LOCKS_TABLE lock)
       (\<lambda>owner. if owner \<noteq> None then Inl Conflict else Inr ()))) keys ())"
proof (induction keys arbitrary: n)
  case (Cons key keys)
  show ?case
    unfolding check_keys_guarded.simps rfold.simps
    by (rule agrees_bind [OF checks_key]) (use Cons.IH in simp)
qed (simp add: agrees_check)

lemma validates_key:
  "agrees bg (validate_read_key_guarded read table key bg n) (validate_read_key (store_reader s) table key)"
proof -
  have "agrees bg (gbind (check_key_guarded read table bg key n) (\<lambda>n _. (Suc n, bg_check bg n)))
      (rbind (rbind (version_key table key) (\<lambda>lock. rbind (rd_get (store_reader s) LOCKS_TABLE lock)
        (\<lambda>owner. if owner \<noteq> None then Inl Conflict else Inr ()))) Inr)" for n
    by (rule agrees_bind [OF checks_key]) (simp add: agrees_check)
  moreover have "rbind r Inr = r" for r :: "unit res"
    by (cases r) simp_all
  ultimately show ?thesis
    by (auto simp: validate_read_key_guarded_def validate_read_key_def agrees_check
        intro!: agrees_bind [OF rejects_legacy])
qed

lemma validates_keys:
  "agrees bg (validate_read_keys_guarded read table keys bg n) (validate_read_keys (store_reader s) table keys)"
  using checks_keys [where table = table and keys = keys]
  by (auto simp: validate_read_keys_guarded_def validate_read_keys_def agrees_check
      intro!: agrees_bind [OF rejects_legacy])

lemma validates_range:
  "agrees bg (validate_read_range_guarded read table start end bg n) (validate_read_range (store_reader s) table start end)"
proof -
  have "validate_read_range (store_reader s) table start end =
    (if table_is_reserved table then Inr ()
     else rbind (reject_legacy_prepares (store_reader s)) (\<lambda>_. rbind (lock_range table start end)
       (\<lambda>(first, last). if bt_range first last (s LOCKS_TABLE) \<noteq> [] then Inl Conflict else Inr ())))"
    by (cases "reject_legacy_prepares (store_reader s)"; cases "lock_range table start end")
      (auto simp: validate_read_range_def has_range_locks_def split: list.split)
  then show ?thesis
    unfolding validate_read_range_guarded_def Let_def
    by (auto simp: agrees_check intro!: agrees_bind [OF rejects_legacy] agrees_bind_reserve
        agrees_bind [where r = "lock_range table start end"] finds_rows)
qed

end

interpretation trait_visits: guarded_visits "default_guarded (store_reader s)" s for s
proof
  show "agrees bg (flag_of (gr_visit_get (default_guarded (store_reader s)) table key bg visitor n False))
      (flag_after (visitor (bt_get (s table) key) False))" for bg table key visitor n
    by (cases "bt_get (s table) key")
      (auto simp: default_guarded_def visit_get_def check_then_def check_last_def flag_of_def flag_after_def
        opt_transpose_def rbind_def agrees_def budget_refuses_def split: prod.split sum.split sum.split_asm)
  show "agrees bg (flag_of (gr_visit_range (default_guarded (store_reader s)) table start end bg
      (\<lambda>_ _ _. (True, Inr False)) n False)) (Inr (bt_range start end (s table) \<noteq> []))" for bg table start "end" n
    by (cases "bt_range start end (s table)")
      (auto simp: default_guarded_def visit_range_def check_then_def check_last_def flag_of_def
        agrees_def budget_refuses_def split: prod.split sum.split)
qed

lemma mem_visits_get:
  "agrees bg (flag_of (gr_visit_get (mem_guarded t) table key bg visitor n False))
     (flag_after (visitor (bt_get (mem_store (mr_snapshot t) table) key) False))"
  unfolding get_mem_store
  by (auto simp: mem_guarded_def mem_visit_get_def Let_def check_then_def check_last_def flag_of_def
      flag_after_def agrees_def budget_refuses_def split: prod.split sum.split)

lemma mem_visits_range:
  "agrees bg (flag_of (gr_visit_range (mem_guarded t) table start end bg (\<lambda>_ _ _. (True, Inr False)) n False))
     (Inr (bt_range start end (mem_store (mr_snapshot t) table) \<noteq> []))"
proof (cases "end \<noteq> [] \<and> start \<ge> end \<or> bt_get (mr_snapshot t) table = None")
  case True
  then have "bt_range start end (mem_store (mr_snapshot t) table) = []"
    by (auto simp: mem_store_def inverted_range_empty)
  then show ?thesis
    using True by (auto simp: mem_guarded_def mem_visit_range_def check_then_def flag_of_def
        agrees_def budget_refuses_def split: sum.split)
next
  case False
  then obtain data where "bt_get (mr_snapshot t) table = Some data"
    by auto
  then show ?thesis
    using False by (cases "bt_range start end data")
      (auto simp: mem_store_def mem_guarded_def mem_visit_range_def check_then_def check_last_def flag_of_def
        agrees_def budget_refuses_def split: prod.split sum.split sum.split_asm)
qed

interpretation mem_visits: guarded_visits "mem_guarded t" "mem_store (mr_snapshot t)" for t
  by unfold_locales (rule mem_visits_get, rule mem_visits_range)

text \<open>
  C26. The budgeted lock checks of point, multi-key and range reads decide as the plain ones do,
  through the visitors the trait derives for an engine on any store and through the native
  visitors of the memory engine on any snapshot: whatever the budget does, a budgeted check
  returns the result of the plain check or the error with which the budget refused a check or
  a reservation, so no budget lets a locked row be read; and under a budget that refuses
  nothing the two results are the same.
\<close>

theorem guarded_lock_checks_agree:
  assumes "read = default_guarded (store_reader s) \<or> (\<exists>t. read = mem_guarded t \<and> s = mem_store (mr_snapshot t))"
  shows "agrees bg (validate_read_key_guarded read table key bg n) (validate_read_key (store_reader s) table key) \<and>
         agrees bg (validate_read_keys_guarded read table keys bg n) (validate_read_keys (store_reader s) table keys) \<and>
         agrees bg (validate_read_range_guarded read table start end bg n)
           (validate_read_range (store_reader s) table start end) \<and>
         (permissive bg \<longrightarrow>
            snd (validate_read_key_guarded read table key bg n) = validate_read_key (store_reader s) table key \<and>
            snd (validate_read_keys_guarded read table keys bg n) = validate_read_keys (store_reader s) table keys \<and>
            snd (validate_read_range_guarded read table start end bg n) =
              validate_read_range (store_reader s) table start end)"
proof -
  have visits: "guarded_visits read s"
    using assms trait_visits.guarded_visits_axioms mem_visits.guarded_visits_axioms by blast
  show ?thesis
    using guarded_visits.validates_key [OF visits, of bg table key n]
      guarded_visits.validates_keys [OF visits, of bg table keys n]
      guarded_visits.validates_range [OF visits, of bg table start "end" n]
    by (blast dest: agrees_permissive [THEN iffD1])
qed

definition open_budget :: budget where
  "open_budget = \<lparr>bg_check = (\<lambda>_. Inr ()), bg_reserve = (\<lambda>_ _. Inr ())\<rparr>"

definition locked_snapshot :: mem_read_txn where
  "locked_snapshot = \<lparr>mr_snapshot = bt_insert TXN_META_TABLE (bt_insert LOCK_FORMAT_KEY LOCK_FORMAT bt_empty)
     (bt_insert LOCKS_TABLE (bt_insert (u64_to_be 1 @ as_bytes ''t'' @ [1]) [7] bt_empty) bt_empty)\<rparr>"

theorem guarded_lock_checks_agree_witness:
  "snd (validate_read_key_guarded (mem_guarded locked_snapshot) ''t'' [1] open_budget 0) = Inl Conflict \<and>
   snd (validate_read_key_guarded (mem_guarded locked_snapshot) ''t'' [2] open_budget 0) = Inr () \<and>
   snd (validate_read_key_guarded (default_guarded (store_reader (mem_store (mr_snapshot locked_snapshot))))
     ''t'' [1] open_budget 0) = Inl Conflict"
proof -
  let ?s = "mem_store (mr_snapshot locked_snapshot)"
  have "permissive open_budget"
    by (simp add: permissive_def open_budget_def)
  then have agree: "read = default_guarded (store_reader ?s) \<or> read = mem_guarded locked_snapshot \<Longrightarrow>
      snd (validate_read_key_guarded read ''t'' key open_budget 0) = validate_read_key (store_reader ?s) ''t'' key"
    for read key
    using guarded_lock_checks_agree [of read ?s open_budget "''t''" key 0] by blast
  have keys: "version_key ''t'' key = Inr (u64_to_be 1 @ as_bytes ''t'' @ key)" for key
    by (simp add: version_key_def)
  have "validate_read_key (store_reader ?s) ''t'' [1] = Inl Conflict"
    "validate_read_key (store_reader ?s) ''t'' [2] = Inr ()"
    by (simp_all add: validate_read_key_def reject_legacy_prepares_store keys mem_store_def locked_snapshot_def
        TXN_META_TABLE_def LOCKS_TABLE_def table_is_reserved_def
        RESERVED_KEYSPACE_PREFIX_def)
  then show ?thesis
    by (simp add: agree)
qed

end
