(* ===== verification/Txn_Commit.thy ===== *)
theory Txn_Commit
  imports Dist_Locks Mem_Engine
begin

text \<open>
  Commits of the transaction layer, \<open>src/txn/mod.rs\<close>: the check of locks and versions, the
  application of a commit record to an open storage transaction, the entry points for public
  and authorized write sets, and the version token of a table
  (\<open>src/txn/table_version.rs\<close>). Every operation is written against the dictionary of a
  storage engine; readings of the clocks are an argument.
\<close>

section \<open>Reading the transaction metadata\<close>

record clocks =
  ck_unix_ms :: u64
  ck_time :: nat

definition current_txn_id_from :: "reader \<Rightarrow> txn_id res" where
  "current_txn_id_from txn =
     rbind (rd_get txn TXN_META_TABLE CURRENT_TXN_ID_KEY) (\<lambda>found.
       case found of None \<Rightarrow> Inr 0 | Some bs \<Rightarrow> decode_txn_id bs)"

definition last_key_version :: "reader \<Rightarrow> string \<Rightarrow> bytes \<Rightarrow> txn_id res" where
  "last_key_version txn table key =
     rbind (version_key table key) (\<lambda>vk.
     rbind (rd_get txn TXN_VERSIONS_TABLE vk) (\<lambda>found.
       case found of None \<Rightarrow> Inr 0 | Some bs \<Rightarrow> decode_txn_id bs))"

definition last_key_version_from :: "reader \<Rightarrow> string \<Rightarrow> bytes \<Rightarrow> txn_id res" where
  "last_key_version_from txn table key = last_key_version txn table key"

definition stored_hlc_in_txn :: "codecs \<Rightarrow> reader \<Rightarrow> hlc option res" where
  "stored_hlc_in_txn cs txn = rbind (rd_get txn HLC_TABLE HLC_LOCAL_KEY) (opt_transpose (decode_hlc cs))"

definition next_hlc_in_txn :: "codecs \<Rightarrow> clocks \<Rightarrow> reader \<Rightarrow> hlc res" where
  "next_hlc_in_txn cs ck txn =
     rbind (stored_hlc_in_txn cs txn) (\<lambda>stored.
     Inr (tick (ck_unix_ms ck) (case stored of None \<Rightarrow> hlc_default | Some h \<Rightarrow> h)))"

definition read_table_data_version_from :: "reader \<Rightarrow> string \<Rightarrow> txn_id option res" where
  "read_table_data_version_from read table =
     (if table_is_reserved table then Inr None
      else rbind (has_range_locks read table [] []) (\<lambda>locked.
        if locked then Inr None
        else rbind (rd_get read TABLE_DATA_VERSION_TABLE (as_bytes table)) (\<lambda>version.
          rbind (opt_transpose decode_txn_id version) (\<lambda>decoded.
          Inr (Some (case decoded of None \<Rightarrow> 0 | Some v \<Rightarrow> v))))))"

section \<open>Applying a commit record\<close>

definition string_set :: "string list \<Rightarrow> (string, unit) btm" where
  \<comment> \<open>a \<open>BTreeSet<String>\<close> filled in the given order\<close>
  "string_set xs = fold (\<lambda>x m. bt_insert x () m) xs bt_empty"

definition keyspaces_for_commit :: "string list \<Rightarrow> string list" where
  "keyspaces_for_commit tables =
     (let keyspaces = string_set [TXN_META_TABLE, TXN_VERSIONS_TABLE, TXN_MVCC_TABLE, COMMIT_LOG_TABLE,
            KEYSPACE_REGISTRY_TABLE, HLC_TABLE]
      in bt_keys (fold (\<lambda>table keyspaces.
            let keyspaces = (if \<not> table_is_reserved table
                             then bt_insert TABLE_DATA_VERSION_TABLE () keyspaces else keyspaces)
            in bt_insert table () keyspaces) tables keyspaces))"

definition apply_commit_write ::
  "'t writer_ops \<Rightarrow> codecs \<Rightarrow> txn_id \<Rightarrow> commit_log_write \<Rightarrow> 't \<Rightarrow> 't res" where
  "apply_commit_write ops cs txn_id write txn =
     rbind (mvcc_key (clw_table write) (clw_key write) txn_id) (\<lambda>mk.
     rbind (encode_mvcc_record cs (MvccRecord (clw_value write))) (\<lambda>mv.
     rbind (w_put ops txn TXN_MVCC_TABLE mk mv) (\<lambda>txn.
     rbind (case clw_value write of
              Some bs \<Rightarrow> w_put ops txn (clw_table write) (clw_key write) bs
            | None \<Rightarrow> w_delete ops txn (clw_table write) (clw_key write)) (\<lambda>txn.
     rbind (version_key (clw_table write) (clw_key write)) (\<lambda>vk.
     w_put ops txn TXN_VERSIONS_TABLE vk (encode_txn_id txn_id))))))"

definition apply_commit_record_in_txn ::
  "'t writer_ops \<Rightarrow> codecs \<Rightarrow> 't \<Rightarrow> commit_log_record \<Rightarrow> 't res" where
  "apply_commit_record_in_txn ops cs txn record =
     rbind (w_put ops txn TXN_META_TABLE CURRENT_TXN_ID_KEY (encode_txn_id (clr_txn_id record))) (\<lambda>txn.
     rbind (rfold (apply_commit_write ops cs (clr_txn_id record)) (clr_writes record) txn) (\<lambda>txn.
     let public_tables = bt_keys (string_set (filter (\<lambda>table. \<not> table_is_reserved table)
                                    (map clw_table (clr_writes record)))) in
     rbind (rfold (\<lambda>table txn. w_put ops txn TABLE_DATA_VERSION_TABLE (as_bytes table)
                                  (encode_txn_id (clr_txn_id record))) public_tables txn) (\<lambda>txn.
     rbind (rfold (\<lambda>keyspace txn. w_put ops txn KEYSPACE_REGISTRY_TABLE (as_bytes keyspace)
                                     KEYSPACE_PRESENT_VALUE)
              (keyspaces_for_commit (map clw_table (clr_writes record))) txn) (\<lambda>txn.
     rbind (encode_commit_log_record cs record) (\<lambda>encoded.
     rbind (w_put ops txn COMMIT_LOG_TABLE (commit_log_key (clr_txn_id record)) encoded) (\<lambda>txn.
     case clr_hlc record of
       None \<Rightarrow> Inr txn
     | Some h \<Rightarrow>
         rbind (stored_hlc_in_txn cs (w_reader ops txn)) (\<lambda>stored.
         let merged = (case stored of None \<Rightarrow> h | Some st \<Rightarrow> max st h) in
         rbind (encode_hlc cs merged) (\<lambda>bs.
         w_put ops txn HLC_TABLE HLC_LOCAL_KEY bs))))))))"

definition commit_log_record_with_clock_and_hlc ::
  "txn_id \<Rightarrow> write_set \<Rightarrow> clocks \<Rightarrow> hlc \<Rightarrow> commit_log_record" where
  "commit_log_record_with_clock_and_hlc txn_id ws ck h =
     CommitLogRecord txn_id (ck_time ck) (Some h)
       (map (\<lambda>((table, key), v). CommitLogWrite table key v) (bt_entries ws))"

section \<open>Committing a write set\<close>

text \<open>
  \<open>stage_commit\<close> is everything the commit does inside the open transaction, up to the commit
  of the storage transaction itself. An error drops the transaction.
\<close>

definition check_version :: "reader \<Rightarrow> txn_id \<Rightarrow> write_key \<Rightarrow> unit res" where
  "check_version txn snapshot_id = (\<lambda>(table, key).
     rbind (last_key_version txn table key) (\<lambda>version.
       if version > snapshot_id then Inl Conflict else Inr ()))"

definition stage_commit ::
  "'t writer_ops \<Rightarrow> codecs \<Rightarrow> clocks \<Rightarrow> 't \<Rightarrow> txn_id \<Rightarrow> write_set \<Rightarrow> ('t \<Rightarrow> 't res) \<Rightarrow>
   ('t \<Rightarrow> txn_id \<Rightarrow> 't res) \<Rightarrow> ('t \<times> txn_id) res" where
  "stage_commit ops cs ck txn snapshot_id ws preflight extra =
     rbind (validate_write_locks cs (w_reader ops txn) ws) (\<lambda>_.
     rbind (rfold (\<lambda>tk _. check_version (w_reader ops txn) snapshot_id tk) (bt_keys ws) ()) (\<lambda>_.
     rbind (preflight txn) (\<lambda>txn.
     rbind (current_txn_id_from (w_reader ops txn)) (\<lambda>current.
     rbind (ok_or (Backend ''transaction id overflow'') (checked_add current 1)) (\<lambda>next_txn_id.
     rbind (next_hlc_in_txn cs ck (w_reader ops txn)) (\<lambda>h.
     let commit_log = commit_log_record_with_clock_and_hlc next_txn_id ws ck h in
     rbind (apply_commit_record_in_txn ops cs txn commit_log) (\<lambda>txn.
     rbind (extra txn next_txn_id) (\<lambda>txn.
     Inr (txn, next_txn_id)))))))))"

definition finish_commit :: "('db, 't) engine_ops \<Rightarrow> 'db \<Rightarrow> ('t \<times> 'a) res \<Rightarrow> 'db \<times> 'a res" where
  "finish_commit eng db staged =
     (case staged of
        Inl e \<Rightarrow> (db, Inl e)
      | Inr (txn, x) \<Rightarrow>
          (case e_commit eng db txn of
             (db, Inl e) \<Rightarrow> (db, Inl e)
           | (db, Inr _) \<Rightarrow> (db, Inr x)))"

definition commit_write_set_in_txn_with_extra_authorized ::
  "('db, 't) engine_ops \<Rightarrow> codecs \<Rightarrow> clocks \<Rightarrow> 'db \<Rightarrow> 't \<Rightarrow> txn_id \<Rightarrow> write_set \<Rightarrow> ('t \<Rightarrow> 't res) \<Rightarrow>
   ('t \<Rightarrow> txn_id \<Rightarrow> 't res) \<Rightarrow> 'db \<times> txn_id res" where
  "commit_write_set_in_txn_with_extra_authorized eng cs ck db txn snapshot_id ws preflight extra =
     finish_commit eng db (stage_commit (e_writer eng) cs ck txn snapshot_id ws preflight extra)"

definition commit_write_set_in_txn_with_preflight_and_extra ::
  "('db, 't) engine_ops \<Rightarrow> codecs \<Rightarrow> clocks \<Rightarrow> 'db \<Rightarrow> 't \<Rightarrow> txn_id \<Rightarrow> write_set \<Rightarrow> ('t \<Rightarrow> 't res) \<Rightarrow>
   ('t \<Rightarrow> txn_id \<Rightarrow> 't res) \<Rightarrow> 'db \<times> txn_id res" where
  "commit_write_set_in_txn_with_preflight_and_extra eng cs ck db txn snapshot_id ws preflight extra =
     (case validate_public_write_set ws of
        Inl e \<Rightarrow> (db, Inl e)
      | Inr _ \<Rightarrow> commit_write_set_in_txn_with_extra_authorized eng cs ck db txn snapshot_id ws preflight extra)"

definition commit_write_set_in_txn_with_preflight ::
  "('db, 't) engine_ops \<Rightarrow> codecs \<Rightarrow> clocks \<Rightarrow> 'db \<Rightarrow> 't \<Rightarrow> txn_id \<Rightarrow> write_set \<Rightarrow> ('t \<Rightarrow> 't res) \<Rightarrow>
   'db \<times> txn_id res" where
  "commit_write_set_in_txn_with_preflight eng cs ck db txn snapshot_id ws preflight =
     commit_write_set_in_txn_with_preflight_and_extra eng cs ck db txn snapshot_id ws preflight (\<lambda>txn _. Inr txn)"

definition commit_write_set_in_txn_with_extra ::
  "('db, 't) engine_ops \<Rightarrow> codecs \<Rightarrow> clocks \<Rightarrow> 'db \<Rightarrow> 't \<Rightarrow> txn_id \<Rightarrow> write_set \<Rightarrow>
   ('t \<Rightarrow> txn_id \<Rightarrow> 't res) \<Rightarrow> 'db \<times> txn_id res" where
  "commit_write_set_in_txn_with_extra eng cs ck db txn snapshot_id ws extra =
     (case validate_public_write_set ws of
        Inl e \<Rightarrow> (db, Inl e)
      | Inr _ \<Rightarrow> commit_write_set_in_txn_with_preflight_and_extra eng cs ck db txn snapshot_id ws Inr extra)"

definition commit_write_set_in_txn ::
  "('db, 't) engine_ops \<Rightarrow> codecs \<Rightarrow> clocks \<Rightarrow> 'db \<Rightarrow> 't \<Rightarrow> txn_id \<Rightarrow> write_set \<Rightarrow> 'db \<times> txn_id res" where
  "commit_write_set_in_txn eng cs ck db txn snapshot_id ws =
     (case validate_public_write_set ws of
        Inl e \<Rightarrow> (db, Inl e)
      | Inr _ \<Rightarrow> commit_write_set_in_txn_with_extra eng cs ck db txn snapshot_id ws (\<lambda>txn _. Inr txn))"

definition commit_write_set_authorized ::
  "('db, 't) engine_ops \<Rightarrow> codecs \<Rightarrow> clocks \<Rightarrow> 'db \<Rightarrow> txn_id \<Rightarrow> write_set \<Rightarrow> 'db \<times> txn_id res" where
  "commit_write_set_authorized eng cs ck db snapshot_id ws =
     (if bt_is_empty ws then (db, Inr snapshot_id)
      else case e_begin_write eng db of
        Inl e \<Rightarrow> (db, Inl e)
      | Inr txn \<Rightarrow>
          commit_write_set_in_txn_with_extra_authorized eng cs ck db txn snapshot_id ws Inr (\<lambda>txn _. Inr txn))"

definition commit_write_set ::
  "('db, 't) engine_ops \<Rightarrow> codecs \<Rightarrow> clocks \<Rightarrow> 'db \<Rightarrow> txn_id \<Rightarrow> write_set \<Rightarrow> 'db \<times> txn_id res" where
  "commit_write_set eng cs ck db snapshot_id ws =
     (case validate_public_write_set ws of
        Inl e \<Rightarrow> (db, Inl e)
      | Inr _ \<Rightarrow> commit_write_set_authorized eng cs ck db snapshot_id ws)"

definition current_txn_id :: "('db, 't) engine_ops \<Rightarrow> 'db \<Rightarrow> txn_id res" where
  "current_txn_id eng db = rbind (e_begin_read eng db) current_txn_id_from"

definition commit_write_set_at_current_authorized ::
  "('db, 't) engine_ops \<Rightarrow> codecs \<Rightarrow> clocks \<Rightarrow> 'db \<Rightarrow> write_set \<Rightarrow> 'db \<times> txn_id res" where
  "commit_write_set_at_current_authorized eng cs ck db ws =
     (if bt_is_empty ws then (db, current_txn_id eng db)
      else case e_begin_write eng db of
        Inl e \<Rightarrow> (db, Inl e)
      | Inr txn \<Rightarrow>
          (case current_txn_id_from (w_reader (e_writer eng) txn) of
             Inl e \<Rightarrow> (db, Inl e)
           | Inr snapshot_id \<Rightarrow>
               commit_write_set_in_txn_with_extra_authorized eng cs ck db txn snapshot_id ws
                 Inr (\<lambda>txn _. Inr txn)))"

definition commit_write_set_at_current ::
  "('db, 't) engine_ops \<Rightarrow> codecs \<Rightarrow> clocks \<Rightarrow> 'db \<Rightarrow> write_set \<Rightarrow> 'db \<times> txn_id res" where
  "commit_write_set_at_current eng cs ck db ws =
     (case validate_public_write_set ws of
        Inl e \<Rightarrow> (db, Inl e)
      | Inr _ \<Rightarrow> commit_write_set_at_current_authorized eng cs ck db ws)"

definition commit_ops_at_current_authorized ::
  "('db, 't) engine_ops \<Rightarrow> codecs \<Rightarrow> clocks \<Rightarrow> 'db \<Rightarrow> op list \<Rightarrow> 'db \<times> txn_id res" where
  "commit_ops_at_current_authorized eng cs ck db ops =
     commit_write_set_at_current_authorized eng cs ck db (ops_to_write_set ops)"

definition commit_ops_at_current ::
  "('db, 't) engine_ops \<Rightarrow> codecs \<Rightarrow> clocks \<Rightarrow> 'db \<Rightarrow> op list \<Rightarrow> 'db \<times> txn_id res" where
  "commit_ops_at_current eng cs ck db ops =
     (case validate_public_ops ops of
        Inl e \<Rightarrow> (db, Inl e)
      | Inr _ \<Rightarrow> commit_write_set_at_current eng cs ck db (ops_to_write_set ops))"

section \<open>Parametricity in the engine\<close>

lemma apply_commit_write_transfer [transfer_rule]:
  "rel_fun (rel_writer R) (rel_fun (=) (rel_fun (=) (rel_fun (=) (rel_fun R (rel_res R)))))
     apply_commit_write apply_commit_write"
  unfolding apply_commit_write_def by transfer_prover

lemma apply_commit_record_transfer [transfer_rule]:
  "rel_fun (rel_writer R) (rel_fun (=) (rel_fun R (rel_fun (=) (rel_res R))))
     apply_commit_record_in_txn apply_commit_record_in_txn"
  unfolding apply_commit_record_in_txn_def by transfer_prover

lemma stage_commit_transfer [transfer_rule]:
  "rel_fun (rel_writer R) (rel_fun (=) (rel_fun (=) (rel_fun R (rel_fun (=) (rel_fun (=)
     (rel_fun (rel_fun R (rel_res R)) (rel_fun (rel_fun R (rel_fun (=) (rel_res R)))
     (rel_res (rel_prod R (=))))))))))
     stage_commit stage_commit"
  unfolding stage_commit_def by transfer_prover

section \<open>Commits on every engine\<close>

text \<open>
  The outcome of a commit on an engine that keeps the contract is the outcome on the abstract
  store it stands for.
\<close>

context storage_engine
begin

definition simulates :: "'db \<times> 'a \<Rightarrow> store \<times> 'a \<Rightarrow> bool" where
  "simulates x y \<longleftrightarrow> snd x = snd y \<and> healthy (fst x) \<and> db_store (fst x) = fst y"

lemma begin_write_rel:
  assumes "healthy db"
  obtains t where "e_begin_write eng db = Inr t" "tx_rel db t (db_store db)"
  using begin_write [OF assms] by (auto simp: tx_rel_def)

lemma finish_commit_simulates:
  assumes "healthy db" and "rel_res (rel_prod (tx_rel db) (=)) staged staged'"
  shows "simulates (finish_commit eng db staged) (finish_commit store_engine (db_store db) staged')"
proof (cases staged)
  case (Inl e)
  then show ?thesis
    using assms by (cases staged') (auto simp: finish_commit_def simulates_def)
next
  case (Inr tx)
  then obtain t s x where "staged = Inr (t, x)" "staged' = Inr (s, x)" "tx_rel db t s"
    using assms(2) by (cases staged'; cases tx) auto
  then show ?thesis
    using commit [OF assms(1), of t] by (auto simp: finish_commit_def simulates_def tx_rel_def)
qed

lemma stage_commit_rel:
  assumes "tx_rel db t s" and "rel_fun (tx_rel db) (rel_res (tx_rel db)) pre pre'"
    and "rel_fun (tx_rel db) (rel_fun (=) (rel_res (tx_rel db))) ext ext'"
  shows "rel_res (rel_prod (tx_rel db) (=)) (stage_commit (e_writer eng) cs ck t snap ws pre ext)
    (stage_commit store_writer cs ck s snap ws pre' ext')"
  by (intro stage_commit_transfer [THEN rel_funD, THEN rel_funD, THEN rel_funD, THEN rel_funD,
        THEN rel_funD, THEN rel_funD, THEN rel_funD, THEN rel_funD] writer_rel refl assms)

lemma pass_through_rel:
  "rel_fun R (rel_res R) Inr Inr" "rel_fun R (rel_fun (=) (rel_res R)) (\<lambda>t _. Inr t) (\<lambda>t _. Inr t)"
  by (simp_all add: rel_fun_def)

lemma commit_write_set_authorized_simulates:
  assumes "healthy db"
  shows "simulates (commit_write_set_authorized eng cs ck db snap ws)
    (commit_write_set_authorized store_engine cs ck (db_store db) snap ws)"
proof (cases "bt_is_empty ws")
  case True
  then show ?thesis
    using assms by (simp add: commit_write_set_authorized_def simulates_def)
next
  case False
  obtain t where t: "e_begin_write eng db = Inr t" "tx_rel db t (db_store db)"
    using begin_write_rel [OF assms] .
  then show ?thesis
    using False finish_commit_simulates [OF assms stage_commit_rel [OF t(2) pass_through_rel]]
    by (simp add: commit_write_set_authorized_def commit_write_set_in_txn_with_extra_authorized_def)
qed

lemma commit_write_set_simulates:
  assumes "healthy db"
  shows "simulates (commit_write_set eng cs ck db snap ws)
    (commit_write_set store_engine cs ck (db_store db) snap ws)"
  using commit_write_set_authorized_simulates [OF assms, of cs ck snap ws] assms
  by (cases "validate_public_write_set ws") (simp_all add: commit_write_set_def simulates_def)

lemma current_txn_id_eq:
  "healthy db \<Longrightarrow> current_txn_id eng db = current_txn_id_from (store_reader (db_store db))"
  by (simp add: current_txn_id_def begin_read)

lemma commit_at_current_authorized_simulates:
  assumes "healthy db"
  shows "simulates (commit_write_set_at_current_authorized eng cs ck db ws)
    (commit_write_set_at_current_authorized store_engine cs ck (db_store db) ws)"
proof (cases "bt_is_empty ws")
  case True
  then show ?thesis
    using assms by (simp add: commit_write_set_at_current_authorized_def simulates_def
        current_txn_id_def begin_read)
next
  case False
  obtain t where t: "e_begin_write eng db = Inr t" "tx_rel db t (db_store db)"
    using begin_write_rel [OF assms] .
  have "w_reader (e_writer eng) t = store_reader (db_store db)"
    using t(2) reader by (auto simp: tx_rel_def)
  then show ?thesis
    using False t(1) assms finish_commit_simulates [OF assms stage_commit_rel [OF t(2) pass_through_rel]]
    by (cases "current_txn_id_from (store_reader (db_store db))")
      (simp_all add: commit_write_set_at_current_authorized_def
        commit_write_set_in_txn_with_extra_authorized_def simulates_def)
qed

lemma commit_ops_at_current_simulates:
  assumes "healthy db"
  shows "simulates (commit_ops_at_current eng cs ck db ops)
    (commit_ops_at_current store_engine cs ck (db_store db) ops)"
  using commit_at_current_authorized_simulates [OF assms, of cs ck "ops_to_write_set ops"] assms
  by (cases "validate_public_ops ops"; cases "validate_public_write_set (ops_to_write_set ops)")
    (simp_all add: commit_ops_at_current_def commit_write_set_at_current_def simulates_def)

end

end
