(* ===== verification/Demo_Codecs.thy ===== *)
theory Demo_Codecs
  imports Txn_Base
begin

text \<open>
  A concrete set of serializers that satisfies \<open>codecs_ok\<close>. The theorems about the
  transaction layer hold for every such set; this one shows that the hypothesis can be met
  and serves the examples. A value is written as a self-delimiting byte string built from
  unary numbers, pairs and counted lists.
\<close>

type_synonym 'a ser = "('a \<Rightarrow> bytes) \<times> (bytes \<Rightarrow> ('a \<times> bytes) option)"

definition ser_ok :: "'a ser \<Rightarrow> bool" where
  "ser_ok c \<longleftrightarrow> (\<forall>x rest. snd c (fst c x @ rest) = Some (x, rest))"

fun read_unary :: "bytes \<Rightarrow> (nat \<times> bytes) option" where
  "read_unary [] = None"
| "read_unary (b # bs) =
     (if b = 1 then map_option (\<lambda>(n, rest). (Suc n, rest)) (read_unary bs) else Some (0, bs))"

definition ser_nat :: "nat ser" where
  "ser_nat = (\<lambda>n. replicate n 1 @ [0], read_unary)"

definition ser_map :: "('b \<Rightarrow> 'a) \<Rightarrow> ('a \<Rightarrow> 'b) \<Rightarrow> 'a ser \<Rightarrow> 'b ser" where
  "ser_map f g c = (\<lambda>x. fst c (f x), \<lambda>bs. map_option (\<lambda>(y, rest). (g y, rest)) (snd c bs))"

definition ser_pair :: "'a ser \<Rightarrow> 'b ser \<Rightarrow> ('a \<times> 'b) ser" where
  "ser_pair c d =
     (\<lambda>(x, y). fst c x @ fst d y,
      \<lambda>bs. Option.bind (snd c bs) (\<lambda>(x, rest). map_option (\<lambda>(y, rest). ((x, y), rest)) (snd d rest)))"

fun read_many :: "(bytes \<Rightarrow> ('a \<times> bytes) option) \<Rightarrow> nat \<Rightarrow> bytes \<Rightarrow> ('a list \<times> bytes) option" where
  "read_many f 0 bs = Some ([], bs)"
| "read_many f (Suc n) bs =
     Option.bind (f bs) (\<lambda>(x, rest). map_option (\<lambda>(xs, rest). (x # xs, rest)) (read_many f n rest))"

definition ser_list :: "'a ser \<Rightarrow> 'a list ser" where
  "ser_list c =
     (\<lambda>xs. fst ser_nat (length xs) @ concat (map (fst c) xs),
      \<lambda>bs. Option.bind (snd ser_nat bs) (\<lambda>(n, rest). read_many (snd c) n rest))"

lemma ser_okD: "ser_ok c \<Longrightarrow> snd c (fst c x @ rest) = Some (x, rest)"
  by (simp add: ser_ok_def)

lemma ser_nat_ok: "ser_ok ser_nat"
proof -
  have "read_unary (replicate n 1 @ 0 # rest) = Some (n, rest)" for n rest
    by (induction n) simp_all
  then show ?thesis
    by (simp add: ser_ok_def ser_nat_def)
qed

lemma ser_map_ok: "ser_ok c \<Longrightarrow> (\<And>x. g (f x) = x) \<Longrightarrow> ser_ok (ser_map f g c)"
  by (simp add: ser_ok_def ser_map_def)

lemma ser_pair_ok: "ser_ok c \<Longrightarrow> ser_ok d \<Longrightarrow> ser_ok (ser_pair c d)"
  by (simp add: ser_ok_def ser_pair_def)

lemma ser_list_ok:
  assumes "ser_ok c"
  shows "ser_ok (ser_list c)"
proof -
  have "read_many (snd c) (length xs) (concat (map (fst c) xs) @ rest) = Some (xs, rest)" for xs rest
    by (induction xs) (simp_all add: ser_okD [OF assms])
  then show ?thesis
    by (simp add: ser_ok_def ser_list_def ser_okD [OF ser_nat_ok])
qed

definition ser_word :: "'n::len word ser" where
  "ser_word = ser_map unat of_nat ser_nat"

definition ser_bytes :: "bytes ser" where
  "ser_bytes = ser_list ser_word"

definition ser_string :: "string ser" where
  "ser_string = ser_list (ser_map of_char char_of ser_nat)"

definition ser_option :: "'a ser \<Rightarrow> 'a option ser" where
  "ser_option c = ser_map (\<lambda>v. case v of None \<Rightarrow> [] | Some x \<Rightarrow> [x])
     (\<lambda>xs. case xs of [] \<Rightarrow> None | x # _ \<Rightarrow> Some x) (ser_list c)"

lemma ser_basic_ok: "ser_ok (ser_word :: 'n::len word ser)" "ser_ok ser_bytes" "ser_ok ser_string"
  by (simp_all add: ser_word_def ser_bytes_def ser_string_def ser_map_ok ser_list_ok ser_nat_ok)

lemma ser_option_ok: "ser_ok c \<Longrightarrow> ser_ok (ser_option c)"
  unfolding ser_option_def by (rule ser_map_ok) (auto simp: ser_list_ok split: option.split)

definition ser_decision :: "decision ser" where
  "ser_decision = ser_map (\<lambda>d. if d = DCommit then 0 else 1) (\<lambda>n. if n = 0 then DCommit else DAbort) ser_nat"

definition ser_hlc :: "hlc ser" where
  "ser_hlc = ser_map (\<lambda>h. (physical_ms h, logical h)) (\<lambda>(p, l). Hlc p l) (ser_pair ser_word ser_word)"

definition ser_op :: "op ser" where
  "ser_op = ser_map
     (\<lambda>op. case op of OpPut t k v \<Rightarrow> (t, k, Some v) | OpDelete t k \<Rightarrow> (t, k, None))
     (\<lambda>(t, k, v). case v of Some b \<Rightarrow> OpPut t k b | None \<Rightarrow> OpDelete t k)
     (ser_pair ser_string (ser_pair ser_bytes (ser_option ser_bytes)))"

definition ser_write :: "commit_log_write ser" where
  "ser_write = ser_map (\<lambda>w. (clw_table w, clw_key w, clw_value w)) (\<lambda>(t, k, v). CommitLogWrite t k v)
     (ser_pair ser_string (ser_pair ser_bytes (ser_option ser_bytes)))"

definition ser_log :: "commit_log_record ser" where
  "ser_log = ser_map (\<lambda>r. (clr_txn_id r, clr_committed_at r, clr_hlc r, clr_writes r))
     (\<lambda>(i, t, h, ws). CommitLogRecord i t h ws)
     (ser_pair ser_word (ser_pair ser_nat (ser_pair (ser_option ser_hlc) (ser_list ser_write))))"

definition ser_mvcc :: "mvcc_record ser" where
  "ser_mvcc = ser_map mvcc_value MvccRecord (ser_option ser_bytes)"

definition ser_prepared :: "prepared_txn_record ser" where
  "ser_prepared = ser_map
     (\<lambda>r. (pr_version r, pr_txn_id r, pr_ops r, pr_prepared_at_ms r, pr_deadline_ms r, pr_retry_count r))
     (\<lambda>(v, i, ops, p, d, n). PreparedTxnRecord v i ops p d n)
     (ser_pair ser_word (ser_pair ser_word (ser_pair (ser_list ser_op)
       (ser_pair ser_word (ser_pair ser_word ser_word)))))"

definition ser_coordinator :: "coordinator_decision_record ser" where
  "ser_coordinator = ser_map
     (\<lambda>r. (cd_version r, cd_txn_id r, cd_decision r, cd_decided_at_ms r, cd_deadline_ms r, cd_retry_count r))
     (\<lambda>(v, i, dec, p, d, n). CoordinatorDecisionRecord v i dec p d n)
     (ser_pair ser_word (ser_pair ser_word (ser_pair ser_decision
       (ser_pair ser_word (ser_pair ser_word ser_word)))))"

definition ser_finished :: "finished_txn_record ser" where
  "ser_finished = ser_map
     (\<lambda>r. (fr_version r, fr_txn_id r, fr_decision r, fr_finished_at_ms r))
     (\<lambda>(v, i, dec, p). FinishedTxnRecord v i dec p)
     (ser_pair ser_word (ser_pair ser_word (ser_pair ser_decision ser_word)))"

lemmas ser_intros = ser_map_ok ser_pair_ok ser_list_ok ser_option_ok ser_basic_ok ser_nat_ok

lemma ser_records_ok:
  "ser_ok ser_decision" "ser_ok ser_hlc" "ser_ok ser_op" "ser_ok ser_write" "ser_ok ser_log"
  "ser_ok ser_mvcc" "ser_ok ser_prepared" "ser_ok ser_coordinator" "ser_ok ser_finished"
proof -
  show decision: "ser_ok ser_decision"
    unfolding ser_decision_def by (intro ser_intros) (metis decision.exhaust zero_neq_one)
  show hlc: "ser_ok ser_hlc"
    unfolding ser_hlc_def by (intro ser_intros) simp
  show op: "ser_ok ser_op"
    unfolding ser_op_def by (intro ser_intros) (simp split: op.split)
  show wr: "ser_ok ser_write"
    unfolding ser_write_def by (intro ser_intros) simp
  show "ser_ok ser_log"
    unfolding ser_log_def by (intro ser_intros hlc wr) simp
  show "ser_ok ser_mvcc"
    unfolding ser_mvcc_def by (intro ser_intros) simp
  show "ser_ok ser_prepared"
    unfolding ser_prepared_def by (intro ser_intros op) simp
  show "ser_ok ser_coordinator"
    unfolding ser_coordinator_def by (intro ser_intros decision) simp
  show "ser_ok ser_finished"
    unfolding ser_finished_def by (intro ser_intros decision) simp
qed

definition demo_postcard :: "'a ser \<Rightarrow> 'a postcard" where
  "demo_postcard c =
     \<lparr>to_allocvec = (\<lambda>x. Inr (fst c x)),
      take_from_bytes = (\<lambda>bs. case snd c bs of None \<Rightarrow> Inl ''unexpected end'' | Some r \<Rightarrow> Inr r)\<rparr>"

definition demo_json :: "'a ser \<Rightarrow> 'a json" where
  "demo_json c =
     \<lparr>to_vec = (\<lambda>x. Inr (fst c x)),
      from_slice = (\<lambda>bs. case snd c bs of
          Some (x, []) \<Rightarrow> Inr x | _ \<Rightarrow> Inl ''trailing characters'')\<rparr>"

definition demo_codecs :: codecs where
  "demo_codecs =
     \<lparr>c_log = demo_postcard ser_log, c_log_json = demo_json ser_log, c_mvcc = demo_postcard ser_mvcc,
      c_hlc = demo_postcard ser_hlc, c_prepared = demo_json ser_prepared,
      c_decision = demo_json ser_coordinator, c_finished = demo_json ser_finished\<rparr>"

lemma demo_postcard_ok: "ser_ok c \<Longrightarrow> postcard_ok (demo_postcard c)"
  using ser_okD [of c _ "[]"] by (simp add: postcard_ok_def demo_postcard_def)

lemma demo_json_ok: "ser_ok c \<Longrightarrow> json_ok (demo_json c)"
  using ser_okD [of c _ "[]"] by (simp add: json_ok_def demo_json_def)

lemma demo_codecs_ok: "codecs_ok demo_codecs"
  by (simp add: codecs_ok_def demo_codecs_def demo_postcard_ok demo_json_ok ser_records_ok)

end
