(* ===== verification/Commit_Facts.thy ===== *)
theory Commit_Facts
  imports Txn_Commit Demo_Codecs
begin

text \<open>
  What a commit does. The effect of a commit record on the abstract store is computed row by
  row; from it follow the outcome of a public commit in every case, the invariant of the
  transaction metadata, and the agreement of the version history with the base rows. The
  contract of the storage interface carries these results to every engine, the in-memory
  engine in particular.
\<close>

section \<open>Names of the internal tables\<close>

lemma table_names_ne [simp]:
  "TXN_META_TABLE \<noteq> TXN_VERSIONS_TABLE"
  "TXN_META_TABLE \<noteq> TXN_MVCC_TABLE"
  "TXN_META_TABLE \<noteq> COMMIT_LOG_TABLE"
  "TXN_META_TABLE \<noteq> KEYSPACE_REGISTRY_TABLE"
  "TXN_META_TABLE \<noteq> TABLE_DATA_VERSION_TABLE"
  "TXN_META_TABLE \<noteq> HLC_TABLE"
  "TXN_META_TABLE \<noteq> DIST_TXN_PARTICIPANT_TABLE"
  "TXN_META_TABLE \<noteq> DIST_TXN_COORDINATOR_TABLE"
  "TXN_META_TABLE \<noteq> DIST_TXN_FINISHED_TABLE"
  "TXN_META_TABLE \<noteq> LOCKS_TABLE"
  "TXN_VERSIONS_TABLE \<noteq> TXN_META_TABLE"
  "TXN_VERSIONS_TABLE \<noteq> TXN_MVCC_TABLE"
  "TXN_VERSIONS_TABLE \<noteq> COMMIT_LOG_TABLE"
  "TXN_VERSIONS_TABLE \<noteq> KEYSPACE_REGISTRY_TABLE"
  "TXN_VERSIONS_TABLE \<noteq> TABLE_DATA_VERSION_TABLE"
  "TXN_VERSIONS_TABLE \<noteq> HLC_TABLE"
  "TXN_VERSIONS_TABLE \<noteq> DIST_TXN_PARTICIPANT_TABLE"
  "TXN_VERSIONS_TABLE \<noteq> DIST_TXN_COORDINATOR_TABLE"
  "TXN_VERSIONS_TABLE \<noteq> DIST_TXN_FINISHED_TABLE"
  "TXN_VERSIONS_TABLE \<noteq> LOCKS_TABLE"
  "TXN_MVCC_TABLE \<noteq> TXN_META_TABLE"
  "TXN_MVCC_TABLE \<noteq> TXN_VERSIONS_TABLE"
  "TXN_MVCC_TABLE \<noteq> COMMIT_LOG_TABLE"
  "TXN_MVCC_TABLE \<noteq> KEYSPACE_REGISTRY_TABLE"
  "TXN_MVCC_TABLE \<noteq> TABLE_DATA_VERSION_TABLE"
  "TXN_MVCC_TABLE \<noteq> HLC_TABLE"
  "TXN_MVCC_TABLE \<noteq> DIST_TXN_PARTICIPANT_TABLE"
  "TXN_MVCC_TABLE \<noteq> DIST_TXN_COORDINATOR_TABLE"
  "TXN_MVCC_TABLE \<noteq> DIST_TXN_FINISHED_TABLE"
  "TXN_MVCC_TABLE \<noteq> LOCKS_TABLE"
  "COMMIT_LOG_TABLE \<noteq> TXN_META_TABLE"
  "COMMIT_LOG_TABLE \<noteq> TXN_VERSIONS_TABLE"
  "COMMIT_LOG_TABLE \<noteq> TXN_MVCC_TABLE"
  "COMMIT_LOG_TABLE \<noteq> KEYSPACE_REGISTRY_TABLE"
  "COMMIT_LOG_TABLE \<noteq> TABLE_DATA_VERSION_TABLE"
  "COMMIT_LOG_TABLE \<noteq> HLC_TABLE"
  "COMMIT_LOG_TABLE \<noteq> DIST_TXN_PARTICIPANT_TABLE"
  "COMMIT_LOG_TABLE \<noteq> DIST_TXN_COORDINATOR_TABLE"
  "COMMIT_LOG_TABLE \<noteq> DIST_TXN_FINISHED_TABLE"
  "COMMIT_LOG_TABLE \<noteq> LOCKS_TABLE"
  "KEYSPACE_REGISTRY_TABLE \<noteq> TXN_META_TABLE"
  "KEYSPACE_REGISTRY_TABLE \<noteq> TXN_VERSIONS_TABLE"
  "KEYSPACE_REGISTRY_TABLE \<noteq> TXN_MVCC_TABLE"
  "KEYSPACE_REGISTRY_TABLE \<noteq> COMMIT_LOG_TABLE"
  "KEYSPACE_REGISTRY_TABLE \<noteq> TABLE_DATA_VERSION_TABLE"
  "KEYSPACE_REGISTRY_TABLE \<noteq> HLC_TABLE"
  "KEYSPACE_REGISTRY_TABLE \<noteq> DIST_TXN_PARTICIPANT_TABLE"
  "KEYSPACE_REGISTRY_TABLE \<noteq> DIST_TXN_COORDINATOR_TABLE"
  "KEYSPACE_REGISTRY_TABLE \<noteq> DIST_TXN_FINISHED_TABLE"
  "KEYSPACE_REGISTRY_TABLE \<noteq> LOCKS_TABLE"
  "TABLE_DATA_VERSION_TABLE \<noteq> TXN_META_TABLE"
  "TABLE_DATA_VERSION_TABLE \<noteq> TXN_VERSIONS_TABLE"
  "TABLE_DATA_VERSION_TABLE \<noteq> TXN_MVCC_TABLE"
  "TABLE_DATA_VERSION_TABLE \<noteq> COMMIT_LOG_TABLE"
  "TABLE_DATA_VERSION_TABLE \<noteq> KEYSPACE_REGISTRY_TABLE"
  "TABLE_DATA_VERSION_TABLE \<noteq> HLC_TABLE"
  "TABLE_DATA_VERSION_TABLE \<noteq> DIST_TXN_PARTICIPANT_TABLE"
  "TABLE_DATA_VERSION_TABLE \<noteq> DIST_TXN_COORDINATOR_TABLE"
  "TABLE_DATA_VERSION_TABLE \<noteq> DIST_TXN_FINISHED_TABLE"
  "TABLE_DATA_VERSION_TABLE \<noteq> LOCKS_TABLE"
  "HLC_TABLE \<noteq> TXN_META_TABLE"
  "HLC_TABLE \<noteq> TXN_VERSIONS_TABLE"
  "HLC_TABLE \<noteq> TXN_MVCC_TABLE"
  "HLC_TABLE \<noteq> COMMIT_LOG_TABLE"
  "HLC_TABLE \<noteq> KEYSPACE_REGISTRY_TABLE"
  "HLC_TABLE \<noteq> TABLE_DATA_VERSION_TABLE"
  "HLC_TABLE \<noteq> DIST_TXN_PARTICIPANT_TABLE"
  "HLC_TABLE \<noteq> DIST_TXN_COORDINATOR_TABLE"
  "HLC_TABLE \<noteq> DIST_TXN_FINISHED_TABLE"
  "HLC_TABLE \<noteq> LOCKS_TABLE"
  "DIST_TXN_PARTICIPANT_TABLE \<noteq> TXN_META_TABLE"
  "DIST_TXN_PARTICIPANT_TABLE \<noteq> TXN_VERSIONS_TABLE"
  "DIST_TXN_PARTICIPANT_TABLE \<noteq> TXN_MVCC_TABLE"
  "DIST_TXN_PARTICIPANT_TABLE \<noteq> COMMIT_LOG_TABLE"
  "DIST_TXN_PARTICIPANT_TABLE \<noteq> KEYSPACE_REGISTRY_TABLE"
  "DIST_TXN_PARTICIPANT_TABLE \<noteq> TABLE_DATA_VERSION_TABLE"
  "DIST_TXN_PARTICIPANT_TABLE \<noteq> HLC_TABLE"
  "DIST_TXN_PARTICIPANT_TABLE \<noteq> DIST_TXN_COORDINATOR_TABLE"
  "DIST_TXN_PARTICIPANT_TABLE \<noteq> DIST_TXN_FINISHED_TABLE"
  "DIST_TXN_PARTICIPANT_TABLE \<noteq> LOCKS_TABLE"
  "DIST_TXN_COORDINATOR_TABLE \<noteq> TXN_META_TABLE"
  "DIST_TXN_COORDINATOR_TABLE \<noteq> TXN_VERSIONS_TABLE"
  "DIST_TXN_COORDINATOR_TABLE \<noteq> TXN_MVCC_TABLE"
  "DIST_TXN_COORDINATOR_TABLE \<noteq> COMMIT_LOG_TABLE"
  "DIST_TXN_COORDINATOR_TABLE \<noteq> KEYSPACE_REGISTRY_TABLE"
  "DIST_TXN_COORDINATOR_TABLE \<noteq> TABLE_DATA_VERSION_TABLE"
  "DIST_TXN_COORDINATOR_TABLE \<noteq> HLC_TABLE"
  "DIST_TXN_COORDINATOR_TABLE \<noteq> DIST_TXN_PARTICIPANT_TABLE"
  "DIST_TXN_COORDINATOR_TABLE \<noteq> DIST_TXN_FINISHED_TABLE"
  "DIST_TXN_COORDINATOR_TABLE \<noteq> LOCKS_TABLE"
  "DIST_TXN_FINISHED_TABLE \<noteq> TXN_META_TABLE"
  "DIST_TXN_FINISHED_TABLE \<noteq> TXN_VERSIONS_TABLE"
  "DIST_TXN_FINISHED_TABLE \<noteq> TXN_MVCC_TABLE"
  "DIST_TXN_FINISHED_TABLE \<noteq> COMMIT_LOG_TABLE"
  "DIST_TXN_FINISHED_TABLE \<noteq> KEYSPACE_REGISTRY_TABLE"
  "DIST_TXN_FINISHED_TABLE \<noteq> TABLE_DATA_VERSION_TABLE"
  "DIST_TXN_FINISHED_TABLE \<noteq> HLC_TABLE"
  "DIST_TXN_FINISHED_TABLE \<noteq> DIST_TXN_PARTICIPANT_TABLE"
  "DIST_TXN_FINISHED_TABLE \<noteq> DIST_TXN_COORDINATOR_TABLE"
  "DIST_TXN_FINISHED_TABLE \<noteq> LOCKS_TABLE"
  "LOCKS_TABLE \<noteq> TXN_META_TABLE"
  "LOCKS_TABLE \<noteq> TXN_VERSIONS_TABLE"
  "LOCKS_TABLE \<noteq> TXN_MVCC_TABLE"
  "LOCKS_TABLE \<noteq> COMMIT_LOG_TABLE"
  "LOCKS_TABLE \<noteq> KEYSPACE_REGISTRY_TABLE"
  "LOCKS_TABLE \<noteq> TABLE_DATA_VERSION_TABLE"
  "LOCKS_TABLE \<noteq> HLC_TABLE"
  "LOCKS_TABLE \<noteq> DIST_TXN_PARTICIPANT_TABLE"
  "LOCKS_TABLE \<noteq> DIST_TXN_COORDINATOR_TABLE"
  "LOCKS_TABLE \<noteq> DIST_TXN_FINISHED_TABLE"
  by (simp_all add: table_name_defs dist_table_defs)

lemma internal_tables_reserved [simp]:
  "table_is_reserved TXN_META_TABLE"
  "table_is_reserved TXN_VERSIONS_TABLE"
  "table_is_reserved TXN_MVCC_TABLE"
  "table_is_reserved COMMIT_LOG_TABLE"
  "table_is_reserved KEYSPACE_REGISTRY_TABLE"
  "table_is_reserved TABLE_DATA_VERSION_TABLE"
  "table_is_reserved HLC_TABLE"
  "table_is_reserved DIST_TXN_PARTICIPANT_TABLE"
  "table_is_reserved DIST_TXN_COORDINATOR_TABLE"
  "table_is_reserved DIST_TXN_FINISHED_TABLE"
  "table_is_reserved LOCKS_TABLE"
  by (simp_all add: table_is_reserved_def RESERVED_KEYSPACE_PREFIX_def table_name_defs dist_table_defs)

section \<open>The effect of a commit record\<close>

definition vkey :: "string \<Rightarrow> bytes \<Rightarrow> bytes" where
  "vkey table key = u64_to_be (of_nat (length table)) @ as_bytes table @ key"

definition sized_table :: "string \<Rightarrow> bool" where
  "sized_table table \<longleftrightarrow> length table < 2 ^ 64"

lemma version_key_sized [simp]: "sized_table table \<Longrightarrow> version_key table key = Inr (vkey table key)"
  by (simp add: version_key_Inr vkey_def sized_table_def)

lemma mvcc_key_sized [simp]:
  "sized_table table \<Longrightarrow> mvcc_key table key i = Inr (vkey table key @ encode_txn_id i)"
  by (simp add: mvcc_key_def encode_txn_id_def)

lemma vkey_inject:
  "sized_table table \<Longrightarrow> sized_table table' \<Longrightarrow> vkey table key = vkey table' key' \<longleftrightarrow> table = table' \<and> key = key'"
  using version_key_eq [of table key "vkey table key" table' key'] by auto

definition mvcc_bytes :: "codecs \<Rightarrow> bytes option \<Rightarrow> bytes" where
  "mvcc_bytes cs v = projr (encode_mvcc_record cs (MvccRecord v))"

lemma encode_mvcc_ok: "codecs_ok cs \<Longrightarrow> encode_mvcc_record cs (MvccRecord v) = Inr (mvcc_bytes cs v)"
  by (metis mvcc_bytes_def mvcc_record_roundtrip sum.sel(2))

lemma decode_mvcc_bytes: "codecs_ok cs \<Longrightarrow> decode_mvcc_record cs (mvcc_bytes cs v) = Inr (MvccRecord v)"
  by (metis mvcc_bytes_def mvcc_record_roundtrip sum.sel(2))

definition log_bytes :: "codecs \<Rightarrow> commit_log_record \<Rightarrow> bytes" where
  "log_bytes cs record = projr (encode_commit_log_record cs record)"

lemma encode_log_ok: "codecs_ok cs \<Longrightarrow> encode_commit_log_record cs record = Inr (log_bytes cs record)"
  by (metis log_bytes_def commit_log_record_roundtrip sum.sel(2))

lemma decode_log_bytes: "codecs_ok cs \<Longrightarrow> decode_commit_log_record cs (log_bytes cs record) = Inr record"
  by (metis log_bytes_def commit_log_record_roundtrip sum.sel(2))

definition hlc_bytes :: "codecs \<Rightarrow> hlc \<Rightarrow> bytes" where
  "hlc_bytes cs h = projr (encode_hlc cs h)"

lemma encode_hlc_ok: "codecs_ok cs \<Longrightarrow> encode_hlc cs h = Inr (hlc_bytes cs h)"
  by (metis hlc_bytes_def hlc_roundtrip sum.sel(2))

lemma decode_hlc_bytes: "codecs_ok cs \<Longrightarrow> decode_hlc cs (hlc_bytes cs h) = Inr h"
  by (metis hlc_bytes_def hlc_roundtrip sum.sel(2))

lemmas codec_ok_simps =
  encode_mvcc_ok decode_mvcc_bytes encode_log_ok decode_log_bytes encode_hlc_ok decode_hlc_bytes

definition row_write :: "string \<Rightarrow> bytes \<Rightarrow> bytes option \<Rightarrow> store \<Rightarrow> store" where
  "row_write table key v s =
     (case v of Some b \<Rightarrow> store_put table key b s | None \<Rightarrow> store_delete table key s)"

lemma get_row_write:
  "bt_get (row_write table key v s t) k = (if t = table \<and> k = key then v else bt_get (s t) k)"
  by (simp add: row_write_def split: option.split)

definition commit_write_store :: "codecs \<Rightarrow> txn_id \<Rightarrow> commit_log_write \<Rightarrow> store \<Rightarrow> store" where
  "commit_write_store cs i w s =
     store_put TXN_VERSIONS_TABLE (vkey (clw_table w) (clw_key w)) (encode_txn_id i)
       (row_write (clw_table w) (clw_key w) (clw_value w)
         (store_put TXN_MVCC_TABLE (vkey (clw_table w) (clw_key w) @ encode_txn_id i)
           (mvcc_bytes cs (clw_value w)) s))"

lemma apply_commit_write_store:
  assumes "codecs_ok cs" and "sized_table (clw_table w)"
  shows "apply_commit_write store_writer cs i w s = Inr (commit_write_store cs i w s)"
  using assms
  by (simp add: apply_commit_write_def commit_write_store_def row_write_def encode_mvcc_ok
      split: option.split)

definition history_table :: "string \<Rightarrow> bool" where
  "history_table t \<longleftrightarrow> t \<in> {TXN_VERSIONS_TABLE, TXN_MVCC_TABLE}"

abbreviation clw_row :: "commit_log_write \<Rightarrow> write_key" where
  "clw_row w \<equiv> (clw_table w, clw_key w)"

lemma fold_writes_rows:
  assumes "\<not> history_table t" and "distinct (map clw_row ws)"
  shows "bt_get (fold (commit_write_store cs i) ws s t) k =
     (case map_of (map (\<lambda>w. (clw_row w, clw_value w)) ws) (t, k) of
        Some v \<Rightarrow> v | None \<Rightarrow> bt_get (s t) k)"
  using assms(2)
proof (induction ws arbitrary: s)
  case (Cons w ws)
  have "map_of (map (\<lambda>w. (clw_row w, clw_value w)) ws) (clw_row w) = None"
    using Cons.prems by (simp add: map_of_eq_None_iff image_image comp_def)
  moreover have "bt_get (commit_write_store cs i w s t) k =
      (if (t, k) = clw_row w then clw_value w else bt_get (s t) k)"
    using assms(1) by (simp add: commit_write_store_def get_row_write history_table_def)
  ultimately show ?case
    using Cons by (auto split: option.split)
qed simp

lemma fold_writes_versions:
  assumes "\<forall>w \<in> set ws. \<not> history_table (clw_table w)"
  shows "bt_get (fold (commit_write_store cs i) ws s TXN_VERSIONS_TABLE) k =
     (if \<exists>w \<in> set ws. k = vkey (clw_table w) (clw_key w) then Some (encode_txn_id i)
      else bt_get (s TXN_VERSIONS_TABLE) k)"
  using assms
proof (induction ws arbitrary: s)
  case (Cons w ws)
  have "bt_get (commit_write_store cs i w s TXN_VERSIONS_TABLE) k =
      (if k = vkey (clw_table w) (clw_key w) then Some (encode_txn_id i)
       else bt_get (s TXN_VERSIONS_TABLE) k)"
    using Cons.prems by (auto simp: commit_write_store_def get_row_write history_table_def)
  then show ?case
    using Cons by auto
qed simp

lemma fold_writes_mvcc:
  assumes "\<forall>w \<in> set ws. \<not> history_table (clw_table w) \<and> sized_table (clw_table w)"
    and "distinct (map clw_row ws)"
  shows "bt_get (fold (commit_write_store cs i) ws s TXN_MVCC_TABLE) k =
     (case find (\<lambda>w. k = vkey (clw_table w) (clw_key w) @ encode_txn_id i) ws of
        Some w \<Rightarrow> Some (mvcc_bytes cs (clw_value w))
      | None \<Rightarrow> bt_get (s TXN_MVCC_TABLE) k)"
  using assms
proof (induction ws arbitrary: s)
  case (Cons w ws)
  have step: "bt_get (commit_write_store cs i w s TXN_MVCC_TABLE) k =
      (if k = vkey (clw_table w) (clw_key w) @ encode_txn_id i then Some (mvcc_bytes cs (clw_value w))
       else bt_get (s TXN_MVCC_TABLE) k)"
    using Cons.prems by (auto simp: commit_write_store_def get_row_write history_table_def)
  have "find (\<lambda>w. k = vkey (clw_table w) (clw_key w) @ encode_txn_id i) ws = None"
    if "k = vkey (clw_table w) (clw_key w) @ encode_txn_id i"
    using that Cons.prems by (auto simp: find_None_iff vkey_inject image_iff)
  then show ?case
    using Cons step by (auto split: option.split)
qed simp

lemma get_fold_put:
  "bt_get (fold (\<lambda>x. store_put table (f x) v) xs s t) k =
     (if t = table \<and> k \<in> f ` set xs then Some v else bt_get (s t) k)"
  by (induction xs arbitrary: s) auto

definition meta_table :: "string \<Rightarrow> bool" where
  "meta_table t \<longleftrightarrow>
     t \<in> {TXN_VERSIONS_TABLE, TXN_MVCC_TABLE, TABLE_DATA_VERSION_TABLE, KEYSPACE_REGISTRY_TABLE,
          COMMIT_LOG_TABLE, HLC_TABLE}"

text \<open>
  Writes that keep clear of the tables the commit maintains itself, and of the current
  transaction id. Public writes and the writes of distributed transactions do.
\<close>

definition separate :: "commit_log_write list \<Rightarrow> bool" where
  "separate ws \<longleftrightarrow>
     (\<forall>w \<in> set ws. \<not> meta_table (clw_table w) \<and> clw_row w \<noteq> (TXN_META_TABLE, CURRENT_TXN_ID_KEY))"

definition public_tables :: "commit_log_write list \<Rightarrow> string list" where
  "public_tables ws =
     bt_keys (string_set (filter (\<lambda>table. \<not> table_is_reserved table) (map clw_table ws)))"

definition commit_store :: "codecs \<Rightarrow> commit_log_record \<Rightarrow> store \<Rightarrow> store" where
  "commit_store cs record s =
     (let i = clr_txn_id record;
          s1 = store_put TXN_META_TABLE CURRENT_TXN_ID_KEY (encode_txn_id i) s;
          s2 = fold (commit_write_store cs i) (clr_writes record) s1;
          s3 = fold (\<lambda>table. store_put TABLE_DATA_VERSION_TABLE (as_bytes table) (encode_txn_id i))
                 (public_tables (clr_writes record)) s2;
          s4 = fold (\<lambda>ks. store_put KEYSPACE_REGISTRY_TABLE (as_bytes ks) KEYSPACE_PRESENT_VALUE)
                 (keyspaces_for_commit (map clw_table (clr_writes record))) s3;
          s5 = store_put COMMIT_LOG_TABLE (commit_log_key i) (log_bytes cs record) s4
      in case clr_hlc record of
           None \<Rightarrow> s5
         | Some h \<Rightarrow>
             let merged = (case stored_hlc_in_txn cs (store_reader s) of
                             Inr (Some st) \<Rightarrow> max st h | _ \<Rightarrow> h)
             in store_put HLC_TABLE HLC_LOCAL_KEY (hlc_bytes cs merged) s5)"

lemma fold_writes_other_table:
  assumes "\<not> history_table t" and "\<forall>w \<in> set ws. clw_table w \<noteq> t"
  shows "fold (commit_write_store cs i) ws s t = s t"
  using assms(2)
proof (induction ws arbitrary: s)
  case (Cons w ws)
  moreover have "commit_write_store cs i w s t = s t"
    using assms(1) Cons.prems
    by (auto simp: commit_write_store_def row_write_def history_table_def split: option.split)
  ultimately show ?case
    by simp
qed simp

lemma fold_put_other_table: "t \<noteq> table \<Longrightarrow> fold (\<lambda>x. store_put table (f x) v) xs s t = s t"
  by (induction xs arbitrary: s) auto

lemma separate_history: "separate ws \<Longrightarrow> w \<in> set ws \<Longrightarrow> \<not> history_table (clw_table w)"
  by (auto simp: separate_def meta_table_def history_table_def)

lemma apply_commit_store:
  assumes "codecs_ok cs" and "\<forall>w \<in> set (clr_writes record). sized_table (clw_table w)"
    and "separate (clr_writes record)" and "stored_hlc_in_txn cs (store_reader s) = Inr stored"
  shows "apply_commit_record_in_txn store_writer cs s record = Inr (commit_store cs record s)"
proof -
  let ?i = "clr_txn_id record"
  have writes: "rfold (apply_commit_write store_writer cs ?i) (clr_writes record) s' =
      Inr (fold (commit_write_store cs ?i) (clr_writes record) s')" for s'
    using assms(1,2) by (intro rfold_total) (simp add: apply_commit_write_store)
  have hlc: "stored_hlc_in_txn cs (store_reader s') = Inr stored" if "s' HLC_TABLE = s HLC_TABLE" for s'
    using assms(4) that by (simp add: stored_hlc_in_txn_def)
  have "fold (commit_write_store cs ?i) (clr_writes record) s' HLC_TABLE = s' HLC_TABLE" for s'
    using assms(3) by (intro fold_writes_other_table) (auto simp: separate_def meta_table_def history_table_def)
  then show ?thesis
    using assms(1,4)
    by (simp add: apply_commit_record_in_txn_def commit_store_def Let_def writes rfold_total
        public_tables_def [symmetric] encode_log_ok encode_hlc_ok hlc fold_put_other_table
        split: option.split)
qed

lemma commit_store_rows:
  assumes "\<not> meta_table t" and "(t, k) \<noteq> (TXN_META_TABLE, CURRENT_TXN_ID_KEY)"
    and "distinct (map clw_row (clr_writes record))"
  shows "bt_get (commit_store cs record s t) k =
     (case map_of (map (\<lambda>w. (clw_row w, clw_value w)) (clr_writes record)) (t, k) of
        Some v \<Rightarrow> v | None \<Rightarrow> bt_get (s t) k)"
  using assms
  by (auto simp: commit_store_def Let_def meta_table_def fold_put_other_table fold_writes_rows
      history_table_def split: option.split)

lemma commit_store_current:
  assumes "separate (clr_writes record)" and "distinct (map clw_row (clr_writes record))"
  shows "bt_get (commit_store cs record s TXN_META_TABLE) CURRENT_TXN_ID_KEY =
    Some (encode_txn_id (clr_txn_id record))"
proof -
  have "map_of (map (\<lambda>w. (clw_row w, clw_value w)) (clr_writes record))
      (TXN_META_TABLE, CURRENT_TXN_ID_KEY) = None"
    using assms(1) by (auto simp: map_of_eq_None_iff separate_def)
  then show ?thesis
    using assms(2)
    by (simp add: commit_store_def Let_def fold_put_other_table fold_writes_rows history_table_def
        split: option.split)
qed

lemma commit_store_versions:
  assumes "separate (clr_writes record)"
  shows "bt_get (commit_store cs record s TXN_VERSIONS_TABLE) k =
     (if \<exists>w \<in> set (clr_writes record). k = vkey (clw_table w) (clw_key w)
      then Some (encode_txn_id (clr_txn_id record)) else bt_get (s TXN_VERSIONS_TABLE) k)"
  using assms
  by (simp add: commit_store_def Let_def fold_put_other_table fold_writes_versions separate_history
      split: option.split)

lemma commit_store_mvcc:
  assumes "separate (clr_writes record)" and "distinct (map clw_row (clr_writes record))"
    and "\<forall>w \<in> set (clr_writes record). sized_table (clw_table w)"
  shows "bt_get (commit_store cs record s TXN_MVCC_TABLE) k =
     (case find (\<lambda>w. k = vkey (clw_table w) (clw_key w) @ encode_txn_id (clr_txn_id record))
             (clr_writes record) of
        Some w \<Rightarrow> Some (mvcc_bytes cs (clw_value w))
      | None \<Rightarrow> bt_get (s TXN_MVCC_TABLE) k)"
  using assms
  by (simp add: commit_store_def Let_def fold_put_other_table fold_writes_mvcc separate_history
      split: option.split)

lemma commit_store_log:
  assumes "separate (clr_writes record)"
  shows "bt_get (commit_store cs record s COMMIT_LOG_TABLE) k =
     (if k = commit_log_key (clr_txn_id record) then Some (log_bytes cs record)
      else bt_get (s COMMIT_LOG_TABLE) k)"
proof -
  have "fold (commit_write_store cs i) (clr_writes record) s' COMMIT_LOG_TABLE = s' COMMIT_LOG_TABLE" for i s'
    using assms by (intro fold_writes_other_table) (auto simp: separate_def meta_table_def history_table_def)
  then show ?thesis
    by (simp add: commit_store_def Let_def fold_put_other_table split: option.split)
qed

lemma commit_store_hlc:
  assumes "separate (clr_writes record)" and "codecs_ok cs" and "clr_hlc record = Some h"
    and "stored_hlc_in_txn cs (store_reader s) = Inr stored"
  shows "stored_hlc_in_txn cs (store_reader (commit_store cs record s)) =
    Inr (Some (case stored of None \<Rightarrow> h | Some st \<Rightarrow> max st h))"
  using assms(2-4)
  by (cases stored) (simp_all add: commit_store_def Let_def stored_hlc_in_txn_def decode_hlc_bytes)

lemma commit_store_hlc_other:
  assumes "separate (clr_writes record)" and "k \<noteq> HLC_LOCAL_KEY"
  shows "bt_get (commit_store cs record s HLC_TABLE) k = bt_get (s HLC_TABLE) k"
proof -
  have "\<forall>w \<in> set (clr_writes record). clw_table w \<noteq> HLC_TABLE"
    using assms(1) by (auto simp: separate_def meta_table_def)
  moreover have "\<not> history_table HLC_TABLE"
    by (simp add: history_table_def table_name_defs)
  ultimately show ?thesis
    using assms(2)
    by (simp add: commit_store_def Let_def fold_put_other_table fold_writes_other_table split: option.split)
qed

lemma set_string_set: "set (bt_keys (string_set xs)) = set xs"
proof -
  have "bt_get (fold (\<lambda>x m. bt_insert x () m) xs m) k \<noteq> None \<longleftrightarrow> k \<in> set xs \<or> bt_get m k \<noteq> None"
    for m k
    by (induction xs arbitrary: m) auto
  then show ?thesis
    by (auto simp: string_set_def bt_keys_iff set_eq_iff)
qed

lemma commit_store_table_version:
  assumes "separate (clr_writes record)"
  shows "bt_get (commit_store cs record s TABLE_DATA_VERSION_TABLE) (as_bytes table) =
     (if \<not> table_is_reserved table \<and> table \<in> clw_table ` set (clr_writes record)
      then Some (encode_txn_id (clr_txn_id record))
      else bt_get (s TABLE_DATA_VERSION_TABLE) (as_bytes table))"
proof -
  have "fold (commit_write_store cs i) (clr_writes record) s' TABLE_DATA_VERSION_TABLE =
      s' TABLE_DATA_VERSION_TABLE" for i s'
    using assms by (intro fold_writes_other_table) (auto simp: separate_def meta_table_def history_table_def)
  moreover have "as_bytes table \<in> as_bytes ` set (public_tables (clr_writes record)) \<longleftrightarrow>
      \<not> table_is_reserved table \<and> table \<in> clw_table ` set (clr_writes record)"
    by (auto simp: public_tables_def set_string_set)
  ultimately show ?thesis
    by (simp add: commit_store_def Let_def fold_put_other_table get_fold_put split: option.split)
qed

lemma commit_store_registry:
  assumes "separate (clr_writes record)"
  shows "bt_get (commit_store cs record s KEYSPACE_REGISTRY_TABLE) k =
     (if k \<in> as_bytes ` set (keyspaces_for_commit (map clw_table (clr_writes record)))
      then Some KEYSPACE_PRESENT_VALUE else bt_get (s KEYSPACE_REGISTRY_TABLE) k)"
proof -
  have "fold (commit_write_store cs i) (clr_writes record) s' KEYSPACE_REGISTRY_TABLE =
      s' KEYSPACE_REGISTRY_TABLE" for i s'
    using assms by (intro fold_writes_other_table) (auto simp: separate_def meta_table_def history_table_def)
  then show ?thesis
    by (simp add: commit_store_def Let_def fold_put_other_table get_fold_put split: option.split)
qed

section \<open>Well-formed transaction metadata\<close>

text \<open>
  \<open>txn_wf cs c s\<close>: the store holds the current transaction id \<open>c\<close>, no row has a later
  version, and the clock, the key locks and the lock format can be read.
\<close>

definition txn_wf :: "codecs \<Rightarrow> txn_id \<Rightarrow> store \<Rightarrow> bool" where
  "txn_wf cs c s \<longleftrightarrow>
     current_txn_id_from (store_reader s) = Inr c \<and>
     (\<forall>vk bs. bt_get (s TXN_VERSIONS_TABLE) vk = Some bs \<longrightarrow> (\<exists>i. i \<le> c \<and> bs = encode_txn_id i)) \<and>
     (\<exists>stored. stored_hlc_in_txn cs (store_reader s) = Inr stored) \<and>
     (\<forall>lk bs. bt_get (s LOCKS_TABLE) lk = Some bs \<longrightarrow> (\<exists>i. bs = encode_txn_id i)) \<and>
     reject_legacy_prepares (store_reader s) = Inr ()"

definition stored_hlc :: "codecs \<Rightarrow> store \<Rightarrow> hlc option" where
  "stored_hlc cs s = projr (stored_hlc_in_txn cs (store_reader s))"

definition row_version :: "store \<Rightarrow> string \<Rightarrow> bytes \<Rightarrow> txn_id" where
  "row_version s table key = projr (last_key_version (store_reader s) table key)"

definition row_locked :: "store \<Rightarrow> string \<Rightarrow> bytes \<Rightarrow> bool" where
  "row_locked s table key \<longleftrightarrow> bt_get (s LOCKS_TABLE) (vkey table key) \<noteq> None"

abbreviation written :: "write_set \<Rightarrow> string \<Rightarrow> bytes \<Rightarrow> bool" where
  "written ws table key \<equiv> bt_get ws (table, key) \<noteq> None"

definition sized_set :: "write_set \<Rightarrow> bool" where
  "sized_set ws \<longleftrightarrow> (\<forall>table key. written ws table key \<longrightarrow> sized_table table)"

definition public_set :: "write_set \<Rightarrow> bool" where
  "public_set ws \<longleftrightarrow> (\<forall>table key. written ws table key \<longrightarrow> \<not> table_is_reserved table)"

definition separate_set :: "write_set \<Rightarrow> bool" where
  "separate_set ws \<longleftrightarrow>
     (\<forall>table key. written ws table key \<longrightarrow>
        \<not> meta_table table \<and> (table, key) \<noteq> (TXN_META_TABLE, CURRENT_TXN_ID_KEY))"

definition next_record :: "codecs \<Rightarrow> clocks \<Rightarrow> txn_id \<Rightarrow> write_set \<Rightarrow> store \<Rightarrow> commit_log_record" where
  "next_record cs ck c ws s =
     commit_log_record_with_clock_and_hlc (c + 1) ws ck
       (tick (ck_unix_ms ck) (case stored_hlc cs s of None \<Rightarrow> hlc_default | Some h \<Rightarrow> h))"

lemma next_record_simps [simp]:
  "clr_txn_id (next_record cs ck c ws s) = c + 1"
  "clr_hlc (next_record cs ck c ws s) =
     Some (tick (ck_unix_ms ck) (case stored_hlc cs s of None \<Rightarrow> hlc_default | Some h \<Rightarrow> h))"
  "clr_committed_at (next_record cs ck c ws s) = ck_time ck"
  "clr_writes (next_record cs ck c ws s) =
     map (\<lambda>((table, key), v). CommitLogWrite table key v) (bt_entries ws)"
  by (simp_all add: next_record_def commit_log_record_with_clock_and_hlc_def)

lemma record_rows:
  "map clw_row (map (\<lambda>((table, key), v). CommitLogWrite table key v) es) = map fst es"
  by (induction es) auto

lemma record_values:
  "map (\<lambda>w. (clw_row w, clw_value w)) (map (\<lambda>((table, key), v). CommitLogWrite table key v) es) = es"
  by (induction es) auto

lemma record_writes_iff:
  "w \<in> set (map (\<lambda>((table, key), v). CommitLogWrite table key v) (bt_entries ws)) \<longleftrightarrow>
     bt_get ws (clw_row w) = Some (clw_value w)"
proof -
  have "w \<in> set (map (\<lambda>((table, key), v). CommitLogWrite table key v) (bt_entries ws)) \<longleftrightarrow>
      (clw_row w, clw_value w) \<in> set (bt_entries ws)"
    by (cases w) (force simp: image_iff)
  then show ?thesis
    by (simp only: bt_entries_iff)
qed

lemma next_record_facts:
  shows "distinct (map clw_row (clr_writes (next_record cs ck c ws s)))"
    and "separate_set ws \<Longrightarrow> separate (clr_writes (next_record cs ck c ws s))"
    and "sized_set ws \<Longrightarrow> \<forall>w \<in> set (clr_writes (next_record cs ck c ws s)). sized_table (clw_table w)"
    and "map_of (map (\<lambda>w. (clw_row w, clw_value w)) (clr_writes (next_record cs ck c ws s))) = bt_get ws"
proof -
  show "distinct (map clw_row (clr_writes (next_record cs ck c ws s)))"
    by (simp only: next_record_simps record_rows bt_entries_distinct)
  show "map_of (map (\<lambda>w. (clw_row w, clw_value w)) (clr_writes (next_record cs ck c ws s))) = bt_get ws"
    by (rule ext) (simp only: next_record_simps record_values bt_get_def)
  show "separate (clr_writes (next_record cs ck c ws s))" if "separate_set ws"
    using that unfolding separate_def Ball_def next_record_simps record_writes_iff
    by (auto simp: separate_set_def)
  show "\<forall>w \<in> set (clr_writes (next_record cs ck c ws s)). sized_table (clw_table w)" if "sized_set ws"
    using that unfolding Ball_def next_record_simps record_writes_iff by (auto simp: sized_set_def)
qed

lemma meta_table_reserved: "meta_table t \<Longrightarrow> table_is_reserved t"
  by (auto simp: meta_table_def)

lemma public_setD: "public_set ws \<Longrightarrow> table_is_reserved table \<Longrightarrow> bt_get ws (table, key) = None"
  unfolding public_set_def by blast

lemma public_setD2: "public_set ws \<Longrightarrow> tk \<in> set (bt_keys ws) \<Longrightarrow> \<not> table_is_reserved (fst tk)"
  using public_setD [of ws "fst tk" "snd tk"] by (auto simp: bt_keys_iff simp del: not_None_eq)

lemma sized_setD: "sized_set ws \<Longrightarrow> (table, key) \<in> set (bt_keys ws) \<Longrightarrow> sized_table table"
  unfolding sized_set_def bt_keys_iff by blast

lemma public_separate: "public_set ws \<Longrightarrow> separate_set ws"
  unfolding separate_set_def
proof (intro allI impI)
  fix table key
  assume "public_set ws" "written ws table key"
  then have "\<not> table_is_reserved table"
    by (metis public_setD)
  then show "\<not> meta_table table \<and> (table, key) \<noteq> (TXN_META_TABLE, CURRENT_TXN_ID_KEY)"
    using meta_table_reserved by auto
qed

lemma txn_wfD:
  assumes "txn_wf cs c s"
  shows "current_txn_id_from (store_reader s) = Inr c"
    and "bt_get (s TXN_VERSIONS_TABLE) vk = Some bs \<Longrightarrow> \<exists>i. i \<le> c \<and> bs = encode_txn_id i"
    and "stored_hlc_in_txn cs (store_reader s) = Inr (stored_hlc cs s)"
    and "bt_get (s LOCKS_TABLE) lk = Some bs \<Longrightarrow> \<exists>i. bs = encode_txn_id i"
    and "reject_legacy_prepares (store_reader s) = Inr ()"
  using assms by (auto simp: txn_wf_def stored_hlc_def)

lemma last_key_version_wf:
  assumes "txn_wf cs c s" and "sized_table table"
  shows "last_key_version (store_reader s) table key = Inr (row_version s table key)"
    and "row_version s table key \<le> c"
proof -
  have "\<exists>i \<le> c. last_key_version (store_reader s) table key = Inr i"
    using assms by (cases "bt_get (s TXN_VERSIONS_TABLE) (vkey table key)")
      (fastforce simp: txn_wf_def last_key_version_def)+
  then show "last_key_version (store_reader s) table key = Inr (row_version s table key)"
    "row_version s table key \<le> c"
    by (auto simp: row_version_def)
qed

lemma check_versions_store:
  assumes "txn_wf cs c s" and "sized_set ws"
  shows "rfold (\<lambda>tk _. check_version (store_reader s) snap tk) (bt_keys ws) () =
    (if \<exists>table key. written ws table key \<and> row_version s table key > snap then Inl Conflict else Inr ())"
proof -
  have check: "check_version (store_reader s) snap (table, key) =
      (if row_version s table key > snap then Inl Conflict else Inr ())" if "(table, key) \<in> set (bt_keys ws)" for table key
    using last_key_version_wf(1) [OF assms(1) sized_setD [OF assms(2) that]]
    by (simp add: check_version_def)
  have "rfold (\<lambda>tk _. check_version (store_reader s) snap tk) ks () =
     (if \<exists>tk \<in> set ks. row_version s (fst tk) (snd tk) > snap then Inl Conflict else Inr ())"
    if "set ks \<subseteq> set (bt_keys ws)" for ks
    using that
  proof (induction ks)
    case (Cons tk ks)
    then show ?case
      using check [of "fst tk" "snd tk"] by auto
  qed simp
  from this [OF order_refl] show ?thesis
    by (auto simp: Bex_def bt_keys_iff)
qed

lemma lock_check_public:
  assumes "txn_wf cs c s" and "sized_set ws" and "public_set ws" and "\<not> bt_is_empty ws"
  shows "validate_write_locks cs (store_reader s) ws =
    (if \<exists>table key. written ws table key \<and> row_locked s table key then Inl Conflict else Inr ())"
proof -
  have free: "bt_get ws (LOCKS_TABLE, lk) = None" "bt_get ws (DIST_TXN_FINISHED_TABLE, lk) = None" for lk
    using public_setD [OF assms(3)] by simp_all
  have check: "check_write_lock cs (store_reader s) ws (table, key) =
      (if row_locked s table key then Inl Conflict else Inr ())" if "(table, key) \<in> set (bt_keys ws)" for table key
  proof (cases "bt_get (s LOCKS_TABLE) (vkey table key)")
    case None
    then show ?thesis
      using sized_setD [OF assms(2) that] by (simp add: check_write_lock_def row_locked_def)
  next
    case (Some bs)
    moreover obtain i where "bs = encode_txn_id i"
      using txn_wfD(4) [OF assms(1) Some] by blast
    ultimately show ?thesis
      using sized_setD [OF assms(2) that]
      by (simp add: check_write_lock_def row_locked_def free opt_transpose_def)
  qed
  have checks: "rfold (\<lambda>tk _. check_write_lock cs (store_reader s) ws tk) ks () =
     (if \<exists>tk \<in> set ks. row_locked s (fst tk) (snd tk) then Inl Conflict else Inr ())"
    if "set ks \<subseteq> set (bt_keys ws)" for ks
    using that
  proof (induction ks)
    case (Cons tk ks)
    then show ?case
      using check [of "fst tk" "snd tk"] by auto
  qed simp
  have public: "filter (\<lambda>(table, _). \<not> table_is_reserved table) (bt_keys ws) = bt_keys ws"
    using public_setD2 [OF assms(3)] by (auto intro!: filter_True)
  obtain tk where "tk \<in> set (bt_keys ws)"
    using assms(4) by (auto simp: bt_is_empty_iff bt_keys_iff)
  then have "\<not> (\<forall>(table, _) \<in> set (bt_keys ws). table_is_reserved table)"
    using public_setD2 [OF assms(3), of tk] by (auto simp: case_prod_beta)
  then have "validate_write_locks cs (store_reader s) ws =
      rfold (\<lambda>tk _. check_write_lock cs (store_reader s) ws tk) (bt_keys ws) ()"
    by (simp only: validate_write_locks_def public txn_wfD(5) [OF assms(1)] if_False rbind_simps)
  moreover have "(\<exists>tk \<in> set (bt_keys ws). row_locked s (fst tk) (snd tk)) \<longleftrightarrow>
      (\<exists>table key. written ws table key \<and> row_locked s table key)"
    by (simp add: Bex_def bt_keys_iff)
  ultimately show ?thesis
    using checks [OF order_refl] by (simp only:)
qed

section \<open>The outcome of a commit\<close>

lemma checked_succ: "checked_add (c :: u64) 1 = (if c = - 1 then None else Some (c + 1))"
proof (cases "c = - 1")
  case False
  then have "c < - 1"
    by (rule order.not_eq_order_implies_strict) (rule word_n1_ge)
  then have "unat c < unat (- 1 :: u64)"
    by (simp only: word_less_nat_alt)
  then have "unat c + 1 < 2 ^ 64"
    by (simp only: unsigned_minus_1_eq_mask mask_eq_exp_minus_1) simp
  with False show ?thesis
    by (simp add: checked_add_def)
next
  case True
  then show ?thesis
    by (simp add: checked_add_def unsigned_minus_1_eq_mask mask_eq_exp_minus_1)
qed

lemma ok_or_next: "ok_or e (checked_add (c :: u64) 1) = (if c = - 1 then Inl e else Inr (c + 1))"
  by (simp add: checked_succ)

lemma stage_commit_store:
  assumes "codecs_ok cs" and "txn_wf cs c s" and "sized_set ws" and "separate_set ws"
    and "validate_write_locks cs (store_reader s) ws = Inr ()"
    and "\<nexists>table key. written ws table key \<and> row_version s table key > snap"
  shows "stage_commit store_writer cs ck s snap ws Inr (\<lambda>t _. Inr t) =
    (if c = - 1 then Inl (Backend ''transaction id overflow'')
     else Inr (commit_store cs (next_record cs ck c ws s) s, c + 1))"
proof -
  note wf = txn_wfD [OF assms(2)]
  have next_id: "ok_or (Backend ''transaction id overflow'') (checked_add c 1) =
      (if c = - 1 then Inl (Backend ''transaction id overflow'') else Inr (c + 1))"
    by (rule ok_or_next)
  have "next_hlc_in_txn cs ck (store_reader s) =
      Inr (tick (ck_unix_ms ck) (case stored_hlc cs s of None \<Rightarrow> hlc_default | Some h \<Rightarrow> h))"
    by (simp add: next_hlc_in_txn_def wf(3))
  moreover have "apply_commit_record_in_txn store_writer cs s (next_record cs ck c ws s) =
      Inr (commit_store cs (next_record cs ck c ws s) s)"
    using apply_commit_store [OF assms(1) next_record_facts(3) [OF assms(3)]
        next_record_facts(2) [OF assms(4)] wf(3)] .
  ultimately show ?thesis
    using assms(6)
    by (simp add: stage_commit_def assms(5) check_versions_store [OF assms(2,3)] wf(1) next_id
        next_record_def [symmetric])
qed

definition commit_refused :: "store \<Rightarrow> txn_id \<Rightarrow> write_set \<Rightarrow> bool" where
  "commit_refused s snap ws \<longleftrightarrow>
     (\<exists>table key. written ws table key \<and> (row_locked s table key \<or> row_version s table key > snap))"

lemma commit_write_set_store:
  assumes "codecs_ok cs" and "txn_wf cs c s" and "sized_set ws" and "public_set ws"
    and "\<not> bt_is_empty ws"
  shows "commit_write_set store_engine cs ck s snap ws =
    (if commit_refused s snap ws then (s, Inl Conflict)
     else if c = - 1 then (s, Inl (Backend ''transaction id overflow''))
     else (commit_store cs (next_record cs ck c ws s) s, Inr (c + 1)))"
proof -
  have "validate_public_write_set ws = Inr ()"
    unfolding validate_public_write_set_iff using assms(4) by (simp only: public_set_def)
  then have start: "commit_write_set store_engine cs ck s snap ws =
      finish_commit store_engine s (stage_commit store_writer cs ck s snap ws Inr (\<lambda>t _. Inr t))"
    using assms(5) by (simp add: commit_write_set_def commit_write_set_authorized_def
        commit_write_set_in_txn_with_extra_authorized_def)
  note locks = lock_check_public [OF assms(2,3,4,5)]
  show ?thesis
  proof (cases "commit_refused s snap ws")
    case True
    then have "stage_commit store_writer cs ck s snap ws Inr (\<lambda>t _. Inr t) = Inl Conflict"
      unfolding stage_commit_def commit_refused_def
      by (simp only: store_writer_simps locks check_versions_store [OF assms(2,3)] split: if_split)
        (metis rbind_simps)
    with True show ?thesis
      by (simp add: start finish_commit_def)
  next
    case False
    then have "validate_write_locks cs (store_reader s) ws = Inr ()"
      "\<nexists>table key. written ws table key \<and> row_version s table key > snap"
      unfolding locks commit_refused_def by metis+
    from stage_commit_store [OF assms(1,2,3) public_separate [OF assms(4)] this] False show ?thesis
      by (simp add: start finish_commit_def)
  qed
qed

lemma row_version_after:
  assumes "txn_wf cs c s" and "separate_set ws" and "sized_set ws" and "sized_table table"
  shows "row_version (commit_store cs (next_record cs ck c ws s) s) table key =
    (if written ws table key then c + 1 else row_version s table key)"
proof -
  let ?r = "next_record cs ck c ws s"
  have "(\<exists>w \<in> set (clr_writes ?r). vkey table key = vkey (clw_table w) (clw_key w)) \<longleftrightarrow>
      written ws table key"
  proof
    assume "\<exists>w \<in> set (clr_writes ?r). vkey table key = vkey (clw_table w) (clw_key w)"
    then obtain w where w: "w \<in> set (clr_writes ?r)" "vkey table key = vkey (clw_table w) (clw_key w)"
      by blast
    then have "bt_get ws (clw_row w) = Some (clw_value w)"
      unfolding next_record_simps record_writes_iff by simp
    moreover have "clw_row w = (table, key)"
      using w next_record_facts(3) [OF assms(3)] assms(4) vkey_inject by auto
    ultimately show "written ws table key"
      by simp
  next
    assume "written ws table key"
    then obtain v where "bt_get ws (table, key) = Some v"
      by blast
    then have "CommitLogWrite table key v \<in> set (clr_writes ?r)"
      unfolding next_record_simps record_writes_iff by simp
    then show "\<exists>w \<in> set (clr_writes ?r). vkey table key = vkey (clw_table w) (clw_key w)"
      by force
  qed
  then show ?thesis
    using assms(4) by (simp only: row_version_def last_key_version_def version_key_sized rbind_simps
        store_reader_simps commit_store_versions [OF next_record_facts(2) [OF assms(2)]] next_record_simps)
      (simp split: option.split)
qed

lemma rows_after:
  assumes "\<not> meta_table table" and "(table, key) \<noteq> (TXN_META_TABLE, CURRENT_TXN_ID_KEY)"
  shows "bt_get (commit_store cs (next_record cs ck c ws s) s table) key =
    (case bt_get ws (table, key) of Some v \<Rightarrow> v | None \<Rightarrow> bt_get (s table) key)"
  using commit_store_rows [OF assms next_record_facts(1)] by (simp only: next_record_facts(4))

lemma current_after:
  "separate_set ws \<Longrightarrow>
     current_txn_id_from (store_reader (commit_store cs (next_record cs ck c ws s) s)) = Inr (c + 1)"
  using commit_store_current [OF next_record_facts(2) next_record_facts(1)]
  by (simp add: current_txn_id_from_def)

lemma hlc_after:
  assumes "codecs_ok cs" and "txn_wf cs c s" and "separate_set ws"
  shows "stored_hlc_in_txn cs (store_reader (commit_store cs (next_record cs ck c ws s) s)) =
    Inr (Some (tick (ck_unix_ms ck) (case stored_hlc cs s of None \<Rightarrow> hlc_default | Some h \<Rightarrow> h)))"
  using commit_store_hlc [OF next_record_facts(2) [OF assms(3)] assms(1) next_record_simps(2) txn_wfD(3) [OF assms(2)]]
  by (cases "stored_hlc cs s") (simp_all add: max_absorb2 tick_ge)

lemma other_table_after:
  assumes "\<not> meta_table table" and "table \<noteq> TXN_META_TABLE" and "\<forall>key. \<not> written ws table key"
  shows "commit_store cs (next_record cs ck c ws s) s table = s table"
  using assms rows_after [of table] by (intro bt_eqI) simp

lemma u64_succ_greater: "c \<noteq> - 1 \<Longrightarrow> c < (c + 1 :: u64)"
  using checked_add_SomeD [of c 1 "c + 1"] by (simp add: checked_succ word_less_nat_alt)

lemma versions_after_le:
  assumes "txn_wf cs c s" and "separate_set ws" and "c \<noteq> - 1"
    and "bt_get (commit_store cs (next_record cs ck c ws s) s TXN_VERSIONS_TABLE) vk = Some bs"
  shows "\<exists>i. i \<le> c + 1 \<and> bs = encode_txn_id i"
proof -
  have "bs = encode_txn_id (c + 1) \<or> bt_get (s TXN_VERSIONS_TABLE) vk = Some bs"
    using assms(4) unfolding commit_store_versions [OF next_record_facts(2) [OF assms(2)]]
    by (auto split: if_splits)
  then show ?thesis
  proof
    assume "bt_get (s TXN_VERSIONS_TABLE) vk = Some bs"
    then obtain i where "i \<le> c" "bs = encode_txn_id i"
      using txn_wfD(2) [OF assms(1)] by blast
    then show ?thesis
      using order_trans [OF _ less_imp_le [OF u64_succ_greater [OF assms(3)]]] by blast
  qed auto
qed

lemma META_key_ne [simp]: "LOCK_FORMAT_KEY \<noteq> CURRENT_TXN_ID_KEY" "CURRENT_TXN_ID_KEY \<noteq> LOCK_FORMAT_KEY"
  by (simp_all add: LOCK_FORMAT_KEY_def CURRENT_TXN_ID_KEY_def)

lemma internal_not_meta [simp]:
  "\<not> meta_table TXN_META_TABLE" "\<not> meta_table LOCKS_TABLE" "\<not> meta_table DIST_TXN_PARTICIPANT_TABLE"
  "\<not> meta_table DIST_TXN_FINISHED_TABLE" "\<not> meta_table DIST_TXN_COORDINATOR_TABLE"
  by (simp_all add: meta_table_def)

lemma txn_wf_after:
  assumes "codecs_ok cs" and "txn_wf cs c s" and "public_set ws" and "c \<noteq> - 1"
  shows "txn_wf cs (c + 1) (commit_store cs (next_record cs ck c ws s) s)" (is "txn_wf _ _ ?s'")
proof -
  note sep = public_separate [OF assms(3)]
  have locks: "?s' LOCKS_TABLE = s LOCKS_TABLE"
    "?s' DIST_TXN_PARTICIPANT_TABLE = s DIST_TXN_PARTICIPANT_TABLE"
    using public_setD [OF assms(3)] by (simp_all add: other_table_after)
  have "bt_get (?s' TXN_META_TABLE) LOCK_FORMAT_KEY = bt_get (s TXN_META_TABLE) LOCK_FORMAT_KEY"
    using public_setD [OF assms(3), of TXN_META_TABLE] by (simp add: rows_after)
  then have "reject_legacy_prepares (store_reader ?s') = Inr ()"
    using txn_wfD(5) [OF assms(2)] by (simp only: reject_legacy_prepares_store locks)
  moreover have "\<forall>vk bs. bt_get (?s' TXN_VERSIONS_TABLE) vk = Some bs \<longrightarrow>
      (\<exists>i. i \<le> c + 1 \<and> bs = encode_txn_id i)"
    using versions_after_le [OF assms(2) sep assms(4)] by blast
  moreover have "\<exists>stored. stored_hlc_in_txn cs (store_reader ?s') = Inr stored"
    using hlc_after [OF assms(1,2) sep] by blast
  moreover have "\<forall>lk bs. bt_get (?s' LOCKS_TABLE) lk = Some bs \<longrightarrow> (\<exists>i. bs = encode_txn_id i)"
    unfolding locks using txn_wfD(4) [OF assms(2)] by blast
  ultimately show ?thesis
    unfolding txn_wf_def using current_after [OF sep] by blast
qed

lemma log_after:
  assumes "codecs_ok cs" and "separate_set ws"
  shows "bt_get (commit_store cs (next_record cs ck c ws s) s COMMIT_LOG_TABLE) k =
    (if k = commit_log_key (c + 1) then Some (log_bytes cs (next_record cs ck c ws s))
     else bt_get (s COMMIT_LOG_TABLE) k)"
  using commit_store_log [OF next_record_facts(2) [OF assms(2)]] by (simp only: next_record_simps)

section \<open>The version history\<close>

text \<open>
  \<open>versions_of\<close> are the versions of a row in the history, \<open>as_of\<close> is the value the history
  gives for a transaction id: that of the newest version not above it.
\<close>

definition versions_of :: "store \<Rightarrow> string \<Rightarrow> bytes \<Rightarrow> txn_id set" where
  "versions_of s table key = {i. bt_get (s TXN_MVCC_TABLE) (vkey table key @ encode_txn_id i) \<noteq> None}"

definition version_value :: "codecs \<Rightarrow> store \<Rightarrow> string \<Rightarrow> bytes \<Rightarrow> txn_id \<Rightarrow> bytes option" where
  "version_value cs s table key i =
     mvcc_value (projr (decode_mvcc_record cs
       (the (bt_get (s TXN_MVCC_TABLE) (vkey table key @ encode_txn_id i)))))"

definition as_of :: "codecs \<Rightarrow> store \<Rightarrow> string \<Rightarrow> bytes \<Rightarrow> txn_id \<Rightarrow> bytes option" where
  "as_of cs s table key i =
     (let vs = {j \<in> versions_of s table key. j \<le> i}
      in if vs = {} then None else version_value cs s table key (Max vs))"

text \<open>
  The history agrees with the base rows: if a row has versions, its last one is among them with
  the value the row has, and no later version exists; a row without versions does not exist.
\<close>

definition history_ok :: "codecs \<Rightarrow> store \<Rightarrow> bool" where
  "history_ok cs s \<longleftrightarrow>
     (\<forall>table key. \<not> table_is_reserved table \<and> sized_table table \<longrightarrow>
        (\<forall>i \<in> versions_of s table key. i \<noteq> 0 \<and> i \<le> row_version s table key) \<and>
        (if versions_of s table key = {} then bt_get (s table) key = None
         else row_version s table key \<in> versions_of s table key \<and>
              version_value cs s table key (row_version s table key) = bt_get (s table) key))"

lemma mvcc_after:
  assumes "separate_set ws" and "sized_set ws" and "sized_table table"
  shows "bt_get (commit_store cs (next_record cs ck c ws s) s TXN_MVCC_TABLE) (vkey table key @ encode_txn_id i) =
    (case bt_get ws (table, key) of
       Some v \<Rightarrow> if i = c + 1 then Some (mvcc_bytes cs v)
                else bt_get (s TXN_MVCC_TABLE) (vkey table key @ encode_txn_id i)
     | None \<Rightarrow> bt_get (s TXN_MVCC_TABLE) (vkey table key @ encode_txn_id i))"
proof -
  let ?r = "next_record cs ck c ws s"
  let ?P = "\<lambda>w. vkey table key @ encode_txn_id i = vkey (clw_table w) (clw_key w) @ encode_txn_id (c + 1)"
  note sized = next_record_facts(3) [OF assms(2), of cs ck c s]
  have P: "?P w \<longleftrightarrow> clw_row w = (table, key) \<and> i = c + 1" if "w \<in> set (clr_writes ?r)" for w
    using that sized assms(3) vkey_inject by auto
  have "find ?P (clr_writes ?r) = (if i = c + 1 then
      map_option (CommitLogWrite table key) (bt_get ws (table, key)) else None)"
  proof (cases "find ?P (clr_writes ?r)")
    case None
    then have none: "\<not> ?P w" if "w \<in> set (clr_writes ?r)" for w
      using that by (simp only: find_None_iff) blast
    have "bt_get ws (table, key) = None" if "i = c + 1"
    proof (rule ccontr)
      assume "bt_get ws (table, key) \<noteq> None"
      then obtain v where "CommitLogWrite table key v \<in> set (clr_writes ?r)"
        unfolding next_record_simps record_writes_iff by auto
      then show False
        using none [of "CommitLogWrite table key v"] that by simp
    qed
    with None show ?thesis
      by simp
  next
    case (Some w)
    then have w: "w \<in> set (clr_writes ?r)" "?P w"
      by (auto simp: find_Some_iff simp del: next_record_simps)
    then have "clw_row w = (table, key)" "i = c + 1" "bt_get ws (clw_row w) = Some (clw_value w)"
      using P [OF w(1)] w(1) unfolding next_record_simps record_writes_iff by auto
    with Some show ?thesis
      by (cases w) simp
  qed
  then show ?thesis
    using commit_store_mvcc [OF next_record_facts(2) [OF assms(1)] next_record_facts(1) sized,
        of cs s "vkey table key @ encode_txn_id i"]
    unfolding next_record_simps(1) by (simp split: option.splits del: next_record_simps)
qed

lemma versions_after:
  assumes "separate_set ws" and "sized_set ws" and "sized_table table"
  shows "versions_of (commit_store cs (next_record cs ck c ws s) s) table key =
    (if written ws table key then insert (c + 1) (versions_of s table key) else versions_of s table key)"
  using mvcc_after [OF assms] by (auto simp: versions_of_def split: option.splits)

lemma version_value_after:
  assumes "codecs_ok cs" and "separate_set ws" and "sized_set ws" and "sized_table table"
  shows "version_value cs (commit_store cs (next_record cs ck c ws s) s) table key i =
    (case bt_get ws (table, key) of
       Some v \<Rightarrow> if i = c + 1 then v else version_value cs s table key i
     | None \<Rightarrow> version_value cs s table key i)"
  using mvcc_after [OF assms(2-4)]
  by (simp add: version_value_def decode_mvcc_bytes [OF assms(1)] split: option.splits)

lemma history_after:
  assumes "codecs_ok cs" and "txn_wf cs c s" and "public_set ws" and "sized_set ws" and "c \<noteq> - 1"
    and "history_ok cs s"
  shows "history_ok cs (commit_store cs (next_record cs ck c ws s) s)" (is "history_ok cs ?s'")
  unfolding history_ok_def
proof (intro allI impI)
  fix table key
  assume table: "\<not> table_is_reserved table \<and> sized_table table"
  then have "\<not> meta_table table" "table \<noteq> TXN_META_TABLE" and sized: "sized_table table"
    using meta_table_reserved by auto
  then have row: "bt_get (?s' table) key =
      (case bt_get ws (table, key) of Some v \<Rightarrow> v | None \<Rightarrow> bt_get (s table) key)"
    by (intro rows_after) simp_all
  note sep = public_separate [OF assms(3)]
  note after = row row_version_after [OF assms(2) sep assms(4) sized] versions_after [OF sep assms(4) sized]
    version_value_after [OF assms(1) sep assms(4) sized]
  have old: "(\<forall>i \<in> versions_of s table key. i \<noteq> 0 \<and> i \<le> row_version s table key) \<and>
      (if versions_of s table key = {} then bt_get (s table) key = None
       else row_version s table key \<in> versions_of s table key \<and>
            version_value cs s table key (row_version s table key) = bt_get (s table) key)"
    using assms(6) table unfolding history_ok_def by blast
  have le: "row_version s table key \<le> c" and less: "c < c + 1"
    using last_key_version_wf(2) [OF assms(2) sized] u64_succ_greater [OF assms(5)] by auto
  then have "row_version s table key < c + 1" and ne: "c + 1 \<noteq> 0"
    by (auto simp: word_gt_0 [symmetric] intro: le_less_trans)
  then show "(\<forall>i \<in> versions_of ?s' table key. i \<noteq> 0 \<and> i \<le> row_version ?s' table key) \<and>
      (if versions_of ?s' table key = {} then bt_get (?s' table) key = None
       else row_version ?s' table key \<in> versions_of ?s' table key \<and>
            version_value cs ?s' table key (row_version ?s' table key) = bt_get (?s' table) key)"
    using old unfolding after
    by (cases "bt_get ws (table, key)") (auto split: if_splits)
qed

lemma as_of_current:
  assumes "txn_wf cs c s" and "history_ok cs s" and "\<not> table_is_reserved table" and "sized_table table"
  shows "as_of cs s table key c = bt_get (s table) key"
proof -
  let ?v = "row_version s table key"
  have old: "\<forall>i \<in> versions_of s table key. i \<noteq> 0 \<and> i \<le> ?v"
      "if versions_of s table key = {} then bt_get (s table) key = None
       else ?v \<in> versions_of s table key \<and> version_value cs s table key ?v = bt_get (s table) key"
    using assms(2-4) unfolding history_ok_def by blast+
  have "?v \<le> c"
    by (rule last_key_version_wf(2) [OF assms(1,4)])
  show ?thesis
  proof (cases "versions_of s table key = {}")
    case True
    with old(2) show ?thesis
      by (simp add: as_of_def)
  next
    case False
    then have "Max {j \<in> versions_of s table key. j \<le> c} = ?v"
      using old \<open>?v \<le> c\<close> by (intro Max_eqI) auto
    moreover have "{j \<in> versions_of s table key. j \<le> c} \<noteq> {}"
      using False old(2) \<open>?v \<le> c\<close> by auto
    ultimately show ?thesis
      using False old(2) unfolding as_of_def Let_def by (simp only: if_False)
  qed
qed

lemma as_of_after:
  assumes "codecs_ok cs" and "public_set ws" and "sized_set ws" and "c \<noteq> - 1" and "i \<le> c"
    and "sized_table table"
  shows "as_of cs (commit_store cs (next_record cs ck c ws s) s) table key i = as_of cs s table key i"
    (is "as_of cs ?s' table key i = _")
proof -
  note sep = public_separate [OF assms(2)]
  have less: "i < c + 1"
    using assms(5) u64_succ_greater [OF assms(4)] by (rule le_less_trans)
  then have vs: "{j \<in> versions_of ?s' table key. j \<le> i} = {j \<in> versions_of s table key. j \<le> i}"
    unfolding versions_after [OF sep assms(3,6)] by auto
  have "version_value cs ?s' table key j = version_value cs s table key j" if "j \<le> i" for j
    using that less unfolding version_value_after [OF assms(1) sep assms(3,6)]
    by (auto split: option.split)
  moreover have "Max {j \<in> versions_of s table key. j \<le> i} \<le> i"
    if "{j \<in> versions_of s table key. j \<le> i} \<noteq> {}"
    using Max_in [OF _ that] by simp
  ultimately show ?thesis
    unfolding as_of_def vs
    by (cases "{j \<in> versions_of s table key. j \<le> i} = {}") (simp_all only: Let_def if_True if_False not_False_eq_True simp_thms)
qed

section \<open>Runs of commits\<close>

lemma commit_step_cases:
  assumes "codecs_ok cs" and "txn_wf cs c s" and "sized_set ws"
  shows "fst (commit_write_set store_engine cs ck s snap ws) = s \<or>
    (public_set ws \<and> c \<noteq> - 1 \<and>
     fst (commit_write_set store_engine cs ck s snap ws) = commit_store cs (next_record cs ck c ws s) s)"
proof (cases "validate_public_write_set ws = Inr () \<and> \<not> bt_is_empty ws")
  case True
  then have public: "public_set ws" "\<not> bt_is_empty ws"
    unfolding validate_public_write_set_iff public_set_def by blast+
  then show ?thesis
    using commit_write_set_store [OF assms public, of ck snap] by auto
next
  case False
  then show ?thesis
    by (cases "validate_public_write_set ws")
      (auto simp: commit_write_set_def commit_write_set_authorized_def)
qed

lemma commit_step_inv:
  assumes "codecs_ok cs" and "txn_wf cs c s" and "history_ok cs s" and "sized_set ws"
  shows "\<exists>c' \<ge> c. txn_wf cs c' (fst (commit_write_set store_engine cs ck s snap ws)) \<and>
    history_ok cs (fst (commit_write_set store_engine cs ck s snap ws)) \<and>
    (\<forall>table key i. i \<le> c \<and> sized_table table \<longrightarrow>
       as_of cs (fst (commit_write_set store_engine cs ck s snap ws)) table key i = as_of cs s table key i)"
  using commit_step_cases [OF assms(1,2,4), of ck snap]
proof
  assume "fst (commit_write_set store_engine cs ck s snap ws) = s"
  then show ?thesis
    using assms(2,3) by auto
next
  assume step: "public_set ws \<and> c \<noteq> - 1 \<and>
     fst (commit_write_set store_engine cs ck s snap ws) = commit_store cs (next_record cs ck c ws s) s"
  then have "txn_wf cs (c + 1) (commit_store cs (next_record cs ck c ws s) s)"
    "history_ok cs (commit_store cs (next_record cs ck c ws s) s)"
    using txn_wf_after [OF assms(1,2)] history_after [OF assms(1,2) _ assms(4) _ assms(3)] by blast+
  then show ?thesis
    using step as_of_after [OF assms(1) _ assms(4), of c] less_imp_le [OF u64_succ_greater [of c]] by auto
qed

lemma empty_store_wf: "txn_wf cs 0 (\<lambda>_. bt_empty)" "history_ok cs (\<lambda>_. bt_empty)"
proof -
  show "txn_wf cs 0 (\<lambda>_. bt_empty)"
    by (simp add: txn_wf_def current_txn_id_from_def stored_hlc_in_txn_def opt_transpose_def
        reject_legacy_prepares_store)
  show "history_ok cs (\<lambda>_. bt_empty)"
    by (simp add: history_ok_def versions_of_def row_version_def last_key_version_def)
qed

section \<open>Properties of commits on the in-memory engine\<close>

abbreviation mem_state :: "mem_engine \<Rightarrow> store" where
  "mem_state e \<equiv> mem_store (me_inner e)"

text \<open>
  \<open>installed cs ck i ws s s'\<close>: the store \<open>s'\<close> is \<open>s\<close> after the commit \<open>i\<close> of the write set \<open>ws\<close>, table by
  table: the rows, their versions, the history, the versions of the tables, the registry of
  keyspaces, the commit log, the clock and the current id; nothing else differs.
\<close>

definition installed :: "codecs \<Rightarrow> clocks \<Rightarrow> txn_id \<Rightarrow> write_set \<Rightarrow> store \<Rightarrow> store \<Rightarrow> bool" where
  "installed cs ck i ws s s' \<longleftrightarrow>
     (let h = tick (ck_unix_ms ck) (case stored_hlc cs s of None \<Rightarrow> hlc_default | Some h \<Rightarrow> h) in
     (\<forall>table key. \<not> meta_table table \<and> (table, key) \<noteq> (TXN_META_TABLE, CURRENT_TXN_ID_KEY) \<longrightarrow>
        bt_get (s' table) key = (case bt_get ws (table, key) of Some v \<Rightarrow> v | None \<Rightarrow> bt_get (s table) key)) \<and>
     (\<forall>table key. sized_table table \<longrightarrow>
        row_version s' table key = (if written ws table key then i else row_version s table key)) \<and>
     (\<forall>table key. sized_table table \<longrightarrow>
        versions_of s' table key = (if written ws table key then insert i (versions_of s table key) else versions_of s table key)) \<and>
     (\<forall>table key v. sized_table table \<and> bt_get ws (table, key) = Some v \<longrightarrow> version_value cs s' table key i = v) \<and>
     (\<forall>k. (\<forall>table key. written ws table key \<longrightarrow> k \<noteq> vkey table key @ encode_txn_id i) \<longrightarrow>
        bt_get (s' TXN_MVCC_TABLE) k = bt_get (s TXN_MVCC_TABLE) k) \<and>
     (\<forall>table. bt_get (s' TABLE_DATA_VERSION_TABLE) (as_bytes table) =
        (if \<exists>key. written ws table key then Some (encode_txn_id i) else bt_get (s TABLE_DATA_VERSION_TABLE) (as_bytes table))) \<and>
     (\<forall>k. bt_get (s' KEYSPACE_REGISTRY_TABLE) k =
        (if k \<in> as_bytes ` set (keyspaces_for_commit (map fst (bt_keys ws)))
         then Some KEYSPACE_PRESENT_VALUE else bt_get (s KEYSPACE_REGISTRY_TABLE) k)) \<and>
     (\<forall>k. k \<noteq> commit_log_key i \<longrightarrow> bt_get (s' COMMIT_LOG_TABLE) k = bt_get (s COMMIT_LOG_TABLE) k) \<and>
     (\<exists>bs. bt_get (s' COMMIT_LOG_TABLE) (commit_log_key i) = Some bs \<and>
        decode_commit_log_record cs bs = Inr (CommitLogRecord i (ck_time ck) (Some h)
          (map (\<lambda>((table, key), v). CommitLogWrite table key v) (bt_entries ws)))) \<and>
     (\<forall>k. (\<forall>table key. written ws table key \<longrightarrow> k \<noteq> vkey table key) \<longrightarrow>
        bt_get (s' TXN_VERSIONS_TABLE) k = bt_get (s TXN_VERSIONS_TABLE) k) \<and>
     (\<forall>k. k \<noteq> HLC_LOCAL_KEY \<longrightarrow> bt_get (s' HLC_TABLE) k = bt_get (s HLC_TABLE) k) \<and>
     stored_hlc_in_txn cs (store_reader s') = Inr (Some h) \<and>
     current_txn_id_from (store_reader s') = Inr i)"

lemma installedD:
  assumes "installed cs ck i ws s s'" and "bt_get ws (table, key) = Some v" and "sized_table table" and "\<not> table_is_reserved table"
  shows "bt_get (s' table) key = v" "row_version s' table key = i" "version_value cs s' table key i = v"
proof -
  have "\<not> meta_table table" "(table, key) \<noteq> (TXN_META_TABLE, CURRENT_TXN_ID_KEY)"
    using assms(4) meta_table_reserved by auto
  then show "bt_get (s' table) key = v" "row_version s' table key = i" "version_value cs s' table key i = v"
    using assms(1-3) unfolding installed_def Let_def by (metis option.simps(5), metis option.distinct(1), metis)
qed

lemma commit_installed:
  assumes "codecs_ok cs" and "txn_wf cs c s" and "sized_set ws" and "public_set ws"
  shows "installed cs ck (c + 1) ws s (commit_store cs (next_record cs ck c ws s) s)"
proof -
  let ?r = "next_record cs ck c ws s"
  note sep = public_separate [OF assms(4)]
  note sepr = next_record_facts(2) [OF sep, of cs ck c s]
  have tables: "map clw_table (clr_writes ?r) = map fst (bt_keys ws)"
    by (simp add: bt_keys_def case_prod_beta)
  have written: "table \<in> set (map clw_table (clr_writes ?r)) \<longleftrightarrow> (\<exists>key. written ws table key)" for table
  proof -
    have "table \<in> set (map fst (bt_keys ws)) \<longleftrightarrow> (\<exists>key. (table, key) \<in> set (bt_keys ws))"
      by force
    then show ?thesis
      unfolding tables bt_keys_iff .
  qed
  have version: "bt_get (commit_store cs ?r s TABLE_DATA_VERSION_TABLE) (as_bytes table) =
      (if \<exists>key. written ws table key then Some (encode_txn_id (c + 1)) else bt_get (s TABLE_DATA_VERSION_TABLE) (as_bytes table))" for table
  proof -
    have "\<not> table_is_reserved table \<and> table \<in> clw_table ` set (clr_writes ?r) \<longleftrightarrow> (\<exists>key. written ws table key)"
      using written [of table, unfolded set_map] assms(4) unfolding public_set_def by blast
    then show ?thesis
      unfolding commit_store_table_version [OF sepr] by (simp only: next_record_simps)
  qed
  have other: "bt_get (commit_store cs ?r s TXN_MVCC_TABLE) k = bt_get (s TXN_MVCC_TABLE) k"
    if "\<forall>table key. written ws table key \<longrightarrow> k \<noteq> vkey table key @ encode_txn_id (c + 1)" for k
  proof -
    have "find (\<lambda>w. k = vkey (clw_table w) (clw_key w) @ encode_txn_id (c + 1)) (clr_writes ?r) = None"
      using that unfolding find_None_iff next_record_simps record_writes_iff by auto
    then show ?thesis
      using commit_store_mvcc [OF sepr next_record_facts(1) next_record_facts(3) [OF assms(3)], of cs s k] by simp
  qed
  have stale: "bt_get (commit_store cs ?r s TXN_VERSIONS_TABLE) k = bt_get (s TXN_VERSIONS_TABLE) k"
    if "\<forall>table key. written ws table key \<longrightarrow> k \<noteq> vkey table key" for k
  proof -
    have "\<not> (\<exists>w \<in> set (clr_writes ?r). k = vkey (clw_table w) (clw_key w))"
    proof
      assume "\<exists>w \<in> set (clr_writes ?r). k = vkey (clw_table w) (clw_key w)"
      then obtain w where w: "w \<in> set (clr_writes ?r)" "k = vkey (clw_table w) (clw_key w)"
        by blast
      then have "written ws (clw_table w) (clw_key w)"
        unfolding next_record_simps record_writes_iff by simp
      then show False
        using that w(2) by blast
    qed
    then show ?thesis
      unfolding commit_store_versions [OF sepr] by simp
  qed
  have clock: "bt_get (commit_store cs ?r s HLC_TABLE) k = bt_get (s HLC_TABLE) k" if "k \<noteq> HLC_LOCAL_KEY" for k
    using that by (rule commit_store_hlc_other [OF sepr])
  let ?full = "CommitLogRecord (c + 1) (ck_time ck) (Some (tick (ck_unix_ms ck) (case stored_hlc cs s of None \<Rightarrow> hlc_default | Some h \<Rightarrow> h)))
      (map (\<lambda>((table, key), v). CommitLogWrite table key v) (bt_entries ws))"
  have "?full = ?r"
    by (simp add: next_record_def commit_log_record_with_clock_and_hlc_def)
  then have log: "decode_commit_log_record cs (log_bytes cs ?r) = Inr ?full"
    using decode_log_bytes [OF assms(1)] by simp
  show ?thesis
    unfolding installed_def Let_def
    using rows_after [of _ _ cs ck c ws s] row_version_after [OF assms(2) sep assms(3)] versions_after [OF sep assms(3)]
      version_value_after [OF assms(1) sep assms(3)] other version commit_store_registry [OF sepr, of cs s, unfolded tables]
      log_after [OF assms(1) sep] log stale clock hlc_after [OF assms(1,2) sep] current_after [OF sep]
    by (intro conjI allI impI) simp_all
qed

text \<open>
  C16. The outcome of a commit, in every case. A write set that names a reserved table is refused
  with the error of that check, an empty one is answered with the snapshot. If a written row is
  locked by a prepared transaction or has a version newer than the snapshot, the commit fails
  with a conflict; if the ids are used up it fails. None of these changes anything. Otherwise it
  returns the next id and installs the write set: rows, row versions, history, table versions,
  keyspaces, log record, clock and current id, and nothing else.
\<close>

theorem commit_write_set_outcome:
  assumes "codecs_ok cs" and "mem_healthy e" and "txn_wf cs c (mem_state e)" and "sized_set ws"
  shows "\<exists>e' r. commit_write_set mem_engine_ops cs ck e snap ws = (e', r) \<and> mem_healthy e' \<and>
    (if \<not> public_set ws then (\<exists>err. validate_public_write_set ws = Inl err \<and> r = Inl err) \<and> mem_state e' = mem_state e
     else if bt_is_empty ws then r = Inr snap \<and> mem_state e' = mem_state e
     else if commit_refused (mem_state e) snap ws then r = Inl Conflict \<and> mem_state e' = mem_state e
     else if c = - 1 then r = Inl (Backend ''transaction id overflow'') \<and> mem_state e' = mem_state e
     else r = Inr (c + 1) \<and> txn_wf cs (c + 1) (mem_state e') \<and> installed cs ck (c + 1) ws (mem_state e) (mem_state e'))"
proof -
  let ?s = "mem_state e"
  obtain e' r where er: "commit_write_set mem_engine_ops cs ck e snap ws = (e', r)"
    by (cases "commit_write_set mem_engine_ops cs ck e snap ws")
  have sim: "mem_healthy e'" "(mem_state e', r) = commit_write_set store_engine cs ck ?s snap ws"
    using mem.commit_write_set_simulates [OF assms(2), of cs ck snap ws] er
    by (auto simp: mem.simulates_def prod_eq_iff)
  have valid: "public_set ws \<longleftrightarrow> validate_public_write_set ws = Inr ()"
    unfolding validate_public_write_set_iff public_set_def by blast
  show ?thesis
  proof (cases "public_set ws \<and> \<not> bt_is_empty ws")
    case True
    then have "(mem_state e', r) =
        (if commit_refused ?s snap ws then (?s, Inl Conflict)
         else if c = - 1 then (?s, Inl (Backend ''transaction id overflow''))
         else (commit_store cs (next_record cs ck c ws ?s) ?s, Inr (c + 1)))"
      using commit_write_set_store [OF assms(1,3,4), of ck snap, folded sim(2)] by blast
    then show ?thesis
      using True er sim(1) txn_wf_after [OF assms(1,3)] commit_installed [OF assms(1,3,4)] by (auto split: if_splits)
  next
    case False
    then show ?thesis
      using er sim valid
      by (cases "validate_public_write_set ws") (auto simp: commit_write_set_def commit_write_set_authorized_def)
  qed
qed

definition demo_ws :: write_set where
  "demo_ws = bt_insert (''t'', [1]) (Some [2]) bt_empty"

definition demo_clocks :: clocks where
  "demo_clocks = \<lparr>ck_unix_ms = 5, ck_time = 5\<rparr>"

lemma demo_ws_facts:
  "sized_set demo_ws" "public_set demo_ws" "\<not> bt_is_empty demo_ws"
  "\<not> commit_refused (\<lambda>_. bt_empty) 0 demo_ws"
  by (simp_all add: demo_ws_def sized_set_def public_set_def sized_table_def table_is_reserved_def
      RESERVED_KEYSPACE_PREFIX_def commit_refused_def row_locked_def row_version_def last_key_version_def
      version_key_def)

lemma mem_new_facts: "mem_healthy mem_new" "mem_state mem_new = (\<lambda>_. bt_empty)"
  by (simp_all add: mem_new_def mem_healthy_def mem_store_def fun_eq_iff)

theorem commit_write_set_outcome_witness:
  "\<exists>e'. commit_write_set mem_engine_ops demo_codecs demo_clocks mem_new 0 demo_ws = (e', Inr 1) \<and>
     bt_get (mem_state e' ''t'') [1] = Some [2] \<and> row_version (mem_state e') ''t'' [1] = 1 \<and>
     version_value demo_codecs (mem_state e') ''t'' [1] 1 = Some [2]"
proof -
  have "\<not> table_is_reserved ''t''" "sized_table ''t''"
    by (simp_all add: table_is_reserved_def RESERVED_KEYSPACE_PREFIX_def sized_table_def)
  moreover have "txn_wf demo_codecs 0 (mem_state mem_new)"
    using empty_store_wf mem_new_facts by simp
  moreover obtain e' where "commit_write_set mem_engine_ops demo_codecs demo_clocks mem_new 0 demo_ws = (e', Inr 1)"
      "installed demo_codecs demo_clocks 1 demo_ws (\<lambda>_. bt_empty) (mem_state e')"
    using commit_write_set_outcome [OF demo_codecs_ok mem_new_facts(1) _ demo_ws_facts(1), of 0 demo_clocks 0] demo_ws_facts(2-4)
      calculation(3) by (auto simp: mem_new_facts(2))
  ultimately show ?thesis
    using installedD [of demo_codecs demo_clocks 1 demo_ws "\<lambda>_. bt_empty" "mem_state e'" "''t''" "[1]" "Some [2]"]
    by (simp add: demo_ws_def)
qed

text \<open>
  A served request: a commit of some write set at some snapshot, by whatever client.
\<close>

definition serve :: "codecs \<Rightarrow> clocks \<times> txn_id \<times> write_set \<Rightarrow> mem_engine \<Rightarrow> mem_engine" where
  "serve cs = (\<lambda>(ck, snap, ws) e. fst (commit_write_set mem_engine_ops cs ck e snap ws))"

definition sized_requests :: "(clocks \<times> txn_id \<times> write_set) list \<Rightarrow> bool" where
  "sized_requests reqs \<longleftrightarrow> (\<forall>(ck, snap, ws) \<in> set reqs. sized_set ws)"

lemma serve_store:
  assumes "mem_healthy e"
  shows "mem_healthy (serve cs (ck, snap, ws) e)"
    and "mem_state (serve cs (ck, snap, ws) e) = fst (commit_write_set store_engine cs ck (mem_state e) snap ws)"
  using mem.commit_write_set_simulates [OF assms, of cs ck snap ws]
  by (simp_all add: serve_def mem.simulates_def)

lemma serve_run:
  assumes "codecs_ok cs" and "mem_healthy e" and "txn_wf cs c (mem_state e)"
    and "history_ok cs (mem_state e)" and "sized_requests reqs"
  shows "\<exists>c' \<ge> c. mem_healthy (fold (serve cs) reqs e) \<and> txn_wf cs c' (mem_state (fold (serve cs) reqs e)) \<and>
    history_ok cs (mem_state (fold (serve cs) reqs e)) \<and>
    (\<forall>table key i. i \<le> c \<and> sized_table table \<longrightarrow>
       as_of cs (mem_state (fold (serve cs) reqs e)) table key i = as_of cs (mem_state e) table key i)"
  using assms(2-5)
proof (induction reqs arbitrary: e c)
  case (Cons req reqs)
  obtain ck snap ws where req: "req = (ck, snap, ws)"
    by (cases req)
  then have sized: "sized_set ws" "sized_requests reqs"
    using Cons.prems(4) by (simp_all add: sized_requests_def)
  let ?e = "serve cs req e"
  note step = serve_store [OF Cons.prems(1), of cs ck snap ws, folded req]
  obtain c' where c': "c' \<ge> c" "txn_wf cs c' (mem_state ?e)" "history_ok cs (mem_state ?e)"
    "\<forall>table key i. i \<le> c \<and> sized_table table \<longrightarrow>
       as_of cs (mem_state ?e) table key i = as_of cs (mem_state e) table key i"
    using commit_step_inv [OF assms(1) Cons.prems(2,3) sized(1), of ck snap] unfolding step(2) by blast
  obtain c'' where c'': "c'' \<ge> c'" "mem_healthy (fold (serve cs) reqs ?e)"
    "txn_wf cs c'' (mem_state (fold (serve cs) reqs ?e))" "history_ok cs (mem_state (fold (serve cs) reqs ?e))"
    "\<forall>table key i. i \<le> c' \<and> sized_table table \<longrightarrow>
       as_of cs (mem_state (fold (serve cs) reqs ?e)) table key i = as_of cs (mem_state ?e) table key i"
    using Cons.IH [OF step(1) c'(2,3) sized(2)] by blast
  have "as_of cs (mem_state (fold (serve cs) reqs ?e)) table key i = as_of cs (mem_state e) table key i"
    if "i \<le> c \<and> sized_table table" for table key i
    using that c'(4) c''(5) order_trans [OF _ c'(1)] by simp
  then show ?case
    using c'' order_trans [OF c'(1) c''(1)] by (intro exI [of _ c'']) simp
qed auto

text \<open>
  C17. Time travel: whatever sequence of commits is served afterwards, the history read at the
  transaction id of an earlier state gives every row of every public table the value it had in
  that state, including its absence.
\<close>

theorem history_reproduces_past_states:
  assumes "codecs_ok cs" and "sized_requests reqs" and "sized_requests later"
    and "current_txn_id mem_engine_ops (fold (serve cs) reqs mem_new) = Inr c"
    and "\<not> table_is_reserved table" and "sized_table table"
  shows "as_of cs (mem_state (fold (serve cs) (reqs @ later) mem_new)) table key c =
         bt_get (mem_state (fold (serve cs) reqs mem_new) table) key"
proof -
  note start = mem_new_facts
  let ?e = "fold (serve cs) reqs mem_new"
  obtain c0 where c0: "mem_healthy ?e" "txn_wf cs c0 (mem_state ?e)" "history_ok cs (mem_state ?e)"
    using serve_run [OF assms(1) start(1) _ _ assms(2), of 0] start(2) empty_store_wf by auto
  have "c = c0"
    using assms(4) mem.current_txn_id_eq [OF c0(1)] txn_wfD(1) [OF c0(2)] by simp
  then show ?thesis
    using serve_run [OF assms(1) c0 assms(3)] as_of_current [OF c0(2,3) assms(5,6)] assms(6)
    by auto
qed

theorem history_reproduces_past_states_witness:
  "as_of demo_codecs (mem_state (fold (serve demo_codecs)
       [(demo_clocks, 0, demo_ws), (demo_clocks, 1, bt_insert (''t'', [1]) None bt_empty)] mem_new)) ''t'' [1] 1 =
     Some [2]"
proof -
  let ?e = "fold (serve demo_codecs) [(demo_clocks, 0, demo_ws)] mem_new"
  have state: "mem_state ?e = commit_store demo_codecs
      (next_record demo_codecs demo_clocks 0 demo_ws (\<lambda>_. bt_empty)) (\<lambda>_. bt_empty)"
    using commit_write_set_store [OF demo_codecs_ok empty_store_wf(1) demo_ws_facts(1-3), of demo_clocks 0]
      demo_ws_facts(4) serve_store(2) [OF mem_new_facts(1), of demo_codecs demo_clocks 0 demo_ws]
    by (simp add: mem_new_facts(2))
  have "current_txn_id mem_engine_ops ?e = Inr 1"
    using mem.current_txn_id_eq [of ?e] serve_store(1) [OF mem_new_facts(1)]
      current_after [OF public_separate [OF demo_ws_facts(2)], of demo_codecs demo_clocks 0 "\<lambda>_. bt_empty"]
    by (simp add: state [simplified])
  moreover have "sized_requests [(demo_clocks, 0, demo_ws)]"
    "sized_requests [(demo_clocks, 1, bt_insert (''t'', [1]) None bt_empty)]"
    using demo_ws_facts(1) by (simp_all add: sized_requests_def sized_set_def sized_table_def)
  moreover have t: "\<not> table_is_reserved ''t''" "sized_table ''t''"
    by (simp_all add: table_is_reserved_def RESERVED_KEYSPACE_PREFIX_def sized_table_def)
  moreover have "bt_get (mem_state ?e ''t'') [1] = Some [2]"
    unfolding state using t(1) meta_table_reserved [of "''t''"]
    by (subst rows_after) (auto simp: demo_ws_def TXN_META_TABLE_def)
  ultimately show ?thesis
    using history_reproduces_past_states [OF demo_codecs_ok, of "[(demo_clocks, 0, demo_ws)]"
        "[(demo_clocks, 1, bt_insert (''t'', [1]) None bt_empty)]" 1 "''t''" "[1]"]
    by simp
qed

section \<open>Replay of the commit log\<close>

definition replay :: "codecs \<Rightarrow> commit_log_record list \<Rightarrow> store \<Rightarrow> store res" where
  "replay cs rs s = rfold (\<lambda>r s. apply_commit_record_in_txn store_writer cs s r) rs s"

definition log_replays :: "codecs \<Rightarrow> txn_id \<Rightarrow> store \<Rightarrow> bool" where
  "log_replays cs c s \<longleftrightarrow>
     (\<exists>rs. bt_entries (s COMMIT_LOG_TABLE) = map (\<lambda>r. (commit_log_key (clr_txn_id r), log_bytes cs r)) rs \<and>
           (\<forall>r \<in> set rs. clr_txn_id r \<le> c) \<and> replay cs rs (\<lambda>_. bt_empty) = Inr s)"

lemma al_put_last: "(\<And>e. e \<in> set es \<Longrightarrow> fst e < k) \<Longrightarrow> al_put k v es = es @ [(k, v)]"
proof (induction es)
  case (Cons e es)
  then have "fst e < k" "al_put k v es = es @ [(k, v)]"
    by auto
  then show ?case
    by (cases e) auto
qed simp

lemma commit_log_key_less [simp]: "commit_log_key i < commit_log_key j \<longleftrightarrow> i < j"
  by (simp add: commit_log_key_def)

lemma log_replays_after:
  assumes "codecs_ok cs" and "txn_wf cs c s" and "public_set ws" and "sized_set ws" and "c \<noteq> - 1"
    and "log_replays cs c s"
  shows "log_replays cs (c + 1) (commit_store cs (next_record cs ck c ws s) s)"
proof -
  let ?r = "next_record cs ck c ws s" and ?s' = "commit_store cs (next_record cs ck c ws s) s"
  note sep = public_separate [OF assms(3)]
  obtain rs where rs: "bt_entries (s COMMIT_LOG_TABLE) = map (\<lambda>r. (commit_log_key (clr_txn_id r), log_bytes cs r)) rs"
      "\<forall>r \<in> set rs. clr_txn_id r \<le> c" "replay cs rs (\<lambda>_. bt_empty) = Inr s"
    using assms(6) unfolding log_replays_def by blast
  have le: "clr_txn_id r < c + 1" if "r \<in> set rs" for r
    using that rs(2) u64_succ_greater [OF assms(5)] by (blast intro: le_less_trans)
  have "?s' COMMIT_LOG_TABLE = bt_insert (commit_log_key (c + 1)) (log_bytes cs ?r) (s COMMIT_LOG_TABLE)"
    by (rule bt_eqI) (simp add: log_after [OF assms(1) sep])
  then have "bt_entries (?s' COMMIT_LOG_TABLE) =
      bt_entries (s COMMIT_LOG_TABLE) @ [(commit_log_key (c + 1), log_bytes cs ?r)]"
    using le by (auto simp: rs(1) intro!: al_put_last)
  then have "bt_entries (?s' COMMIT_LOG_TABLE) =
      map (\<lambda>r. (commit_log_key (clr_txn_id r), log_bytes cs r)) (rs @ [?r])"
    by (simp add: rs(1))
  moreover have "replay cs (rs @ [?r]) (\<lambda>_. bt_empty) = Inr ?s'"
    using rs(3) apply_commit_store [OF assms(1) next_record_facts(3) [OF assms(4)]
        next_record_facts(2) [OF sep] txn_wfD(3) [OF assms(2)]]
    by (simp add: replay_def rfold_append)
  moreover have "\<forall>r \<in> set (rs @ [?r]). clr_txn_id r \<le> c + 1"
    using le by (auto intro: less_imp_le)
  ultimately show ?thesis
    unfolding log_replays_def by blast
qed

lemma serve_run_replays:
  assumes "codecs_ok cs" and "mem_healthy e" and "txn_wf cs c (mem_state e)" and "log_replays cs c (mem_state e)"
    and "sized_requests reqs"
  shows "\<exists>c'. log_replays cs c' (mem_state (fold (serve cs) reqs e))"
  using assms(2-5)
proof (induction reqs arbitrary: e c)
  case (Cons req reqs)
  obtain ck snap ws where req: "req = (ck, snap, ws)"
    by (cases req)
  then have sized: "sized_set ws" "sized_requests reqs"
    using Cons.prems(4) by (simp_all add: sized_requests_def)
  note step = serve_store [OF Cons.prems(1), of cs ck snap ws, folded req]
  have "\<exists>c'. txn_wf cs c' (mem_state (serve cs req e)) \<and> log_replays cs c' (mem_state (serve cs req e))"
    using commit_step_cases [OF assms(1) Cons.prems(2) sized(1), of ck snap]
  proof
    assume "public_set ws \<and> c \<noteq> - 1 \<and> fst (commit_write_set store_engine cs ck (mem_state e) snap ws) =
        commit_store cs (next_record cs ck c ws (mem_state e)) (mem_state e)"
    then show ?thesis
      using txn_wf_after [OF assms(1) Cons.prems(2)] log_replays_after [OF assms(1) Cons.prems(2) _ sized(1) _ Cons.prems(3)]
      unfolding step(2) by (intro exI [of _ "c + 1"]) simp
  qed (use Cons.prems(2,3) step(2) in auto)
  then show ?case
    using Cons.IH [OF step(1) _ _ sized(2)] by auto
qed auto

text \<open>
  C18. The commit log is a complete account: after any sequence of commits, decoding the log in
  key order and applying its records to an empty store rebuilds the whole database, base rows,
  versions, history, table versions, registry, clock and the log itself.
\<close>

theorem commit_log_replay_rebuilds:
  assumes "codecs_ok cs" and "sized_requests reqs"
  shows "\<exists>rs. rmap (decode_commit_log_record cs)
                (map snd (bt_entries (mem_state (fold (serve cs) reqs mem_new) COMMIT_LOG_TABLE))) = Inr rs \<and>
              replay cs rs (\<lambda>_. bt_empty) = Inr (mem_state (fold (serve cs) reqs mem_new))"
proof -
  have "log_replays cs 0 (\<lambda>_. bt_empty)"
    by (simp add: log_replays_def replay_def)
  then obtain c rs where
    "bt_entries (mem_state (fold (serve cs) reqs mem_new) COMMIT_LOG_TABLE) =
       map (\<lambda>r. (commit_log_key (clr_txn_id r), log_bytes cs r)) rs"
    "replay cs rs (\<lambda>_. bt_empty) = Inr (mem_state (fold (serve cs) reqs mem_new))"
    using serve_run_replays [OF assms(1) mem_new_facts(1) _ _ assms(2), of 0] empty_store_wf(1)
    unfolding mem_new_facts(2) log_replays_def by blast
  moreover have "rmap (decode_commit_log_record cs) (map (log_bytes cs) rs) = Inr rs"
    by (induction rs) (simp_all add: decode_log_bytes [OF assms(1)])
  ultimately show ?thesis
    by (auto simp: comp_def)
qed

theorem commit_log_replay_rebuilds_witness:
  "\<exists>rs. replay demo_codecs rs (\<lambda>_. bt_empty) =
     Inr (mem_state (fold (serve demo_codecs) [(demo_clocks, 0, demo_ws)] mem_new))"
  using commit_log_replay_rebuilds [OF demo_codecs_ok, of "[(demo_clocks, 0, demo_ws)]"] demo_ws_facts(1)
  by (auto simp: sized_requests_def)

end
