(* ===== verification/Single_Node.thy ===== *)
theory Single_Node
  imports Commit_Facts
begin

text \<open>
  The single-node replication backend, \<open>SingleNode\<close> of \<open>src/repl/mod.rs\<close>: proposals,
  conditional batches, the participant side of distributed transactions, reads under key
  locks, batched scans and maintenance writes.
  The node owns a storage engine, given by its dictionary; the commit lock serializes the
  operations, and its poisoning is a flag of the node.
\<close>

section \<open>Errors and the node\<close>

datatype repl_error =
    NoQuorum
  | RConflict
  | RStorage storage_error
  | Transport string
  | Unsupported string
  | Rejected string
  | QuotaExceeded string u64 u64

type_synonym 'a repl = "repl_error + 'a"

datatype read_consistency = Strong | Bounded | Eventual

record 'db single_node =
  sn_storage :: 'db
  sn_lock_poisoned :: bool
  sn_window :: nat

definition sn_with_group_commit_window :: "'db \<Rightarrow> nat \<Rightarrow> 'db single_node" where
  "sn_with_group_commit_window db window = \<lparr>sn_storage = db, sn_lock_poisoned = False, sn_window = window\<rparr>"

definition sn_new :: "'db \<Rightarrow> 'db single_node" where
  "sn_new db = sn_with_group_commit_window db 0"

abbreviation storage_err :: "'a res \<Rightarrow> 'a repl" where
  "storage_err \<equiv> map_err RStorage"

text \<open>\<open>with_commit_lock\<close>: take the commit lock and run on the storage.\<close>

definition with_commit_lock :: "'db single_node \<Rightarrow> ('db \<Rightarrow> 'db \<times> 'a res) \<Rightarrow> 'db single_node \<times> 'a res" where
  "with_commit_lock node f =
     (if sn_lock_poisoned node then (node, Inl (Backend ''commit lock poisoned''))
      else case f (sn_storage node) of (db, r) \<Rightarrow> (node\<lparr>sn_storage := db\<rparr>, r))"

section \<open>Commits\<close>

definition sn_current_txn_id :: "('db, 't) engine_ops \<Rightarrow> 'db single_node \<Rightarrow> txn_id res" where
  "sn_current_txn_id eng node = current_txn_id eng (sn_storage node)"

definition sn_commit_write_set ::
  "('db, 't) engine_ops \<Rightarrow> codecs \<Rightarrow> clocks \<Rightarrow> 'db single_node \<Rightarrow> txn_id \<Rightarrow> write_set \<Rightarrow>
   'db single_node \<times> txn_id res" where
  "sn_commit_write_set eng cs ck node snapshot_id ws =
     with_commit_lock node (\<lambda>db. commit_write_set eng cs ck db snapshot_id ws)"

definition sn_commit_write_set_with_preflight ::
  "('db, 't) engine_ops \<Rightarrow> codecs \<Rightarrow> clocks \<Rightarrow> 'db single_node \<Rightarrow> txn_id \<Rightarrow> write_set \<Rightarrow>
   ('t \<Rightarrow> 't res) \<Rightarrow> 'db single_node \<times> txn_id res" where
  "sn_commit_write_set_with_preflight eng cs ck node snapshot_id ws preflight =
     with_commit_lock node (\<lambda>db.
       case e_begin_write eng db of
         Inl e \<Rightarrow> (db, Inl e)
       | Inr write \<Rightarrow> commit_write_set_in_txn_with_preflight eng cs ck db write snapshot_id ws preflight)"

definition maintenance_write ::
  "('db, 't) engine_ops \<Rightarrow> 'db single_node \<Rightarrow> (reader \<Rightarrow> 't \<Rightarrow> ('t \<times> 'a \<times> bool) res) \<Rightarrow>
   'db single_node \<times> 'a res" where
  "maintenance_write eng node f =
     with_commit_lock node (\<lambda>db.
       case e_begin_write eng db of
         Inl e \<Rightarrow> (db, Inl e)
       | Inr write \<Rightarrow>
           (case e_begin_read eng db of
              Inl e \<Rightarrow> (db, Inl e)
            | Inr read \<Rightarrow>
                (case f read write of
                   Inr (write, x, True) \<Rightarrow> finish_commit eng db (Inr (write, x))
                 | Inr (write, x, False) \<Rightarrow> (db, Inr x)
                 | Inl e \<Rightarrow> (db, Inl e))))"

definition commit_ops_direct ::
  "('db, 't) engine_ops \<Rightarrow> codecs \<Rightarrow> clocks \<Rightarrow> 'db single_node \<Rightarrow> op list \<Rightarrow> 'db single_node \<times> txn_id res" where
  "commit_ops_direct eng cs ck node ops =
     with_commit_lock node (\<lambda>db. commit_ops_at_current eng cs ck db ops)"

text \<open>
  A group commit: the operations of all requests of the group as one write set. Every request
  receives a copy of the result, in which an I/O error has become a backend error. The caller
  of \<open>commit_ops_at_current\<close> with a window sees the group its request lands in: \<open>company\<close> are
  the requests before and after it, which other threads have queued.
\<close>

definition commit_group ::
  "('db, 't) engine_ops \<Rightarrow> codecs \<Rightarrow> clocks \<Rightarrow> 'db single_node \<Rightarrow> op list list \<Rightarrow> 'db single_node \<times> txn_id res" where
  "commit_group eng cs ck node requests =
     with_commit_lock node (\<lambda>db. commit_write_set_at_current eng cs ck db (ops_to_write_set (concat requests)))"

fun clone_storage_error :: "storage_error \<Rightarrow> storage_error" where
  "clone_storage_error (Io m) = Backend m"
| "clone_storage_error e = e"

definition clone_commit_result :: "txn_id res \<Rightarrow> txn_id res" where
  "clone_commit_result r = map_err clone_storage_error r"

type_synonym company = "op list list \<times> op list list"

definition sn_commit_ops_at_current ::
  "('db, 't) engine_ops \<Rightarrow> codecs \<Rightarrow> clocks \<Rightarrow> 'db single_node \<Rightarrow> company \<Rightarrow> op list \<Rightarrow>
   'db single_node \<times> txn_id res" where
  "sn_commit_ops_at_current eng cs ck node company ops =
     (if sn_window node = 0 then commit_ops_direct eng cs ck node ops
      else case commit_group eng cs ck node (fst company @ ops # snd company) of
        (node, r) \<Rightarrow> (node, clone_commit_result r))"

definition sn_commit_ops_at_current_authorized ::
  "('db, 't) engine_ops \<Rightarrow> codecs \<Rightarrow> clocks \<Rightarrow> 'db single_node \<Rightarrow> op list \<Rightarrow> 'db single_node \<times> txn_id res" where
  "sn_commit_ops_at_current_authorized eng cs ck node ops =
     with_commit_lock node (\<lambda>db. commit_ops_at_current_authorized eng cs ck db ops)"

fun condition_matches :: "reader \<Rightarrow> write_condition \<Rightarrow> bool res" where
  "condition_matches read (KeyMissing table key) =
     rbind (rd_get read table key) (\<lambda>found. Inr (found = None))"
| "condition_matches read (ValueEquals table key expected) =
     rbind (rd_get read table key) (\<lambda>found. Inr (found = expected))"

definition check_conditions :: "reader \<Rightarrow> write_condition list \<Rightarrow> unit res" where
  "check_conditions read conditions =
     rfold (\<lambda>condition _. rbind (condition_matches read condition) (\<lambda>ok.
       if ok then Inr () else Inl Conflict)) conditions ()"

definition conditional_in_storage ::
  "('db, 't) engine_ops \<Rightarrow> codecs \<Rightarrow> clocks \<Rightarrow> write_condition list \<Rightarrow> op list \<Rightarrow> 'db \<Rightarrow> 'db \<times> txn_id res" where
  "conditional_in_storage eng cs ck conditions ops db =
     (case e_begin_write eng db of
        Inl e \<Rightarrow> (db, Inl e)
      | Inr write \<Rightarrow>
          (case rbind (check_conditions (w_reader (e_writer eng) write) conditions) (\<lambda>_.
                  current_txn_id_from (w_reader (e_writer eng) write)) of
             Inl e \<Rightarrow> (db, Inl e)
           | Inr snapshot \<Rightarrow>
               if ops = [] then (db, Inr snapshot)
               else commit_write_set_in_txn_with_extra_authorized eng cs ck db write snapshot
                      (ops_to_write_set ops) Inr (\<lambda>txn _. Inr txn)))"

definition commit_conditional_batch_authorized ::
  "('db, 't) engine_ops \<Rightarrow> codecs \<Rightarrow> clocks \<Rightarrow> 'db single_node \<Rightarrow> write_condition list \<Rightarrow> op list \<Rightarrow>
   'db single_node \<times> txn_id res" where
  "commit_conditional_batch_authorized eng cs ck node conditions ops =
     with_commit_lock node (conditional_in_storage eng cs ck conditions ops)"

definition commit_conditional_batch ::
  "('db, 't) engine_ops \<Rightarrow> codecs \<Rightarrow> clocks \<Rightarrow> 'db single_node \<Rightarrow> write_condition list \<Rightarrow> op list \<Rightarrow>
   'db single_node \<times> txn_id res" where
  "commit_conditional_batch eng cs ck node conditions ops =
     (case rbind (validate_public_conditions conditions) (\<lambda>_. validate_public_ops ops) of
        Inl e \<Rightarrow> (node, Inl e)
      | Inr _ \<Rightarrow> commit_conditional_batch_authorized eng cs ck node conditions ops)"

section \<open>Proposals\<close>

definition discard_id :: "'n \<times> txn_id res \<Rightarrow> 'n \<times> unit repl" where
  "discard_id p = (fst p, rbind (storage_err (snd p)) (\<lambda>_. Inr ()))"

text \<open>The mapping of a conflict to \<open>ReplError::Conflict\<close>.\<close>

definition conflict_err :: "'a res \<Rightarrow> 'a repl" where
  "conflict_err r = map_err (\<lambda>e. if e = Conflict then RConflict else RStorage e) r"

definition propose_batch ::
  "('db, 't) engine_ops \<Rightarrow> codecs \<Rightarrow> clocks \<Rightarrow> 'db single_node \<Rightarrow> company \<Rightarrow> op list \<Rightarrow>
   'db single_node \<times> unit repl" where
  "propose_batch eng cs ck node company ops = discard_id (sn_commit_ops_at_current eng cs ck node company ops)"

definition propose ::
  "('db, 't) engine_ops \<Rightarrow> codecs \<Rightarrow> clocks \<Rightarrow> 'db single_node \<Rightarrow> company \<Rightarrow> op \<Rightarrow>
   'db single_node \<times> unit repl" where
  "propose eng cs ck node company op = propose_batch eng cs ck node company [op]"

definition propose_authorized_batch ::
  "('db, 't) engine_ops \<Rightarrow> codecs \<Rightarrow> clocks \<Rightarrow> 'db single_node \<Rightarrow> op list \<Rightarrow> 'db single_node \<times> unit repl" where
  "propose_authorized_batch eng cs ck node ops =
     discard_id (sn_commit_ops_at_current_authorized eng cs ck node ops)"

definition propose_conditional_batch ::
  "('db, 't) engine_ops \<Rightarrow> codecs \<Rightarrow> clocks \<Rightarrow> 'db single_node \<Rightarrow> write_condition list \<Rightarrow> op list \<Rightarrow>
   'db single_node \<times> unit repl" where
  "propose_conditional_batch eng cs ck node conditions ops =
     (case commit_conditional_batch eng cs ck node conditions ops of
        (node, r) \<Rightarrow> (node, rbind (conflict_err r) (\<lambda>_. Inr ())))"

definition propose_authorized_conditional_batch ::
  "('db, 't) engine_ops \<Rightarrow> codecs \<Rightarrow> clocks \<Rightarrow> 'db single_node \<Rightarrow> write_condition list \<Rightarrow> op list \<Rightarrow>
   'db single_node \<times> unit repl" where
  "propose_authorized_conditional_batch eng cs ck node conditions ops =
     (case commit_conditional_batch_authorized eng cs ck node conditions ops of
        (node, r) \<Rightarrow> (node, rbind (conflict_err r) (\<lambda>_. Inr ())))"

section \<open>Distributed transactions on a participant\<close>

definition DEFAULT_DIST_TXN_DEADLINE_MS :: u64 where
  "DEFAULT_DIST_TXN_DEADLINE_MS = 30000"

definition commit_dist_writes ::
  "('db, 't) engine_ops \<Rightarrow> codecs \<Rightarrow> clocks \<Rightarrow> 'db \<Rightarrow> 't \<Rightarrow> write_set \<Rightarrow> 'a \<Rightarrow> 'db \<times> 'a res" where
  "commit_dist_writes eng cs ck db write writes x =
     (case current_txn_id_from (w_reader (e_writer eng) write) of
        Inl e \<Rightarrow> (db, Inl e)
      | Inr snapshot \<Rightarrow>
          (case commit_write_set_in_txn_with_extra_authorized eng cs ck db write snapshot writes
                  Inr (\<lambda>txn _. Inr txn) of
             (db, Inl e) \<Rightarrow> (db, Inl e)
           | (db, Inr _) \<Rightarrow> (db, Inr x)))"

definition prepare_in_storage ::
  "('db, 't) engine_ops \<Rightarrow> codecs \<Rightarrow> clocks \<Rightarrow> dist_txn_id \<Rightarrow> op list \<Rightarrow> 'db \<Rightarrow> 'db \<times> vote res" where
  "prepare_in_storage eng cs ck txn_id ops db =
     (case e_begin_write eng db of
        Inl e \<Rightarrow> (db, Inl e)
      | Inr write \<Rightarrow>
          (case prepare_write_set cs (w_reader (e_writer eng) write) txn_id ops
                  DEFAULT_DIST_TXN_DEADLINE_MS (ck_unix_ms ck) of
             Inl e \<Rightarrow> if e = Conflict then (db, Inr VNo) else (db, Inl e)
           | Inr writes \<Rightarrow>
               if bt_is_empty writes then (db, Inr VYes)
               else commit_dist_writes eng cs ck db write writes VYes))"

definition prepare_dist_txn ::
  "('db, 't) engine_ops \<Rightarrow> codecs \<Rightarrow> clocks \<Rightarrow> 'db single_node \<Rightarrow> dist_txn_id \<Rightarrow> op list \<Rightarrow>
   'db single_node \<times> vote repl" where
  "prepare_dist_txn eng cs ck node txn_id ops =
     (case validate_public_ops ops of
        Inl e \<Rightarrow> (node, Inl (RStorage e))
      | Inr _ \<Rightarrow>
          (case with_commit_lock node (prepare_in_storage eng cs ck txn_id ops) of
             (node, r) \<Rightarrow> (node, storage_err r)))"

definition finish_in_storage ::
  "('db, 't) engine_ops \<Rightarrow> codecs \<Rightarrow> clocks \<Rightarrow> dist_txn_id \<Rightarrow> decision \<Rightarrow> 'db \<Rightarrow> 'db \<times> unit repl" where
  "finish_in_storage eng cs ck txn_id decision db =
     (case e_begin_write eng db of
        Inl e \<Rightarrow> (db, Inl (RStorage e))
      | Inr write \<Rightarrow>
          (case finish_write_set cs (w_reader (e_writer eng) write) txn_id decision (ck_unix_ms ck) of
             Inl e \<Rightarrow> (db, Inl (if e = Conflict then RConflict else RStorage e))
           | Inr writes \<Rightarrow>
               if bt_is_empty writes then (db, Inr ())
               else (case commit_dist_writes eng cs ck db write writes () of
                       (db, r) \<Rightarrow> (db, storage_err r))))"

definition finish_dist_txn ::
  "('db, 't) engine_ops \<Rightarrow> codecs \<Rightarrow> clocks \<Rightarrow> 'db single_node \<Rightarrow> dist_txn_id \<Rightarrow> decision \<Rightarrow>
   'db single_node \<times> unit repl" where
  "finish_dist_txn eng cs ck node txn_id decision =
     (if sn_lock_poisoned node then (node, Inl (RStorage (Backend ''commit lock poisoned'')))
      else case finish_in_storage eng cs ck txn_id decision (sn_storage node) of
        (db, r) \<Rightarrow> (node\<lparr>sn_storage := db\<rparr>, r))"

definition load_dist_txn_decision ::
  "('db, 't) engine_ops \<Rightarrow> codecs \<Rightarrow> 'db single_node \<Rightarrow> dist_txn_id \<Rightarrow> decision option res" where
  "load_dist_txn_decision eng cs node txn_id =
     rbind (e_begin_read eng (sn_storage node)) (\<lambda>read.
     rbind (rd_get read DIST_TXN_COORDINATOR_TABLE (txn_key txn_id)) (\<lambda>found.
     opt_transpose (\<lambda>bs. rbind (decode_decision cs bs) (\<lambda>record. Inr (cd_decision record))) found))"

definition local_prepared_dist_txns ::
  "('db, 't) engine_ops \<Rightarrow> codecs \<Rightarrow> 'db single_node \<Rightarrow> prepared_txn_record list res" where
  "local_prepared_dist_txns eng cs node =
     rbind (e_begin_read eng (sn_storage node)) (\<lambda>read.
     rbind (rd_range read DIST_TXN_PARTICIPANT_TABLE [] []) (\<lambda>items.
     rmap (\<lambda>entry. rbind entry (\<lambda>(_, bs). decode_prepared cs bs)) items))"

section \<open>Reads\<close>

definition sn_read ::
  "('db, 't) engine_ops \<Rightarrow> 'db single_node \<Rightarrow> string \<Rightarrow> bytes \<Rightarrow> read_consistency \<Rightarrow> bytes option repl" where
  "sn_read eng node table key consistency =
     storage_err (rbind (e_begin_read eng (sn_storage node)) (\<lambda>txn.
       rbind (validate_read_key txn table key) (\<lambda>_. rd_get txn table key)))"

definition sn_read_many ::
  "('db, 't) engine_ops \<Rightarrow> 'db single_node \<Rightarrow> string \<Rightarrow> bytes list \<Rightarrow> read_consistency \<Rightarrow>
   bytes option list repl" where
  "sn_read_many eng node table keys consistency =
     (if keys = [] then Inr []
      else storage_err (rbind (e_begin_read eng (sn_storage node)) (\<lambda>txn.
        rbind (validate_read_keys txn table keys) (\<lambda>_. rmap (\<lambda>key. rd_get txn table key) keys))))"

definition sn_range ::
  "('db, 't) engine_ops \<Rightarrow> 'db single_node \<Rightarrow> string \<Rightarrow> bytes \<Rightarrow> bytes \<Rightarrow> read_consistency \<Rightarrow>
   row list repl" where
  "sn_range eng node table start end consistency =
     storage_err (rbind (e_begin_read eng (sn_storage node)) (\<lambda>txn.
       rbind (validate_read_range txn table start end) (\<lambda>_. rd_rows txn table start end)))"

definition sn_table_data_version ::
  "('db, 't) engine_ops \<Rightarrow> 'db single_node \<Rightarrow> string \<Rightarrow> txn_id option repl" where
  "sn_table_data_version eng node table =
     storage_err (rbind (e_begin_read eng (sn_storage node)) (\<lambda>read.
       read_table_data_version_from read table))"

text \<open>
  \<open>scan_range_batches\<close> reads from one snapshot, whatever its callbacks do. A scan is therefore a
  value of its own: \<open>ScanCheck a b\<close> calls \<open>cancelled\<close> and goes on with \<open>a\<close> if it answers yes and
  with \<open>b\<close> otherwise, \<open>ScanBatch rows k\<close> calls \<open>on_batch\<close> and goes on with \<open>k\<close> unless that
  fails or answers no. The callbacks may share a state, which \<open>run_scan\<close> threads.
\<close>

datatype scan = ScanEnd "unit repl" | ScanCheck scan scan | ScanBatch "row list" scan

fun run_scan :: "('s \<Rightarrow> 's \<times> bool) \<Rightarrow> (row list \<Rightarrow> 's \<Rightarrow> 's \<times> bool repl) \<Rightarrow> scan \<Rightarrow> 's \<Rightarrow> 's \<times> unit repl" where
  "run_scan cancelled on_batch (ScanEnd r) s = (s, r)"
| "run_scan cancelled on_batch (ScanCheck a b) s =
     (case cancelled s of (s, stop) \<Rightarrow> run_scan cancelled on_batch (if stop then a else b) s)"
| "run_scan cancelled on_batch (ScanBatch rows k) s =
     (case on_batch rows s of
        (s, Inl e) \<Rightarrow> (s, Inl e)
      | (s, Inr go) \<Rightarrow> if go then run_scan cancelled on_batch k s else (s, Inr ()))"

definition scan_tail :: "row list \<Rightarrow> scan" where
  "scan_tail batch =
     (if batch \<noteq> [] then ScanCheck (ScanEnd (Inr ())) (ScanBatch batch (ScanEnd (Inr ()))) else ScanEnd (Inr ()))"

fun scan_loop :: "nat \<Rightarrow> range_iter \<Rightarrow> row list \<Rightarrow> scan" where
  "scan_loop batch_rows [] batch = ScanCheck (scan_tail batch) (scan_tail batch)"
| "scan_loop batch_rows (entry # entries) batch =
     ScanCheck (scan_tail batch)
       (case entry of
          Inl e \<Rightarrow> ScanEnd (Inl (RStorage e))
        | Inr row \<Rightarrow>
            let batch = batch @ [row] in
            if length batch \<ge> batch_rows then ScanBatch batch (scan_loop batch_rows entries [])
            else scan_loop batch_rows entries batch)"

definition sn_scan_range_batches ::
  "('db, 't) engine_ops \<Rightarrow> 'db single_node \<Rightarrow> string \<Rightarrow> bytes \<Rightarrow> bytes \<Rightarrow> read_consistency \<Rightarrow> nat \<Rightarrow> scan" where
  "sn_scan_range_batches eng node table start end consistency batch_rows =
     ScanCheck (ScanEnd (Inr ()))
       (case rbind (e_begin_read eng (sn_storage node)) (\<lambda>txn.
               rbind (validate_read_range txn table start end) (\<lambda>_. rd_range txn table start end)) of
          Inl e \<Rightarrow> ScanEnd (Inl (RStorage e))
        | Inr entries \<Rightarrow> scan_loop (min (max batch_rows 1) 1024) entries [])"

text \<open>The default of the trait: the whole range first, then its chunks.\<close>

function chunks :: "nat \<Rightarrow> 'a list \<Rightarrow> 'a list list" where
  "chunks n xs = (if xs = [] \<or> n = 0 then [] else take n xs # chunks n (drop n xs))"
  by pat_completeness auto
termination
  by (relation "measure (\<lambda>(n, xs). length xs)") auto

declare chunks.simps [simp del]

fun batch_loop :: "row list list \<Rightarrow> scan" where
  "batch_loop [] = ScanEnd (Inr ())"
| "batch_loop (batch # batches) = ScanCheck (ScanEnd (Inr ())) (ScanBatch batch (batch_loop batches))"

definition default_scan_range_batches ::
  "(string \<Rightarrow> bytes \<Rightarrow> bytes \<Rightarrow> row list repl) \<Rightarrow> string \<Rightarrow> bytes \<Rightarrow> bytes \<Rightarrow> nat \<Rightarrow> scan" where
  "default_scan_range_batches ranger table start end batch_rows =
     ScanCheck (ScanEnd (Inr ()))
       (case ranger table start end of
          Inl e \<Rightarrow> ScanEnd (Inl e)
        | Inr rows \<Rightarrow> batch_loop (chunks (max batch_rows 1) rows))"

lemma chunks_short: "length xs < n \<Longrightarrow> chunks n xs = (if xs = [] then [] else [xs])"
  by (subst chunks.simps, subst chunks.simps) auto

lemma chunks_full: "length xs = n \<Longrightarrow> 0 < n \<Longrightarrow> chunks n (xs @ ys) = xs # chunks n ys"
  by (subst chunks.simps) auto

abbreviation not_cancelled :: "'s \<Rightarrow> 's \<times> bool" where
  "not_cancelled s \<equiv> (s, False)"

lemma scan_loop_chunks:
  assumes "0 < k" and "length batch < k"
  shows "run_scan not_cancelled f (scan_loop k (map Inr rows) batch) s =
         run_scan not_cancelled f (batch_loop (chunks k (batch @ rows))) s"
  using assms(2)
proof (induction rows arbitrary: batch s)
  case Nil
  then show ?case
    by (auto simp: scan_tail_def chunks_short split: prod.split sum.split)
next
  case (Cons row rows)
  show ?case
  proof (cases "Suc (length batch) = k")
    case True
    then have "chunks k (batch @ row # rows) = (batch @ [row]) # chunks k rows"
      using chunks_full [of "batch @ [row]" k rows] assms(1) by simp
    then show ?thesis
      using True Cons.IH [of "[]"] assms(1) by (auto split: prod.split sum.split)
  next
    case False
    then show ?thesis
      using Cons.IH [of "batch @ [row]"] Cons.prems by simp
  qed
qed

text \<open>Callbacks that also write down the batches they are given.\<close>

definition watched :: "(row list \<Rightarrow> 's \<Rightarrow> 's \<times> bool repl) \<Rightarrow> row list \<Rightarrow> 's \<times> row list list \<Rightarrow> ('s \<times> row list list) \<times> bool repl" where
  "watched on_batch rows st = (case on_batch rows (fst st) of (s, r) \<Rightarrow> ((s, snd st @ [rows]), r))"

definition watched_cancel :: "('s \<Rightarrow> 's \<times> bool) \<Rightarrow> 's \<times> row list list \<Rightarrow> ('s \<times> row list list) \<times> bool" where
  "watched_cancel cancelled st = (case cancelled (fst st) of (s, stop) \<Rightarrow> ((s, snd st), stop))"

lemma watched_pair:
  "watched_cancel cancelled (s, out) = (case cancelled s of (s', stop) \<Rightarrow> ((s', out), stop))"
  "watched on_batch rows (s, out) = (case on_batch rows s of (s', r) \<Rightarrow> ((s', out @ [rows]), r))"
  by (simp_all add: watched_cancel_def watched_def)

text \<open>Whenever the scan is cancelled, what has been handed out is a beginning of the rows.\<close>

lemma scan_tail_prefix:
  assumes "run_scan (watched_cancel cancelled) (watched on_batch) (scan_tail batch) (s, out) = ((s', out'), r)" and "length batch < k"
  shows "\<exists>bs. out' = out @ bs \<and> prefix (concat bs) (batch @ rows) \<and> (\<forall>b \<in> set bs. b \<noteq> [] \<and> length b \<le> k)"
proof -
  have "out' = out \<or> out' = out @ [batch] \<and> batch \<noteq> []"
    using assms(1) by (auto simp: scan_tail_def watched_pair split: prod.splits sum.splits if_splits)
  then show ?thesis
    using assms(2) by (auto intro: exI [of _ "[]"] exI [of _ "[batch]"])
qed

lemma scan_loop_prefix:
  assumes "run_scan (watched_cancel cancelled) (watched on_batch) (scan_loop k (map Inr rows) batch) (s, out) = ((s', out'), r)"
    and "length batch < k"
  shows "\<exists>bs. out' = out @ bs \<and> prefix (concat bs) (batch @ rows) \<and> (\<forall>b \<in> set bs. b \<noteq> [] \<and> length b \<le> k)"
  using assms
proof (induction rows arbitrary: batch s out)
  case Nil
  then obtain s1 where "run_scan (watched_cancel cancelled) (watched on_batch) (scan_tail batch) (s1, out) = ((s', out'), r)"
    by (auto simp: watched_pair split: prod.splits if_splits)
  from scan_tail_prefix [OF this Nil.prems(2), of "[]"] show ?case
    by simp
next
  case (Cons row rows)
  obtain s1 stop where c: "cancelled s = (s1, stop)"
    by (cases "cancelled s")
  show ?case
  proof (cases stop)
    case True
    then have "run_scan (watched_cancel cancelled) (watched on_batch) (scan_tail batch) (s1, out) = ((s', out'), r)"
      using Cons.prems(1) c by (simp add: watched_pair)
    from scan_tail_prefix [OF this Cons.prems(2)] show ?thesis .
  next
    case False
    show ?thesis
    proof (cases "Suc (length batch) = k")
      case full: True
      obtain s2 q where q: "on_batch (batch @ [row]) s1 = (s2, q)"
        by (cases "on_batch (batch @ [row]) s1")
      have one: "\<exists>bs. out @ [batch @ [row]] = out @ bs \<and> prefix (concat bs) (batch @ row # rows) \<and> (\<forall>b \<in> set bs. b \<noteq> [] \<and> length b \<le> k)"
        using full by (intro exI [of _ "[batch @ [row]]"]) simp
      show ?thesis
      proof (cases "q = Inr True")
        case True
        then have "run_scan (watched_cancel cancelled) (watched on_batch) (scan_loop k (map Inr rows) []) (s2, out @ [batch @ [row]]) = ((s', out'), r)"
          using Cons.prems(1) c False full q by (simp add: watched_pair)
        from Cons.IH [OF this] full obtain bs where "out' = (out @ [batch @ [row]]) @ bs" "prefix (concat bs) rows" "\<forall>b \<in> set bs. b \<noteq> [] \<and> length b \<le> k"
          by auto
        then show ?thesis
          using full by (intro exI [of _ "(batch @ [row]) # bs"]) simp
      next
        case stopped: False
        then have "out' = out @ [batch @ [row]]"
          using Cons.prems(1) c False full q by (cases q) (auto simp: watched_pair)
        with one show ?thesis
          by simp
      qed
    next
      case more: False
      then have "run_scan (watched_cancel cancelled) (watched on_batch) (scan_loop k (map Inr rows) (batch @ [row])) (s1, out) = ((s', out'), r)"
        using Cons.prems c False by (simp add: watched_pair)
      from Cons.IH [OF this] more Cons.prems(2) show ?thesis
        by simp
    qed
  qed
qed


definition demo_table_engine :: mem_engine where
  "demo_table_engine =
     mem_new\<lparr>me_inner := bt_insert ''t''
       (bt_insert [1] [7] (bt_insert [2] [8] (bt_insert [3] [9] bt_empty))) bt_empty\<rparr>"


end
