(* ===== verification/Two_Phase.thy ===== *)
theory Two_Phase
  imports Single_Node
begin

text \<open>
  The coordinator of \<open>src/repl/dist_txn.rs\<close>: \<open>two_phase_commit\<close> over the traits
  \<open>Participant\<close> and \<open>CoordinatorLog\<close>, and the in-memory log. Participants act on a shared
  world \<open>'w\<close>, so that the same object may take part twice; both traits are records of their
  methods. The contract of a log is the locale \<open>coordinator\<close>, interpreted on the in-memory log.
\<close>

section \<open>The coordinator\<close>

record 'w participant =
  pt_prepare :: "dist_txn_id \<Rightarrow> 'w \<Rightarrow> 'w \<times> vote repl"
  pt_finish :: "dist_txn_id \<Rightarrow> decision \<Rightarrow> 'w \<Rightarrow> 'w \<times> unit repl"

record 'l coordinator_log =
  cl_record_decision :: "'l \<Rightarrow> dist_txn_id \<Rightarrow> decision \<Rightarrow> 'l \<times> unit repl"
  cl_decision :: "'l \<Rightarrow> dist_txn_id \<Rightarrow> decision option"

text \<open>The first phase stops at the first participant that does not vote yes.\<close>

fun prepare_phase :: "dist_txn_id \<Rightarrow> 'w participant list \<Rightarrow> 'w \<Rightarrow> 'w \<times> decision \<times> repl_error option" where
  "prepare_phase i [] w = (w, DCommit, None)"
| "prepare_phase i (p # ps) w =
     (case pt_prepare p i w of
        (w, Inr VYes) \<Rightarrow> prepare_phase i ps w
      | (w, Inr VNo) \<Rightarrow> (w, DAbort, None)
      | (w, Inl e) \<Rightarrow> (w, DAbort, Some e))"

text \<open>The second phase tells everyone and keeps the first error.\<close>

fun finish_phase :: "dist_txn_id \<Rightarrow> decision \<Rightarrow> 'w participant list \<Rightarrow> 'w \<Rightarrow> repl_error option \<Rightarrow>
    'w \<times> repl_error option" where
  "finish_phase i d [] w err = (w, err)"
| "finish_phase i d (p # ps) w err =
     (case pt_finish p i d w of
        (w, Inl e) \<Rightarrow> finish_phase i d ps w (if err = None then Some e else err)
      | (w, Inr _) \<Rightarrow> finish_phase i d ps w err)"

definition finish_and_report ::
  "dist_txn_id \<Rightarrow> 'w participant list \<Rightarrow> decision \<Rightarrow> repl_error option \<Rightarrow> 'w \<Rightarrow> 'w \<times> decision repl" where
  "finish_and_report i ps d prepare_error w =
     (case finish_phase i d ps w None of
        (w, finish_error) \<Rightarrow>
          (w, case (if prepare_error = None then finish_error else prepare_error) of
                Some e \<Rightarrow> Inl e
              | None \<Rightarrow> Inr d))"

definition two_phase_commit ::
  "'l coordinator_log \<Rightarrow> dist_txn_id \<Rightarrow> 'w participant list \<Rightarrow> 'l \<Rightarrow> 'w \<Rightarrow> 'l \<times> 'w \<times> decision repl" where
  "two_phase_commit log i ps l w =
     (case cl_decision log l i of
        Some d \<Rightarrow> (l, finish_and_report i ps d None w)
      | None \<Rightarrow>
          (case prepare_phase i ps w of
             (w, d, prepare_error) \<Rightarrow>
               (case cl_record_decision log l i d of
                  (l, Inl e) \<Rightarrow> (l, w, Inl e)
                | (l, Inr _) \<Rightarrow> (l, finish_and_report i ps d prepare_error w))))"

section \<open>The in-memory log\<close>

type_synonym decisions = "(dist_txn_id, decision) btm"

definition mem_record_decision :: "decisions \<Rightarrow> dist_txn_id \<Rightarrow> decision \<Rightarrow> decisions \<times> unit repl" where
  "mem_record_decision l i d =
     (case bt_get l i of
        Some existing \<Rightarrow> if existing \<noteq> d then (l, Inl RConflict) else (bt_insert i d l, Inr ())
      | None \<Rightarrow> (bt_insert i d l, Inr ()))"

definition in_memory_log :: "decisions coordinator_log" where
  "in_memory_log = \<lparr>cl_record_decision = mem_record_decision, cl_decision = bt_get\<rparr>"

definition in_memory_log_new :: decisions where
  "in_memory_log_new = bt_empty"

section \<open>The contract of a log\<close>

locale coordinator =
  fixes log :: "'l coordinator_log"
  assumes record_ok: "cl_record_decision log l i d = (l', Inr ()) \<Longrightarrow>
      cl_decision log l' = (cl_decision log l)(i \<mapsto> d)"
    and record_error: "cl_record_decision log l i d = (l', Inl e) \<Longrightarrow> cl_decision log l' = cl_decision log l"
    and record_conflict: "cl_decision log l i = Some d' \<Longrightarrow> d' \<noteq> d \<Longrightarrow>
      \<exists>e. cl_record_decision log l i d = (l, Inl e)"
begin

text \<open>A run that returns a decision has it on record; a repeated run decides the same.\<close>

lemma decision_recorded:
  assumes "two_phase_commit log i ps l w = (l', w', Inr d)"
  shows "cl_decision log l' i = Some d"
  using assms record_ok [of l i]
  by (auto simp: two_phase_commit_def finish_and_report_def split: option.splits prod.splits sum.splits if_splits)

lemma decision_kept:
  assumes "two_phase_commit log i ps l w = (l', w', r)" and "cl_decision log l j = Some d"
  shows "cl_decision log l' j = Some d"
  using assms record_ok [of l i]
  by (auto dest: record_error simp: two_phase_commit_def finish_and_report_def split: option.splits prod.splits sum.splits if_splits)

lemma rerun_decides_same:
  assumes "cl_decision log l i = Some d"
  shows "two_phase_commit log i ps l w = (l, finish_and_report i ps d None w)"
  using assms by (simp add: two_phase_commit_def)

end

interpretation mem_log: coordinator in_memory_log
  by unfold_locales (auto simp: in_memory_log_def mem_record_decision_def split: option.splits if_splits)

section \<open>The protocol as its participants see it\<close>

text \<open>A participant that also writes down what it is asked and what it answers.\<close>

datatype call = CPrepare nat "vote repl" | CFinish nat decision "unit repl"

definition logged :: "nat \<Rightarrow> 'w participant \<Rightarrow> ('w \<times> call list) participant" where
  "logged k p =
     \<lparr>pt_prepare = (\<lambda>i (w, calls). case pt_prepare p i w of (w, v) \<Rightarrow> ((w, calls @ [CPrepare k v]), v)),
      pt_finish = (\<lambda>i d (w, calls). case pt_finish p i d w of (w, r) \<Rightarrow> ((w, calls @ [CFinish k d r]), r))\<rparr>"

definition logged_all :: "nat \<Rightarrow> 'w participant list \<Rightarrow> ('w \<times> call list) participant list" where
  "logged_all k ps = map (\<lambda>(j, p). logged j p) (enumerate k ps)"

text \<open>Logging does not change what a run does.\<close>

lemma logged_all_Cons [simp]:
  "logged_all k (p # ps) = logged k p # logged_all (Suc k) ps" "logged_all k [] = []"
  by (simp_all add: logged_all_def)

lemma prepare_phase_calls:
  assumes "prepare_phase i (logged_all k ps) (w, calls) = ((w', calls'), d, err)"
  shows "\<exists>votes. calls' = calls @ map (\<lambda>(j, v). CPrepare j v) (enumerate k votes) \<and>
    length votes \<le> length ps \<and>
    (d = DCommit \<longleftrightarrow> votes = replicate (length ps) (Inr VYes)) \<and>
    (d = DAbort \<longrightarrow> (\<exists>n v. votes = replicate n (Inr VYes) @ [v] \<and> v \<noteq> Inr VYes \<and>
       err = (case v of Inl e \<Rightarrow> Some e | Inr _ \<Rightarrow> None))) \<and>
    (d = DCommit \<longrightarrow> err = None)"
  using assms
proof (induction ps arbitrary: k w calls)
  case (Cons p ps)
  obtain w1 v where step: "pt_prepare p i w = (w1, v)"
    by (cases "pt_prepare p i w")
  show ?case
  proof (cases "v = Inr VYes")
    case True
    then have "prepare_phase i (logged_all (Suc k) ps) (w1, calls @ [CPrepare k v]) = ((w', calls'), d, err)"
      using Cons.prems step by (simp add: logged_def)
    from Cons.IH [OF this] obtain votes where
      "calls' = (calls @ [CPrepare k v]) @ map (\<lambda>(j, v). CPrepare j v) (enumerate (Suc k) votes)"
      "length votes \<le> length ps" "d = DCommit \<longleftrightarrow> votes = replicate (length ps) (Inr VYes)"
      "d = DAbort \<longrightarrow> (\<exists>n v. votes = replicate n (Inr VYes) @ [v] \<and> v \<noteq> Inr VYes \<and>
         err = (case v of Inl e \<Rightarrow> Some e | Inr _ \<Rightarrow> None))"
      "d = DCommit \<longrightarrow> err = None"
      by blast
    moreover have "\<exists>n v. Inr VYes # votes = replicate n (Inr VYes) @ [v] \<and> v \<noteq> Inr VYes \<and>
        err = (case v of Inl e \<Rightarrow> Some e | Inr _ \<Rightarrow> None)" if "d = DAbort"
      using calculation(4) that by (metis append_Cons replicate_Suc)
    ultimately show ?thesis
      using True by (intro exI [of _ "v # votes"]) auto
  next
    case False
    then have "calls' = calls @ [CPrepare k v]" "d = DAbort" "err = (case v of Inl e \<Rightarrow> Some e | Inr _ \<Rightarrow> None)"
      using Cons.prems step by (auto simp: logged_def split: sum.splits vote.splits)
    then show ?thesis
      using False by (intro exI [of _ "[v]"]) (auto intro!: exI [of _ 0])
  qed
qed auto

lemma finish_phase_calls:
  assumes "finish_phase i d (logged_all k ps) (w, calls) err = ((w', calls'), err')"
  shows "\<exists>rs. length rs = length ps \<and> calls' = calls @ map (\<lambda>(j, r). CFinish j d r) (enumerate k rs) \<and>
    (err' = None \<longleftrightarrow> err = None \<and> (\<forall>r \<in> set rs. r = Inr ()))"
  using assms
proof (induction ps arbitrary: k w calls err)
  case (Cons p ps)
  obtain w1 r where step: "pt_finish p i d w = (w1, r)"
    by (cases "pt_finish p i d w")
  define err1 where "err1 = (case r of Inl e \<Rightarrow> if err = None then Some e else err | Inr _ \<Rightarrow> err)"
  have "finish_phase i d (logged_all (Suc k) ps) (w1, calls @ [CFinish k d r]) err1 = ((w', calls'), err')"
    using Cons.prems step by (cases r) (simp_all add: logged_def err1_def)
  from Cons.IH [OF this] obtain rs where "length rs = length ps"
    "calls' = (calls @ [CFinish k d r]) @ map (\<lambda>(j, r). CFinish j d r) (enumerate (Suc k) rs)"
    "err' = None \<longleftrightarrow> err1 = None \<and> (\<forall>r \<in> set rs. r = Inr ())"
    by blast
  moreover have "err1 = None \<longleftrightarrow> err = None \<and> r = Inr ()"
    by (auto simp: err1_def split: sum.split)
  ultimately show ?case
    by (intro exI [of _ "r # rs"]) auto
qed auto

lemma finish_and_report_calls:
  assumes "finish_and_report i (logged_all 0 ps) d err (w, calls) = ((w', calls'), r)"
  shows "\<exists>answers. length answers = length ps \<and> calls' = calls @ map (\<lambda>(j, a). CFinish j d a) (enumerate 0 answers) \<and>
    (r = Inr d \<longleftrightarrow> err = None \<and> (\<forall>a \<in> set answers. a = Inr ())) \<and> (r = Inr d \<or> (\<exists>e. r = Inl e))"
proof -
  obtain ferr where phase: "finish_phase i d (logged_all 0 ps) (w, calls) None = ((w', calls'), ferr)"
    and r: "r = (case (if err = None then ferr else err) of Some e \<Rightarrow> Inl e | None \<Rightarrow> Inr d)"
    using assms by (auto simp: finish_and_report_def split: prod.splits)
  have "r = Inr d \<longleftrightarrow> err = None \<and> ferr = None" "r = Inr d \<or> (\<exists>e. r = Inl e)"
    unfolding r by (auto split: option.split)
  then show ?thesis
    using finish_phase_calls [OF phase] by auto
qed

lemma prepare_phase_votes:
  assumes "prepare_phase i (logged_all 0 ps) (w, []) = ((w', calls), d, err)"
  shows "\<exists>votes. calls = map (\<lambda>(j, v). CPrepare j v) (enumerate 0 votes) \<and>
    (d = DCommit \<longleftrightarrow> votes = replicate (length ps) (Inr VYes)) \<and>
    (d = DAbort \<longrightarrow> (\<exists>n v. n < length ps \<and> votes = replicate n (Inr VYes) @ [v] \<and> v \<noteq> Inr VYes)) \<and>
    (err = None \<longleftrightarrow> (\<forall>v \<in> set votes. \<exists>x. v = Inr x))"
proof -
  obtain votes where votes: "calls = map (\<lambda>(j, v). CPrepare j v) (enumerate 0 votes)"
    "length votes \<le> length ps" "d = DCommit \<longleftrightarrow> votes = replicate (length ps) (Inr VYes)"
    "d = DAbort \<longrightarrow> (\<exists>n v. votes = replicate n (Inr VYes) @ [v] \<and> v \<noteq> Inr VYes \<and>
       err = (case v of Inl e \<Rightarrow> Some e | Inr _ \<Rightarrow> None))"
    "d = DCommit \<longrightarrow> err = None"
    using prepare_phase_calls [OF assms] by auto
  have "err = None \<longleftrightarrow> (\<forall>v \<in> set votes. \<exists>x. v = Inr x)"
  proof (cases d)
    case DCommit
    then show ?thesis
      using votes(3,5) by auto
  next
    case DAbort
    then obtain n v where "votes = replicate n (Inr VYes) @ [v]" "err = (case v of Inl e \<Rightarrow> Some e | Inr _ \<Rightarrow> None)"
      using votes(4) by blast
    then show ?thesis
      by (cases v) auto
  qed
  moreover have "d = DAbort \<longrightarrow> (\<exists>n v. n < length ps \<and> votes = replicate n (Inr VYes) @ [v] \<and> v \<noteq> Inr VYes)"
    using votes(2,4) by fastforce
  ultimately show ?thesis
    using votes(1,3) by blast
qed

text \<open>
  C10. Two-phase commit over any log that keeps its contract, seen from its participants. If a
  decision was on record, nobody is asked to prepare. Otherwise the participants are asked in
  order up to the first one that does not vote yes, the decision is to commit exactly when all
  voted yes, and it is given to the log. If the log refuses it, nobody is told anything and the
  run fails with that error. In the other cases the decision is on record and every
  participant, also those that were not asked, is told this one decision; the run returns it
  exactly when nobody reported an error.
\<close>

theorem two_phase_commit_protocol:
  assumes "coordinator log" and "two_phase_commit log i (logged_all 0 ps) l (w, []) = (l', (w', calls), r)"
  shows "\<exists>votes d.
    (case cl_decision log l i of
       Some d' \<Rightarrow> votes = [] \<and> d = d' \<and> l' = l
     | None \<Rightarrow> (d = DCommit \<longleftrightarrow> votes = replicate (length ps) (Inr VYes)) \<and>
         (d = DAbort \<longrightarrow> (\<exists>n v. n < length ps \<and> votes = replicate n (Inr VYes) @ [v] \<and> v \<noteq> Inr VYes)) \<and>
         l' = fst (cl_record_decision log l i d)) \<and>
    (\<forall>j. j \<noteq> i \<longrightarrow> cl_decision log l' j = cl_decision log l j) \<and>
    (if cl_decision log l i = None \<and> snd (cl_record_decision log l i d) \<noteq> Inr ()
     then calls = map (\<lambda>(j, v). CPrepare j v) (enumerate 0 votes) \<and> cl_decision log l' i = None \<and>
       (\<exists>e. snd (cl_record_decision log l i d) = Inl e \<and> r = Inl e)
     else cl_decision log l' i = Some d \<and>
       (\<exists>answers. length answers = length ps \<and>
          calls = map (\<lambda>(j, v). CPrepare j v) (enumerate 0 votes) @ map (\<lambda>(j, a). CFinish j d a) (enumerate 0 answers) \<and>
          (r = Inr d \<longleftrightarrow> (\<forall>v \<in> set votes. \<exists>x. v = Inr x) \<and> (\<forall>a \<in> set answers. a = Inr ())) \<and>
          (r = Inr d \<or> (\<exists>e. r = Inl e))))"
proof (cases "cl_decision log l i")
  case (Some d)
  then have run: "finish_and_report i (logged_all 0 ps) d None (w, []) = ((w', calls), r)" "l' = l"
    using assms(2) by (auto simp: two_phase_commit_def)
  then show ?thesis
    using Some finish_and_report_calls [OF run(1)] by (intro exI [of _ "[]"] exI [of _ d]) simp
next
  case None
  obtain w1 calls1 d err where prep: "prepare_phase i (logged_all 0 ps) (w, []) = ((w1, calls1), d, err)"
    by (metis prod.collapse)
  obtain votes where votes: "calls1 = map (\<lambda>(j, v). CPrepare j v) (enumerate 0 votes)"
    "d = DCommit \<longleftrightarrow> votes = replicate (length ps) (Inr VYes)"
    "d = DAbort \<longrightarrow> (\<exists>n v. n < length ps \<and> votes = replicate n (Inr VYes) @ [v] \<and> v \<noteq> Inr VYes)"
    "err = None \<longleftrightarrow> (\<forall>v \<in> set votes. \<exists>x. v = Inr x)"
    using prepare_phase_votes [OF prep] by blast
  obtain l1 q where log: "cl_record_decision log l i d = (l1, q)"
    by (cases "cl_record_decision log l i d")
  show ?thesis
  proof (cases q)
    case (Inl e)
    then have "l' = l1" "calls = calls1" "r = Inl e"
      using assms(2) None prep log by (auto simp: two_phase_commit_def)
    then show ?thesis
      using None votes(1-3) log Inl coordinator.record_error [OF assms(1), of l i d l1 e]
      by (intro exI [of _ votes] exI [of _ d]) simp
  next
    case (Inr u)
    then have run: "l' = l1" "finish_and_report i (logged_all 0 ps) d err (w1, calls1) = ((w', calls), r)"
      using assms(2) None prep log by (auto simp: two_phase_commit_def)
    show ?thesis
      using None votes log Inr run(1) coordinator.record_ok [OF assms(1), of l i d l1] finish_and_report_calls [OF run(2)]
      by (intro exI [of _ votes] exI [of _ d]) simp
  qed
qed

definition yes_participant :: "nat participant" where
  "yes_participant = \<lparr>pt_prepare = (\<lambda>i w. (w + 1, Inr VYes)), pt_finish = (\<lambda>i d w. (w + 1, Inr ()))\<rparr>"

definition no_participant :: "nat participant" where
  "no_participant = \<lparr>pt_prepare = (\<lambda>i w. (w, Inr VNo)), pt_finish = (\<lambda>i d w. (w, Inr ()))\<rparr>"

text \<open>A log that takes no decision.\<close>

definition full_log :: "unit coordinator_log" where
  "full_log = \<lparr>cl_record_decision = (\<lambda>l i d. (l, Inl NoQuorum)), cl_decision = (\<lambda>l i. None)\<rparr>"

theorem two_phase_commit_protocol_witness:
  "(case two_phase_commit in_memory_log 8 (logged_all 0 [yes_participant, no_participant, yes_participant])
      in_memory_log_new (0, []) of (l', (w', calls), r) \<Rightarrow>
     r = Inr DAbort \<and> bt_get l' 8 = Some DAbort \<and>
     calls = [CPrepare 0 (Inr VYes), CPrepare 1 (Inr VNo),
       CFinish 0 DAbort (Inr ()), CFinish 1 DAbort (Inr ()), CFinish 2 DAbort (Inr ())]) \<and>
   (case two_phase_commit full_log 8 (logged_all 0 [yes_participant]) () (0, []) of (l', (w', calls), r) \<Rightarrow>
     r = Inl NoQuorum \<and> calls = [CPrepare 0 (Inr VYes)])"
proof -
  have run: "two_phase_commit in_memory_log 8 (logged_all 0 [yes_participant, no_participant, yes_participant])
      in_memory_log_new (0, []) =
      (bt_insert 8 DAbort bt_empty, (3, [CPrepare 0 (Inr VYes), CPrepare 1 (Inr VNo),
       CFinish 0 DAbort (Inr ()), CFinish 1 DAbort (Inr ()), CFinish 2 DAbort (Inr ())]), Inr DAbort)"
    by (simp add: two_phase_commit_def in_memory_log_def in_memory_log_new_def mem_record_decision_def
        logged_def yes_participant_def no_participant_def finish_and_report_def numeral_2_eq_2)
  have full: "coordinator full_log"
    by unfold_locales (simp_all add: full_log_def)
  obtain w' calls r where refused: "two_phase_commit full_log 8 (logged_all 0 [yes_participant]) () (0, []) = ((), (w', calls), r)"
    by (metis (full_types) old.unit.exhaust prod.collapse)
  obtain votes d where told: "d = DCommit \<longleftrightarrow> votes = [Inr VYes]" "calls = map (\<lambda>(j, v). CPrepare j v) (enumerate 0 votes)" "r = Inl NoQuorum"
    using two_phase_commit_protocol [OF full refused] by (auto simp: full_log_def)
  have "prepare_phase 8 (logged_all 0 [yes_participant]) (0, []) = ((1, [CPrepare 0 (Inr VYes)]), DCommit, None)"
    by (simp add: logged_def yes_participant_def)
  then have "calls = [CPrepare 0 (Inr VYes)]"
    using refused by (simp add: two_phase_commit_def full_log_def)
  then show ?thesis
    unfolding run refused using two_phase_commit_protocol [OF mem_log.coordinator_axioms run] told(3) by auto
qed

end
