(* ===== verification/Group_Commit.thy ===== *)
theory Group_Commit
  imports Single_Node
begin

text \<open>
  The group-commit coordinator of \<open>src/repl/mod.rs\<close>, \<open>GroupCommitCoordinator\<close>, as a state
  machine: callers queue their operations, the first one becomes the leader, and the leader
  commits whatever is queued as one group until the queue is empty. A step is what one thread
  does under one acquisition of a lock. The ghost fields record which requests were submitted
  and which groups were committed with which result; no step reads them.
\<close>

section \<open>State machine\<close>

type_synonym request = "nat \<times> op list"

text \<open>Where the leading thread stands in its loop.\<close>

datatype leader =
    NoLeader
  | Sleeping
  | Holding "request list"
  | Publishing "request list" "txn_id res"
  | Rechecking

record 'db group_commit =
  gc_node :: "'db single_node"
  gc_leader_active :: bool
  gc_pending :: "request list"
  gc_leader :: leader
  gc_result :: "nat \<Rightarrow> txn_id res option"
  gc_returned :: "nat \<Rightarrow> txn_id res option"
  gc_submitted :: "request list"
  gc_groups :: "(request list \<times> txn_id res) list"

definition gc_init :: "'db single_node \<Rightarrow> 'db group_commit" where
  "gc_init node =
     \<lparr>gc_node = node, gc_leader_active = False, gc_pending = [], gc_leader = NoLeader,
      gc_result = (\<lambda>_. None), gc_returned = (\<lambda>_. None), gc_submitted = [], gc_groups = []\<rparr>"

text \<open>Queueing a request; its thread leads if nobody does.\<close>

definition gc_enqueue :: "request \<Rightarrow> 'db group_commit \<Rightarrow> 'db group_commit" where
  "gc_enqueue req st =
     (let st = st\<lparr>gc_pending := gc_pending st @ [req], gc_submitted := gc_submitted st @ [req]\<rparr> in
      if gc_leader_active st then st
      else st\<lparr>gc_leader_active := True, gc_leader := Sleeping\<rparr>)"

text \<open>After its sleep the leader takes the queue, or stops when it is empty.\<close>

definition gc_take :: "'db group_commit \<Rightarrow> 'db group_commit" where
  "gc_take st =
     (if gc_pending st = [] then st\<lparr>gc_leader_active := False, gc_leader := NoLeader\<rparr>
      else st\<lparr>gc_pending := [], gc_leader := Holding (gc_pending st)\<rparr>)"

definition gc_commit ::
  "('db, 't) engine_ops \<Rightarrow> codecs \<Rightarrow> clocks \<Rightarrow> request list \<Rightarrow> 'db group_commit \<Rightarrow> 'db group_commit" where
  "gc_commit eng cs ck requests st =
     (case commit_group eng cs ck (gc_node st) (map snd requests) of
        (node, result) \<Rightarrow>
          st\<lparr>gc_node := node, gc_leader := Publishing requests result,
             gc_groups := gc_groups st @ [(requests, result)]\<rparr>)"

text \<open>The results are set one request at a time.\<close>

definition gc_publish :: "request \<Rightarrow> request list \<Rightarrow> txn_id res \<Rightarrow> 'db group_commit \<Rightarrow> 'db group_commit" where
  "gc_publish req requests result st =
     st\<lparr>gc_result := (gc_result st)(fst req \<mapsto> clone_commit_result result),
        gc_leader := Publishing requests result\<rparr>"

definition gc_recheck :: "'db group_commit \<Rightarrow> 'db group_commit" where
  "gc_recheck st =
     (if gc_pending st = [] then st\<lparr>gc_leader_active := False, gc_leader := NoLeader\<rparr>
      else st\<lparr>gc_leader := Sleeping\<rparr>)"

text \<open>A waiting caller takes its result and returns.\<close>

definition gc_return :: "nat \<Rightarrow> txn_id res \<Rightarrow> 'db group_commit \<Rightarrow> 'db group_commit" where
  "gc_return rid value st =
     st\<lparr>gc_result := (gc_result st)(rid := None), gc_returned := (gc_returned st)(rid \<mapsto> value)\<rparr>"

inductive gc_step ::
  "('db, 't) engine_ops \<Rightarrow> codecs \<Rightarrow> 'db group_commit \<Rightarrow> 'db group_commit \<Rightarrow> bool"
  for eng :: "('db, 't) engine_ops" and cs :: codecs where
  submit: "fst req \<notin> fst ` set (gc_submitted st) \<Longrightarrow> gc_step eng cs st (gc_enqueue req st)"
| wake: "gc_leader st = Sleeping \<Longrightarrow> gc_step eng cs st (gc_take st)"
| commit: "gc_leader st = Holding requests \<Longrightarrow> gc_step eng cs st (gc_commit eng cs ck requests st)"
| publish: "gc_leader st = Publishing (req # requests) result \<Longrightarrow>
    gc_step eng cs st (gc_publish req requests result st)"
| published: "gc_leader st = Publishing [] result \<Longrightarrow> gc_step eng cs st (st\<lparr>gc_leader := Rechecking\<rparr>)"
| recheck: "gc_leader st = Rechecking \<Longrightarrow> gc_step eng cs st (gc_recheck st)"
| return: "gc_result st rid = Some value \<Longrightarrow> gc_step eng cs st (gc_return rid value st)"
| other: "gc_step eng cs st (st\<lparr>gc_node := node\<rparr>)"

inductive gc_reachable ::
  "('db, 't) engine_ops \<Rightarrow> codecs \<Rightarrow> 'db group_commit \<Rightarrow> bool"
  for eng :: "('db, 't) engine_ops" and cs :: codecs where
  start: "gc_reachable eng cs (gc_init node)"
| step: "gc_reachable eng cs st \<Longrightarrow> gc_step eng cs st st' \<Longrightarrow> gc_reachable eng cs st'"

inductive_cases gc_stepE: "gc_step eng cs st st'"

section \<open>Invariant\<close>

text \<open>The requests that the leader has taken and not yet committed, and those whose result is set.\<close>

fun held :: "leader \<Rightarrow> request list" where
  "held (Holding requests) = requests"
| "held _ = []"

fun unpublished :: "leader \<Rightarrow> request list" where
  "unpublished (Publishing requests result) = requests"
| "unpublished _ = []"

definition group_requests :: "'db group_commit \<Rightarrow> request list" where
  "group_requests st = concat (map fst (gc_groups st))"

definition answer :: "'db group_commit \<Rightarrow> nat \<Rightarrow> txn_id res option" where
  "answer st rid = (case gc_returned st rid of Some v \<Rightarrow> Some v | None \<Rightarrow> gc_result st rid)"

text \<open>What the callers of the committed groups are due.\<close>

definition dues_of :: "(request list \<times> txn_id res) list \<Rightarrow> (nat \<times> txn_id res) list" where
  "dues_of groups =
     concat (map (\<lambda>(requests, result). map (\<lambda>req. (fst req, clone_commit_result result)) requests) groups)"

abbreviation dues :: "'db group_commit \<Rightarrow> (nat \<times> txn_id res) list" where
  "dues st \<equiv> dues_of (gc_groups st)"

definition gc_inv :: "'db group_commit \<Rightarrow> bool" where
  "gc_inv st \<longleftrightarrow>
     distinct (map fst (gc_submitted st)) \<and>
     group_requests st @ held (gc_leader st) @ gc_pending st = gc_submitted st \<and>
     (gc_leader_active st \<longleftrightarrow> gc_leader st \<noteq> NoLeader) \<and>
     (gc_pending st \<noteq> [] \<longrightarrow> gc_leader_active st) \<and>
     (\<forall>requests result. gc_leader st = Publishing requests result \<longrightarrow>
        (\<exists>before earlier. gc_groups st = earlier @ [(before @ requests, result)])) \<and>
     (\<forall>rid. gc_result st rid \<noteq> None \<longrightarrow> gc_returned st rid = None) \<and>
     (\<forall>rid. answer st rid =
        (if rid \<in> fst ` set (unpublished (gc_leader st)) then None else map_of (dues st) rid))"

lemma gc_init_inv: "gc_inv (gc_init node)"
  by (simp add: gc_inv_def gc_init_def group_requests_def answer_def dues_of_def)

lemma gc_invD:
  assumes "gc_inv st"
  shows "distinct (map fst (gc_submitted st))"
    and "group_requests st @ held (gc_leader st) @ gc_pending st = gc_submitted st"
    and "gc_leader_active st \<longleftrightarrow> gc_leader st \<noteq> NoLeader"
    and "gc_pending st \<noteq> [] \<Longrightarrow> gc_leader_active st"
    and "gc_leader st = Publishing requests result \<Longrightarrow>
      \<exists>before earlier. gc_groups st = earlier @ [(before @ requests, result)]"
    and "gc_result st rid \<noteq> None \<Longrightarrow> gc_returned st rid = None"
    and "answer st rid =
        (if rid \<in> fst ` set (unpublished (gc_leader st)) then None else map_of (dues st) rid)"
  using assms unfolding gc_inv_def by blast+

lemma dues_of_append [simp]:
  "dues_of (gs @ [(requests, result)]) = dues_of gs @ map (\<lambda>req. (fst req, clone_commit_result result)) requests"
  "dues_of [] = []"
  by (simp_all add: dues_of_def)

lemma map_fst_dues: "map fst (dues_of gs) = map fst (concat (map fst gs))"
  unfolding dues_of_def by (induction gs) (auto simp: case_prod_beta)

lemma dues_fst: "fst ` set (dues_of gs) = fst ` set (concat (map fst gs))"
  by (metis list.set_map map_fst_dues)

lemma dues_mem: "(requests, result) \<in> set gs \<Longrightarrow> req \<in> set requests \<Longrightarrow>
    (fst req, clone_commit_result result) \<in> set (dues_of gs)"
  unfolding dues_of_def by (induction gs) auto

lemma map_of_same: "map_of (map (\<lambda>req. (fst req, c)) requests) rid = (if rid \<in> fst ` set requests then Some c else None)"
  by (induction requests) auto

lemma submit_inv:
  assumes "gc_inv st" and "fst req \<notin> fst ` set (gc_submitted st)"
  shows "gc_inv (gc_enqueue req st)"
proof -
  have leader: "held (gc_leader (gc_enqueue req st)) = held (gc_leader st)"
      "unpublished (gc_leader (gc_enqueue req st)) = unpublished (gc_leader st)"
    using gc_invD(3) [OF assms(1)] by (auto simp: gc_enqueue_def Let_def)
  have same: "group_requests (gc_enqueue req st) = group_requests st" "dues (gc_enqueue req st) = dues st"
      "answer (gc_enqueue req st) = answer st" "gc_groups (gc_enqueue req st) = gc_groups st"
      "gc_result (gc_enqueue req st) = gc_result st" "gc_returned (gc_enqueue req st) = gc_returned st"
    by (auto simp: gc_enqueue_def Let_def group_requests_def answer_def fun_eq_iff cong: option.case_cong)
  have "gc_leader (gc_enqueue req st) = Publishing requests result \<Longrightarrow> gc_leader st = Publishing requests result"
    for requests result
    by (auto simp: gc_enqueue_def Let_def split: if_splits)
  moreover have "group_requests st @ held (gc_leader st) @ gc_pending (gc_enqueue req st) = gc_submitted (gc_enqueue req st)"
    using gc_invD(2) [OF assms(1)] by (auto simp: gc_enqueue_def Let_def)
  moreover have "distinct (map fst (gc_submitted (gc_enqueue req st)))"
    using gc_invD(1) [OF assms(1)] assms(2) by (simp add: gc_enqueue_def Let_def)
  moreover have "gc_leader_active (gc_enqueue req st)" "gc_leader (gc_enqueue req st) \<noteq> NoLeader"
    using gc_invD(3) [OF assms(1)] by (auto simp: gc_enqueue_def Let_def)
  ultimately show ?thesis
    unfolding gc_inv_def leader same using gc_invD(5,6,7) [OF assms(1)] by blast
qed

lemma take_inv:
  assumes "gc_inv st" and "gc_leader st = Sleeping"
  shows "gc_inv (gc_take st)"
  using assms
  by (auto simp: gc_inv_def gc_take_def group_requests_def answer_def cong: option.case_cong)

lemma commit_inv:
  assumes "gc_inv st" and "gc_leader st = Holding requests"
  shows "gc_inv (gc_commit eng cs ck requests st)"
proof -
  obtain node result where run: "commit_group eng cs ck (gc_node st) (map snd requests) = (node, result)"
    by (cases "commit_group eng cs ck (gc_node st) (map snd requests)")
  let ?st = "gc_commit eng cs ck requests st"
  have st': "?st = st\<lparr>gc_node := node, gc_leader := Publishing requests result,
      gc_groups := gc_groups st @ [(requests, result)]\<rparr>"
    by (simp add: gc_commit_def run)
  have "distinct (map fst (group_requests st @ requests))"
    using gc_invD(1,2) [OF assms(1)] assms(2) by (metis append.assoc distinct_append held.simps(1) map_append)
  then have new: "rid \<notin> fst ` set (dues st)" if "rid \<in> fst ` set requests" for rid
    using that unfolding dues_fst by (auto simp: group_requests_def)
  have dues: "map_of (dues ?st) rid =
      (if rid \<in> fst ` set requests then Some (clone_commit_result result) else map_of (dues st) rid)" for rid
  proof -
    have "dues ?st = dues st @ map (\<lambda>req. (fst req, clone_commit_result result)) requests"
      by (simp add: st')
    then show ?thesis
      using new [of rid] map_of_eq_None_iff [of "dues st" rid]
      by (cases "rid \<in> fst ` set requests"; cases "map_of (dues st) rid") (simp_all add: map_add_def map_of_same)
  qed
  have "answer ?st rid = (if rid \<in> fst ` set requests then None else map_of (dues ?st) rid)" for rid
  proof -
    have "answer ?st rid = answer st rid"
      by (simp add: answer_def st' cong: option.case_cong)
    also have "\<dots> = map_of (dues st) rid"
      using gc_invD(7) [OF assms(1)] assms(2) by simp
    finally show ?thesis
      using new [of rid] by (simp add: dues map_of_eq_None_iff)
  qed
  then show ?thesis
    using assms by (auto simp: gc_inv_def st' group_requests_def)
qed

lemma publish_inv:
  assumes "gc_inv st" and "gc_leader st = Publishing (req # requests) result"
  shows "gc_inv (gc_publish req requests result st)"
proof -
  let ?st = "gc_publish req requests result st"
  obtain before earlier where groups: "gc_groups st = earlier @ [(before @ req # requests, result)]"
    using gc_invD(5) [OF assms] by blast
  have "distinct (map fst (group_requests st))"
    using gc_invD(1,2) [OF assms(1)] by (metis distinct_append map_append)
  then have fresh: "fst req \<notin> fst ` set requests"
    by (auto simp: group_requests_def groups)
  have "fst req \<notin> fst ` set (concat (map fst earlier))"
    using \<open>distinct (map fst (group_requests st))\<close> by (auto simp: group_requests_def groups)
  then have "map_of (dues_of earlier) (fst req) = None"
    by (metis dues_fst map_of_eq_None_iff)
  then have due: "map_of (dues st) (fst req) = Some (clone_commit_result result)"
    unfolding groups by (simp add: map_add_def map_of_same)
  have none: "answer st (fst req) = None"
    using gc_invD(7) [OF assms(1), of "fst req"] assms(2) by simp
  then have unreturned: "gc_returned st (fst req) = None"
    by (simp add: answer_def split: option.splits)
  have "answer ?st rid = (if rid \<in> fst ` set requests then None else map_of (dues ?st) rid)" for rid
  proof (cases "rid = fst req")
    case True
    then show ?thesis
      using unreturned due fresh by (simp add: answer_def gc_publish_def cong: option.case_cong)
  next
    case False
    then have "answer ?st rid = answer st rid"
      by (simp add: answer_def gc_publish_def cong: option.case_cong)
    then show ?thesis
      using gc_invD(7) [OF assms(1), of rid] assms(2) False by (simp add: gc_publish_def)
  qed
  moreover have "gc_groups ?st = earlier @ [((before @ [req]) @ requests, result)]"
    by (simp add: gc_publish_def groups)
  ultimately show ?thesis
    using assms unreturned by (auto simp: gc_inv_def gc_publish_def group_requests_def)
qed

lemma published_inv:
  assumes "gc_inv st" and "gc_leader st = Publishing [] result"
  shows "gc_inv (st\<lparr>gc_leader := Rechecking\<rparr>)"
  using assms by (auto simp: gc_inv_def group_requests_def answer_def cong: option.case_cong)

lemma recheck_inv:
  assumes "gc_inv st" and "gc_leader st = Rechecking"
  shows "gc_inv (gc_recheck st)"
  using assms by (auto simp: gc_inv_def gc_recheck_def group_requests_def answer_def cong: option.case_cong)

lemma return_inv:
  assumes "gc_inv st" and "gc_result st rid = Some v"
  shows "gc_inv (gc_return rid v st)"
proof -
  have "gc_returned st rid = None"
    using gc_invD(6) [OF assms(1)] assms(2) by simp
  then have "answer (gc_return rid v st) = answer st"
    using assms(2) by (auto simp: answer_def gc_return_def fun_eq_iff cong: option.case_cong)
  then show ?thesis
    using assms by (auto simp: gc_inv_def gc_return_def group_requests_def)
qed

lemma other_inv: "gc_inv st \<Longrightarrow> gc_inv (st\<lparr>gc_node := node\<rparr>)"
  by (auto simp: gc_inv_def group_requests_def answer_def cong: option.case_cong)

lemma gc_reachable_inv: "gc_reachable eng cs st \<Longrightarrow> gc_inv st"
proof (induction rule: gc_reachable.induct)
  case (step st st')
  from step.hyps(2) step.IH show ?case
    by (cases rule: gc_step.cases)
      (auto intro: submit_inv take_inv commit_inv publish_inv published_inv recheck_inv return_inv other_inv)
qed (rule gc_init_inv)

section \<open>Properties\<close>

text \<open>
  C9. In every reachable state of the group-commit coordinator, with any number of threads in any
  interleaving, each request is in exactly one place: in a committed group, in the hands of the
  leader, or queued; read in this order the requests are the submitted ones, in submission
  order. Whoever has an answer has a copy of the result of the group its request was committed
  in, and every request of a group whose results are out has one.
\<close>

theorem group_commit_order_and_answers:
  assumes "gc_reachable eng cs st"
  shows "concat (map fst (gc_groups st)) @ held (gc_leader st) @ gc_pending st = gc_submitted st \<and>
    distinct (map fst (gc_submitted st)) \<and>
    (\<forall>(requests, result) \<in> set (gc_groups st). \<forall>req \<in> set requests.
       answer st (fst req) =
         (if req \<in> set (unpublished (gc_leader st)) then None else Some (clone_commit_result result)))"
proof -
  have inv: "gc_inv st"
    by (rule gc_reachable_inv [OF assms])
  have dist: "distinct (map fst (concat (map fst (gc_groups st))))"
    using gc_invD(1,2) [OF inv] unfolding group_requests_def by (metis distinct_append map_append)
  have "answer st (fst req) =
      (if req \<in> set (unpublished (gc_leader st)) then None else Some (clone_commit_result result))"
    if g: "(requests, result) \<in> set (gc_groups st)" and req: "req \<in> set requests" for requests result req
  proof -
    have mem: "req \<in> set (concat (map fst (gc_groups st)))"
      using g req by force
    have "set (unpublished (gc_leader st)) \<subseteq> set (concat (map fst (gc_groups st)))"
    proof (cases "gc_leader st")
      case (Publishing requests' result')
      then show ?thesis
        using gc_invD(5) [OF inv Publishing] by auto
    qed simp_all
    then have "fst req \<in> fst ` set (unpublished (gc_leader st)) \<longleftrightarrow> req \<in> set (unpublished (gc_leader st))"
      using dist mem inj_on_image_mem_iff [of fst "set (concat (map fst (gc_groups st)))"]
      by (metis distinct_map)
    moreover have "map_of (dues st) (fst req) = Some (clone_commit_result result)"
      by (intro map_of_is_SomeI) (use dist dues_mem [OF g req] in \<open>simp_all add: map_fst_dues\<close>)
    ultimately show ?thesis
      using gc_invD(7) [OF inv, of "fst req"] by simp
  qed
  then show ?thesis
    using gc_invD(1,2) [OF inv] by (auto simp: group_requests_def)
qed

text \<open>The next step of the leader, and how far it is from stopping when nothing more is queued.\<close>

definition gc_advance :: "('db, 't) engine_ops \<Rightarrow> codecs \<Rightarrow> clocks \<Rightarrow> 'db group_commit \<Rightarrow> 'db group_commit" where
  "gc_advance eng cs ck st =
     (case gc_leader st of
        NoLeader \<Rightarrow> st
      | Sleeping \<Rightarrow> gc_take st
      | Holding requests \<Rightarrow> gc_commit eng cs ck requests st
      | Publishing [] result \<Rightarrow> st\<lparr>gc_leader := Rechecking\<rparr>
      | Publishing (req # requests) result \<Rightarrow> gc_publish req requests result st
      | Rechecking \<Rightarrow> gc_recheck st)"

definition leader_distance :: "'db group_commit \<Rightarrow> nat" where
  "leader_distance st =
     (let queued = (if gc_pending st = [] then 0 else length (gc_pending st) + 6) in
      case gc_leader st of
        NoLeader \<Rightarrow> 0
      | Sleeping \<Rightarrow> length (gc_pending st) + 5
      | Holding requests \<Rightarrow> length requests + 4 + queued
      | Publishing requests result \<Rightarrow> length requests + 2 + queued
      | Rechecking \<Rightarrow> 1 + queued)"

lemma gc_advance_step:
  assumes "gc_leader st \<noteq> NoLeader"
  shows "gc_step eng cs st (gc_advance eng cs ck st)"
    and "leader_distance (gc_advance eng cs ck st) < leader_distance st"
    and "gc_submitted (gc_advance eng cs ck st) = gc_submitted st"
proof -
  show "gc_step eng cs st (gc_advance eng cs ck st)"
    using assms by (auto simp: gc_advance_def intro: gc_step.intros split: leader.split list.split)
  show "leader_distance (gc_advance eng cs ck st) < leader_distance st"
    "gc_submitted (gc_advance eng cs ck st) = gc_submitted st"
    using assms
    by (auto simp: gc_advance_def leader_distance_def gc_take_def gc_commit_def gc_publish_def gc_recheck_def
        split: leader.split list.split prod.split)
qed

lemma leader_stops:
  assumes "gc_reachable eng cs st"
  shows "\<exists>n. gc_reachable eng cs ((gc_advance eng cs ck ^^ n) st) \<and>
    gc_leader ((gc_advance eng cs ck ^^ n) st) = NoLeader \<and>
    gc_submitted ((gc_advance eng cs ck ^^ n) st) = gc_submitted st"
  using assms
proof (induction "leader_distance st" arbitrary: st rule: less_induct)
  case less
  show ?case
  proof (cases "gc_leader st = NoLeader")
    case True
    then show ?thesis
      using less.prems by (intro exI [of _ 0]) simp
  next
    case False
    note step = gc_advance_step [OF False, of eng cs ck]
    from less.hyps [OF step(2)] gc_reachable.step [OF less.prems step(1)] obtain n where
      "gc_reachable eng cs ((gc_advance eng cs ck ^^ n) (gc_advance eng cs ck st))"
      "gc_leader ((gc_advance eng cs ck ^^ n) (gc_advance eng cs ck st)) = NoLeader"
      "gc_submitted ((gc_advance eng cs ck ^^ n) (gc_advance eng cs ck st)) = gc_submitted st"
      unfolding step(3) by blast
    then show ?thesis
      by (intro exI [of _ "Suc n"]) (simp add: funpow_swap1)
  qed
qed

lemma stopped_answers:
  assumes "gc_reachable eng cs st" and "gc_leader st = NoLeader" and "req \<in> set (gc_submitted st)"
  shows "answer st (fst req) \<noteq> None"
proof -
  note inv = gc_reachable_inv [OF assms(1)]
  have "group_requests st = gc_submitted st"
    using gc_invD(2,3,4) [OF inv] assms(2) by (cases "gc_pending st = []") auto
  then have "fst req \<in> fst ` set (dues st)"
    using assms(3) unfolding dues_fst group_requests_def by simp
  then show ?thesis
    using gc_invD(7) [OF inv, of "fst req"] assms(2) by (simp add: map_of_eq_None_iff)
qed

text \<open>
  C13. No caller is stranded. From every reachable state, once no further requests arrive, the
  leader stops after finitely many of its own steps, whatever the commits return, and then every
  request that was ever submitted has its answer, the ones that were queued while the leader was
  committing and publishing included.
\<close>

theorem group_commit_serves_everyone:
  assumes "gc_reachable eng cs st"
  shows "\<exists>n. let st' = (gc_advance eng cs ck ^^ n) st in
    gc_reachable eng cs st' \<and> gc_leader st' = NoLeader \<and> gc_submitted st' = gc_submitted st \<and>
    (\<forall>req \<in> set (gc_submitted st). answer st' (fst req) \<noteq> None)"
  using leader_stops [OF assms, of ck] stopped_answers unfolding Let_def by metis

text \<open>
  C15. A group fails as a whole: when one request of a group names a reserved keyspace, the group
  is refused and the node unchanged, so every other request of the group is refused as well,
  also those that would be accepted on their own.
\<close>

theorem reserved_request_fails_its_group:
  assumes "\<not> sn_lock_poisoned node" and "op \<in> set (concat requests)" and "table_is_reserved (op_table op)"
  shows "fst (commit_group eng cs ck node requests) = node \<and>
    (\<exists>table. table_is_reserved table \<and> snd (commit_group eng cs ck node requests) =
       Inl (Backend (''reserved keyspace '' @ table @ '' cannot be written through public APIs'')))"
proof -
  let ?ws = "ops_to_write_set (concat requests)"
  have "(op_table op, op_key op) \<in> set (bt_keys ?ws)"
    unfolding bt_keys_iff ops_to_write_set_keys using assms(2) by blast
  have "\<exists>table. table_is_reserved table \<and> validate_public_write_set ?ws =
      Inl (Backend (''reserved keyspace '' @ table @ '' cannot be written through public APIs''))"
    if "\<exists>tk \<in> set ks. table_is_reserved (fst tk)" "validate_public_write_set ?ws =
      rfold (\<lambda>(table, _) _. validate_public_table table) ks ()" for ks
    using that
  proof (induction ks)
    case (Cons tk ks)
    then show ?case
      by (cases "table_is_reserved (fst tk)") (auto simp: validate_public_table_def split: prod.splits)
  qed simp
  then obtain table where "table_is_reserved table" "validate_public_write_set ?ws =
      Inl (Backend (''reserved keyspace '' @ table @ '' cannot be written through public APIs''))"
    using \<open>(op_table op, op_key op) \<in> set (bt_keys ?ws)\<close> assms(3)
    unfolding validate_public_write_set_def by (metis fst_conv)
  then show ?thesis
    using assms(1) by (auto simp: commit_group_def with_commit_lock_def commit_write_set_at_current_def)
qed

section \<open>Witnesses\<close>

text \<open>Two callers; the second queues while the first leads.\<close>

definition demo_group :: "mem_engine group_commit" where
  "demo_group = gc_enqueue (1, [OpPut ''__x'' [1] [3]]) (gc_enqueue (0, [OpPut ''t'' [1] [2]])
     (gc_init (sn_with_group_commit_window mem_new 1)))"

lemma demo_group_reachable: "gc_reachable mem_engine_ops demo_codecs demo_group"
  unfolding demo_group_def
  by (intro gc_reachable.step [OF _ gc_step.submit] gc_reachable.start)
    (simp_all add: gc_init_def gc_enqueue_def Let_def)

theorem group_commit_order_and_answers_witness:
  "gc_submitted demo_group = [(0, [OpPut ''t'' [1] [2]]), (1, [OpPut ''__x'' [1] [3]])] \<and>
   gc_leader demo_group = Sleeping \<and> gc_pending demo_group = gc_submitted demo_group"
  using group_commit_order_and_answers [OF demo_group_reachable]
  by (simp add: demo_group_def gc_init_def gc_enqueue_def Let_def)

theorem group_commit_serves_everyone_witness:
  "\<exists>n. let st' = (gc_advance mem_engine_ops demo_codecs demo_clocks ^^ n) demo_group in
     gc_leader st' = NoLeader \<and> answer st' 0 \<noteq> None \<and> answer st' 1 \<noteq> None"
proof -
  have "gc_submitted demo_group = [(0, [OpPut ''t'' [1] [2]]), (1, [OpPut ''__x'' [1] [3]])]"
    by (simp add: demo_group_def gc_init_def gc_enqueue_def Let_def)
  then show ?thesis
    using group_commit_serves_everyone [OF demo_group_reachable, of demo_clocks] by (auto simp: Let_def)
qed

theorem reserved_request_fails_its_group_witness:
  "(\<exists>m. snd (commit_group mem_engine_ops demo_codecs demo_clocks (sn_with_group_commit_window mem_new 1)
      [[OpPut ''t'' [1] [2]], [OpPut ''__x'' [1] [3]]]) = Inl (Backend m)) \<and>
   validate_public_ops [OpPut ''t'' [1] [2]] = Inr ()"
proof -
  have "table_is_reserved ''__x''" "validate_public_ops [OpPut ''t'' [1] [2]] = Inr ()"
    by (simp_all add: table_is_reserved_def RESERVED_KEYSPACE_PREFIX_def validate_public_ops_def
        validate_public_table_def)
  then show ?thesis
    using reserved_request_fails_its_group [of "sn_with_group_commit_window mem_new 1" "OpPut ''__x'' [1] [3]"
        "[[OpPut ''t'' [1] [2]], [OpPut ''__x'' [1] [3]]]" mem_engine_ops demo_codecs demo_clocks]
    by (auto simp: sn_with_group_commit_window_def)
qed

end
