(* ===== verification/Dist_Participant.thy ===== *)
theory Dist_Participant
  imports Single_Node
begin

text \<open>
  What a participant of distributed transactions promises. The specification keeps the rows of
  public tables, the prepared transactions with their operations and the finished ones with
  their decisions; a row is locked exactly while a prepared transaction writes it. The
  operations of the node, on stores whose lock tables are consistent, implement it.
\<close>

section \<open>Specification\<close>

record participant_spec =
  ps_rows :: "string \<Rightarrow> bytes \<Rightarrow> bytes option"
  ps_prepared :: "dist_txn_id \<Rightarrow> op list option"
  ps_finished :: "dist_txn_id \<Rightarrow> decision option"

definition spec_locked :: "participant_spec \<Rightarrow> string \<Rightarrow> bytes \<Rightarrow> bool" where
  "spec_locked a table key \<longleftrightarrow>
     (\<exists>j ops. ps_prepared a j = Some ops \<and> written (ops_to_write_set ops) table key)"

definition spec_prepare :: "dist_txn_id \<Rightarrow> op list \<Rightarrow> participant_spec \<Rightarrow> participant_spec \<times> vote" where
  "spec_prepare i ops a =
     (if ps_finished a i \<noteq> None then (a, VNo)
      else case ps_prepared a i of
        Some ops' \<Rightarrow> (a, if ops' = ops then VYes else VNo)
      | None \<Rightarrow>
          if \<exists>table key. written (ops_to_write_set ops) table key \<and> spec_locked a table key
          then (a, VNo)
          else (a\<lparr>ps_prepared := (ps_prepared a)(i \<mapsto> ops)\<rparr>, VYes))"

definition spec_apply :: "op list \<Rightarrow> (string \<Rightarrow> bytes \<Rightarrow> bytes option) \<Rightarrow> string \<Rightarrow> bytes \<Rightarrow> bytes option" where
  "spec_apply ops rows table key =
     (case bt_get (ops_to_write_set ops) (table, key) of Some v \<Rightarrow> v | None \<Rightarrow> rows table key)"

definition spec_finish :: "dist_txn_id \<Rightarrow> decision \<Rightarrow> participant_spec \<Rightarrow> participant_spec \<times> unit repl" where
  "spec_finish i d a =
     (case ps_finished a i of
        Some d' \<Rightarrow> (a, if d' = d then Inr () else Inl RConflict)
      | None \<Rightarrow>
          (a\<lparr>ps_rows := (case ps_prepared a i of
                            Some ops \<Rightarrow> if d = DCommit then spec_apply ops (ps_rows a) else ps_rows a
                          | None \<Rightarrow> ps_rows a),
             ps_prepared := (ps_prepared a)(i := None),
             ps_finished := (ps_finished a)(i \<mapsto> d)\<rparr>, Inr ()))"

section \<open>Consistent lock tables\<close>

definition prepared_ops :: "codecs \<Rightarrow> store \<Rightarrow> dist_txn_id \<Rightarrow> op list option" where
  "prepared_ops cs s i =
     map_option (\<lambda>bs. pr_ops (projr (decode_prepared cs bs))) (bt_get (s DIST_TXN_PARTICIPANT_TABLE) (txn_key i))"

definition finished_decision :: "codecs \<Rightarrow> store \<Rightarrow> dist_txn_id \<Rightarrow> decision option" where
  "finished_decision cs s i =
     map_option (\<lambda>bs. fr_decision (projr (decode_finished cs bs))) (bt_get (s DIST_TXN_FINISHED_TABLE) (txn_key i))"

definition participant_abs :: "codecs \<Rightarrow> store \<Rightarrow> participant_spec" where
  "participant_abs cs s =
     \<lparr>ps_rows = (\<lambda>table key. if table_is_reserved table then None else bt_get (s table) key),
      ps_prepared = prepared_ops cs s,
      ps_finished = finished_decision cs s\<rparr>"

definition participant_rows_ok :: "codecs \<Rightarrow> store \<Rightarrow> bool" where
  "participant_rows_ok cs s \<longleftrightarrow>
     (\<forall>k. bt_get (s DIST_TXN_PARTICIPANT_TABLE) k \<noteq> None \<longrightarrow> length k = 8) \<and>
     (\<forall>i bs. bt_get (s DIST_TXN_PARTICIPANT_TABLE) (txn_key i) = Some bs \<longrightarrow>
        (\<exists>record. decode_prepared cs bs = Inr record \<and> pr_txn_id record = i \<and>
           sized_set (ops_to_write_set (pr_ops record))))"

definition finished_rows_ok :: "codecs \<Rightarrow> store \<Rightarrow> bool" where
  "finished_rows_ok cs s \<longleftrightarrow>
     (\<forall>k. bt_get (s DIST_TXN_FINISHED_TABLE) k \<noteq> None \<longrightarrow> length k = 8) \<and>
     (\<forall>i bs. bt_get (s DIST_TXN_FINISHED_TABLE) (txn_key i) = Some bs \<longrightarrow>
        (\<exists>record. decode_finished cs bs = Inr record \<and> fr_txn_id record = i) \<and>
        prepared_ops cs s i = None)"

text \<open>A lock row exists exactly for the rows of prepared transactions, and names its owner.\<close>

definition locks_row :: "op list \<Rightarrow> bytes \<Rightarrow> bool" where
  "locks_row ops lk \<longleftrightarrow> (\<exists>table key. written (ops_to_write_set ops) table key \<and> lk = vkey table key)"

definition locks_ok :: "codecs \<Rightarrow> store \<Rightarrow> bool" where
  "locks_ok cs s \<longleftrightarrow>
     (\<forall>lk bs. bt_get (s LOCKS_TABLE) lk = Some bs \<longleftrightarrow>
        (\<exists>i ops. prepared_ops cs s i = Some ops \<and> locks_row ops lk \<and> bs = encode_txn_id i))"

definition format_ok :: "store \<Rightarrow> bool" where
  "format_ok s \<longleftrightarrow>
     bt_get (s TXN_META_TABLE) LOCK_FORMAT_KEY = Some LOCK_FORMAT \<or>
     (bt_get (s TXN_META_TABLE) LOCK_FORMAT_KEY = None \<and> s DIST_TXN_PARTICIPANT_TABLE = bt_empty)"

definition dist_wf :: "codecs \<Rightarrow> txn_id \<Rightarrow> store \<Rightarrow> bool" where
  "dist_wf cs c s \<longleftrightarrow>
     txn_wf cs c s \<and> participant_rows_ok cs s \<and> finished_rows_ok cs s \<and> locks_ok cs s \<and> format_ok s"

lemma txn_key_inject [simp]: "txn_key i = txn_key j \<longleftrightarrow> i = j"
  by (simp add: txn_key_def)

lemma length_txn_key [simp]: "length (txn_key i) = 8"
  by (simp add: txn_key_def)

lemma txn_key_surj: "length k = 8 \<Longrightarrow> k = txn_key (u64_from_be k)"
  by (simp add: txn_key_def u64_to_from_be)

lemma dist_wfD:
  assumes "dist_wf cs c s"
  shows "txn_wf cs c s" "participant_rows_ok cs s" "finished_rows_ok cs s" "locks_ok cs s" "format_ok s"
  using assms by (simp_all add: dist_wf_def)

lemma prepared_row:
  assumes "dist_wf cs c s" and "prepared_ops cs s i = Some ops"
  obtains bs rec where "bt_get (s DIST_TXN_PARTICIPANT_TABLE) (txn_key i) = Some bs"
    "decode_prepared cs bs = Inr rec" "pr_txn_id rec = i" "pr_ops rec = ops"
    "sized_set (ops_to_write_set ops)"
proof -
  obtain bs where bs: "bt_get (s DIST_TXN_PARTICIPANT_TABLE) (txn_key i) = Some bs"
    using assms(2) by (auto simp: prepared_ops_def)
  moreover obtain rec where "decode_prepared cs bs = Inr rec" "pr_txn_id rec = i"
      "sized_set (ops_to_write_set (pr_ops rec))"
    using dist_wfD(2) [OF assms(1)] bs unfolding participant_rows_ok_def by metis
  moreover have "pr_ops rec = ops"
    using assms(2) bs \<open>decode_prepared cs bs = Inr rec\<close> by (simp add: prepared_ops_def)
  ultimately show thesis
    using that by metis
qed

lemma finished_row:
  assumes "dist_wf cs c s" and "finished_decision cs s i = Some d"
  obtains bs rec where "bt_get (s DIST_TXN_FINISHED_TABLE) (txn_key i) = Some bs"
    "decode_finished cs bs = Inr rec" "fr_txn_id rec = i" "fr_decision rec = d"
proof -
  obtain bs where bs: "bt_get (s DIST_TXN_FINISHED_TABLE) (txn_key i) = Some bs"
    using assms(2) by (auto simp: finished_decision_def)
  moreover obtain rec where "decode_finished cs bs = Inr rec" "fr_txn_id rec = i"
    using dist_wfD(3) [OF assms(1)] bs unfolding finished_rows_ok_def by metis
  moreover have "fr_decision rec = d"
    using assms(2) bs \<open>decode_finished cs bs = Inr rec\<close> by (simp add: finished_decision_def)
  ultimately show thesis
    using that by metis
qed

text \<open>For rows of sized tables the lock table says what the specification says.\<close>

lemma row_locked_spec:
  assumes "dist_wf cs c s" and "sized_table table"
  shows "row_locked s table key \<longleftrightarrow> spec_locked (participant_abs cs s) table key"
proof -
  have sized: "sized_table t" if "prepared_ops cs s i = Some ops" "written (ops_to_write_set ops) t k" for i ops t k
    using prepared_row [OF assms(1) that(1)] that(2) sized_setD [of "ops_to_write_set ops" t k]
    by (metis bt_keys_iff)
  have "row_locked s table key \<longleftrightarrow>
      (\<exists>i ops t k. prepared_ops cs s i = Some ops \<and> written (ops_to_write_set ops) t k \<and> vkey table key = vkey t k)"
    using dist_wfD(4) [OF assms(1)] unfolding row_locked_def locks_ok_def locks_row_def not_None_eq by metis
  also have "\<dots> \<longleftrightarrow> (\<exists>i ops. prepared_ops cs s i = Some ops \<and> written (ops_to_write_set ops) table key)"
    by (metis sized assms(2) vkey_inject)
  finally show ?thesis
    by (simp add: spec_locked_def participant_abs_def)
qed

lemma lock_owner:
  assumes "dist_wf cs c s" and "prepared_ops cs s i = Some ops" and "written (ops_to_write_set ops) table key"
  shows "bt_get (s LOCKS_TABLE) (vkey table key) = Some (encode_txn_id i)"
  using dist_wfD(4) [OF assms(1)] assms(2,3) unfolding locks_ok_def locks_row_def by metis

section \<open>The write set of a prepare\<close>

lemma sized_set_keys: "sized_set ws \<Longrightarrow> \<forall>tk \<in> set (bt_keys ws). sized_table (fst tk)"
  by (metis prod.collapse sized_setD)

lemma acquire_all:
  assumes "\<forall>tk \<in> set ks. sized_table (fst tk)"
  shows "rfold (acquire_lock (store_reader s) i) ks ws =
    (if \<exists>(table, key) \<in> set ks. row_locked s table key then Inl Conflict
     else Inr (fold (\<lambda>(table, key). bt_insert (LOCKS_TABLE, vkey table key) (Some (encode_txn_id i))) ks ws))"
  using assms
proof (induction ks arbitrary: ws)
  case (Cons tk ks)
  obtain table key where tk: "tk = (table, key)"
    by (cases tk)
  then have "sized_table table"
    using Cons.prems by simp
  then have "acquire_lock (store_reader s) i tk ws =
      (if row_locked s table key then Inl Conflict
       else Inr (bt_insert (LOCKS_TABLE, vkey table key) (Some (encode_txn_id i)) ws))"
    by (simp add: acquire_lock_def tk row_locked_def)
  then show ?case
    using Cons tk by auto
qed simp

lemma get_fold_lock_writes:
  "bt_get (fold (\<lambda>(table, key). bt_insert (LOCKS_TABLE, vkey table key) v) ks ws) (t, k) =
     (if t = LOCKS_TABLE \<and> (\<exists>(table, key) \<in> set ks. k = vkey table key) then Some v else bt_get ws (t, k))"
  by (induction ks arbitrary: ws) auto

lemma check_locks_kept:
  assumes "dist_wf cs c s" and "prepared_ops cs s i = Some ops"
  shows "rfold (\<lambda>tk _. check_lock_kept (store_reader s) i tk) (bt_keys (ops_to_write_set ops)) () = Inr ()"
proof -
  have "check_lock_kept (store_reader s) i tk = Inr ()" if "tk \<in> set (bt_keys (ops_to_write_set ops))" for tk
  proof -
    obtain table key where tk: "tk = (table, key)"
      by (cases tk)
    obtain bs rec where "sized_set (ops_to_write_set ops)"
      using prepared_row [OF assms] .
    then have "sized_table table"
      using sized_setD that tk by metis
    moreover have "bt_get (s LOCKS_TABLE) (vkey table key) = Some (encode_txn_id i)"
      using lock_owner [OF assms] that tk by (simp add: bt_keys_iff)
    ultimately show ?thesis
      by (simp add: check_lock_kept_def tk)
  qed
  then show ?thesis
    by (simp add: rfold_unit_check)
qed

lemma prepared_record_roundtrip:
  assumes "codecs_ok cs" and "validate_public_ops ops = Inr ()"
  obtains bs where "encode_prepared cs (prepared_new i ops deadline now) = Inr bs"
    "decode_prepared cs bs = Inr (prepared_new i ops deadline now)"
proof -
  obtain bs where "to_vec (c_prepared cs) (prepared_new i ops deadline now) = Inr bs"
      "from_slice (c_prepared cs) bs = Inr (prepared_new i ops deadline now)"
    using assms(1) unfolding codecs_ok_def by (blast elim: json_okE)
  then show thesis
    using assms(2) by (intro that [of bs])
      (simp_all add: encode_prepared_def decode_prepared_def prepared_new_def validate_record_version_def)
qed

lemma finished_record_roundtrip:
  assumes "codecs_ok cs"
  obtains bs where "encode_finished cs (finished_new i d now) = Inr bs"
    "decode_finished cs bs = Inr (finished_new i d now)"
proof -
  obtain bs where "to_vec (c_finished cs) (finished_new i d now) = Inr bs"
      "from_slice (c_finished cs) bs = Inr (finished_new i d now)"
    using assms(1) unfolding codecs_ok_def by (blast elim: json_okE)
  then show thesis
    by (intro that [of bs])
      (simp_all add: encode_finished_def decode_finished_def finished_new_def validate_record_version_def)
qed

text \<open>The write set of a prepare that takes its locks.\<close>

definition lock_writes :: "dist_txn_id \<Rightarrow> op list \<Rightarrow> bytes \<Rightarrow> write_set" where
  "lock_writes i ops encoded =
     bt_insert (DIST_TXN_PARTICIPANT_TABLE, txn_key i) (Some encoded)
       (bt_insert (TXN_META_TABLE, LOCK_FORMAT_KEY) (Some LOCK_FORMAT)
         (fold (\<lambda>(table, key). bt_insert (LOCKS_TABLE, vkey table key) (Some (encode_txn_id i)))
           (bt_keys (ops_to_write_set ops)) bt_empty))"

lemma get_lock_writes:
  "bt_get (lock_writes i ops encoded) (t, k) =
     (if t = DIST_TXN_PARTICIPANT_TABLE \<and> k = txn_key i then Some (Some encoded)
      else if t = TXN_META_TABLE \<and> k = LOCK_FORMAT_KEY then Some (Some LOCK_FORMAT)
      else if t = LOCKS_TABLE \<and> locks_row ops k
      then Some (Some (encode_txn_id i)) else None)"
proof -
  have "(\<exists>(table, key) \<in> set (bt_keys (ops_to_write_set ops)). k = vkey table key) \<longleftrightarrow> locks_row ops k"
    by (auto simp: Bex_def bt_keys_iff locks_row_def)
  then show ?thesis
    by (simp add: lock_writes_def get_fold_lock_writes)
qed

lemma prepare_write_set_cases:
  assumes "codecs_ok cs" and "dist_wf cs c s" and "validate_public_ops ops = Inr ()"
    and "sized_set (ops_to_write_set ops)"
  shows "case spec_prepare i ops (participant_abs cs s) of
      (a, VNo) \<Rightarrow> prepare_write_set cs (store_reader s) i ops deadline now = Inl Conflict \<and> a = participant_abs cs s
    | (a, VYes) \<Rightarrow>
        (prepared_ops cs s i = Some ops \<and> a = participant_abs cs s \<and>
         prepare_write_set cs (store_reader s) i ops deadline now = Inr bt_empty) \<or>
        (prepared_ops cs s i = None \<and> finished_decision cs s i = None \<and>
         (\<nexists>table key. written (ops_to_write_set ops) table key \<and> row_locked s table key) \<and>
         a = (participant_abs cs s)\<lparr>ps_prepared := (prepared_ops cs s)(i \<mapsto> ops)\<rparr> \<and>
         (\<exists>bs. decode_prepared cs bs = Inr (prepared_new i ops deadline now) \<and>
               prepare_write_set cs (store_reader s) i ops deadline now = Inr (lock_writes i ops bs)))"
proof -
  let ?W = "prepare_write_set cs (store_reader s) i ops deadline now"
  note wf = dist_wfD [OF assms(2)]
  note legacy = txn_wfD(5) [OF wf(1)]
  have abs: "ps_finished (participant_abs cs s) = finished_decision cs s"
      "ps_prepared (participant_abs cs s) = prepared_ops cs s"
    by (simp_all add: participant_abs_def)
  show ?thesis
  proof (cases "finished_decision cs s i")
    case (Some d)
    then obtain bs rec where "bt_get (s DIST_TXN_FINISHED_TABLE) (txn_key i) = Some bs"
        "decode_finished cs bs = Inr rec" "fr_txn_id rec = i"
      using finished_row [OF assms(2)] by metis
    then have "?W = Inl Conflict"
      using assms(3) by (simp add: prepare_write_set_def Let_def)
    then show ?thesis
      using Some by (simp add: spec_prepare_def abs)
  next
    case None
    then have fin: "bt_get (s DIST_TXN_FINISHED_TABLE) (txn_key i) = None"
      by (simp add: finished_decision_def)
    show ?thesis
    proof (cases "prepared_ops cs s i")
      case (Some ops')
      then obtain bs rec where "bt_get (s DIST_TXN_PARTICIPANT_TABLE) (txn_key i) = Some bs"
          "decode_prepared cs bs = Inr rec" "pr_txn_id rec = i" "pr_ops rec = ops'"
        using prepared_row [OF assms(2)] by metis
      then have "?W = (if ops' = ops then Inr bt_empty else Inl Conflict)"
        using assms(3) fin legacy check_locks_kept [OF assms(2) Some]
        by (auto simp: prepare_write_set_def Let_def)
      then show ?thesis
        using Some None by (auto simp: spec_prepare_def abs)
    next
      case prepared: None
      then have part: "bt_get (s DIST_TXN_PARTICIPANT_TABLE) (txn_key i) = None"
        by (simp add: prepared_ops_def)
      obtain bs where bs: "encode_prepared cs (prepared_new i ops deadline now) = Inr bs"
          "decode_prepared cs bs = Inr (prepared_new i ops deadline now)"
        using prepared_record_roundtrip [OF assms(1,3)] .
      have "(\<exists>(table, key) \<in> set (bt_keys (ops_to_write_set ops)). row_locked s table key) \<longleftrightarrow>
          (\<exists>table key. written (ops_to_write_set ops) table key \<and> row_locked s table key)"
        by (auto simp: Bex_def bt_keys_iff)
      then have W: "?W = (if \<exists>table key. written (ops_to_write_set ops) table key \<and> row_locked s table key
          then Inl Conflict else Inr (lock_writes i ops bs))"
        using assms(3) fin part legacy bs(1) acquire_all [OF sized_set_keys [OF assms(4)], of s i bt_empty]
        by (simp add: prepare_write_set_def Let_def lock_writes_def)
      have "(\<exists>table key. written (ops_to_write_set ops) table key \<and> spec_locked (participant_abs cs s) table key) \<longleftrightarrow>
          (\<exists>table key. written (ops_to_write_set ops) table key \<and> row_locked s table key)"
        using row_locked_spec [OF assms(2)] sized_setD [OF assms(4)] by (metis bt_keys_iff)
      then show ?thesis
        using W None prepared bs(2) by (auto simp: spec_prepare_def abs)
    qed
  qed
qed

section \<open>Committing the writes of a participant\<close>

lemma ex_map_upd:
  "m i = None \<Longrightarrow> (\<exists>j x. (m(i \<mapsto> y)) j = Some x \<and> R j x) \<longleftrightarrow> R i y \<or> (\<exists>j x. m j = Some x \<and> R j x)"
  by (metis fun_upd_other fun_upd_same option.distinct(1) option.inject)

lemma ex_map_del:
  "(\<exists>j x. (m(i := None)) j = Some x \<and> R j x) \<longleftrightarrow> (\<exists>j x. j \<noteq> i \<and> m j = Some x \<and> R j x)"
  by (metis fun_upd_other fun_upd_same option.distinct(1))

lemma internal_tables_sized [simp]:
  "sized_table TXN_META_TABLE" "sized_table LOCKS_TABLE" "sized_table DIST_TXN_PARTICIPANT_TABLE"
  "sized_table DIST_TXN_FINISHED_TABLE"
  by (simp_all add: sized_table_def table_name_defs dist_table_defs)

lemma commit_dist_writes_store:
  assumes "codecs_ok cs" and "txn_wf cs c s" and "sized_set W" and "separate_set W"
    and "validate_write_locks cs (store_reader s) W = Inr ()"
  shows "commit_dist_writes store_engine cs ck s s W x =
    (if c = - 1 then (s, Inl (Backend ''transaction id overflow''))
     else (commit_store cs (next_record cs ck c W s) s, Inr x))"
proof -
  have "\<nexists>table key. written W table key \<and> row_version s table key > c"
    using last_key_version_wf(2) [OF assms(2)] sized_setD [OF assms(3)] by (metis bt_keys_iff not_le)
  from stage_commit_store [OF assms this] show ?thesis
    by (simp add: commit_dist_writes_def commit_write_set_in_txn_with_extra_authorized_def finish_commit_def
        txn_wfD(1) [OF assms(2)])
qed

lemma format_ok_legacy: "format_ok s \<Longrightarrow> reject_legacy_prepares (store_reader s) = Inr ()"
  by (auto simp: format_ok_def reject_legacy_prepares_store)

lemma locks_ok_encoded: "locks_ok cs s \<Longrightarrow> bt_get (s LOCKS_TABLE) lk = Some bs \<Longrightarrow> \<exists>i. bs = encode_txn_id i"
  unfolding locks_ok_def by metis

lemma dist_wf_after:
  assumes "codecs_ok cs" and "txn_wf cs c s" and "separate_set W" and "c \<noteq> - 1"
    and "s' = commit_store cs (next_record cs ck c W s) s"
    and "participant_rows_ok cs s'" and "finished_rows_ok cs s'" and "locks_ok cs s'" and "format_ok s'"
  shows "dist_wf cs (c + 1) s'"
proof -
  have "txn_wf cs (c + 1) s'"
    unfolding txn_wf_def
  proof (intro conjI)
    show "current_txn_id_from (store_reader s') = Inr (c + 1)"
      unfolding assms(5) by (rule current_after [OF assms(3)])
    show "\<forall>vk bs. bt_get (s' TXN_VERSIONS_TABLE) vk = Some bs \<longrightarrow> (\<exists>i\<le>c + 1. bs = encode_txn_id i)"
      unfolding assms(5) using versions_after_le [OF assms(2-4)] by blast
    show "\<exists>stored. stored_hlc_in_txn cs (store_reader s') = Inr stored"
      unfolding assms(5) using hlc_after [OF assms(1-3)] by blast
    show "\<forall>lk bs. bt_get (s' LOCKS_TABLE) lk = Some bs \<longrightarrow> (\<exists>i. bs = encode_txn_id i)"
      using locks_ok_encoded [OF assms(8)] by blast
    show "reject_legacy_prepares (store_reader s') = Inr ()"
      by (rule format_ok_legacy [OF assms(9)])
  qed
  then show ?thesis
    using assms(6-9) by (simp add: dist_wf_def)
qed

lemma dist_rows_after:
  assumes "separate_set W" and "s' = commit_store cs (next_record cs ck c W s) s"
  shows "bt_get (s' DIST_TXN_PARTICIPANT_TABLE) k =
      (case bt_get W (DIST_TXN_PARTICIPANT_TABLE, k) of Some v \<Rightarrow> v | None \<Rightarrow> bt_get (s DIST_TXN_PARTICIPANT_TABLE) k)"
    and "bt_get (s' DIST_TXN_FINISHED_TABLE) k =
      (case bt_get W (DIST_TXN_FINISHED_TABLE, k) of Some v \<Rightarrow> v | None \<Rightarrow> bt_get (s DIST_TXN_FINISHED_TABLE) k)"
    and "bt_get (s' LOCKS_TABLE) k =
      (case bt_get W (LOCKS_TABLE, k) of Some v \<Rightarrow> v | None \<Rightarrow> bt_get (s LOCKS_TABLE) k)"
    and "bt_get (s' TXN_META_TABLE) LOCK_FORMAT_KEY =
      (case bt_get W (TXN_META_TABLE, LOCK_FORMAT_KEY) of Some v \<Rightarrow> v | None \<Rightarrow> bt_get (s TXN_META_TABLE) LOCK_FORMAT_KEY)"
    and "\<not> table_is_reserved table \<Longrightarrow> bt_get (s' table) k =
      (case bt_get W (table, k) of Some v \<Rightarrow> v | None \<Rightarrow> bt_get (s table) k)"
proof -
  show "bt_get (s' table) k = (case bt_get W (table, k) of Some v \<Rightarrow> v | None \<Rightarrow> bt_get (s table) k)"
    if "\<not> table_is_reserved table"
    unfolding assms(2) using that meta_table_reserved [of table] by (intro rows_after) auto
qed (simp_all only: assms(2), simp_all add: rows_after)

lemma lock_writes_shape:
  "separate_set (lock_writes i ops encoded)" "sized_set (lock_writes i ops encoded)"
  "\<not> bt_is_empty (lock_writes i ops encoded)"
  "validate_write_locks cs read (lock_writes i ops encoded) = Inr ()"
proof -
  show "separate_set (lock_writes i ops encoded)" "sized_set (lock_writes i ops encoded)"
    by (auto simp: separate_set_def sized_set_def get_lock_writes split: if_splits)
  show "\<not> bt_is_empty (lock_writes i ops encoded)"
    by (simp add: lock_writes_def)
  have "table_is_reserved (fst tk)" if "tk \<in> set (bt_keys (lock_writes i ops encoded))" for tk
    by (rule prod.exhaust [of tk], use that in \<open>auto simp: bt_keys_iff get_lock_writes split: if_splits\<close>)
  then show "validate_write_locks cs read (lock_writes i ops encoded) = Inr ()"
    by (auto simp: validate_write_locks_def case_prod_beta)
qed

lemma prepare_after:
  assumes "codecs_ok cs" and "dist_wf cs c s" and "c \<noteq> - 1" and "sized_set (ops_to_write_set ops)"
    and "prepared_ops cs s i = None" and "finished_decision cs s i = None"
    and "\<nexists>table key. written (ops_to_write_set ops) table key \<and> row_locked s table key"
    and "decode_prepared cs bs = Inr (prepared_new i ops deadline now)"
    and "s' = commit_store cs (next_record cs ck c (lock_writes i ops bs) s) s"
  shows "dist_wf cs (c + 1) s'"
    and "participant_abs cs s' = (participant_abs cs s)\<lparr>ps_prepared := (prepared_ops cs s)(i \<mapsto> ops)\<rparr>"
proof -
  note wf = dist_wfD [OF assms(2)]
  note rows = dist_rows_after [OF lock_writes_shape(1) assms(9)]
  have prep: "prepared_ops cs s' = (prepared_ops cs s)(i \<mapsto> ops)"
    using assms(8) by (auto simp: prepared_ops_def rows get_lock_writes prepared_new_def)
  have fin: "finished_decision cs s' = finished_decision cs s"
    by (auto simp: finished_decision_def rows get_lock_writes)
  have rows_ok: "participant_rows_ok cs s'"
    using wf(2) assms(4,8) by (simp add: participant_rows_ok_def rows get_lock_writes prepared_new_def)
  have fin_ok: "finished_rows_ok cs s'"
    using wf(3) assms(6) unfolding finished_rows_ok_def prep
    by (simp add: rows get_lock_writes finished_decision_def) metis
  have locks_ok: "locks_ok cs s'"
    unfolding locks_ok_def
  proof (intro allI)
    fix lk b
    have free: "bt_get (s LOCKS_TABLE) lk = None" if "locks_row ops lk"
      using that assms(7) unfolding row_locked_def locks_row_def by blast
    have "bt_get (s' LOCKS_TABLE) lk = (if locks_row ops lk then Some (encode_txn_id i) else bt_get (s LOCKS_TABLE) lk)"
      by (simp add: rows get_lock_writes)
    moreover have "(\<exists>j ops'. prepared_ops cs s' j = Some ops' \<and> locks_row ops' lk \<and> b = encode_txn_id j) \<longleftrightarrow>
        (locks_row ops lk \<and> b = encode_txn_id i) \<or> bt_get (s LOCKS_TABLE) lk = Some b"
      using wf(4) ex_map_upd [where m = "prepared_ops cs s", OF assms(5), of ops "\<lambda>j ops'. locks_row ops' lk \<and> b = encode_txn_id j"]
      unfolding prep locks_ok_def by simp
    ultimately show "bt_get (s' LOCKS_TABLE) lk = Some b \<longleftrightarrow>
        (\<exists>j ops'. prepared_ops cs s' j = Some ops' \<and> locks_row ops' lk \<and> b = encode_txn_id j)"
      using free by auto
  qed
  have "format_ok s'"
    by (simp add: format_ok_def rows get_lock_writes)
  with rows_ok fin_ok locks_ok show "dist_wf cs (c + 1) s'"
    using dist_wf_after [OF assms(1) wf(1) lock_writes_shape(1) assms(3,9)] by blast
  have "(\<lambda>table key. if table_is_reserved table then None else bt_get (s' table) key) =
      (\<lambda>table key. if table_is_reserved table then None else bt_get (s table) key)"
    by (intro ext) (auto simp: rows get_lock_writes)
  then show "participant_abs cs s' = (participant_abs cs s)\<lparr>ps_prepared := (prepared_ops cs s)(i \<mapsto> ops)\<rparr>"
    by (simp add: participant_abs_def prep fin)
qed

section \<open>The write set of a finish\<close>

definition finish_writes :: "dist_txn_id \<Rightarrow> op list \<Rightarrow> decision \<Rightarrow> bytes \<Rightarrow> write_set" where
  "finish_writes i ops d encoded =
     (let unlocked = fold (\<lambda>(table, key). bt_insert (LOCKS_TABLE, vkey table key) None)
                       (bt_keys (ops_to_write_set ops)) bt_empty;
          writes = (if d = DCommit then bt_extend unlocked (ops_to_write_set ops) else unlocked)
      in bt_insert (DIST_TXN_PARTICIPANT_TABLE, txn_key i) None
           (bt_insert (DIST_TXN_FINISHED_TABLE, txn_key i) (Some encoded) writes))"

lemma public_ops_set: "validate_public_ops ops = Inr () \<Longrightarrow> public_set (ops_to_write_set ops)"
  unfolding validate_public_ops_iff public_set_def ops_to_write_set_keys by auto

lemma get_finish_writes:
  assumes "validate_public_ops ops = Inr ()"
  shows "bt_get (finish_writes i ops d encoded) (t, k) =
     (if t = DIST_TXN_PARTICIPANT_TABLE \<and> k = txn_key i then Some None
      else if t = DIST_TXN_FINISHED_TABLE \<and> k = txn_key i then Some (Some encoded)
      else if t = LOCKS_TABLE \<and> locks_row ops k then Some None
      else if d = DCommit then bt_get (ops_to_write_set ops) (t, k) else None)"
proof -
  have "(\<exists>(table, key) \<in> set (bt_keys (ops_to_write_set ops)). k = vkey table key) \<longleftrightarrow> locks_row ops k"
    by (auto simp: Bex_def bt_keys_iff locks_row_def)
  moreover have "bt_get (ops_to_write_set ops) (LOCKS_TABLE, k) = None"
    using public_setD [OF public_ops_set [OF assms]] by simp
  ultimately show ?thesis
    by (auto simp: finish_writes_def get_fold_lock_writes split: option.split)
qed

lemma release_all:
  assumes "\<forall>tk \<in> set ks. sized_table (fst tk) \<and>
      bt_get (s LOCKS_TABLE) (vkey (fst tk) (snd tk)) = Some (encode_txn_id i)"
  shows "rfold (release_lock (store_reader s) i d) ks ws =
    Inr (fold (\<lambda>(table, key). bt_insert (LOCKS_TABLE, vkey table key) None) ks ws)"
  using assms
proof (induction ks arbitrary: ws)
  case (Cons tk ks)
  obtain table key where tk: "tk = (table, key)"
    by (cases tk)
  then have "release_lock (store_reader s) i d tk ws = Inr (bt_insert (LOCKS_TABLE, vkey table key) None ws)"
    using Cons.prems by (simp add: release_lock_def)
  then show ?case
    using Cons tk by simp
qed simp

lemma finish_write_set_new:
  assumes "codecs_ok cs" and "dist_wf cs c s" and "finished_decision cs s i = None"
  shows "\<exists>bs. decode_finished cs bs = Inr (finished_new i d now) \<and>
    finish_write_set cs (store_reader s) i d now =
      Inr (finish_writes i (case prepared_ops cs s i of None \<Rightarrow> [] | Some ops \<Rightarrow> ops) d bs)"
proof -
  have fin: "bt_get (s DIST_TXN_FINISHED_TABLE) (txn_key i) = None"
    using assms(3) by (simp add: finished_decision_def)
  obtain bs where bs: "encode_finished cs (finished_new i d now) = Inr bs"
      "decode_finished cs bs = Inr (finished_new i d now)"
    using finished_record_roundtrip [OF assms(1)] .
  show ?thesis
  proof (cases "prepared_ops cs s i")
    case None
    then have "bt_get (s DIST_TXN_PARTICIPANT_TABLE) (txn_key i) = None"
      by (simp add: prepared_ops_def)
    moreover have "bt_keys (ops_to_write_set []) = []" "bt_extend bt_empty (ops_to_write_set []) = bt_empty"
      by (simp_all add: ops_to_write_set_def bt_keys_def bt_extend_def)
    ultimately show ?thesis
      using fin bs None
      by (intro exI [of _ bs]) (simp add: finish_write_set_def Let_def opt_transpose_def finish_writes_def)
  next
    case (Some ops)
    then obtain pbs rec where row: "bt_get (s DIST_TXN_PARTICIPANT_TABLE) (txn_key i) = Some pbs"
        "decode_prepared cs pbs = Inr rec" "pr_txn_id rec = i" "pr_ops rec = ops" and
        sized: "sized_set (ops_to_write_set ops)"
      using prepared_row [OF assms(2)] by metis
    have "\<forall>tk \<in> set (bt_keys (ops_to_write_set ops)). sized_table (fst tk) \<and>
        bt_get (s LOCKS_TABLE) (vkey (fst tk) (snd tk)) = Some (encode_txn_id i)"
      using sized_set_keys [OF sized] lock_owner [OF assms(2) Some] by (simp add: bt_keys_iff)
    from release_all [where s = s, OF this] show ?thesis
      using fin bs Some row
      by (intro exI [of _ bs]) (simp add: finish_write_set_def Let_def opt_transpose_def finish_writes_def)
  qed
qed

lemma finish_writes_shape:
  assumes "validate_public_ops ops = Inr ()" and "sized_set (ops_to_write_set ops)"
  shows "separate_set (finish_writes i ops d encoded)" "sized_set (finish_writes i ops d encoded)"
    "\<not> bt_is_empty (finish_writes i ops d encoded)"
proof -
  note get = get_finish_writes [OF assms(1), of i d encoded]
  show "\<not> bt_is_empty (finish_writes i ops d encoded)"
    by (simp add: finish_writes_def Let_def)
  show "separate_set (finish_writes i ops d encoded)"
    unfolding separate_set_def get using public_separate [OF public_ops_set [OF assms(1)]]
    by (auto simp: separate_set_def split: if_splits)
  show "sized_set (finish_writes i ops d encoded)"
    unfolding sized_set_def get using assms(2) by (auto simp: sized_set_def split: if_splits)
qed

lemma finish_locks_pass:
  assumes "dist_wf cs c s" and "validate_public_ops ops = Inr ()" and "sized_set (ops_to_write_set ops)"
    and "prepared_ops cs s i = Some ops \<or> ops = []"
    and "decode_finished cs bs = Inr (finished_new i d now)"
  shows "validate_write_locks cs (store_reader s) (finish_writes i ops d bs) = Inr ()"
proof -
  let ?W = "finish_writes i ops d bs"
  note get = get_finish_writes [OF assms(2), of i d bs]
  have "check_write_lock cs (store_reader s) ?W tk = Inr ()"
    if "tk \<in> set (bt_keys ?W)" "\<not> table_is_reserved (fst tk)" for tk
  proof -
    obtain table key where tk: "tk = (table, key)"
      by (metis prod.collapse)
    then have "written ?W table key" "\<not> table_is_reserved table"
      using that by (simp_all add: bt_keys_iff)
    then have d: "d = DCommit" and w: "written (ops_to_write_set ops) table key"
      unfolding get by (auto split: if_splits)
    then have "prepared_ops cs s i = Some ops"
      using assms(4) by (auto simp: ops_to_write_set_def)
    then have lock: "bt_get (s LOCKS_TABLE) (vkey table key) = Some (encode_txn_id i)"
      using lock_owner [OF assms(1)] w by metis
    have "locks_row ops (vkey table key)"
      using w unfolding locks_row_def by blast
    moreover have "sized_table table"
      using sized_setD [OF assms(3), of table key] w by (metis bt_keys_iff)
    ultimately show ?thesis
      using lock d assms(5) by (simp add: check_write_lock_def tk get_finish_writes [OF assms(2)] opt_transpose_def finished_new_def)
  qed
  then have "rfold (\<lambda>tk _. check_write_lock cs (store_reader s) ?W tk)
      (filter (\<lambda>(table, _). \<not> table_is_reserved table) (bt_keys ?W)) () = Inr ()"
    by (auto simp: rfold_unit_check)
  then show ?thesis
    using txn_wfD(5) [OF dist_wfD(1) [OF assms(1)]] by (simp add: validate_write_locks_def)
qed

lemma finish_after:
  assumes "codecs_ok cs" and "dist_wf cs c s" and "c \<noteq> - 1"
    and "finished_decision cs s i = None"
    and "ops = (case prepared_ops cs s i of None \<Rightarrow> [] | Some ops \<Rightarrow> ops)"
    and "validate_public_ops ops = Inr ()" and "sized_set (ops_to_write_set ops)"
    and "decode_finished cs bs = Inr (finished_new i d now)"
    and "s' = commit_store cs (next_record cs ck c (finish_writes i ops d bs) s) s"
  shows "dist_wf cs (c + 1) s'"
    and "participant_abs cs s' = fst (spec_finish i d (participant_abs cs s))"
proof -
  note wf = dist_wfD [OF assms(2)]
  note shape = finish_writes_shape [OF assms(6,7)]
  note get = get_finish_writes [OF assms(6), of i d bs]
  note rows = dist_rows_after [OF shape(1) assms(9)]
  have none: "bt_get (ops_to_write_set ops) (t, k) = None" if "table_is_reserved t" for t k
    using public_setD [OF public_ops_set [OF assms(6)] that] .
  have prep: "prepared_ops cs s' = (prepared_ops cs s)(i := None)"
    by (rule ext) (simp add: prepared_ops_def rows get none)
  have fin: "finished_decision cs s' = (finished_decision cs s)(i \<mapsto> d)"
    using assms(8) by (intro ext) (simp add: finished_decision_def rows get none finished_new_def)
  have rows_ok: "participant_rows_ok cs s'"
    using wf(2) by (simp add: participant_rows_ok_def rows get none)
  have fin_ok: "finished_rows_ok cs s'"
    using wf(3) assms(8) unfolding finished_rows_ok_def prep
    by (simp add: rows get none finished_new_def)
  have locks_ok: "locks_ok cs s'"
    unfolding locks_ok_def
  proof (intro allI)
    fix lk b
    have old: "bt_get (s LOCKS_TABLE) lk = Some b \<longleftrightarrow>
        (\<exists>j ops'. prepared_ops cs s j = Some ops' \<and> locks_row ops' lk \<and> b = encode_txn_id j)" for b
      using wf(4) by (simp only: locks_ok_def)
    have mine: "prepared_ops cs s i = Some ops" if "locks_row ops lk"
      using that assms(5) by (auto simp: locks_row_def ops_to_write_set_def split: option.splits)
    have "bt_get (s' LOCKS_TABLE) lk = (if locks_row ops lk then None else bt_get (s LOCKS_TABLE) lk)"
      by (simp add: rows get none)
    moreover have "(\<exists>j ops'. prepared_ops cs s' j = Some ops' \<and> locks_row ops' lk \<and> b = encode_txn_id j) \<longleftrightarrow>
        (\<exists>j ops'. j \<noteq> i \<and> prepared_ops cs s j = Some ops' \<and> locks_row ops' lk \<and> b = encode_txn_id j)"
      unfolding prep by (rule ex_map_del [where m = "prepared_ops cs s"])
    moreover have "j = i" if "locks_row ops lk" "prepared_ops cs s j = Some ops'" "locks_row ops' lk" for j ops'
      using old [of "encode_txn_id i"] old [of "encode_txn_id j"] mine [OF that(1)] that
      by (metis encode_txn_id_inject option.inject)
    moreover have "locks_row ops lk" if "prepared_ops cs s i = Some ops'" "locks_row ops' lk" for ops'
      using that assms(5) by simp
    ultimately show "bt_get (s' LOCKS_TABLE) lk = Some b \<longleftrightarrow>
        (\<exists>j ops'. prepared_ops cs s' j = Some ops' \<and> locks_row ops' lk \<and> b = encode_txn_id j)"
      using old [of b] by (metis option.distinct(1))
  qed
  have "s' DIST_TXN_PARTICIPANT_TABLE = bt_empty" if "s DIST_TXN_PARTICIPANT_TABLE = bt_empty"
    by (rule bt_eqI) (simp add: rows get none that)
  then have "format_ok s'"
    using wf(5) by (auto simp: format_ok_def rows get none)
  with rows_ok fin_ok locks_ok show "dist_wf cs (c + 1) s'"
    using dist_wf_after [OF assms(1) wf(1) shape(1) assms(3,9)] by blast
  have "bt_get (s' table) key = (if d = DCommit then spec_apply ops (\<lambda>t k. bt_get (s t) k) table key
      else bt_get (s table) key)" if "\<not> table_is_reserved table" for table key
    using that by (auto simp: rows get spec_apply_def split: option.split)
  then have "(\<lambda>table key. if table_is_reserved table then None else bt_get (s' table) key) =
      ps_rows (fst (spec_finish i d (participant_abs cs s)))"
    using assms(4,5) none
    by (intro ext) (auto simp: spec_finish_def participant_abs_def spec_apply_def ops_to_write_set_def
        split: option.split)
  then show "participant_abs cs s' = fst (spec_finish i d (participant_abs cs s))"
    using assms(4) by (simp add: participant_abs_def spec_finish_def prep fin)
qed

end
