(* ===== verification/Participant_Run.thy ===== *)
theory Participant_Run
  imports Dist_Participant
begin

text \<open>
  The operations of a participant on the node. The lemmas on the abstract store of
  \<open>Dist_Participant\<close> are carried to every engine that keeps the contract of \<open>storage_engine\<close>,
  and then to \<open>SingleNode\<close> over the in-memory engine: any sequence of prepares, decisions and
  ordinary proposals behaves like the specification.
\<close>

section \<open>The operations on the abstract store\<close>

lemma prepared_public:
  assumes "dist_wf cs c s" and "prepared_ops cs s i = Some ops"
  shows "validate_public_ops ops = Inr ()" and "sized_set (ops_to_write_set ops)"
proof -
  obtain bs rec where "decode_prepared cs bs = Inr rec" "pr_ops rec = ops" "sized_set (ops_to_write_set ops)"
    using prepared_row [OF assms] by metis
  then show "validate_public_ops ops = Inr ()" "sized_set (ops_to_write_set ops)"
    by (auto simp: decode_prepared_def rbind_eq_Inr)
qed

text \<open>
  \<open>commits cs ts s s'\<close>: the step from \<open>s\<close> to \<open>s'\<close> is a commit that writes tables of \<open>ts\<close>
  only, or no change at all.
\<close>

definition commits :: "codecs \<Rightarrow> string set \<Rightarrow> store \<Rightarrow> store \<Rightarrow> bool" where
  "commits cs ts s s' \<longleftrightarrow> s' = s \<or>
     (\<exists>ck c W. separate_set W \<and> (\<forall>table key. written W table key \<longrightarrow> table \<in> ts) \<and>
        s' = commit_store cs (next_record cs ck c W s) s)"

definition dist_tables :: "string set" where
  "dist_tables = {DIST_TXN_PARTICIPANT_TABLE, DIST_TXN_FINISHED_TABLE, LOCKS_TABLE, TXN_META_TABLE}"

lemma commits_refl [simp]: "commits cs ts s s"
  by (simp add: commits_def)

lemma commitsI:
  assumes "separate_set W" and "\<And>table key. written W table key \<Longrightarrow> table \<in> ts"
    and "s' = commit_store cs (next_record cs ck c W s) s"
  shows "commits cs ts s s'"
  using assms unfolding commits_def by blast

lemma commits_mono: "commits cs ts s s' \<Longrightarrow> ts \<subseteq> ts' \<Longrightarrow> commits cs ts' s s'"
  unfolding commits_def by blast

lemma prepare_in_storage_store:
  assumes "codecs_ok cs" and "dist_wf cs c s" and "c \<noteq> - 1" and "validate_public_ops ops = Inr ()"
    and "sized_set (ops_to_write_set ops)"
    and "prepare_in_storage store_engine cs ck i ops s = (s', r)"
  shows "\<exists>c' v. (c' = c \<or> c' = c + 1) \<and> dist_wf cs c' s' \<and> r = Inr v \<and> commits cs dist_tables s s' \<and>
    spec_prepare i ops (participant_abs cs s) = (participant_abs cs s', v)"
proof -
  let ?W = "prepare_write_set cs (store_reader s) i ops DEFAULT_DIST_TXN_DEADLINE_MS (ck_unix_ms ck)"
  obtain a v where av: "spec_prepare i ops (participant_abs cs s) = (a, v)"
    by (cases "spec_prepare i ops (participant_abs cs s)")
  note cases = prepare_write_set_cases [OF assms(1,2,4,5), of i DEFAULT_DIST_TXN_DEADLINE_MS "ck_unix_ms ck",
      unfolded av]
  show ?thesis
  proof (cases v)
    case VNo
    then have "?W = Inl Conflict" "a = participant_abs cs s"
      using cases by simp_all
    then show ?thesis
      using assms(2,6) av VNo by (auto simp: prepare_in_storage_def)
  next
    case VYes
    then consider (again) "a = participant_abs cs s" "?W = Inr bt_empty"
      | (fresh) bs where "prepared_ops cs s i = None" "finished_decision cs s i = None"
          "\<nexists>table key. written (ops_to_write_set ops) table key \<and> row_locked s table key"
          "a = (participant_abs cs s)\<lparr>ps_prepared := (prepared_ops cs s)(i \<mapsto> ops)\<rparr>"
          "decode_prepared cs bs = Inr (prepared_new i ops DEFAULT_DIST_TXN_DEADLINE_MS (ck_unix_ms ck))"
          "?W = Inr (lock_writes i ops bs)"
      using cases by auto
    then show ?thesis
    proof cases
      case again
      then show ?thesis
        using assms(2,6) av VYes by (auto simp: prepare_in_storage_def)
    next
      case fresh
      have "commit_dist_writes store_engine cs ck s s (lock_writes i ops bs) VYes =
          (commit_store cs (next_record cs ck c (lock_writes i ops bs) s) s, Inr VYes)"
        using commit_dist_writes_store [OF assms(1) dist_wfD(1) [OF assms(2)] lock_writes_shape(2,1,4)] assms(3)
        by simp
      then have s': "s' = commit_store cs (next_record cs ck c (lock_writes i ops bs) s) s" and r: "r = Inr VYes"
        using assms(6) fresh(6) lock_writes_shape(3) by (simp_all add: prepare_in_storage_def)
      have "commits cs dist_tables s s'"
        by (rule commitsI [OF lock_writes_shape(1) _ s'])
          (auto simp: get_lock_writes dist_tables_def split: if_splits)
      then show ?thesis
        using prepare_after [OF assms(1,2,3,5) fresh(1-3,5) s'] r av VYes fresh(4) by auto
    qed
  qed
qed

lemma finish_in_storage_store:
  assumes "codecs_ok cs" and "dist_wf cs c s" and "c \<noteq> - 1"
    and "finish_in_storage store_engine cs ck i d s = (s', r)"
  shows "\<exists>c'. (c' = c \<or> c' = c + 1) \<and> dist_wf cs c' s' \<and>
    commits cs (dist_tables \<union> op_table ` set (case prepared_ops cs s i of None \<Rightarrow> [] | Some ops \<Rightarrow> ops)) s s' \<and>
    spec_finish i d (participant_abs cs s) = (participant_abs cs s', r)"
proof (cases "finished_decision cs s i")
  case (Some d')
  then obtain bs rec where row: "bt_get (s DIST_TXN_FINISHED_TABLE) (txn_key i) = Some bs"
      "decode_finished cs bs = Inr rec" "fr_txn_id rec = i" "fr_decision rec = d'"
    using finished_row [OF assms(2)] by metis
  moreover have "bt_get (s DIST_TXN_PARTICIPANT_TABLE) (txn_key i) = None"
    using dist_wfD(3) [OF assms(2)] row(1) by (auto simp: finished_rows_ok_def prepared_ops_def)
  ultimately have "finish_write_set cs (store_reader s) i d (ck_unix_ms ck) =
      (if d' = d then Inr bt_empty else Inl Conflict)"
    by (simp add: finish_write_set_def Let_def opt_transpose_def)
  then have "s' = s" "r = (if d' = d then Inr () else Inl RConflict)"
    using assms(4) by (auto simp: finish_in_storage_def split: if_splits)
  then show ?thesis
    using Some assms(2) by (auto simp: spec_finish_def participant_abs_def)
next
  case None
  define ops where "ops = (case prepared_ops cs s i of None \<Rightarrow> [] | Some ops \<Rightarrow> ops)"
  have ops: "validate_public_ops ops = Inr ()" "sized_set (ops_to_write_set ops)"
    using prepared_public [OF assms(2)] unfolding ops_def
    by (auto simp: validate_public_ops_def ops_to_write_set_def sized_set_def split: option.split)
  have mine: "prepared_ops cs s i = Some ops \<or> ops = []"
    by (auto simp: ops_def split: option.split)
  obtain bs where bs: "decode_finished cs bs = Inr (finished_new i d (ck_unix_ms ck))"
      "finish_write_set cs (store_reader s) i d (ck_unix_ms ck) = Inr (finish_writes i ops d bs)"
    using finish_write_set_new [OF assms(1,2) None] unfolding ops_def by blast
  note shape = finish_writes_shape [OF ops]
  have "commit_dist_writes store_engine cs ck s s (finish_writes i ops d bs) () =
      (commit_store cs (next_record cs ck c (finish_writes i ops d bs) s) s, Inr ())"
    using commit_dist_writes_store [OF assms(1) dist_wfD(1) [OF assms(2)] shape(2,1)
        finish_locks_pass [OF assms(2) ops mine bs(1)]] assms(3) by simp
  then have s': "s' = commit_store cs (next_record cs ck c (finish_writes i ops d bs) s) s" and r: "r = Inr ()"
    using assms(4) bs(2) shape(3) by (simp_all add: finish_in_storage_def)
  have "snd (spec_finish i d (participant_abs cs s)) = Inr ()"
    using None by (simp add: spec_finish_def participant_abs_def)
  moreover have "commits cs (dist_tables \<union> op_table ` set ops) s s'"
  proof (rule commitsI [OF shape(1) _ s'])
    fix table key
    assume "written (finish_writes i ops d bs) table key"
    then have "table \<in> dist_tables \<or> written (ops_to_write_set ops) table key"
      by (auto simp: get_finish_writes [OF ops(1)] dist_tables_def split: if_splits)
    then show "table \<in> dist_tables \<union> op_table ` set ops"
      unfolding ops_to_write_set_keys by auto
  qed
  ultimately show ?thesis
    using finish_after [OF assms(1-3) None ops_def ops bs(1) s'] r unfolding ops_def by (metis prod.collapse)
qed

text \<open>An ordinary proposal: refused while one of its rows is locked, applied otherwise.\<close>

definition spec_propose :: "op list \<Rightarrow> participant_spec \<Rightarrow> participant_spec \<times> unit repl" where
  "spec_propose ops a =
     (if \<exists>table key. written (ops_to_write_set ops) table key \<and> spec_locked a table key
      then (a, Inl (RStorage Conflict))
      else (a\<lparr>ps_rows := spec_apply ops (ps_rows a)\<rparr>, Inr ()))"

lemma propose_after:
  assumes "codecs_ok cs" and "dist_wf cs c s" and "c \<noteq> - 1" and "public_set (ops_to_write_set ops)"
    and "s' = commit_store cs (next_record cs ck c (ops_to_write_set ops) s) s"
  shows "dist_wf cs (c + 1) s'"
    and "participant_abs cs s' = (participant_abs cs s)\<lparr>ps_rows := spec_apply ops (ps_rows (participant_abs cs s))\<rparr>"
proof -
  let ?W = "ops_to_write_set ops"
  note wf = dist_wfD [OF assms(2)]
  note sep = public_separate [OF assms(4)]
  note rows = dist_rows_after [OF sep assms(5)]
  have none: "bt_get ?W (t, k) = None" if "table_is_reserved t" for t k
    using public_setD [OF assms(4) that] .
  have same: "bt_get (s' DIST_TXN_PARTICIPANT_TABLE) k = bt_get (s DIST_TXN_PARTICIPANT_TABLE) k"
      "bt_get (s' DIST_TXN_FINISHED_TABLE) k = bt_get (s DIST_TXN_FINISHED_TABLE) k"
      "bt_get (s' LOCKS_TABLE) k = bt_get (s LOCKS_TABLE) k"
      "bt_get (s' TXN_META_TABLE) LOCK_FORMAT_KEY = bt_get (s TXN_META_TABLE) LOCK_FORMAT_KEY" for k
    by (simp_all add: rows none)
  have prep: "prepared_ops cs s' = prepared_ops cs s" and fin: "finished_decision cs s' = finished_decision cs s"
    by (simp_all add: fun_eq_iff prepared_ops_def finished_decision_def same)
  have "s' DIST_TXN_PARTICIPANT_TABLE = s DIST_TXN_PARTICIPANT_TABLE"
    by (rule bt_eqI) (simp add: same)
  then have "participant_rows_ok cs s'" "finished_rows_ok cs s'" "locks_ok cs s'" "format_ok s'"
    using wf by (simp_all add: participant_rows_ok_def finished_rows_ok_def locks_ok_def format_ok_def same prep)
  then show "dist_wf cs (c + 1) s'"
    by (rule dist_wf_after [OF assms(1) wf(1) sep assms(3,5)])
  have "(\<lambda>table key. if table_is_reserved table then None else bt_get (s' table) key) =
      spec_apply ops (ps_rows (participant_abs cs s))"
    by (intro ext) (auto simp: participant_abs_def spec_apply_def rows none split: option.split)
  then show "participant_abs cs s' = (participant_abs cs s)\<lparr>ps_rows := spec_apply ops (ps_rows (participant_abs cs s))\<rparr>"
    by (simp add: participant_abs_def prep fin)
qed

lemma row_locked_set:
  assumes "dist_wf cs c s" and "sized_set ws"
  shows "(\<exists>table key. written ws table key \<and> row_locked s table key) \<longleftrightarrow>
    (\<exists>table key. written ws table key \<and> spec_locked (participant_abs cs s) table key)"
  using row_locked_spec [OF assms(1)] sized_setD [OF assms(2)] by (metis bt_keys_iff)

lemma spec_apply_empty: "spec_apply [] rows = rows"
  by (intro ext) (simp add: spec_apply_def ops_to_write_set_def)

lemma at_current_is_commit:
  assumes "txn_wf cs c s" and "\<not> bt_is_empty ws"
  shows "commit_write_set_at_current store_engine cs ck s ws = commit_write_set store_engine cs ck s c ws"
  using assms(2) txn_wfD(1) [OF assms(1)]
  by (cases "validate_public_write_set ws")
    (simp_all add: commit_write_set_at_current_def commit_write_set_def commit_write_set_at_current_authorized_def
      commit_write_set_authorized_def)

lemma not_refused_at_current:
  assumes "txn_wf cs c s" and "sized_set ws"
  shows "commit_refused s c ws \<longleftrightarrow> (\<exists>table key. written ws table key \<and> row_locked s table key)"
  using last_key_version_wf(2) [OF assms(1)] sized_setD [OF assms(2)]
  unfolding commit_refused_def by (metis bt_keys_iff not_le)

lemma propose_store:
  assumes "codecs_ok cs" and "dist_wf cs c s" and "c \<noteq> - 1" and "validate_public_ops ops = Inr ()"
    and "sized_set (ops_to_write_set ops)"
    and "commit_ops_at_current store_engine cs ck s ops = (s', r)"
  shows "\<exists>c'. (c' = c \<or> c' = c + 1) \<and> dist_wf cs c' s' \<and> commits cs (op_table ` set ops) s s' \<and>
    spec_propose ops (participant_abs cs s) = (participant_abs cs s', rbind (storage_err r) (\<lambda>_. Inr ()))"
proof -
  let ?W = "ops_to_write_set ops"
  note wf = dist_wfD(1) [OF assms(2)]
  note pub = public_ops_set [OF assms(4)]
  show ?thesis
  proof (cases "bt_is_empty ?W")
    case True
    then have empty: "bt_get ?W tk = None" for tk
      unfolding bt_is_empty_iff by metis
    then have "validate_public_write_set ?W = Inr ()"
      unfolding validate_public_write_set_iff using pub by (simp only: public_set_def)
    then have "s' = s" "r = Inr c"
      using assms(4,6) True txn_wfD(1) [OF wf]
      by (simp_all add: commit_ops_at_current_def commit_write_set_at_current_def
          commit_write_set_at_current_authorized_def current_txn_id_def)
    moreover have "spec_apply ops rows = rows" for rows
      by (intro ext) (simp add: spec_apply_def empty)
    ultimately show ?thesis
      using assms(2) empty by (auto simp: spec_propose_def)
  next
    case False
    have out: "(s', r) = (if commit_refused s c ?W then (s, Inl Conflict)
        else (commit_store cs (next_record cs ck c ?W s) s, Inr (c + 1)))"
      using assms(3,4,6) commit_write_set_store [OF assms(1) wf assms(5) pub False, of ck c]
        at_current_is_commit [OF wf False, of ck]
      by (simp add: commit_ops_at_current_def split: if_splits)
    note locked = row_locked_set [OF assms(2,5), folded not_refused_at_current [OF wf assms(5)]]
    show ?thesis
    proof (cases "commit_refused s c ?W")
      case True
      then show ?thesis
        using out assms(2) locked by (auto simp: spec_propose_def)
    next
      case False
      then have s': "s' = commit_store cs (next_record cs ck c ?W s) s" and r: "r = Inr (c + 1)"
        using out by simp_all
      have "commits cs (op_table ` set ops) s s'"
        by (rule commitsI [OF public_separate [OF pub] _ s']) (auto simp: ops_to_write_set_keys simp del: not_None_eq)
      then show ?thesis
        using propose_after [OF assms(1-3) pub s'] r False locked by (auto simp: spec_propose_def)
    qed
  qed
qed

section \<open>The operations on every engine\<close>

context storage_engine
begin

lemma commit_dist_writes_simulates:
  assumes "healthy db" and "tx_rel db t (db_store db)"
  shows "simulates (commit_dist_writes eng cs ck db t W x)
    (commit_dist_writes store_engine cs ck (db_store db) (db_store db) W x)"
proof -
  have read: "w_reader (e_writer eng) t = store_reader (db_store db)"
    using assms(2) reader by (auto simp: tx_rel_def)
  show ?thesis
  proof (cases "current_txn_id_from (store_reader (db_store db))")
    case (Inl e)
    then show ?thesis
      using assms(1) by (simp add: commit_dist_writes_def read simulates_def)
  next
    case (Inr c)
    have "simulates
        (finish_commit eng db (stage_commit (e_writer eng) cs ck t c W Inr (\<lambda>t _. Inr t)))
        (finish_commit store_engine (db_store db)
          (stage_commit store_writer cs ck (db_store db) c W Inr (\<lambda>t _. Inr t)))"
      by (rule finish_commit_simulates [OF assms(1) stage_commit_rel [OF assms(2) pass_through_rel]])
    then show ?thesis
      by (auto simp: commit_dist_writes_def read Inr commit_write_set_in_txn_with_extra_authorized_def
          simulates_def split: prod.split sum.split)
  qed
qed

lemma prepare_in_storage_simulates:
  assumes "healthy db"
  shows "simulates (prepare_in_storage eng cs ck i ops db)
    (prepare_in_storage store_engine cs ck i ops (db_store db))"
proof -
  obtain t where t: "e_begin_write eng db = Inr t" "tx_rel db t (db_store db)"
    using begin_write_rel [OF assms] .
  have "w_reader (e_writer eng) t = store_reader (db_store db)"
    using t(2) reader by (auto simp: tx_rel_def)
  then show ?thesis
    using t(1) assms commit_dist_writes_simulates [OF assms t(2), where x = VYes]
    by (auto simp: prepare_in_storage_def simulates_def split: sum.split)
qed

lemma finish_in_storage_simulates:
  assumes "healthy db"
  shows "simulates (finish_in_storage eng cs ck i d db)
    (finish_in_storage store_engine cs ck i d (db_store db))"
proof -
  obtain t where t: "e_begin_write eng db = Inr t" "tx_rel db t (db_store db)"
    using begin_write_rel [OF assms] .
  have read: "w_reader (e_writer eng) t = store_reader (db_store db)"
    using t(2) reader by (auto simp: tx_rel_def)
  have "simulates (case commit_dist_writes eng cs ck db t W () of (db, r) \<Rightarrow> (db, storage_err r))
      (case commit_dist_writes store_engine cs ck (db_store db) (db_store db) W () of (db, r) \<Rightarrow> (db, storage_err r))"
    for W
    using commit_dist_writes_simulates [OF assms t(2), of cs ck W "()"]
    by (auto simp: simulates_def split: prod.split)
  then show ?thesis
    using t(1) assms read
    by (cases "finish_write_set cs (store_reader (db_store db)) i d (ck_unix_ms ck)")
      (simp_all add: finish_in_storage_def simulates_def)
qed

end

section \<open>A participant serving requests\<close>

datatype participant_request =
    Prepare dist_txn_id "op list"
  | Finish dist_txn_id decision
  | Propose "op list"

datatype participant_reply = Voted "vote repl" | Answered "unit repl"

fun request_ops :: "participant_request \<Rightarrow> op list" where
  "request_ops (Prepare i ops) = ops"
| "request_ops (Finish i d) = []"
| "request_ops (Propose ops) = ops"

fun handle :: "codecs \<Rightarrow> clocks \<Rightarrow> participant_request \<Rightarrow> mem_engine single_node \<Rightarrow>
    mem_engine single_node \<times> participant_reply" where
  "handle cs ck (Prepare i ops) node = apsnd Voted (prepare_dist_txn mem_engine_ops cs ck node i ops)"
| "handle cs ck (Finish i d) node = apsnd Answered (finish_dist_txn mem_engine_ops cs ck node i d)"
| "handle cs ck (Propose ops) node = apsnd Answered (propose_batch mem_engine_ops cs ck node ([], []) ops)"

fun spec_handle :: "participant_request \<Rightarrow> participant_spec \<Rightarrow> participant_spec \<times> participant_reply" where
  "spec_handle (Prepare i ops) a =
     (case validate_public_ops ops of
        Inl e \<Rightarrow> (a, Voted (Inl (RStorage e)))
      | Inr _ \<Rightarrow> apsnd (\<lambda>v. Voted (Inr v)) (spec_prepare i ops a))"
| "spec_handle (Finish i d) a = apsnd Answered (spec_finish i d a)"
| "spec_handle (Propose ops) a =
     (case validate_public_ops ops of
        Inl e \<Rightarrow> (a, Answered (Inl (RStorage e)))
      | Inr _ \<Rightarrow> apsnd Answered (spec_propose ops a))"

definition node_ok :: "codecs \<Rightarrow> txn_id \<Rightarrow> mem_engine single_node \<Rightarrow> bool" where
  "node_ok cs c node \<longleftrightarrow>
     mem_healthy (sn_storage node) \<and> \<not> sn_lock_poisoned node \<and> sn_window node = 0 \<and>
     dist_wf cs c (mem_state (sn_storage node))"

abbreviation node_abs :: "codecs \<Rightarrow> mem_engine single_node \<Rightarrow> participant_spec" where
  "node_abs cs node \<equiv> participant_abs cs (mem_state (sn_storage node))"

text \<open>The tables a request may write.\<close>

definition request_tables :: "participant_request \<Rightarrow> participant_spec \<Rightarrow> string set" where
  "request_tables req a = dist_tables \<union> op_table ` set (request_ops req) \<union>
     (case req of Finish i d \<Rightarrow> op_table ` set (case ps_prepared a i of None \<Rightarrow> [] | Some ops \<Rightarrow> ops) | _ \<Rightarrow> {})"

lemma handle_refines:
  assumes "codecs_ok cs" and "node_ok cs c node" and "c \<noteq> - 1"
    and "sized_set (ops_to_write_set (request_ops req))"
    and "handle cs ck req node = (node', reply)"
  shows "\<exists>c'. (c' = c \<or> c' = c + 1) \<and> node_ok cs c' node' \<and>
    commits cs (request_tables req (node_abs cs node)) (mem_state (sn_storage node)) (mem_state (sn_storage node')) \<and>
    spec_handle req (node_abs cs node) = (node_abs cs node', reply)"
proof -
  let ?db = "sn_storage node"
  have node: "mem_healthy ?db" "\<not> sn_lock_poisoned node" "sn_window node = 0" "dist_wf cs c (mem_state ?db)"
    using assms(2) by (simp_all add: node_ok_def)
  show ?thesis
  proof (cases req)
    case (Prepare i ops)
    show ?thesis
    proof (cases "validate_public_ops ops")
      case (Inl e)
      then show ?thesis
        using assms(2,5) Prepare by (auto simp: prepare_dist_txn_def)
    next
      case (Inr u)
      then have public: "validate_public_ops ops = Inr ()"
        by simp
      obtain db' r where run: "prepare_in_storage mem_engine_ops cs ck i ops ?db = (db', r)"
        by (cases "prepare_in_storage mem_engine_ops cs ck i ops ?db")
      then have sim: "mem_healthy db'"
          "prepare_in_storage store_engine cs ck i ops (mem_state ?db) = (mem_state db', r)"
        using mem.prepare_in_storage_simulates [OF node(1), of cs ck i ops]
        by (auto simp: mem.simulates_def prod_eq_iff)
      obtain c' v where out: "c' = c \<or> c' = c + 1" "dist_wf cs c' (mem_state db')" "r = Inr v"
          "commits cs dist_tables (mem_state ?db) (mem_state db')"
          "spec_prepare i ops (node_abs cs node) = (participant_abs cs (mem_state db'), v)"
        using prepare_in_storage_store [OF assms(1) node(4) assms(3) public _ sim(2)] assms(4) Prepare by auto
      have "node' = node\<lparr>sn_storage := db'\<rparr>" "reply = Voted (Inr v)"
        using assms(5) Prepare public node(2) run out(3) by (auto simp: prepare_dist_txn_def with_commit_lock_def)
      then show ?thesis
        using out node sim(1) Prepare public commits_mono [OF out(4)]
        by (intro exI [of _ c']) (auto simp: node_ok_def request_tables_def)
    qed
  next
    case (Finish i d)
    obtain db' r where run: "finish_in_storage mem_engine_ops cs ck i d ?db = (db', r)"
      by (cases "finish_in_storage mem_engine_ops cs ck i d ?db")
    then have sim: "mem_healthy db'"
        "finish_in_storage store_engine cs ck i d (mem_state ?db) = (mem_state db', r)"
      using mem.finish_in_storage_simulates [OF node(1), of cs ck i d]
      by (auto simp: mem.simulates_def prod_eq_iff)
    obtain c' where out: "c' = c \<or> c' = c + 1" "dist_wf cs c' (mem_state db')"
        "commits cs (dist_tables \<union> op_table ` set (case prepared_ops cs (mem_state ?db) i of None \<Rightarrow> [] | Some ops \<Rightarrow> ops))
           (mem_state ?db) (mem_state db')"
        "spec_finish i d (node_abs cs node) = (participant_abs cs (mem_state db'), r)"
      using finish_in_storage_store [OF assms(1) node(4) assms(3) sim(2)] by blast
    have "node' = node\<lparr>sn_storage := db'\<rparr>" "reply = Answered r"
      using assms(5) Finish node(2) run by (auto simp: finish_dist_txn_def)
    then show ?thesis
      using out node sim(1) Finish
      by (intro exI [of _ c']) (simp add: node_ok_def request_tables_def participant_abs_def)
  next
    case (Propose ops)
    obtain db' r where run: "commit_ops_at_current mem_engine_ops cs ck ?db ops = (db', r)"
      by (cases "commit_ops_at_current mem_engine_ops cs ck ?db ops")
    then have sim: "mem_healthy db'"
        "commit_ops_at_current store_engine cs ck (mem_state ?db) ops = (mem_state db', r)"
      using mem.commit_ops_at_current_simulates [OF node(1), of cs ck ops]
      by (auto simp: mem.simulates_def prod_eq_iff)
    have node': "node' = node\<lparr>sn_storage := db'\<rparr>" "reply = Answered (rbind (storage_err r) (\<lambda>_. Inr ()))"
      using assms(5) Propose node(2,3) run
      by (auto simp: propose_batch_def sn_commit_ops_at_current_def commit_ops_direct_def with_commit_lock_def
          discard_id_def)
    show ?thesis
    proof (cases "validate_public_ops ops")
      case (Inl e)
      then have "mem_state db' = mem_state ?db" "r = Inl e"
        using sim(2) by (simp_all add: commit_ops_at_current_def)
      then show ?thesis
        using node node' sim(1) Inl Propose by (intro exI [of _ c]) (simp add: node_ok_def)
    next
      case (Inr u)
      then have public: "validate_public_ops ops = Inr ()"
        by simp
      obtain c' where out: "c' = c \<or> c' = c + 1" "dist_wf cs c' (mem_state db')"
          "commits cs (op_table ` set ops) (mem_state ?db) (mem_state db')"
          "spec_propose ops (node_abs cs node) = (participant_abs cs (mem_state db'), rbind (storage_err r) (\<lambda>_. Inr ()))"
        using propose_store [OF assms(1) node(4) assms(3) public _ sim(2)] assms(4) Propose by auto
      then show ?thesis
        using node node' sim(1) public Propose commits_mono [OF out(3)]
        by (intro exI [of _ c']) (auto simp: node_ok_def request_tables_def)
    qed
  qed
qed

fun handle_all :: "codecs \<Rightarrow> (clocks \<times> participant_request) list \<Rightarrow> mem_engine single_node \<Rightarrow>
    mem_engine single_node \<times> participant_reply list" where
  "handle_all cs [] node = (node, [])"
| "handle_all cs ((ck, req) # reqs) node =
     (case handle cs ck req node of
        (node, reply) \<Rightarrow> apsnd (Cons reply) (handle_all cs reqs node))"

fun spec_handle_all :: "participant_request list \<Rightarrow> participant_spec \<Rightarrow> participant_spec \<times> participant_reply list" where
  "spec_handle_all [] a = (a, [])"
| "spec_handle_all (req # reqs) a =
     (case spec_handle req a of (a, reply) \<Rightarrow> apsnd (Cons reply) (spec_handle_all reqs a))"

definition requests_sized :: "(clocks \<times> participant_request) list \<Rightarrow> bool" where
  "requests_sized reqs \<longleftrightarrow> (\<forall>(ck, req) \<in> set reqs. sized_set (ops_to_write_set (request_ops req)))"

lemma handle_all_refines:
  assumes "codecs_ok cs" and "node_ok cs c node" and "requests_sized reqs"
    and "unat c + length reqs < 2 ^ 64"
  shows "\<exists>c'. unat c' \<le> unat c + length reqs \<and> node_ok cs c' (fst (handle_all cs reqs node)) \<and>
    spec_handle_all (map snd reqs) (node_abs cs node) = apfst (node_abs cs) (handle_all cs reqs node)"
  using assms(2-4)
proof (induction reqs arbitrary: c node)
  case (Cons creq reqs)
  obtain ck req where creq: "creq = (ck, req)"
    by (cases creq)
  obtain node' reply where step: "handle cs ck req node = (node', reply)"
    by (cases "handle cs ck req node")
  have max: "c \<noteq> - 1"
    using Cons.prems(3) by (auto simp: unsigned_minus_1_eq_mask mask_eq_exp_minus_1)
  obtain c' where c': "c' = c \<or> c' = c + 1" "node_ok cs c' node'"
      "spec_handle req (node_abs cs node) = (node_abs cs node', reply)"
    using handle_refines [OF assms(1) Cons.prems(1) max _ step] Cons.prems(2) creq
    by (auto simp: requests_sized_def)
  have le: "unat c' \<le> unat c + 1"
    using c'(1) mod_less_eq_dividend [of "unat c + 1" "2 ^ 64"] by (auto simp: unat_word_ariths(1))
  then have "unat c' + length reqs < 2 ^ 64"
    using Cons.prems(3) by simp
  from Cons.IH [OF c'(2) _ this] obtain c'' where "unat c'' \<le> unat c' + length reqs"
      "node_ok cs c'' (fst (handle_all cs reqs node'))"
      "spec_handle_all (map snd reqs) (node_abs cs node') = apfst (node_abs cs) (handle_all cs reqs node')"
    using Cons.prems(2) by (auto simp: requests_sized_def)
  then show ?case
    using le step c'(3) by (intro exI [of _ c'']) (auto simp: creq)
qed auto

text \<open>
  C8. A participant serving any sequence of prepares, decisions and proposals, on the in-memory
  engine, gives the replies of the specification and ends in the state of the specification:
  a prepare is accepted exactly when the transaction is new and none of its rows is locked, or
  is repeated with the same operations; a decision is applied once, its repetition is accepted
  and a contradicting one is a conflict; a proposal is refused exactly when it touches a locked
  row. The lock table stays consistent with the prepared transactions throughout.
\<close>

theorem participant_refines:
  assumes "codecs_ok cs" and "node_ok cs c node" and "requests_sized reqs"
    and "unat c + length reqs < 2 ^ 64"
  shows "\<exists>c'. node_ok cs c' (fst (handle_all cs reqs node)) \<and>
    spec_handle_all (map snd reqs) (node_abs cs node) = apfst (node_abs cs) (handle_all cs reqs node)"
  using handle_all_refines [OF assms] by blast

section \<open>Isolation of prepared transactions\<close>

definition spec_disjoint :: "participant_spec \<Rightarrow> bool" where
  "spec_disjoint a \<longleftrightarrow>
     (\<forall>i j ops ops' table key. ps_prepared a i = Some ops \<and> ps_prepared a j = Some ops' \<and>
        written (ops_to_write_set ops) table key \<and> written (ops_to_write_set ops') table key \<longrightarrow> i = j)"

lemma spec_disjointD:
  assumes "spec_disjoint a" and "ps_prepared a i = Some ops" and "ps_prepared a j = Some ops'"
    and "written (ops_to_write_set ops) table key" and "i \<noteq> j"
  shows "\<not> written (ops_to_write_set ops') table key"
  using assms unfolding spec_disjoint_def by metis

lemma node_ok_disjoint: "node_ok cs c node \<Longrightarrow> spec_disjoint (node_abs cs node)"
proof -
  assume "node_ok cs c node"
  then have wf: "dist_wf cs c (mem_state (sn_storage node))"
    by (simp add: node_ok_def)
  show ?thesis
    unfolding spec_disjoint_def participant_abs_def participant_spec.simps
    using lock_owner [OF wf] by (metis encode_txn_id_inject option.inject)
qed

lemma spec_disjoint_prepare:
  assumes "spec_disjoint a" and "\<nexists>table key. written (ops_to_write_set ops) table key \<and> spec_locked a table key"
  shows "spec_disjoint (a\<lparr>ps_prepared := (ps_prepared a)(i \<mapsto> ops)\<rparr>)"
  unfolding spec_disjoint_def
proof (intro allI impI, elim conjE)
  fix j k ops' ops'' table key
  assume jk: "ps_prepared (a\<lparr>ps_prepared := (ps_prepared a)(i \<mapsto> ops)\<rparr>) j = Some ops'"
    "ps_prepared (a\<lparr>ps_prepared := (ps_prepared a)(i \<mapsto> ops)\<rparr>) k = Some ops''"
    and w: "written (ops_to_write_set ops') table key" "written (ops_to_write_set ops'') table key"
  have free: "\<not> written (ops_to_write_set ops) table key" if "ps_prepared a n = Some ops3"
      "written (ops_to_write_set ops3) table key" for n ops3
    using assms(2) that unfolding spec_locked_def by blast
  show "j = k"
  proof (cases "j = i \<or> k = i")
    case True
    then show ?thesis
      using jk w free by (auto split: if_splits)
  next
    case False
    then show ?thesis
      using jk w spec_disjointD [OF assms(1), of j ops' k ops'' table key] by auto
  qed
qed

lemma spec_disjoint_forget:
  "spec_disjoint a \<Longrightarrow> ps_prepared a' = (ps_prepared a)(i := None) \<Longrightarrow> spec_disjoint a'"
  unfolding spec_disjoint_def by (simp split: if_splits)

abbreviation touches_lock :: "op list \<Rightarrow> participant_spec \<Rightarrow> bool" where
  "touches_lock ops a \<equiv> (\<exists>table key. written (ops_to_write_set ops) table key \<and> spec_locked a table key)"

lemma spec_prepare_state:
  "fst (spec_prepare i ops a) = a \<or>
   (ps_prepared a i = None \<and> \<not> touches_lock ops a \<and>
    fst (spec_prepare i ops a) = a\<lparr>ps_prepared := (ps_prepared a)(i \<mapsto> ops)\<rparr>)"
  unfolding spec_prepare_def
  by (cases "ps_finished a i"; cases "ps_prepared a i"; cases "touches_lock ops a")
    (simp_all only: if_True if_False option.simps simp_thms fst_conv)

lemma spec_propose_state:
  "fst (spec_propose ops a) = a \<or>
   (\<not> touches_lock ops a \<and> fst (spec_propose ops a) = a\<lparr>ps_rows := spec_apply ops (ps_rows a)\<rparr>)"
  unfolding spec_propose_def
  by (cases "touches_lock ops a") (simp_all only: if_True if_False simp_thms fst_conv)

lemma spec_finish_state:
  "fst (spec_finish i d a) = a \<or>
   (ps_prepared (fst (spec_finish i d a)) = (ps_prepared a)(i := None) \<and>
    ps_rows (fst (spec_finish i d a)) = (case ps_prepared a i of
      Some ops \<Rightarrow> if d = DCommit then spec_apply ops (ps_rows a) else ps_rows a | None \<Rightarrow> ps_rows a))"
  by (simp add: spec_finish_def split: option.split)

lemma spec_handle_state:
  "fst (spec_handle (Prepare i ops) a) = a \<or> fst (spec_handle (Prepare i ops) a) = fst (spec_prepare i ops a)"
  "fst (spec_handle (Finish i d) a) = fst (spec_finish i d a)"
  "fst (spec_handle (Propose ops) a) = a \<or> fst (spec_handle (Propose ops) a) = fst (spec_propose ops a)"
  by (simp_all split: sum.split)

lemma spec_handle_isolated:
  assumes "spec_disjoint a" and "ps_prepared a i = Some ops" and "\<forall>d. req \<noteq> Finish i d"
    and "spec_handle req a = (a', reply)"
  shows "spec_disjoint a'" and "ps_prepared a' i = Some ops"
    and "written (ops_to_write_set ops) table key \<Longrightarrow> ps_rows a' table key = ps_rows a table key"
proof -
  have locked: "spec_locked a t k" if "written (ops_to_write_set ops) t k" for t k
    using that assms(2) unfolding spec_locked_def by blast
  have a': "a' = fst (spec_handle req a)"
    using assms(4) by simp
  have "spec_disjoint a' \<and> ps_prepared a' i = Some ops \<and>
      (written (ops_to_write_set ops) table key \<longrightarrow> ps_rows a' table key = ps_rows a table key)"
  proof (cases req)
    case (Prepare j ops')
    then consider "a' = a" | "ps_prepared a j = None" "a' = a\<lparr>ps_prepared := (ps_prepared a)(j \<mapsto> ops')\<rparr>"
        "\<not> touches_lock ops' a"
      using spec_handle_state(1) [of j ops' a] spec_prepare_state [of j ops' a] a' by metis
    then show ?thesis
      using assms(1,2) spec_disjoint_prepare [OF assms(1)] by cases auto
  next
    case (Finish j d)
    then have "j \<noteq> i"
      using assms(3) by auto
    then have other: "bt_get (ops_to_write_set ops') (table, key) = None"
      if "ps_prepared a j = Some ops'" "written (ops_to_write_set ops) table key" for ops'
      using spec_disjointD [OF assms(1,2) that] by simp
    consider "a' = a" | "ps_prepared a' = (ps_prepared a)(j := None)"
        "ps_rows a' = (case ps_prepared a j of
            Some ops \<Rightarrow> if d = DCommit then spec_apply ops (ps_rows a) else ps_rows a | None \<Rightarrow> ps_rows a)"
      using spec_finish_state [of j d a] spec_handle_state(2) [of j d a] a' Finish by metis
    then show ?thesis
    proof cases
      case 2
      then show ?thesis
        using assms(2) \<open>j \<noteq> i\<close> other spec_disjoint_forget [OF assms(1) 2(1)]
        by (auto simp: spec_apply_def split: option.split)
    qed (simp add: assms)
  next
    case (Propose ops')
    then consider "a' = a" | "a' = a\<lparr>ps_rows := spec_apply ops' (ps_rows a)\<rparr>" "\<not> touches_lock ops' a"
      using spec_handle_state(3) [of ops' a] spec_propose_state [of ops' a] a' by metis
    then show ?thesis
    proof cases
      case 2
      have "bt_get (ops_to_write_set ops') (table, key) = None" if "written (ops_to_write_set ops) table key"
        using 2(2) locked [OF that] by blast
      moreover have "spec_disjoint a'"
        using assms(1) unfolding 2(1) spec_disjoint_def by simp
      ultimately show ?thesis
        using assms(2) by (simp add: 2(1) spec_apply_def)
    qed (simp add: assms)
  qed
  then show "spec_disjoint a'" "ps_prepared a' i = Some ops"
    "written (ops_to_write_set ops) table key \<Longrightarrow> ps_rows a' table key = ps_rows a table key"
    by blast+
qed

lemma spec_handle_all_isolated:
  assumes "spec_disjoint a" and "ps_prepared a i = Some ops" and "\<forall>d. Finish i d \<notin> set reqs"
    and "written (ops_to_write_set ops) table key"
  shows "ps_prepared (fst (spec_handle_all reqs a)) i = Some ops \<and>
    ps_rows (fst (spec_handle_all reqs a)) table key = ps_rows a table key"
  using assms(1-3)
proof (induction reqs arbitrary: a)
  case (Cons req reqs)
  obtain a' reply where step: "spec_handle req a = (a', reply)"
    by (cases "spec_handle req a")
  have "\<forall>d. req \<noteq> Finish i d"
    using Cons.prems(3) by auto
  note iso = spec_handle_isolated [OF Cons.prems(1,2) this step]
  show ?case
    using Cons.IH [OF iso(1,2)] iso(3) [OF assms(4)] Cons.prems(3) by (simp add: step)
qed simp

text \<open>
  C11. Isolation of a prepared transaction. Between its prepare and its decision, whatever other
  requests the participant serves in whatever order, the transaction stays prepared, none of
  the rows it writes changes, and no other transaction is prepared that writes one of them.
\<close>

theorem prepared_rows_isolated:
  assumes "codecs_ok cs" and "node_ok cs c node" and "requests_sized reqs" and "unat c + length reqs < 2 ^ 64"
    and "ps_prepared (node_abs cs node) i = Some ops" and "\<forall>d. Finish i d \<notin> snd ` set reqs"
    and "written (ops_to_write_set ops) table key" and "\<not> table_is_reserved table"
  shows "let node' = fst (handle_all cs reqs node) in
    ps_prepared (node_abs cs node') i = Some ops \<and>
    bt_get (mem_state (sn_storage node') table) key = bt_get (mem_state (sn_storage node) table) key \<and>
    (\<forall>j ops'. ps_prepared (node_abs cs node') j = Some ops' \<and> written (ops_to_write_set ops') table key \<longrightarrow> j = i)"
proof -
  let ?node = "fst (handle_all cs reqs node)"
  obtain c' where c': "node_ok cs c' ?node" "fst (spec_handle_all (map snd reqs) (node_abs cs node)) = node_abs cs ?node"
    using handle_all_refines [OF assms(1-4)] by auto
  have "\<forall>d. Finish i d \<notin> set (map snd reqs)"
    using assms(6) by simp
  from spec_handle_all_isolated [OF node_ok_disjoint [OF assms(2)] assms(5) this assms(7)]
  have kept: "ps_prepared (node_abs cs ?node) i = Some ops" "ps_rows (node_abs cs ?node) table key = ps_rows (node_abs cs node) table key"
    unfolding c'(2) by simp_all
  have "j = i" if "ps_prepared (node_abs cs ?node) j = Some ops'" "written (ops_to_write_set ops') table key" for j ops'
    using spec_disjointD [OF node_ok_disjoint [OF c'(1)] kept(1) that(1) assms(7)] that(2) by blast
  moreover have "bt_get (mem_state (sn_storage ?node) table) key = bt_get (mem_state (sn_storage node) table) key"
    using kept(2) assms(8) by (simp add: participant_abs_def)
  ultimately show ?thesis
    using kept(1) unfolding Let_def by blast
qed

lemma spec_handle_finished:
  assumes "ps_finished a i = Some d"
  shows "ps_finished (fst (spec_handle req a)) i = Some d"
  using assms
  by (cases req) (auto simp: spec_prepare_def spec_finish_def spec_propose_def split: sum.split option.split)

lemma spec_handle_all_finished:
  "ps_finished a i = Some d \<Longrightarrow> ps_finished (fst (spec_handle_all reqs a)) i = Some d"
proof (induction reqs arbitrary: a)
  case (Cons req reqs)
  then show ?case
    using spec_handle_finished [OF Cons.prems, of req] by (cases "spec_handle req a") simp
qed simp

text \<open>
  C12. Decisions are final. Once a participant has finished a transaction, whatever it serves
  afterwards, the decision stays on record, a repeated decision is acknowledged, the opposite
  one is refused as a conflict, and a late prepare of the transaction is voted down; none of
  these three changes anything.
\<close>

theorem decision_is_final:
  assumes "codecs_ok cs" and "node_ok cs c node" and "requests_sized reqs"
    and "unat c + length reqs + 1 < 2 ^ 64" and "ps_finished (node_abs cs node) i = Some d"
    and "validate_public_ops ops = Inr ()" and "sized_set (ops_to_write_set ops)"
    and "node' = fst (handle_all cs reqs node)"
  shows "ps_finished (node_abs cs node') i = Some d \<and>
    snd (handle cs ck (Finish i d) node') = Answered (Inr ()) \<and>
    (d' \<noteq> d \<longrightarrow> snd (handle cs ck (Finish i d') node') = Answered (Inl RConflict)) \<and>
    snd (handle cs ck (Prepare i ops) node') = Voted (Inr VNo) \<and>
    (\<forall>req \<in> {Finish i d, Finish i d', Prepare i ops}. node_abs cs (fst (handle cs ck req node')) = node_abs cs node')"
proof -
  obtain c' where c': "unat c' \<le> unat c + length reqs" "node_ok cs c' node'"
      "fst (spec_handle_all (map snd reqs) (node_abs cs node)) = node_abs cs node'"
    using handle_all_refines [OF assms(1-3)] assms(4,8) by auto
  have max: "c' \<noteq> - 1"
    using c'(1) assms(4) by (auto simp: unsigned_minus_1_eq_mask mask_eq_exp_minus_1)
  have fin: "ps_finished (node_abs cs node') i = Some d"
    using spec_handle_all_finished [OF assms(5), of "map snd reqs"] c'(3) by simp
  have step: "node_abs cs (fst (handle cs ck req node')) = fst (spec_handle req (node_abs cs node'))"
      "snd (handle cs ck req node') = snd (spec_handle req (node_abs cs node'))"
    if "request_ops req = [] \<or> request_ops req = ops" for req
  proof -
    have "sized_set (ops_to_write_set (request_ops req))"
      using that assms(7) by (auto simp: ops_to_write_set_def sized_set_def)
    from handle_refines [OF assms(1) c'(2) max this surjective_pairing, of ck]
    show "node_abs cs (fst (handle cs ck req node')) = fst (spec_handle req (node_abs cs node'))"
      "snd (handle cs ck req node') = snd (spec_handle req (node_abs cs node'))"
      by auto
  qed
  show ?thesis
    using fin assms(6) by (simp add: step spec_finish_def spec_prepare_def del: handle.simps)
qed

section \<open>Witnesses\<close>

definition demo_requests :: "(clocks \<times> participant_request) list" where
  "demo_requests = map (Pair demo_clocks)
     [Prepare 7 [OpPut ''t'' [1] [2]], Propose [OpPut ''t'' [1] [3]], Finish 7 DCommit]"

definition empty_spec :: participant_spec where
  "empty_spec = \<lparr>ps_rows = \<lambda>_ _. None, ps_prepared = \<lambda>_. None, ps_finished = \<lambda>_. None\<rparr>"

lemma new_node_ok: "node_ok cs 0 (sn_new mem_new)" "node_abs cs (sn_new mem_new) = empty_spec"
proof -
  have "dist_wf cs 0 (\<lambda>_. bt_empty)"
    by (simp add: dist_wf_def empty_store_wf participant_rows_ok_def finished_rows_ok_def locks_ok_def
        prepared_ops_def format_ok_def)
  then show "node_ok cs 0 (sn_new mem_new)"
    by (simp add: node_ok_def sn_new_def sn_with_group_commit_window_def mem_new_facts)
  show "node_abs cs (sn_new mem_new) = empty_spec"
    by (simp add: participant_abs_def empty_spec_def sn_new_def sn_with_group_commit_window_def mem_new_facts
        prepared_ops_def finished_decision_def fun_eq_iff)
qed

lemma demo_public:
  "validate_public_ops [OpPut ''t'' k v] = Inr ()" "\<not> table_is_reserved ''t''"
  "sized_set (ops_to_write_set [OpPut ''t'' k v])"
  "bt_get (ops_to_write_set [OpPut ''t'' k v]) (''t'', k) \<noteq> None"
  by (simp_all add: validate_public_ops_def validate_public_table_def table_is_reserved_def
      RESERVED_KEYSPACE_PREFIX_def ops_to_write_set_def sized_set_def sized_table_def)

lemma demo_requests_sized: "requests_sized demo_requests"
  by (simp add: requests_sized_def demo_requests_def demo_public)
    (simp add: ops_to_write_set_def sized_set_def)

lemma demo_prepare:
  "spec_handle (Prepare 7 [OpPut ''t'' [1] [2]]) empty_spec =
     (empty_spec\<lparr>ps_prepared := [7 \<mapsto> [OpPut ''t'' [1] [2]]]\<rparr>, Voted (Inr VYes))"
  by (simp add: demo_public spec_prepare_def empty_spec_def spec_locked_def)

lemma demo_propose:
  "spec_handle (Propose [OpPut ''t'' [1] [3]]) (empty_spec\<lparr>ps_prepared := [7 \<mapsto> [OpPut ''t'' [1] [2]]]\<rparr>) =
     (empty_spec\<lparr>ps_prepared := [7 \<mapsto> [OpPut ''t'' [1] [2]]]\<rparr>, Answered (Inl (RStorage Conflict)))"
proof -
  have "spec_locked (empty_spec\<lparr>ps_prepared := [7 \<mapsto> [OpPut ''t'' [1] [2]]]\<rparr>) ''t'' [1]"
    unfolding spec_locked_def
    by (intro exI [of _ 7] exI [of _ "[OpPut ''t'' [1] [2]]"] conjI) (simp_all add: ops_to_write_set_def)
  then have "touches_lock [OpPut ''t'' [1] [3]] (empty_spec\<lparr>ps_prepared := [7 \<mapsto> [OpPut ''t'' [1] [2]]]\<rparr>)"
    using demo_public(4) [of "[1]" "[3]"] by (intro exI conjI)
  then show ?thesis
    by (simp only: spec_handle.simps demo_public(1) sum.case spec_propose_def if_True apsnd_conv)
qed

theorem participant_refines_witness:
  "snd (handle_all demo_codecs demo_requests (sn_new mem_new)) =
     [Voted (Inr VYes), Answered (Inl (RStorage Conflict)), Answered (Inr ())] \<and>
   bt_get (mem_state (sn_storage (fst (handle_all demo_codecs demo_requests (sn_new mem_new)))) ''t'') [1] = Some [2]"
proof -
  let ?last = "handle_all demo_codecs demo_requests (sn_new mem_new)"
  have "spec_handle_all (map snd demo_requests) empty_spec = apfst (node_abs demo_codecs) ?last"
    using participant_refines [OF demo_codecs_ok new_node_ok(1) demo_requests_sized]
    by (auto simp: demo_requests_def new_node_ok(2))
  moreover have "spec_handle_all (map snd demo_requests) empty_spec =
      (fst (spec_finish 7 DCommit (empty_spec\<lparr>ps_prepared := [7 \<mapsto> [OpPut ''t'' [1] [2]]]\<rparr>)),
       [Voted (Inr VYes), Answered (Inl (RStorage Conflict)), Answered (Inr ())])"
    by (simp add: demo_requests_def demo_prepare demo_propose del: spec_handle.simps(1,3))
      (simp add: spec_finish_def empty_spec_def)
  ultimately have "snd ?last = [Voted (Inr VYes), Answered (Inl (RStorage Conflict)), Answered (Inr ())]"
    "ps_rows (node_abs demo_codecs (fst ?last)) ''t'' [1] = Some [2]"
    by (cases ?last; simp add: spec_finish_def empty_spec_def spec_apply_def ops_to_write_set_def)+
  then show ?thesis
    by (simp add: participant_abs_def demo_public(2))
qed

text \<open>A node that has prepared transaction 7.\<close>

definition demo_prepared_node :: "mem_engine single_node" where
  "demo_prepared_node = fst (handle demo_codecs demo_clocks (Prepare 7 [OpPut ''t'' [1] [2]]) (sn_new mem_new))"

definition demo_finished_node :: "mem_engine single_node" where
  "demo_finished_node = fst (handle demo_codecs demo_clocks (Finish 7 DAbort) (sn_new mem_new))"

lemma first_request:
  assumes "sized_set (ops_to_write_set (request_ops req))"
    and "node' = fst (handle demo_codecs demo_clocks req (sn_new mem_new))"
  shows "\<exists>c. unat c \<le> 1 \<and> node_ok demo_codecs c node'"
    and "node_abs demo_codecs node' = fst (spec_handle req empty_spec)"
proof -
  obtain c where c: "c = 0 \<or> c = 0 + (1 :: u64)" "node_ok demo_codecs c node'"
      "spec_handle req empty_spec =
         (node_abs demo_codecs node', snd (handle demo_codecs demo_clocks req (sn_new mem_new)))"
    using handle_refines [OF demo_codecs_ok new_node_ok(1) _ assms(1) surjective_pairing, of demo_clocks]
    unfolding new_node_ok(2) assms(2) [symmetric] by auto
  then show "\<exists>c. unat c \<le> 1 \<and> node_ok demo_codecs c node'"
    "node_abs demo_codecs node' = fst (spec_handle req empty_spec)"
    by (auto intro!: exI [of _ c])
qed

lemma demo_prepared_node_facts:
  "\<exists>c. unat c \<le> 1 \<and> node_ok demo_codecs c demo_prepared_node"
  "ps_prepared (node_abs demo_codecs demo_prepared_node) 7 = Some [OpPut ''t'' [1] [2]]"
  using first_request [OF _ demo_prepared_node_def] demo_public(3)
  by (simp_all only: request_ops.simps demo_prepare) simp_all

lemma demo_finished_node_facts:
  "\<exists>c. unat c \<le> 1 \<and> node_ok demo_codecs c demo_finished_node"
  "ps_finished (node_abs demo_codecs demo_finished_node) 7 = Some DAbort"
proof -
  have sized: "sized_set (ops_to_write_set (request_ops (Finish 7 DAbort)))"
    by (simp add: ops_to_write_set_def sized_set_def)
  show "\<exists>c. unat c \<le> 1 \<and> node_ok demo_codecs c demo_finished_node"
    "ps_finished (node_abs demo_codecs demo_finished_node) 7 = Some DAbort"
    using first_request [OF sized demo_finished_node_def] by (simp_all add: spec_finish_def empty_spec_def)
qed

theorem prepared_rows_isolated_witness:
  "bt_get (mem_state (sn_storage (fst (handle_all demo_codecs
       [(demo_clocks, Propose [OpPut ''t'' [1] [3]])] demo_prepared_node))) ''t'') [1] =
   bt_get (mem_state (sn_storage demo_prepared_node) ''t'') [1]"
proof -
  obtain c where "unat c \<le> 1" "node_ok demo_codecs c demo_prepared_node"
    using demo_prepared_node_facts(1) by blast
  moreover have "requests_sized [(demo_clocks, Propose [OpPut ''t'' [1] [3]])]"
    by (simp add: requests_sized_def demo_public)
  ultimately show ?thesis
    using prepared_rows_isolated [OF demo_codecs_ok _ _ _ demo_prepared_node_facts(2) _ demo_public(4) demo_public(2),
        of c "[(demo_clocks, Propose [OpPut ''t'' [1] [3]])]"]
    by (simp add: Let_def del: handle_all.simps)
qed

theorem decision_is_final_witness:
  "snd (handle demo_codecs demo_clocks (Finish 7 DCommit) demo_finished_node) = Answered (Inl RConflict)"
proof -
  obtain c where "unat c \<le> 1" "node_ok demo_codecs c demo_finished_node"
    using demo_finished_node_facts(1) by blast
  then show ?thesis
    using decision_is_final [OF demo_codecs_ok _ _ _ demo_finished_node_facts(2) demo_public(1,3),
        of c "[]" _ demo_clocks DCommit "[1]" "[2]"]
    by (simp add: requests_sized_def del: handle.simps)
qed

end
