(* ===== verification/Replication.thy ===== *)
theory Replication
  imports Participant_Run
begin

text \<open>
  The trait \<open>Replication\<close> of \<open>src/repl/mod.rs\<close> as a record of its methods on a backend of type
  \<open>'n\<close>, for the layers that are written against it; the helpers of that file for system
  writes and for the keyspace inventory; and \<open>SingleNode\<close> as a backend. Every call that commits
  reads the clock once, so a node comes with the readings it will see.
\<close>

section \<open>Programs with a state and errors\<close>

text \<open>\<open>sbind m f\<close> is \<open>f(m?)\<close> where the effects of \<open>m\<close> stay also when it fails.\<close>

type_synonym ('s, 'a) prog = "'s \<Rightarrow> 's \<times> 'a repl"

definition sbind :: "('s, 'a) prog \<Rightarrow> ('a \<Rightarrow> ('s, 'b) prog) \<Rightarrow> ('s, 'b) prog" where
  "sbind m f s = (case m s of (s, Inl e) \<Rightarrow> (s, Inl e) | (s, Inr x) \<Rightarrow> f x s)"

definition spure :: "'a repl \<Rightarrow> ('s, 'a) prog" where
  "spure r s = (s, r)"

definition sask :: "('s \<Rightarrow> 'a repl) \<Rightarrow> ('s, 'a) prog" where
  "sask f s = (s, f s)"

fun sfold :: "('a \<Rightarrow> 'x \<Rightarrow> ('s, 'x) prog) \<Rightarrow> 'a list \<Rightarrow> 'x \<Rightarrow> ('s, 'x) prog" where
  "sfold f [] x s = (s, Inr x)"
| "sfold f (a # as) x s =
     (case f a x s of (s, Inl e) \<Rightarrow> (s, Inl e) | (s, Inr x) \<Rightarrow> sfold f as x s)"

named_theorems prog_simps \<open>evaluation of programs\<close>

lemma sbind_simps [prog_simps]:
  "m s = (s', Inr x) \<Longrightarrow> sbind m f s = f x s'"
  "m s = (s', Inl e) \<Longrightarrow> sbind m f s = (s', Inl e)"
  by (simp_all add: sbind_def)

lemma spure_simps [simp, prog_simps]: "spure r s = (s, r)"
  by (simp add: spure_def)

lemma sask_simps [simp, prog_simps]: "sask f s = (s, f s)"
  by (simp add: sask_def)

lemma sbind_spure [simp]: "sbind (spure (Inr x)) f s = f x s" "sbind (spure (Inl e)) f s = (s, Inl e)"
  by (simp_all add: sbind_def)

lemma sbind_eq_Inr:
  "sbind m f s = (s', Inr y) \<longleftrightarrow> (\<exists>s1 x. m s = (s1, Inr x) \<and> f x s1 = (s', Inr y))"
  by (auto simp: sbind_def split: prod.splits sum.splits)

section \<open>The trait\<close>

record 'n replication =
  rp_propose_batch :: "op list \<Rightarrow> ('n, unit) prog"
  rp_propose_authorized_batch :: "op list \<Rightarrow> ('n, unit) prog"
  rp_propose_conditional_batch :: "write_condition list \<Rightarrow> op list \<Rightarrow> ('n, unit) prog"
  rp_propose_authorized_conditional_batch :: "write_condition list \<Rightarrow> op list \<Rightarrow> ('n, unit) prog"
  rp_prepare_dist_txn :: "dist_txn_id \<Rightarrow> op list \<Rightarrow> ('n, vote) prog"
  rp_finish_dist_txn :: "dist_txn_id \<Rightarrow> decision \<Rightarrow> ('n, unit) prog"
  rp_recover_dist_txns :: "('n, unit) prog"
  rp_read :: "'n \<Rightarrow> string \<Rightarrow> bytes \<Rightarrow> read_consistency \<Rightarrow> bytes option repl"
  rp_range :: "'n \<Rightarrow> string \<Rightarrow> bytes \<Rightarrow> bytes \<Rightarrow> read_consistency \<Rightarrow> row list repl"
  rp_scan_range_batches :: "'n \<Rightarrow> string \<Rightarrow> bytes \<Rightarrow> bytes \<Rightarrow> read_consistency \<Rightarrow> nat \<Rightarrow> scan"
  rp_registered_keyspaces :: "'n \<Rightarrow> string list repl"
  rp_supports_bounded_scans :: "'n \<Rightarrow> bool"

definition propose_system_batch :: "'n replication \<Rightarrow> op list \<Rightarrow> ('n, unit) prog" where
  "propose_system_batch rp ops = rp_propose_authorized_batch rp ops"

definition propose_system :: "'n replication \<Rightarrow> op \<Rightarrow> ('n, unit) prog" where
  "propose_system rp op = propose_system_batch rp [op]"

definition propose_system_conditional_batch ::
  "'n replication \<Rightarrow> write_condition list \<Rightarrow> op list \<Rightarrow> ('n, unit) prog" where
  "propose_system_conditional_batch rp conditions ops =
     rp_propose_authorized_conditional_batch rp conditions ops"

text \<open>Reading several keys, by default one after the other.\<close>

definition default_read_many ::
  "'n replication \<Rightarrow> 'n \<Rightarrow> string \<Rightarrow> bytes list \<Rightarrow> read_consistency \<Rightarrow> bytes option list repl" where
  "default_read_many rp n table keys consistency = rmap (\<lambda>key. rp_read rp n table key consistency) keys"

section \<open>The keyspace inventory\<close>

text \<open>Well-formed UTF-8, by the ranges of the first and second byte of every sequence.\<close>

definition continuation :: "u8 \<Rightarrow> bool" where
  "continuation b \<longleftrightarrow> 0x80 \<le> b \<and> b \<le> 0xBF"

fun utf8_valid :: "bytes \<Rightarrow> bool" where
  "utf8_valid [] = True"
| "utf8_valid (a # bs) =
     (if a \<le> 0x7F then utf8_valid bs
      else if 0xC2 \<le> a \<and> a \<le> 0xDF
      then (case bs of b # rest \<Rightarrow> continuation b \<and> utf8_valid rest | _ \<Rightarrow> False)
      else if 0xE0 \<le> a \<and> a \<le> 0xEF
      then (case bs of
              b # c # rest \<Rightarrow>
                (if a = 0xE0 then 0xA0 \<le> b \<and> b \<le> 0xBF
                 else if a = 0xED then 0x80 \<le> b \<and> b \<le> 0x9F
                 else continuation b) \<and> continuation c \<and> utf8_valid rest
            | _ \<Rightarrow> False)
      else if 0xF0 \<le> a \<and> a \<le> 0xF4
      then (case bs of
              b # c # d # rest \<Rightarrow>
                (if a = 0xF0 then 0x90 \<le> b \<and> b \<le> 0xBF
                 else if a = 0xF4 then 0x80 \<le> b \<and> b \<le> 0x8F
                 else continuation b) \<and> continuation c \<and> continuation d \<and> utf8_valid rest
            | _ \<Rightarrow> False)
      else False)"

definition from_utf8 :: "(bytes \<Rightarrow> string) \<Rightarrow> bytes \<Rightarrow> string + string" where
  "from_utf8 describe bs = (if utf8_valid bs then Inr (map (\<lambda>b. char_of (unat b)) bs) else Inl (describe bs))"

text \<open>\<open>describe\<close> is the text of the library's error for a byte string that is not UTF-8.\<close>

definition registered_public_keyspaces ::
  "(bytes \<Rightarrow> string) \<Rightarrow> (string \<Rightarrow> bytes \<Rightarrow> bytes \<Rightarrow> read_consistency \<Rightarrow> row list repl) \<Rightarrow> string list repl" where
  "registered_public_keyspaces describe ranger =
     rbind (ranger KEYSPACE_REGISTRY_TABLE [] [] Strong) (\<lambda>rows.
       rmap (\<lambda>name. name)
         (filter (\<lambda>name. case name of Inr table \<Rightarrow> \<not> table_is_reserved table | Inl _ \<Rightarrow> True)
           (map (\<lambda>(key, _). map_err (\<lambda>err. RStorage (Corruption (''invalid keyspace inventory name: '' @ err)))
                    (from_utf8 describe key)) rows)))"

lemma char_of_byte: "char_of (unat (of_char c :: u8)) = c"
proof -
  have "unat (of_char c :: u8) = of_char c"
    using of_nat_of_char [where 'a = u8, of c] unat_of_nat [where 'a = 8, of "of_char c"] nat_of_char_less_256 [of c]
    by simp
  then show ?thesis
    by simp
qed

lemma from_utf8_as_bytes: "utf8_valid (as_bytes s) \<Longrightarrow> from_utf8 describe (as_bytes s) = Inr s"
  by (simp add: from_utf8_def as_bytes_def o_def char_of_byte)

section \<open>A single node as a backend\<close>

type_synonym 'db clocked = "'db single_node \<times> (nat \<Rightarrow> clocks)"

definition timed :: "(clocks \<Rightarrow> 'db single_node \<Rightarrow> 'db single_node \<times> 'a repl) \<Rightarrow> ('db clocked, 'a) prog" where
  "timed f n = (case f (snd n 0) (fst n) of (node, r) \<Rightarrow> ((node, \<lambda>k. snd n (Suc k)), r))"

text \<open>Recovery may finish many transactions, each at its own time.\<close>

fun recover_loop :: "('db, 't) engine_ops \<Rightarrow> codecs \<Rightarrow> prepared_txn_record list \<Rightarrow> ('db clocked, unit) prog" where
  "recover_loop eng cs [] n = (n, Inr ())"
| "recover_loop eng cs (record # records) n =
     (case load_dist_txn_decision eng cs (fst n) (pr_txn_id record) of
        Inl e \<Rightarrow> (n, Inl (RStorage e))
      | Inr None \<Rightarrow> recover_loop eng cs records n
      | Inr (Some decision) \<Rightarrow>
          (case timed (\<lambda>ck node. finish_dist_txn eng cs ck node (pr_txn_id record) decision) n of
             (n, Inl e) \<Rightarrow> (n, Inl e)
           | (n, Inr _) \<Rightarrow> recover_loop eng cs records n))"

definition recover_dist_txns :: "('db, 't) engine_ops \<Rightarrow> codecs \<Rightarrow> ('db clocked, unit) prog" where
  "recover_dist_txns eng cs n =
     (case local_prepared_dist_txns eng cs (fst n) of
        Inl e \<Rightarrow> (n, Inl (RStorage e))
      | Inr records \<Rightarrow> recover_loop eng cs records n)"

definition node_replication ::
  "('db, 't) engine_ops \<Rightarrow> codecs \<Rightarrow> (bytes \<Rightarrow> string) \<Rightarrow> 'db clocked replication" where
  "node_replication eng cs describe =
     \<lparr>rp_propose_batch = (\<lambda>ops. timed (\<lambda>ck node. propose_batch eng cs ck node ([], []) ops)),
      rp_propose_authorized_batch = (\<lambda>ops. timed (\<lambda>ck node. propose_authorized_batch eng cs ck node ops)),
      rp_propose_conditional_batch =
        (\<lambda>conditions ops. timed (\<lambda>ck node. propose_conditional_batch eng cs ck node conditions ops)),
      rp_propose_authorized_conditional_batch =
        (\<lambda>conditions ops. timed (\<lambda>ck node. propose_authorized_conditional_batch eng cs ck node conditions ops)),
      rp_prepare_dist_txn = (\<lambda>i ops. timed (\<lambda>ck node. prepare_dist_txn eng cs ck node i ops)),
      rp_finish_dist_txn = (\<lambda>i d. timed (\<lambda>ck node. finish_dist_txn eng cs ck node i d)),
      rp_recover_dist_txns = recover_dist_txns eng cs,
      rp_read = (\<lambda>n. sn_read eng (fst n)),
      rp_range = (\<lambda>n. sn_range eng (fst n)),
      rp_scan_range_batches = (\<lambda>n. sn_scan_range_batches eng (fst n)),
      rp_registered_keyspaces = (\<lambda>n. registered_public_keyspaces describe (sn_range eng (fst n))),
      rp_supports_bounded_scans = (\<lambda>n. True)\<rparr>"

end
