(* ===== verification/Shard.thy ===== *)
theory Shard
  imports Replication
begin

text \<open>
  The sharded router of \<open>src/repl/shard.rs\<close>: the shard map and the routing of keys, the
  distributed batches with their coordinator records, the migration of partitions, and the
  operations of \<open>Replication\<close> over the shards. The backends are a parameter, given by the
  record of the trait; so are the hash function (\<open>blake3\<close>) and the JSON codec of migration
  records. Poisoned locks are flags of the router.
\<close>

section \<open>Shard maps\<close>

type_synonym shard_id = u32
type_synonym partition_id = u32

definition DEFAULT_PARTITIONS :: u32 where "DEFAULT_PARTITIONS = 4096"
definition SHARD_MIGRATIONS_TABLE :: string where "SHARD_MIGRATIONS_TABLE = ''__shard_migrations''"
definition REL_COLUMNAR_SEGMENTS_TABLE :: string where "REL_COLUMNAR_SEGMENTS_TABLE = ''rel_columnar_segments''"
definition REL_INDEX_TABLE :: string where "REL_INDEX_TABLE = ''rel_indexes''"
definition DOCUMENT_INDEX_TABLE :: string where "DOCUMENT_INDEX_TABLE = ''document_indexes''"
definition DOCUMENT_ID_LEN :: nat where "DOCUMENT_ID_LEN = 16"
definition DIST_TXN_SEQUENCE_TABLE :: string where "DIST_TXN_SEQUENCE_TABLE = ''__dist_txn_sequence''"
definition DIST_TXN_SEQUENCE_KEY :: bytes where "DIST_TXN_SEQUENCE_KEY = as_bytes ''last_allocated_id''"

datatype partition_strategy = HashSlots u32

record shard_map =
  sm_version :: u64
  sm_strategy :: partition_strategy
  sm_placement :: "(partition_id, shard_id) btm"

datatype migration_state = Copying | CatchingUp | Switching | Done | Aborted

record shard_migration =
  mg_partition :: partition_id
  mg_from :: shard_id
  mg_to :: shard_id
  mg_state :: migration_state

datatype route = Global | Partition partition_id

record shard_env =
  se_blake3 :: "bytes \<Rightarrow> bytes"
  se_codecs :: codecs
  se_migration :: "shard_migration json"

definition default_strategy :: partition_strategy where
  "default_strategy = HashSlots DEFAULT_PARTITIONS"

definition stable_hash :: "shard_env \<Rightarrow> bytes \<Rightarrow> u64" where
  "stable_hash env key = u64_from_be (take 8 (se_blake3 env key))"

fun partition_of :: "shard_env \<Rightarrow> partition_strategy \<Rightarrow> bytes \<Rightarrow> partition_id repl" where
  "partition_of env (HashSlots partitions) key =
     (if partitions = 0 then Inl (Unsupported ''hash-slot partition count must be greater than zero'')
      else let part = stable_hash env key mod ucast partitions in
        if unat part < 2 ^ 32 then Inr (ucast part)
        else Inl (Unsupported ''out of range integral type conversion attempted''))"

fun partition_count :: "partition_strategy \<Rightarrow> u32" where
  "partition_count (HashSlots partitions) = partitions"

fun check_unique :: "shard_id list \<Rightarrow> shard_id set \<Rightarrow> unit repl" where
  "check_unique [] seen = Inr ()"
| "check_unique (i # ids) seen =
     (if i \<in> seen then Inl (Unsupported (''duplicate shard id '' @ show_nat (unat i)))
      else check_unique ids (insert i seen))"

definition balanced :: "partition_strategy \<Rightarrow> shard_id list \<Rightarrow> shard_map repl" where
  "balanced strategy shard_ids =
     (if shard_ids = [] then Inl (Unsupported ''sharded replication needs at least one shard'')
      else rbind (check_unique shard_ids {}) (\<lambda>_.
        let partitions = partition_count strategy in
        if partitions = 0 then Inl (Unsupported ''sharded replication needs at least one partition'')
        else Inr \<lparr>sm_version = 1, sm_strategy = strategy,
          sm_placement = fold (\<lambda>p. bt_insert (of_nat p) (shard_ids ! (p mod length shard_ids)))
            [0..<unat partitions] bt_empty\<rparr>))"

definition no_placement :: "partition_id \<Rightarrow> repl_error" where
  "no_placement part = Unsupported (''partition '' @ show_nat (unat part) @ '' has no shard placement'')"

definition map_shard_for_partition :: "shard_map \<Rightarrow> partition_id \<Rightarrow> shard_id repl" where
  "map_shard_for_partition m part = ok_or (no_placement part) (bt_get (sm_placement m) part)"

definition shard_for_key :: "shard_env \<Rightarrow> shard_map \<Rightarrow> bytes \<Rightarrow> shard_id repl" where
  "shard_for_key env m key = rbind (partition_of env (sm_strategy m) key) (map_shard_for_partition m)"

definition map_reassign_partition :: "shard_map \<Rightarrow> partition_id \<Rightarrow> shard_id \<Rightarrow> shard_map \<times> unit repl" where
  "map_reassign_partition m part shard =
     (case bt_get (sm_placement m) part of
        None \<Rightarrow> (m, Inl (no_placement part))
      | Some current \<Rightarrow>
          if current \<noteq> shard
          then (case checked_add (sm_version m) 1 of
                  None \<Rightarrow> (m, Inl (Unsupported ''shard map version overflow''))
                | Some version \<Rightarrow>
                    (m\<lparr>sm_placement := bt_insert part shard (sm_placement m), sm_version := version\<rparr>, Inr ()))
          else (m, Inr ()))"

section \<open>Routing\<close>

definition is_global_table :: "string \<Rightarrow> bool" where
  "is_global_table table = prefix ''__'' table"

fun op_parts :: "op \<Rightarrow> string \<times> bytes" where
  "op_parts (OpPut table key v) = (table, key)"
| "op_parts (OpDelete table key) = (table, key)"

fun condition_parts :: "write_condition \<Rightarrow> string \<times> bytes" where
  "condition_parts (KeyMissing table key) = (table, key)"
| "condition_parts (ValueEquals table key expected) = (table, key)"

definition row_key_from_rel_index :: "bytes \<Rightarrow> bytes option" where
  "row_key_from_rel_index key =
     (if length key < 8 then None
      else let len_start = length key - 8;
               row_len = unat (u64_from_be (drop len_start key)) in
        if row_len \<le> len_start then Some (take row_len (drop (len_start - row_len) key)) else None)"

definition document_key_from_index_key :: "bytes \<Rightarrow> bytes option" where
  "document_key_from_index_key key =
     (if length key < 4 + DOCUMENT_ID_LEN then None
      else Some (take 4 key @ drop (length key - DOCUMENT_ID_LEN) key))"

definition table_prefix_from_rel_key :: "bytes \<Rightarrow> bytes option" where
  "table_prefix_from_rel_key key =
     (if length key < 8 then None
      else let end = 8 + unat (u64_from_be (take 8 key)) in
        if usize_max < end then None
        else if end \<le> length key then Some (take end key) else None)"

definition canonical_route_key :: "string \<Rightarrow> bytes \<Rightarrow> bytes" where
  "canonical_route_key table key =
     (if table = REL_INDEX_TABLE then (case row_key_from_rel_index key of Some k \<Rightarrow> k | None \<Rightarrow> key)
      else if table = DOCUMENT_INDEX_TABLE then (case document_key_from_index_key key of Some k \<Rightarrow> k | None \<Rightarrow> key)
      else if table = REL_COLUMNAR_SEGMENTS_TABLE
      then (case table_prefix_from_rel_key key of Some k \<Rightarrow> k | None \<Rightarrow> key)
      else key)"

section \<open>The router\<close>

record 'n sharded =
  sh_map :: shard_map
  sh_shards :: "(shard_id, 'n) btm"
  sh_global :: shard_id
  sh_migrations :: "(partition_id, shard_migration) btm"
  sh_map_poisoned :: bool
  sh_migrations_poisoned :: bool
  sh_barrier_poisoned :: bool

definition sharded_new :: "shard_map \<Rightarrow> (shard_id, 'n) btm \<Rightarrow> shard_id \<Rightarrow> 'n sharded repl" where
  "sharded_new m shards global_shard =
     (if bt_get shards global_shard = None
      then Inl (Unsupported (''global shard '' @ show_nat (unat global_shard) @ '' is not configured''))
      else rbind (rfold (\<lambda>(_, shard) _.
               if bt_get shards shard = None
               then Inl (Unsupported (''shard map references unknown shard '' @ show_nat (unat shard)))
               else Inr ()) (bt_entries (sm_placement m)) ()) (\<lambda>_.
        Inr \<lparr>sh_map = m, sh_shards = shards, sh_global = global_shard, sh_migrations = bt_empty,
             sh_map_poisoned = False, sh_migrations_poisoned = False, sh_barrier_poisoned = False\<rparr>))"

definition shard_map_read :: "'n sharded \<Rightarrow> shard_map repl" where
  "shard_map_read st =
     (if sh_map_poisoned st then Inl (Transport ''shard map lock poisoned'') else Inr (sh_map st))"

definition empty_shard_map :: shard_map where
  "empty_shard_map = \<lparr>sm_version = 0, sm_strategy = default_strategy, sm_placement = bt_empty\<rparr>"

definition sh_shard_map :: "'n sharded \<Rightarrow> shard_map" where
  "sh_shard_map st = (case shard_map_read st of Inl _ \<Rightarrow> empty_shard_map | Inr m \<Rightarrow> m)"

definition routing_barrier :: "'n sharded \<Rightarrow> unit repl" where
  "routing_barrier st =
     (if sh_barrier_poisoned st then Inl (Transport ''shard routing barrier poisoned'') else Inr ())"

definition shard_for_partition :: "'n sharded \<Rightarrow> partition_id \<Rightarrow> shard_id repl" where
  "shard_for_partition st part =
     rbind (shard_map_read st) (\<lambda>m. map_shard_for_partition m part)"

definition route_key :: "shard_env \<Rightarrow> 'n sharded \<Rightarrow> string \<Rightarrow> bytes \<Rightarrow> route repl" where
  "route_key env st table key =
     (if is_global_table table then Inr Global
      else rbind (shard_map_read st) (\<lambda>m.
        rbind (partition_of env (sm_strategy m) (canonical_route_key table key)) (\<lambda>part.
        Inr (Partition part))))"

definition shard_for :: "shard_env \<Rightarrow> 'n sharded \<Rightarrow> string \<Rightarrow> bytes \<Rightarrow> shard_id repl" where
  "shard_for env st table key =
     rbind (route_key env st table key) (\<lambda>r.
       case r of Global \<Rightarrow> Inr (sh_global st) | Partition part \<Rightarrow> shard_for_partition st part)"

definition unknown_shard :: "shard_id \<Rightarrow> repl_error" where
  "unknown_shard shard = Unsupported (''unknown shard '' @ show_nat (unat shard))"

definition sh_shard :: "'n sharded \<Rightarrow> shard_id \<Rightarrow> 'n repl" where
  "sh_shard st shard = ok_or (unknown_shard shard) (bt_get (sh_shards st) shard)"

definition ensure_shard_exists :: "'n sharded \<Rightarrow> shard_id \<Rightarrow> unit repl" where
  "ensure_shard_exists st shard =
     (if bt_get (sh_shards st) shard \<noteq> None then Inr () else Inl (unknown_shard shard))"

text \<open>A call of a method on one shard.\<close>

definition call_shard :: "shard_id \<Rightarrow> ('n, 'a) prog \<Rightarrow> ('n sharded, 'a) prog" where
  "call_shard shard m st =
     (case sh_shard st shard of
        Inl e \<Rightarrow> (st, Inl e)
      | Inr n \<Rightarrow> (case m n of (n, r) \<Rightarrow> (st\<lparr>sh_shards := bt_insert shard n (sh_shards st)\<rparr>, r)))"

section \<open>Migrations\<close>

definition record_migration ::
  "'n replication \<Rightarrow> shard_env \<Rightarrow> shard_migration \<Rightarrow> ('n sharded, unit) prog" where
  "record_migration rp env migration st =
     (case map_err Transport (to_vec (se_migration env) migration) of
        Inl e \<Rightarrow> (st, Inl e)
      | Inr bs \<Rightarrow>
          call_shard (sh_global st)
            (propose_system rp (OpPut SHARD_MIGRATIONS_TABLE (u32_to_be (mg_partition migration)) bs)) st)"

definition set_migration ::
  "'n replication \<Rightarrow> shard_env \<Rightarrow> shard_migration \<Rightarrow> ('n sharded, unit) prog" where
  "set_migration rp env migration st =
     (if sh_migrations_poisoned st then (st, Inl (Transport ''shard migration lock poisoned''))
      else record_migration rp env migration
        (st\<lparr>sh_migrations := bt_insert (mg_partition migration) migration (sh_migrations st)\<rparr>))"

definition sh_migration :: "'n sharded \<Rightarrow> partition_id \<Rightarrow> shard_migration option" where
  "sh_migration st part =
     (if sh_migrations_poisoned st then None else bt_get (sh_migrations st) part)"

definition shard_map_reassign :: "partition_id \<Rightarrow> shard_id \<Rightarrow> ('n sharded, unit) prog" where
  "shard_map_reassign part to st =
     (if sh_map_poisoned st then (st, Inl (Transport ''shard map lock poisoned''))
      else case map_reassign_partition (sh_map st) part to of (m, r) \<Rightarrow> (st\<lparr>sh_map := m\<rparr>, r))"

definition reassign_partition ::
  "'n replication \<Rightarrow> shard_env \<Rightarrow> partition_id \<Rightarrow> shard_id \<Rightarrow> ('n sharded, shard_migration) prog" where
  "reassign_partition rp env part to =
     sbind (sask routing_barrier) (\<lambda>_.
     sbind (sask (\<lambda>st. ensure_shard_exists st to)) (\<lambda>_.
     sbind (sask (\<lambda>st. shard_for_partition st part)) (\<lambda>from.
       let migration = \<lparr>mg_partition = part, mg_from = from, mg_to = to, mg_state = Done\<rparr> in
       sbind (shard_map_reassign part to) (\<lambda>_.
       sbind (record_migration rp env migration) (\<lambda>_.
       spure (Inr migration))))))"

text \<open>
  Copying one table: first the rows of the partition that the target still has are deleted,
  then the rows of the source are written, in both cases batch by batch as the scan delivers.
\<close>

definition in_partition :: "shard_env \<Rightarrow> 'n sharded \<Rightarrow> partition_id \<Rightarrow> string \<Rightarrow> bytes \<Rightarrow> bool repl" where
  "in_partition env st part table key =
     rbind (route_key env st table key) (\<lambda>r. Inr (r = Partition part))"

definition batch_ops ::
  "shard_env \<Rightarrow> 'n sharded \<Rightarrow> partition_id \<Rightarrow> string \<Rightarrow> (row \<Rightarrow> op) \<Rightarrow> row list \<Rightarrow> op list repl" where
  "batch_ops env st part table mk batch =
     rfold (\<lambda>row ops. rbind (in_partition env st part table (fst row)) (\<lambda>mine.
       Inr (if mine then ops @ [mk row] else ops))) batch []"

definition copy_batch ::
  "'n replication \<Rightarrow> shard_env \<Rightarrow> partition_id \<Rightarrow> shard_id \<Rightarrow> string \<Rightarrow> (row \<Rightarrow> op) \<Rightarrow> row list \<Rightarrow>
   ('n sharded, bool) prog" where
  "copy_batch rp env part to table mk batch =
     sbind (sask (\<lambda>st. batch_ops env st part table mk batch)) (\<lambda>ops.
     sbind (if ops \<noteq> [] then call_shard to (rp_propose_batch rp ops) else spure (Inr ())) (\<lambda>_.
     spure (Inr True)))"

definition scan_and_copy ::
  "'n replication \<Rightarrow> shard_env \<Rightarrow> partition_id \<Rightarrow> shard_id \<Rightarrow> shard_id \<Rightarrow> string \<Rightarrow> (row \<Rightarrow> op) \<Rightarrow>
   ('n sharded, unit) prog" where
  "scan_and_copy rp env part from to table mk =
     sbind (sask (\<lambda>st. sh_shard st from)) (\<lambda>n.
       run_scan not_cancelled (copy_batch rp env part to table mk)
         (rp_scan_range_batches rp n table [] [] Strong 128))"

definition copy_table ::
  "'n replication \<Rightarrow> shard_env \<Rightarrow> partition_id \<Rightarrow> shard_id \<Rightarrow> shard_id \<Rightarrow> string \<Rightarrow> ('n sharded, unit) prog" where
  "copy_table rp env part from to table =
     sbind (scan_and_copy rp env part to to table (\<lambda>(key, _). OpDelete table key)) (\<lambda>_.
       scan_and_copy rp env part from to table (\<lambda>(key, v). OpPut table key v))"

definition copy_partition ::
  "'n replication \<Rightarrow> shard_env \<Rightarrow> partition_id \<Rightarrow> shard_id \<Rightarrow> shard_id \<Rightarrow> string list \<Rightarrow> ('n sharded, unit) prog" where
  "copy_partition rp env part from to tables =
     sfold (\<lambda>table _. copy_table rp env part from to table) tables ()"

definition migration_tables :: "'n replication \<Rightarrow> shard_id \<Rightarrow> shard_id \<Rightarrow> 'n sharded \<Rightarrow> string list repl" where
  "migration_tables rp from to st =
     rbind (sh_shard st from) (\<lambda>source.
     rbind (rp_registered_keyspaces rp source) (\<lambda>source_tables.
     rbind (sh_shard st to) (\<lambda>target.
     rbind (rp_registered_keyspaces rp target) (\<lambda>target_tables.
     Inr (bt_keys (string_set (filter (\<lambda>table. \<not> is_global_table table) (source_tables @ target_tables))))))))"

definition set_state :: "migration_state \<Rightarrow> shard_migration \<Rightarrow> shard_migration" where
  "set_state s migration = migration\<lparr>mg_state := s\<rparr>"

text \<open>\<open>let _ = self.set_migration(...); return Err(error)\<close>.\<close>

definition abort_migration ::
  "'n replication \<Rightarrow> shard_env \<Rightarrow> shard_migration \<Rightarrow> repl_error \<Rightarrow> ('n sharded, 'a) prog" where
  "abort_migration rp env migration e st =
     (case set_migration rp env (set_state Aborted migration) st of (st, _) \<Rightarrow> (st, Inl e))"

definition switch_partition ::
  "'n replication \<Rightarrow> shard_env \<Rightarrow> partition_id \<Rightarrow> shard_id \<Rightarrow> shard_migration \<Rightarrow> ('n sharded, shard_migration) prog" where
  "switch_partition rp env part to migration =
     sbind (set_migration rp env (set_state Switching migration)) (\<lambda>_ st.
       case shard_map_reassign part to st of
         (st, Inl e) \<Rightarrow>
           if sh_map_poisoned st then (st, Inl e) else abort_migration rp env migration e st
       | (st, Inr _) \<Rightarrow>
           sbind (set_migration rp env (set_state Done migration)) (\<lambda>_.
           spure (Inr (set_state Done migration))) st)"

definition migrate_partition ::
  "'n replication \<Rightarrow> shard_env \<Rightarrow> partition_id \<Rightarrow> shard_id \<Rightarrow> ('n sharded, shard_migration) prog" where
  "migrate_partition rp env part to =
     sbind (sask routing_barrier) (\<lambda>_.
     sbind (sask (\<lambda>st. ensure_shard_exists st to)) (\<lambda>_.
     sbind (sask (\<lambda>st. shard_for_partition st part)) (\<lambda>from.
       let migration = \<lparr>mg_partition = part, mg_from = from, mg_to = to, mg_state = Copying\<rparr> in
       if from = to
       then sbind (set_migration rp env (set_state Done migration)) (\<lambda>_. spure (Inr (set_state Done migration)))
       else
         sbind (sask (migration_tables rp from to)) (\<lambda>tables.
         sbind (set_migration rp env migration) (\<lambda>_ st.
           case copy_partition rp env part from to tables st of
             (st, Inl e) \<Rightarrow> abort_migration rp env migration e st
           | (st, Inr _) \<Rightarrow> switch_partition rp env part to migration st)))))"

section \<open>Distributed batches\<close>

definition route_public_ops :: "shard_env \<Rightarrow> 'n sharded \<Rightarrow> op list \<Rightarrow> (shard_id, op list) btm repl" where
  "route_public_ops env st ops =
     rfold (\<lambda>op groups.
       rbind (case op_parts op of (table, key) \<Rightarrow> shard_for env st table key) (\<lambda>shard.
       Inr (bt_update shard [] (\<lambda>ops. ops @ [op]) groups))) ops bt_empty"

text \<open>The prepare phase: the error of the first shard that does not vote yes, if any.\<close>

fun prepare_shards ::
  "'n replication \<Rightarrow> dist_txn_id \<Rightarrow> (shard_id \<times> op list) list \<Rightarrow> ('n sharded, repl_error option) prog" where
  "prepare_shards rp i [] st = (st, Inr None)"
| "prepare_shards rp i ((shard, ops) # groups) st =
     (if bt_get (sh_shards st) shard = None then (st, Inl (unknown_shard shard))
      else case call_shard shard (rp_prepare_dist_txn rp i ops) st of
        (st, Inr VYes) \<Rightarrow> prepare_shards rp i groups st
      | (st, Inr VNo) \<Rightarrow> (st, Inr (Some RConflict))
      | (st, Inl e) \<Rightarrow> (st, Inr (Some e)))"

text \<open>The finish phase: the first error, if any; every shard is told.\<close>

fun finish_shards ::
  "'n replication \<Rightarrow> dist_txn_id \<Rightarrow> decision \<Rightarrow> shard_id list \<Rightarrow> repl_error option \<Rightarrow>
   ('n sharded, repl_error option) prog" where
  "finish_shards rp i d [] err st = (st, Inr err)"
| "finish_shards rp i d (shard # shards) err st =
     (if bt_get (sh_shards st) shard = None then (st, Inl (unknown_shard shard))
      else case call_shard shard (rp_finish_dist_txn rp i d) st of
        (st, Inr _) \<Rightarrow> finish_shards rp i d shards err st
      | (st, Inl e) \<Rightarrow> finish_shards rp i d shards (if err = None then Some e else err) st)"

definition is_conflict :: "repl_error \<Rightarrow> bool" where
  "is_conflict e \<longleftrightarrow> e = RConflict \<or> e = RStorage Conflict"

definition check_existing_decision ::
  "'n replication \<Rightarrow> shard_env \<Rightarrow> dist_txn_id \<Rightarrow> decision \<Rightarrow> 'n sharded \<Rightarrow> unit repl" where
  "check_existing_decision rp env i d st =
     rbind (sh_shard st (sh_global st)) (\<lambda>coordinator.
     rbind (rp_read rp coordinator DIST_TXN_COORDINATOR_TABLE (txn_key i) Strong) (\<lambda>found.
     rbind (ok_or RConflict found) (\<lambda>bs.
     rbind (storage_err (decode_decision (se_codecs env) bs)) (\<lambda>existing.
     if cd_txn_id existing \<noteq> i \<or> cd_decision existing \<noteq> d then Inl RConflict else Inr ()))))"

text \<open>\<open>now\<close> is the reading of the wall clock for the decision record.\<close>

definition record_dist_txn_decision ::
  "'n replication \<Rightarrow> shard_env \<Rightarrow> u64 \<Rightarrow> dist_txn_id \<Rightarrow> decision \<Rightarrow> ('n sharded, unit) prog" where
  "record_dist_txn_decision rp env now i d st =
     (if bt_get (sh_shards st) (sh_global st) = None then (st, Inl (unknown_shard (sh_global st)))
      else case storage_err (encode_decision (se_codecs env) (decision_new i d DEFAULT_DIST_TXN_DEADLINE_MS now)) of
        Inl e \<Rightarrow> (st, Inl e)
      | Inr bs \<Rightarrow>
          (case call_shard (sh_global st)
                  (propose_system_conditional_batch rp
                     [KeyMissing DIST_TXN_COORDINATOR_TABLE (txn_key i)]
                     [OpPut DIST_TXN_COORDINATOR_TABLE (txn_key i) bs]) st of
             (st, Inr _) \<Rightarrow> (st, Inr ())
           | (st, Inl e) \<Rightarrow>
               if is_conflict e then (st, check_existing_decision rp env i d st) else (st, Inl e)))"

definition coordinator_decisions ::
  "'n replication \<Rightarrow> shard_env \<Rightarrow> 'n sharded \<Rightarrow> coordinator_decision_record list repl" where
  "coordinator_decisions rp env st =
     rbind (sh_shard st (sh_global st)) (\<lambda>coordinator.
     rbind (rp_range rp coordinator DIST_TXN_COORDINATOR_TABLE [] [] Strong) (\<lambda>rows.
     rmap (\<lambda>(_, bs). storage_err (decode_decision (se_codecs env) bs)) rows))"

definition max_row_id :: "row list \<Rightarrow> dist_txn_id \<Rightarrow> dist_txn_id repl" where
  "max_row_id rows maximum =
     rfold (\<lambda>(key, _) maximum. rbind (storage_err (decode_txn_id key)) (\<lambda>i. Inr (max maximum i))) rows maximum"

text \<open>The largest id any shard or the coordinator knows.\<close>

definition bootstrap_last_id :: "'n replication \<Rightarrow> shard_env \<Rightarrow> 'n sharded \<Rightarrow> dist_txn_id repl" where
  "bootstrap_last_id rp env st =
     rbind (coordinator_decisions rp env st) (\<lambda>decisions.
       rfold (\<lambda>(_, n) maximum.
         rfold (\<lambda>table maximum. rbind (rp_range rp n table [] [] Strong) (\<lambda>rows. max_row_id rows maximum))
           [DIST_TXN_PARTICIPANT_TABLE, DIST_TXN_FINISHED_TABLE] maximum)
         (bt_entries (sh_shards st)) (fold max (map cd_txn_id decisions) 0))"

definition last_allocated :: "'n replication \<Rightarrow> shard_env \<Rightarrow> bytes option \<Rightarrow> 'n sharded \<Rightarrow> dist_txn_id repl" where
  "last_allocated rp env previous st =
     (case previous of
        Some bs \<Rightarrow> storage_err (decode_txn_id bs)
      | None \<Rightarrow> bootstrap_last_id rp env st)"

text \<open>The loop of \<open>allocate_dist_txn_id\<close>, with the number of attempts that are left.\<close>

fun allocate_loop :: "'n replication \<Rightarrow> shard_env \<Rightarrow> nat \<Rightarrow> ('n sharded, dist_txn_id) prog" where
  "allocate_loop rp env 0 st = (st, Inl RConflict)"
| "allocate_loop rp env (Suc attempts) st =
     (case rbind (sh_shard st (sh_global st)) (\<lambda>coordinator.
             rbind (rp_read rp coordinator DIST_TXN_SEQUENCE_TABLE DIST_TXN_SEQUENCE_KEY Strong) (\<lambda>previous.
             rbind (last_allocated rp env previous st) (\<lambda>last.
             rbind (ok_or (Unsupported ''distributed transaction ID exhausted'') (checked_add last 1)) (\<lambda>next_id.
             Inr (previous, next_id))))) of
        Inl e \<Rightarrow> (st, Inl e)
      | Inr (previous, next_id) \<Rightarrow>
          (case call_shard (sh_global st)
                  (propose_system_conditional_batch rp
                     [ValueEquals DIST_TXN_SEQUENCE_TABLE DIST_TXN_SEQUENCE_KEY previous]
                     [OpPut DIST_TXN_SEQUENCE_TABLE DIST_TXN_SEQUENCE_KEY (encode_txn_id next_id)]) st of
             (st, Inr _) \<Rightarrow> (st, Inr next_id)
           | (st, Inl e) \<Rightarrow> if is_conflict e then allocate_loop rp env attempts st else (st, Inl e)))"

definition allocate_dist_txn_id :: "'n replication \<Rightarrow> shard_env \<Rightarrow> ('n sharded, dist_txn_id) prog" where
  "allocate_dist_txn_id rp env st = allocate_loop rp env 64 st"

definition propose_distributed_batch ::
  "'n replication \<Rightarrow> shard_env \<Rightarrow> u64 \<Rightarrow> (shard_id, op list) btm \<Rightarrow> ('n sharded, unit) prog" where
  "propose_distributed_batch rp env now groups =
     sbind (allocate_dist_txn_id rp env) (\<lambda>i.
     sbind (prepare_shards rp i (bt_entries groups)) (\<lambda>prepare_error.
       let d = (if prepare_error \<noteq> None then DAbort else DCommit) in
       sbind (record_dist_txn_decision rp env now i d) (\<lambda>_.
       sbind (finish_shards rp i d (bt_keys groups) None) (\<lambda>finish_error.
       spure (case prepare_error of
                Some e \<Rightarrow> Inl e
              | None \<Rightarrow> (case finish_error of Some e \<Rightarrow> Inl e | None \<Rightarrow> Inr ()))))))"

section \<open>The operations of \<open>Replication\<close>\<close>

definition sh_propose_batch ::
  "'n replication \<Rightarrow> shard_env \<Rightarrow> u64 \<Rightarrow> op list \<Rightarrow> ('n sharded, unit) prog" where
  "sh_propose_batch rp env now ops =
     (if ops = [] then spure (Inr ())
      else
        sbind (sask routing_barrier) (\<lambda>_.
        sbind (spure (storage_err (validate_public_ops ops))) (\<lambda>_.
        sbind (sask (\<lambda>st. route_public_ops env st ops)) (\<lambda>groups st.
          if length (bt_keys groups) > 1 then propose_distributed_batch rp env now groups st
          else
            let shard = (case bt_keys groups of shard # _ \<Rightarrow> shard | [] \<Rightarrow> sh_global st);
                ops = (case bt_get groups shard of Some ops \<Rightarrow> ops | None \<Rightarrow> [])
            in call_shard shard (rp_propose_batch rp ops) st))))"

definition sh_propose ::
  "'n replication \<Rightarrow> shard_env \<Rightarrow> u64 \<Rightarrow> op \<Rightarrow> ('n sharded, unit) prog" where
  "sh_propose rp env now op = sh_propose_batch rp env now [op]"

text \<open>The one shard that all the given rows live on.\<close>

definition single_target ::
  "shard_env \<Rightarrow> string \<Rightarrow> (string \<times> bytes) list \<Rightarrow> 'n sharded \<Rightarrow> shard_id option repl" where
  "single_target env refusal rows st =
     rfold (\<lambda>(table, key) target.
       rbind (shard_for env st table key) (\<lambda>shard.
       case target of
         Some current \<Rightarrow> if current \<noteq> shard then Inl (Unsupported refusal) else Inr (Some shard)
       | None \<Rightarrow> Inr (Some shard))) rows None"

definition sh_propose_authorized_conditional_batch ::
  "'n replication \<Rightarrow> shard_env \<Rightarrow> write_condition list \<Rightarrow> op list \<Rightarrow> ('n sharded, unit) prog" where
  "sh_propose_authorized_conditional_batch rp env conditions ops =
     sbind (sask routing_barrier) (\<lambda>_.
     sbind (sask (single_target env ''cross-shard conditional batch needs distributed conditions''
              (map op_parts ops @ map condition_parts conditions))) (\<lambda>target st.
       call_shard (case target of Some shard \<Rightarrow> shard | None \<Rightarrow> sh_global st)
         (rp_propose_authorized_conditional_batch rp conditions ops) st))"

definition sh_propose_authorized_batch ::
  "'n replication \<Rightarrow> shard_env \<Rightarrow> op list \<Rightarrow> ('n sharded, unit) prog" where
  "sh_propose_authorized_batch rp env ops =
     sbind (sask routing_barrier) (\<lambda>_.
       if ops = [] then spure (Inr ())
       else
         sbind (sask (single_target env ''cross-shard atomic batch needs distributed transactions''
                  (map op_parts ops))) (\<lambda>target st.
           call_shard (case target of Some shard \<Rightarrow> shard | None \<Rightarrow> sh_global st)
             (rp_propose_authorized_batch rp ops) st))"

definition sh_propose_conditional_batch ::
  "'n replication \<Rightarrow> shard_env \<Rightarrow> u64 \<Rightarrow> write_condition list \<Rightarrow> op list \<Rightarrow> ('n sharded, unit) prog" where
  "sh_propose_conditional_batch rp env now conditions ops =
     (if conditions = [] then sh_propose_batch rp env now ops
      else
        sbind (sask routing_barrier) (\<lambda>_.
        sbind (spure (storage_err (validate_public_conditions conditions))) (\<lambda>_.
        sbind (spure (storage_err (validate_public_ops ops))) (\<lambda>_.
        sbind (sask (single_target env ''cross-shard conditional batch needs distributed transactions''
                 (map op_parts ops @ map condition_parts conditions))) (\<lambda>target st.
          call_shard (case target of Some shard \<Rightarrow> shard | None \<Rightarrow> sh_global st)
            (rp_propose_conditional_batch rp conditions ops) st)))))"

definition finish_everywhere ::
  "'n replication \<Rightarrow> coordinator_decision_record \<Rightarrow> ('n sharded, unit) prog" where
  "finish_everywhere rp decision st =
     sfold (\<lambda>shard _. call_shard shard (rp_finish_dist_txn rp (cd_txn_id decision) (cd_decision decision)))
       (bt_keys (sh_shards st)) () st"

definition sh_recover_dist_txns :: "'n replication \<Rightarrow> shard_env \<Rightarrow> ('n sharded, unit) prog" where
  "sh_recover_dist_txns rp env =
     sbind (sask routing_barrier) (\<lambda>_.
     sbind (sask (coordinator_decisions rp env)) (\<lambda>decisions.
     sbind (sfold (\<lambda>decision _. finish_everywhere rp decision) decisions ()) (\<lambda>_ st.
       sfold (\<lambda>shard _. call_shard shard (rp_recover_dist_txns rp)) (bt_keys (sh_shards st)) () st)))"

definition sh_read ::
  "'n replication \<Rightarrow> shard_env \<Rightarrow> 'n sharded \<Rightarrow> string \<Rightarrow> bytes \<Rightarrow> read_consistency \<Rightarrow> bytes option repl" where
  "sh_read rp env st table key consistency =
     rbind (routing_barrier st) (\<lambda>_.
     rbind (shard_for env st table key) (\<lambda>shard.
     rbind (sh_shard st shard) (\<lambda>n. rp_read rp n table key consistency)))"

text \<open>\<open>dedup_by\<close> drops a row whose key is that of the row before it.\<close>

fun dedup_keys :: "row list \<Rightarrow> row list" where
  "dedup_keys (a # b # rows) =
     (if fst a = fst b then dedup_keys (a # rows) else a # dedup_keys (b # rows))"
| "dedup_keys rows = rows"

definition owned_rows ::
  "shard_env \<Rightarrow> 'n sharded \<Rightarrow> string \<Rightarrow> shard_id \<Rightarrow> row list \<Rightarrow> row list \<Rightarrow> row list repl" where
  "owned_rows env st table shard shard_rows rows =
     rfold (\<lambda>row rows. rbind (shard_for env st table (fst row)) (\<lambda>owner.
       Inr (if owner = shard then rows @ [row] else rows))) shard_rows rows"

definition sh_range ::
  "'n replication \<Rightarrow> shard_env \<Rightarrow> 'n sharded \<Rightarrow> string \<Rightarrow> bytes \<Rightarrow> bytes \<Rightarrow> read_consistency \<Rightarrow> row list repl" where
  "sh_range rp env st table start end consistency =
     rbind (routing_barrier st) (\<lambda>_.
       if is_global_table table
       then rbind (sh_shard st (sh_global st)) (\<lambda>n. rp_range rp n table start end consistency)
       else
         rbind (rfold (\<lambda>(shard, n) rows.
             rbind (rp_range rp n table start end consistency) (\<lambda>shard_rows.
             owned_rows env st table shard shard_rows rows)) (bt_entries (sh_shards st)) []) (\<lambda>rows.
         Inr (dedup_keys (sort_key fst rows))))"

section \<open>The merging scan\<close>

text \<open>
  \<open>next_owned_row\<close>: the first row of a shard's scan that the shard owns; \<open>found\<close> says how the
  caller goes on with it. The scan of the shard delivers single rows.
\<close>

fun owned_in_batch :: "(bytes \<Rightarrow> shard_id repl) \<Rightarrow> shard_id \<Rightarrow> (row option \<Rightarrow> scan) \<Rightarrow> scan \<Rightarrow> row list \<Rightarrow> scan" where
  "owned_in_batch owner shard found rest [] = rest"
| "owned_in_batch owner shard found rest (row # rows) =
     ScanCheck (found None)
       (case owner (fst row) of
          Inl e \<Rightarrow> ScanEnd (Inl e)
        | Inr s \<Rightarrow> if s = shard then found (Some row) else owned_in_batch owner shard found rest rows)"

fun owned_head :: "(bytes \<Rightarrow> shard_id repl) \<Rightarrow> shard_id \<Rightarrow> (row option \<Rightarrow> scan) \<Rightarrow> scan \<Rightarrow> scan" where
  "owned_head owner shard found (ScanEnd (Inl e)) = ScanEnd (Inl e)"
| "owned_head owner shard found (ScanEnd (Inr _)) = found None"
| "owned_head owner shard found (ScanCheck a b) =
     ScanCheck (owned_head owner shard found a) (owned_head owner shard found b)"
| "owned_head owner shard found (ScanBatch rows k) =
     owned_in_batch owner shard found (owned_head owner shard found k) rows"

definition next_owned_row ::
  "'n replication \<Rightarrow> shard_env \<Rightarrow> 'n sharded \<Rightarrow> shard_id \<Rightarrow> string \<Rightarrow> bytes \<Rightarrow> bytes \<Rightarrow> read_consistency \<Rightarrow>
   (row option \<Rightarrow> scan) \<Rightarrow> scan" where
  "next_owned_row rp env st shard table start end consistency found =
     (case sh_shard st shard of
        Inl e \<Rightarrow> ScanEnd (Inl e)
      | Inr n \<Rightarrow>
          owned_head (shard_for env st table) shard found
            (rp_scan_range_batches rp n table start end consistency 1))"

type_synonym heads = "(shard_id \<times> row option) list"

definition min_head :: "heads \<Rightarrow> nat option" where
  "min_head heads =
     (case [(i, fst row). (i, _, Some row) \<leftarrow> enumerate 0 heads] of
        [] \<Rightarrow> None
      | first # others \<Rightarrow>
          Some (fst (fold (\<lambda>(j, kj) (i, ki). if kj < ki then (j, kj) else (i, ki)) others first)))"

definition out_of_fuel :: scan where
  "out_of_fuel = ScanEnd (Inl (Transport ''out of fuel''))"

fun merge_loop ::
  "'n replication \<Rightarrow> shard_env \<Rightarrow> 'n sharded \<Rightarrow> string \<Rightarrow> bytes \<Rightarrow> read_consistency \<Rightarrow> nat \<Rightarrow> nat \<Rightarrow>
   heads \<Rightarrow> row list \<Rightarrow> scan" where
  "merge_loop rp env st table end consistency batch_rows 0 heads batch = out_of_fuel"
| "merge_loop rp env st table end consistency batch_rows (Suc fuel) heads batch =
     ScanCheck (ScanEnd (Inr ()))
       (case min_head heads of
          None \<Rightarrow> scan_tail batch
        | Some index \<Rightarrow>
            (case heads ! index of
               (shard, None) \<Rightarrow> ScanEnd (Inl (Transport ''missing shard scan head''))
             | (shard, Some (key, v)) \<Rightarrow>
                 let advance = (\<lambda>batch. next_owned_row rp env st shard table (key @ [0]) end consistency
                                  (\<lambda>head. merge_loop rp env st table end consistency batch_rows fuel
                                             (heads[index := (shard, head)]) batch));
                     batch = batch @ [(key, v)]
                 in if length batch \<ge> batch_rows
                    then ScanCheck (ScanEnd (Inr ())) (ScanBatch batch (advance []))
                    else advance batch))"

fun collect_heads ::
  "'n replication \<Rightarrow> shard_env \<Rightarrow> 'n sharded \<Rightarrow> string \<Rightarrow> bytes \<Rightarrow> bytes \<Rightarrow> read_consistency \<Rightarrow>
   shard_id list \<Rightarrow> heads \<Rightarrow> (heads \<Rightarrow> scan) \<Rightarrow> scan" where
  "collect_heads rp env st table start end consistency [] heads found = found heads"
| "collect_heads rp env st table start end consistency (shard # shards) heads found =
     ScanCheck (ScanEnd (Inr ()))
       (next_owned_row rp env st shard table start end consistency (\<lambda>head.
          collect_heads rp env st table start end consistency shards (heads @ [(shard, head)]) found))"

definition sh_supports_bounded_scans :: "'n replication \<Rightarrow> 'n sharded \<Rightarrow> bool" where
  "sh_supports_bounded_scans rp st = list_all (\<lambda>(_, n). rp_supports_bounded_scans rp n) (bt_entries (sh_shards st))"

text \<open>
  The whole scan. \<open>fuel\<close> bounds the rounds of the merge; one more than the number of rows of the
  range is enough, as \<open>sharded_scan_streams\<close> shows.
\<close>

definition sh_scan_range_batches ::
  "'n replication \<Rightarrow> shard_env \<Rightarrow> nat \<Rightarrow> 'n sharded \<Rightarrow> string \<Rightarrow> bytes \<Rightarrow> bytes \<Rightarrow> read_consistency \<Rightarrow> nat \<Rightarrow> scan" where
  "sh_scan_range_batches rp env fuel st table start end consistency batch_rows =
     ScanCheck (ScanEnd (Inr ()))
       (if end \<noteq> [] \<and> end \<le> start then ScanEnd (Inr ())
        else if \<not> sh_supports_bounded_scans rp st
        then (case sh_range rp env st table start end consistency of
                Inl e \<Rightarrow> ScanEnd (Inl e)
              | Inr rows \<Rightarrow> batch_loop (chunks (min (max batch_rows 1) 1024) rows))
        else case routing_barrier st of
          Inl e \<Rightarrow> ScanEnd (Inl e)
        | Inr _ \<Rightarrow>
            if is_global_table table
            then (case sh_shard st (sh_global st) of
                    Inl e \<Rightarrow> ScanEnd (Inl e)
                  | Inr n \<Rightarrow> rp_scan_range_batches rp n table start end consistency batch_rows)
            else collect_heads rp env st table start end consistency (bt_keys (sh_shards st)) []
                   (\<lambda>heads. merge_loop rp env st table end consistency (min (max batch_rows 1) 1024) fuel heads []))"

end
