(* ===== verification/Backend.thy ===== *)
theory Backend
  imports Shard
begin

text \<open>
  What the router of \<open>src/repl/shard.rs\<close> relies on in its shards: the locale \<open>backend\<close>. A shard is
  abstracted to the specification of a participant, its system rows and the number of commits
  it can still make. The interpretation proves the contract for \<open>SingleNode\<close> over the in-memory
  engine; it needs what reads under key locks return, what a conditional system write does, and
  that the keyspace inventory is complete.
\<close>

section \<open>Reads under key locks\<close>

lemma between_prefix:
  "P @ a \<le> (x :: bytes) \<and> x < P @ b \<longleftrightarrow> (\<exists>y. x = P @ y \<and> a \<le> y \<and> y < b)"
proof (induction P arbitrary: x)
  case (Cons c P)
  show ?case
  proof (cases x)
    case (Cons d l)
    have "(c # P) @ a \<le> d # l \<and> d # l < (c # P) @ b \<longleftrightarrow> d = c \<and> P @ a \<le> l \<and> l < P @ b"
      by auto
    then show ?thesis
      using Cons.IH [of l] Cons by auto
  qed simp
qed simp

lemma lock_interval:
  "in_range (P @ start) (if end = [] then range_end P else P @ end) lk \<longleftrightarrow>
     (\<exists>k. lk = P @ k \<and> in_range start end k)"
proof (cases "end = []")
  case True
  have "in_range (P @ start) (range_end P) lk \<longleftrightarrow> prefix P lk \<and> P @ start \<le> lk"
  proof -
    have "P \<le> P @ start"
      using lex_append_same_le [of P "[]" start] by simp
    then show ?thesis
      using range_end_exact [of P lk] by (auto simp: in_range_def)
  qed
  then show ?thesis
    using True by (auto simp: prefix_def in_range_def lex_append_same_le)
next
  case False
  then have "P @ end \<noteq> []"
    by simp
  then show ?thesis
    using False between_prefix [of P start lk "end"] by (auto simp: in_range_def)
qed

lemma vkey_prefix: "vkey table key = vkey table [] @ key"
  by (simp add: vkey_def)

lemma has_range_locks_store:
  assumes "reject_legacy_prepares (store_reader s) = Inr ()" and "sized_table table" and "\<not> table_is_reserved table"
  shows "has_range_locks (store_reader s) table start end =
    Inr (\<exists>key. in_range start end key \<and> row_locked s table key)"
proof -
  let ?items = "bt_range (vkey table start) (if end = [] then range_end (vkey table []) else vkey table end) (s LOCKS_TABLE)"
  have interval: "in_range (vkey table start) (if end = [] then range_end (vkey table []) else vkey table end) lk \<longleftrightarrow>
      (\<exists>k. lk = vkey table k \<and> in_range start end k)" for lk
    using lock_interval [of "vkey table []" start "end" lk] by (simp only: vkey_prefix [symmetric])
  have "?items = [] \<longleftrightarrow> \<not> (\<exists>key. in_range start end key \<and> row_locked s table key)"
  proof -
    have "?items = [] \<longleftrightarrow> (\<nexists>lk v. (lk, v) \<in> set ?items)"
      by (metis list.set_intros(1) neq_Nil_conv surj_pair empty_iff list.set(1))
    also have "\<dots> \<longleftrightarrow> (\<nexists>key v. in_range start end key \<and> bt_get (s LOCKS_TABLE) (vkey table key) = Some v)"
      unfolding bt_range_iff interval by blast
    finally show ?thesis
      by (auto simp: row_locked_def)
  qed
  then show ?thesis
    using assms by (auto simp: has_range_locks_def lock_range_def split: list.split)
qed

text \<open>
  C14. A range read is refused exactly when a prepared transaction holds a row of the range: the
  interval of lock keys that \<open>has_range_locks\<close> scans is the image of the interval of row keys,
  for bounded and unbounded ranges.
\<close>

theorem range_lock_check_exact:
  assumes "reject_legacy_prepares (store_reader s) = Inr ()" and "sized_table table" and "\<not> table_is_reserved table"
  shows "validate_read_range (store_reader s) table start end =
    (if \<exists>key. in_range start end key \<and> bt_get (s LOCKS_TABLE) (vkey table key) \<noteq> None then Inl Conflict else Inr ())"
  using has_range_locks_store [OF assms] by (simp add: validate_read_range_def row_locked_def)

definition locked_store :: store where
  "locked_store = (\<lambda>_. bt_empty)(LOCKS_TABLE := bt_insert (vkey ''t'' [5]) [] bt_empty)"

theorem range_lock_check_exact_witness:
  "validate_read_range (store_reader locked_store) ''t'' [1] [] = Inl Conflict \<and>
   validate_read_range (store_reader locked_store) ''t'' [6] [] = Inr ()"
proof -
  have "reject_legacy_prepares (store_reader locked_store) = Inr ()"
    by (simp add: reject_legacy_prepares_def lock_format_def locked_store_def table_name_defs dist_table_defs)
  moreover have t: "sized_table ''t''" "\<not> table_is_reserved ''t''"
    using demo_public(2) by (simp_all add: sized_table_def)
  moreover have "bt_get (locked_store LOCKS_TABLE) (vkey ''t'' key) \<noteq> None \<longleftrightarrow> key = [5]" for key
    using vkey_inject [of "''t''" "''t''" key "[5]"] t(1) by (simp add: locked_store_def)
  ultimately show ?thesis
    using range_lock_check_exact [of locked_store "''t''" "[1]" "[]"]
      range_lock_check_exact [of locked_store "''t''" "[6]" "[]"]
    by (simp add: in_range_def)
qed

section \<open>Commits of system rows\<close>

text \<open>The tables in which the router keeps its own records on the global shard.\<close>

definition system_table :: "string \<Rightarrow> bool" where
  "system_table table \<longleftrightarrow>
     table \<in> {DIST_TXN_COORDINATOR_TABLE, DIST_TXN_SEQUENCE_TABLE, SHARD_MIGRATIONS_TABLE}"

lemma system_table_facts:
  assumes "system_table table"
  shows "table_is_reserved table" "\<not> meta_table table" "table \<notin> dist_tables" "sized_table table"
    "utf8_valid (as_bytes table)" "table \<noteq> TXN_META_TABLE"
  using assms
  by (auto simp: system_table_def DIST_TXN_SEQUENCE_TABLE_def SHARD_MIGRATIONS_TABLE_def
      table_is_reserved_def RESERVED_KEYSPACE_PREFIX_def meta_table_def
      table_name_defs dist_table_defs dist_tables_def sized_table_def as_bytes_def)

definition system_set :: "write_set \<Rightarrow> bool" where
  "system_set W \<longleftrightarrow> (\<forall>table key. written W table key \<longrightarrow> system_table table)"

lemma system_set_shape:
  assumes "system_set W"
  shows "separate_set W" "sized_set W" "validate_write_locks cs read W = Inr ()"
    "\<not> system_table table \<Longrightarrow> bt_get W (table, key) = None"
    "\<not> table_is_reserved table \<Longrightarrow> bt_get W (table, key) = None"
proof -
  show "separate_set W"
    using assms system_table_facts(2,6) unfolding separate_set_def system_set_def by metis
  show "sized_set W"
    using assms system_table_facts(4) unfolding sized_set_def system_set_def by metis
  show "\<not> system_table table \<Longrightarrow> bt_get W (table, key) = None"
    using assms unfolding system_set_def by blast
  show none: "\<not> table_is_reserved table \<Longrightarrow> bt_get W (table, key) = None" for table key
    using assms system_table_facts(1) unfolding system_set_def by metis
  have "table_is_reserved (fst tk)" if "tk \<in> set (bt_keys W)" for tk
    using that none [of "fst tk" "snd tk"] by (cases "table_is_reserved (fst tk)") (auto simp: bt_keys_iff)
  then show "validate_write_locks cs read W = Inr ()"
    by (auto simp: validate_write_locks_def case_prod_beta)
qed

lemma system_after:
  assumes "codecs_ok cs" and "dist_wf cs c s" and "c \<noteq> - 1" and "system_set W"
    and "s' = commit_store cs (next_record cs ck c W s) s"
  shows "dist_wf cs (c + 1) s'" and "participant_abs cs s' = participant_abs cs s"
proof -
  note wf = dist_wfD [OF assms(2)]
  note shape = system_set_shape [OF assms(4)]
  note rows = dist_rows_after [OF shape(1) assms(5)]
  have none: "bt_get W (t, k) = None" if "t \<in> dist_tables" for t k
    using shape(4) that system_table_facts(3) by blast
  have same: "bt_get (s' DIST_TXN_PARTICIPANT_TABLE) k = bt_get (s DIST_TXN_PARTICIPANT_TABLE) k"
      "bt_get (s' DIST_TXN_FINISHED_TABLE) k = bt_get (s DIST_TXN_FINISHED_TABLE) k"
      "bt_get (s' LOCKS_TABLE) k = bt_get (s LOCKS_TABLE) k"
      "bt_get (s' TXN_META_TABLE) LOCK_FORMAT_KEY = bt_get (s TXN_META_TABLE) LOCK_FORMAT_KEY" for k
    by (simp_all add: rows none dist_tables_def)
  have prep: "prepared_ops cs s' = prepared_ops cs s" and fin: "finished_decision cs s' = finished_decision cs s"
    by (simp_all add: fun_eq_iff prepared_ops_def finished_decision_def same)
  have "s' DIST_TXN_PARTICIPANT_TABLE = s DIST_TXN_PARTICIPANT_TABLE"
    by (rule bt_eqI) (simp add: same)
  then have "participant_rows_ok cs s'" "finished_rows_ok cs s'" "locks_ok cs s'" "format_ok s'"
    using wf by (simp_all add: participant_rows_ok_def finished_rows_ok_def locks_ok_def format_ok_def same prep)
  then show "dist_wf cs (c + 1) s'"
    by (rule dist_wf_after [OF assms(1) wf(1) shape(1) assms(3,5)])
  have "(\<lambda>table key. if table_is_reserved table then None else bt_get (s' table) key) =
      (\<lambda>table key. if table_is_reserved table then None else bt_get (s table) key)"
    by (intro ext) (simp add: rows shape(5))
  then show "participant_abs cs s' = participant_abs cs s"
    by (simp add: participant_abs_def prep fin)
qed

lemma system_rows_after:
  assumes "commits cs ts s s'" and "\<not> meta_table table" and "table \<noteq> TXN_META_TABLE" and "table \<notin> ts"
  shows "s' table = s table"
  using assms unfolding commits_def by (metis other_table_after)

section \<open>Conditional commits\<close>

definition condition_holds :: "(string \<Rightarrow> bytes \<Rightarrow> bytes option) \<Rightarrow> write_condition \<Rightarrow> bool" where
  "condition_holds rows c =
     (case c of
        KeyMissing table key \<Rightarrow> rows table key = None
      | ValueEquals table key expected \<Rightarrow> rows table key = expected)"

lemma check_conditions_store:
  "check_conditions (store_reader s) conditions =
     (if \<forall>c \<in> set conditions. condition_holds (\<lambda>t k. bt_get (s t) k) c then Inr () else Inl Conflict)"
proof -
  have "condition_matches (store_reader s) c = Inr (condition_holds (\<lambda>t k. bt_get (s t) k) c)" for c
    by (cases c) (simp_all add: condition_holds_def)
  then show ?thesis
    unfolding check_conditions_def by (induction conditions) auto
qed

context storage_engine
begin

lemma conditional_in_storage_simulates:
  assumes "healthy db"
  shows "simulates (conditional_in_storage eng cs ck conditions ops db)
    (conditional_in_storage store_engine cs ck conditions ops (db_store db))"
proof -
  obtain t where t: "e_begin_write eng db = Inr t" "tx_rel db t (db_store db)"
    using begin_write_rel [OF assms] .
  have read: "w_reader (e_writer eng) t = store_reader (db_store db)"
    using t(2) reader by (auto simp: tx_rel_def)
  show ?thesis
    using assms t(1) finish_commit_simulates [OF assms stage_commit_rel [OF t(2) pass_through_rel]]
    by (auto simp: conditional_in_storage_def read simulates_def
        commit_write_set_in_txn_with_extra_authorized_def split: sum.split)
qed

end

lemma conditional_store:
  assumes "codecs_ok cs" and "txn_wf cs c s" and "sized_set (ops_to_write_set ops)"
    and "separate_set (ops_to_write_set ops)"
    and "validate_write_locks cs (store_reader s) (ops_to_write_set ops) = Inr ()" and "ops \<noteq> []"
  shows "conditional_in_storage store_engine cs ck conditions ops s =
    (if \<not> (\<forall>cond \<in> set conditions. condition_holds (\<lambda>t k. bt_get (s t) k) cond) then (s, Inl Conflict)
     else if c = - 1 then (s, Inl (Backend ''transaction id overflow''))
     else (commit_store cs (next_record cs ck c (ops_to_write_set ops) s) s, Inr (c + 1)))"
proof -
  let ?W = "ops_to_write_set ops"
  have "\<nexists>table key. written ?W table key \<and> row_version s table key > c"
    using last_key_version_wf(2) [OF assms(2)] sized_setD [OF assms(3)] by (metis bt_keys_iff not_le)
  from stage_commit_store [OF assms(1-5) this] show ?thesis
    using assms(6) txn_wfD(1) [OF assms(2)]
    by (simp add: conditional_in_storage_def check_conditions_store finish_commit_def
        commit_write_set_in_txn_with_extra_authorized_def)
qed

section \<open>The keyspace inventory is complete\<close>

text \<open>Rust strings are UTF-8 and no longer than the address space.\<close>

definition table_name :: "string \<Rightarrow> bool" where
  "table_name table \<longleftrightarrow> utf8_valid (as_bytes table) \<and> sized_table table"

definition public_table :: "string \<Rightarrow> bool" where
  "public_table table \<longleftrightarrow> table_name table \<and> \<not> table_is_reserved table"

definition batch_ok :: "op list \<Rightarrow> bool" where
  "batch_ok ops \<longleftrightarrow> (\<forall>op \<in> set ops. public_table (op_table op))"

lemma batch_okD:
  assumes "batch_ok ops"
  shows "validate_public_ops ops = Inr ()" "sized_set (ops_to_write_set ops)" "op_table ` set ops \<subseteq> Collect table_name"
proof -
  show "validate_public_ops ops = Inr ()" "op_table ` set ops \<subseteq> Collect table_name"
    using assms by (auto simp: batch_ok_def public_table_def validate_public_ops_iff)
  show "sized_set (ops_to_write_set ops)"
    using assms unfolding sized_set_def ops_to_write_set_keys by (auto simp: batch_ok_def public_table_def table_name_def)
qed

definition registry_ok :: "store \<Rightarrow> bool" where
  "registry_ok s \<longleftrightarrow>
     (\<forall>k. bt_get (s KEYSPACE_REGISTRY_TABLE) k \<noteq> None \<longrightarrow> utf8_valid k \<and> length k < 2 ^ 64) \<and>
     (\<forall>table key. \<not> table_is_reserved table \<and> bt_get (s table) key \<noteq> None \<longrightarrow>
        bt_get (s KEYSPACE_REGISTRY_TABLE) (as_bytes table) \<noteq> None)"

definition prepared_batches_ok :: "participant_spec \<Rightarrow> bool" where
  "prepared_batches_ok a \<longleftrightarrow> (\<forall>i ops. ps_prepared a i = Some ops \<longrightarrow> batch_ok ops)"

definition internal_keyspaces :: "string set" where
  "internal_keyspaces = {TXN_META_TABLE, TXN_VERSIONS_TABLE, TXN_MVCC_TABLE, COMMIT_LOG_TABLE,
     KEYSPACE_REGISTRY_TABLE, HLC_TABLE, TABLE_DATA_VERSION_TABLE}"

lemma internal_names: "t \<in> internal_keyspaces \<union> dist_tables \<Longrightarrow> table_name t"
  by (auto simp: table_name_def sized_table_def internal_keyspaces_def dist_tables_def table_name_defs dist_table_defs as_bytes_def)

lemma set_bt_keys_insert [simp]: "set (bt_keys (bt_insert k v m)) = insert k (set (bt_keys m))"
  by (auto simp: set_eq_iff bt_keys_iff)

lemma fold_keyspaces:
  defines "f \<equiv> \<lambda>table keyspaces. bt_insert table ()
      (if \<not> table_is_reserved table then bt_insert TABLE_DATA_VERSION_TABLE () keyspaces else keyspaces)"
  shows "set tables \<union> set (bt_keys m) \<subseteq> set (bt_keys (fold f tables m))"
    and "set (bt_keys (fold f tables m)) \<subseteq> insert TABLE_DATA_VERSION_TABLE (set tables \<union> set (bt_keys m))"
proof -
  have step: "insert table (set (bt_keys m)) \<subseteq> set (bt_keys (f table m))"
    "set (bt_keys (f table m)) \<subseteq> insert TABLE_DATA_VERSION_TABLE (insert table (set (bt_keys m)))" for table m
    by (auto simp: f_def)
  show "set tables \<union> set (bt_keys m) \<subseteq> set (bt_keys (fold f tables m))"
  proof (induction tables arbitrary: m)
    case (Cons table tables)
    then show ?case
      using Cons.IH [of "f table m"] step(1) [of table m] by auto
  qed simp
  show "set (bt_keys (fold f tables m)) \<subseteq> insert TABLE_DATA_VERSION_TABLE (set tables \<union> set (bt_keys m))"
  proof (induction tables arbitrary: m)
    case (Cons table tables)
    then show ?case
      using Cons.IH [of "f table m"] step(2) [of table m] by auto
  qed auto
qed

lemma keyspaces_bounds:
  "set tables \<subseteq> set (keyspaces_for_commit tables)"
  "set (keyspaces_for_commit tables) \<subseteq> internal_keyspaces \<union> set tables"
  using fold_keyspaces [of tables "string_set [TXN_META_TABLE, TXN_VERSIONS_TABLE, TXN_MVCC_TABLE,
      COMMIT_LOG_TABLE, KEYSPACE_REGISTRY_TABLE, HLC_TABLE]"]
  by (auto simp: keyspaces_for_commit_def Let_def set_string_set internal_keyspaces_def)

lemma registry_after:
  assumes "registry_ok s" and "commits cs ts s s'" and "ts \<subseteq> Collect table_name"
  shows "registry_ok s'"
proof (cases "s' = s")
  case True
  then show ?thesis
    using assms(1) by simp
next
  case False
  then obtain ck c W where W: "separate_set W" "\<And>table key. written W table key \<Longrightarrow> table \<in> ts"
      "s' = commit_store cs (next_record cs ck c W s) s"
    using assms(2) unfolding commits_def by blast
  let ?tables = "map clw_table (clr_writes (next_record cs ck c W s))"
  have tables: "t \<in> set ?tables \<longleftrightarrow> (\<exists>key. written W t key)" for t
  proof -
    have "t \<in> set ?tables \<longleftrightarrow> (\<exists>w. bt_get W (clw_row w) = Some (clw_value w) \<and> clw_table w = t)"
      unfolding set_map [of clw_table] image_iff Bex_def next_record_simps(4) record_writes_iff by metis
    also have "\<dots> \<longleftrightarrow> (\<exists>key. written W t key)"
      by (metis commit_log_write.sel not_None_eq)
    finally show ?thesis .
  qed
  have reg: "bt_get (s' KEYSPACE_REGISTRY_TABLE) k =
      (if k \<in> as_bytes ` set (keyspaces_for_commit ?tables)
       then Some KEYSPACE_PRESENT_VALUE else bt_get (s KEYSPACE_REGISTRY_TABLE) k)" for k
    unfolding W(3) by (rule commit_store_registry [OF next_record_facts(2) [OF W(1)]])
  have names: "utf8_valid k \<and> length k < 2 ^ 64" if "bt_get (s' KEYSPACE_REGISTRY_TABLE) k \<noteq> None" for k
  proof (cases "k \<in> as_bytes ` set (keyspaces_for_commit ?tables)")
    case True
    then obtain t where "k = as_bytes t" "t \<in> internal_keyspaces \<union> set ?tables"
      using keyspaces_bounds(2) [of ?tables] by blast
    then have "k = as_bytes t" "table_name t"
      using internal_names [of t] tables [of t] W(2) assms(3) by blast+
    then show ?thesis
      by (simp add: table_name_def sized_table_def)
  next
    case False
    then show ?thesis
      using that assms(1) unfolding registry_ok_def reg if_not_P [OF False] by blast
  qed
  have "bt_get (s' KEYSPACE_REGISTRY_TABLE) (as_bytes table) \<noteq> None"
    if public: "\<not> table_is_reserved table" and row: "bt_get (s' table) key \<noteq> None" for table key
  proof (cases "written W table key")
    case True
    then have "table \<in> set (keyspaces_for_commit ?tables)"
      using tables keyspaces_bounds(1) [of ?tables] by blast
    then show ?thesis
      unfolding reg by simp
  next
    case False
    have "bt_get (s' table) key = bt_get (s table) key"
      using dist_rows_after(5) [OF W(1,3) public] False by simp
    then have "bt_get (s KEYSPACE_REGISTRY_TABLE) (as_bytes table) \<noteq> None"
      using row public assms(1) unfolding registry_ok_def by metis
    then show ?thesis
      unfolding reg by simp
  qed
  then show ?thesis
    using names unfolding registry_ok_def by blast
qed

lemma as_bytes_of_chars: "as_bytes (map (\<lambda>b. char_of (unat b)) bs) = bs"
proof -
  have "(of_char (char_of (unat b)) :: u8) = b" for b :: u8
  proof -
    have "unat (of_char (char_of (unat b)) :: u8) = unat b"
      using unat_u8_less [of b] by (simp add: unat_of_char_u8)
    then show ?thesis
      by (rule injD [OF inj_unsigned])
  qed
  then show ?thesis
    by (simp add: as_bytes_def o_def)
qed

lemma registered_keyspaces_store:
  assumes "registry_ok s"
  shows "\<exists>tables. registered_public_keyspaces describe
      (\<lambda>table start end _. storage_err (rd_rows (store_reader s) table start end)) = Inr tables \<and>
    (\<forall>table \<in> set tables. public_table table) \<and>
    (\<forall>table key. \<not> table_is_reserved table \<and> bt_get (s table) key \<noteq> None \<longrightarrow> table \<in> set tables)"
proof -
  let ?rows = "bt_entries (s KEYSPACE_REGISTRY_TABLE)"
  have valid: "\<forall>row \<in> set ?rows. utf8_valid (fst row) \<and> length (fst row) < 2 ^ 64"
    using assms unfolding registry_ok_def by (auto simp: bt_entries_iff)
  define name where "name = (\<lambda>row :: row. map (\<lambda>b. char_of (unat b)) (fst row))"
  have "rmap (\<lambda>name. name) (filter (\<lambda>name. case name of Inr table \<Rightarrow> \<not> table_is_reserved table | Inl _ \<Rightarrow> True)
      (map (\<lambda>(key, _). map_err (\<lambda>err. RStorage (Corruption (''invalid keyspace inventory name: '' @ err)))
                    (from_utf8 describe key)) rows)) =
      Inr (filter (\<lambda>table. \<not> table_is_reserved table) (map name rows))" if "set rows \<subseteq> set ?rows" for rows
    using that valid by (induction rows) (auto simp: from_utf8_def name_def)
  then have "registered_public_keyspaces describe
      (\<lambda>table start end _. storage_err (rd_rows (store_reader s) table start end)) =
      Inr (filter (\<lambda>table. \<not> table_is_reserved table) (map name ?rows))"
    by (simp add: registered_public_keyspaces_def)
  moreover have "table_name (name row)" if "row \<in> set ?rows" for row
    using that valid by (auto simp: name_def table_name_def sized_table_def as_bytes_of_chars)
  moreover have "table \<in> name ` set ?rows" if "\<not> table_is_reserved table" "bt_get (s table) key \<noteq> None" for table key
  proof -
    have "bt_get (s KEYSPACE_REGISTRY_TABLE) (as_bytes table) \<noteq> None"
      using that assms unfolding registry_ok_def by blast
    then obtain v where "(as_bytes table, v) \<in> set ?rows"
      unfolding bt_entries_iff by blast
    moreover have "name (as_bytes table, v) = table"
      by (simp add: name_def as_bytes_def o_def char_of_byte)
    ultimately show ?thesis
      by (metis image_eqI)
  qed
  ultimately show ?thesis
    by (intro exI conjI) (auto simp: public_table_def, blast)
qed

section \<open>The contract of a shard\<close>

locale backend =
  fixes rp :: "'n replication"
    and ok :: "'n \<Rightarrow> bool"
    and room :: "'n \<Rightarrow> nat"
    and view :: "'n \<Rightarrow> participant_spec"
    and sys :: "'n \<Rightarrow> string \<Rightarrow> bytes \<Rightarrow> bytes option"
  assumes propose: "\<lbrakk>ok n; 0 < room n; batch_ok ops; rp_propose_batch rp ops n = (n', r)\<rbrakk> \<Longrightarrow>
      ok n' \<and> room n \<le> Suc (room n') \<and> sys n' = sys n \<and> spec_propose ops (view n) = (view n', r)"
    and prepare: "\<lbrakk>ok n; 0 < room n; batch_ok ops; rp_prepare_dist_txn rp i ops n = (n', voted)\<rbrakk> \<Longrightarrow>
      ok n' \<and> room n \<le> Suc (room n') \<and> sys n' = sys n \<and>
      (\<exists>v. voted = Inr v \<and> spec_prepare i ops (view n) = (view n', v))"
    and finish: "\<lbrakk>ok n; 0 < room n; rp_finish_dist_txn rp i d n = (n', r)\<rbrakk> \<Longrightarrow>
      ok n' \<and> room n \<le> Suc (room n') \<and> sys n' = sys n \<and> spec_finish i d (view n) = (view n', r)"
    and system_put: "\<lbrakk>ok n; 0 < room n; system_table t; rp_propose_authorized_batch rp [OpPut t k v] n = (n', r)\<rbrakk> \<Longrightarrow>
      ok n' \<and> room n \<le> Suc (room n') \<and> view n' = view n \<and> r = Inr () \<and>
      sys n' = (sys n)(t := (sys n t)(k \<mapsto> v))"
    and system_conditional: "\<lbrakk>ok n; 0 < room n; system_table t; fst (condition_parts c) = t;
        rp_propose_authorized_conditional_batch rp [c] [OpPut t k v] n = (n', r)\<rbrakk> \<Longrightarrow>
      ok n' \<and> room n \<le> Suc (room n') \<and> view n' = view n \<and>
      (if condition_holds (sys n) c then r = Inr () \<and> sys n' = (sys n)(t := (sys n t)(k \<mapsto> v))
       else r = Inl RConflict \<and> sys n' = sys n)"
    and system_read: "\<lbrakk>ok n; system_table t\<rbrakk> \<Longrightarrow> rp_read rp n t k con = Inr (sys n t k)"
    and system_range: "\<lbrakk>ok n; system_table t\<rbrakk> \<Longrightarrow>
      \<exists>m. bt_get m = sys n t \<and> rp_range rp n t [] [] con = Inr (bt_entries m)"
    and id_range: "\<lbrakk>ok n; t \<in> {DIST_TXN_PARTICIPANT_TABLE, DIST_TXN_FINISHED_TABLE}\<rbrakk> \<Longrightarrow>
      \<exists>m. rp_range rp n t [] [] con = Inr (bt_entries m) \<and> set (bt_keys m) = txn_key `
        (if t = DIST_TXN_PARTICIPANT_TABLE then dom (ps_prepared (view n)) else dom (ps_finished (view n)))"
    and public_read: "\<lbrakk>ok n; public_table t\<rbrakk> \<Longrightarrow> rp_read rp n t k con =
      (if spec_locked (view n) t k then Inl (RStorage Conflict) else Inr (ps_rows (view n) t k))"
    and public_range: "\<lbrakk>ok n; public_table t\<rbrakk> \<Longrightarrow> \<exists>m. bt_get m = ps_rows (view n) t \<and>
      rp_range rp n t start end con =
        (if \<exists>k. in_range start end k \<and> spec_locked (view n) t k then Inl (RStorage Conflict)
         else Inr (bt_range start end m))"
    and public_scan: "\<lbrakk>ok n; public_table t\<rbrakk> \<Longrightarrow> rp_scan_range_batches rp n t start end con batch_rows =
      ScanCheck (ScanEnd (Inr ()))
        (case rp_range rp n t start end con of
           Inl e \<Rightarrow> ScanEnd (Inl e)
         | Inr rows \<Rightarrow> scan_loop (min (max batch_rows 1) 1024) (map Inr rows) [])"
    and bounded: "rp_supports_bounded_scans rp n"
    and keyspaces: "ok n \<Longrightarrow> \<exists>ts. rp_registered_keyspaces rp n = Inr ts \<and> (\<forall>t \<in> set ts. public_table t) \<and>
      (\<forall>t k. ps_rows (view n) t k \<noteq> None \<longrightarrow> t \<in> set ts)"
    and recover: "\<lbrakk>ok n; \<And>i. ps_prepared (view n) i \<noteq> None \<Longrightarrow> sys n DIST_TXN_COORDINATOR_TABLE (txn_key i) = None\<rbrakk> \<Longrightarrow>
      rp_recover_dist_txns rp n = (n, Inr ())"
    and wf: "ok n \<Longrightarrow> spec_disjoint (view n) \<and>
      (\<forall>i. ps_finished (view n) i \<noteq> None \<longrightarrow> ps_prepared (view n) i = None)"

section \<open>Single nodes fulfil the contract\<close>

definition node_room :: "mem_engine clocked \<Rightarrow> nat" where
  "node_room n = unat (- 1 - projr (current_txn_id_from (store_reader (mem_state (sn_storage (fst n))))))"

definition backend_ok :: "codecs \<Rightarrow> mem_engine clocked \<Rightarrow> bool" where
  "backend_ok cs n \<longleftrightarrow> codecs_ok cs \<and> (\<exists>c. node_ok cs c (fst n)) \<and> registry_ok (mem_state (sn_storage (fst n))) \<and>
     prepared_batches_ok (node_abs cs (fst n))"

abbreviation node_view :: "codecs \<Rightarrow> mem_engine clocked \<Rightarrow> participant_spec" where
  "node_view cs n \<equiv> node_abs cs (fst n)"

definition node_sys :: "mem_engine clocked \<Rightarrow> string \<Rightarrow> bytes \<Rightarrow> bytes option" where
  "node_sys n t k = (if system_table t then bt_get (mem_state (sn_storage (fst n)) t) k else None)"

lemma node_room_ok:
  assumes "node_ok cs c (fst n)"
  shows "node_room n = unat (- 1 - c)" "0 < node_room n \<longleftrightarrow> c \<noteq> - 1"
proof -
  show room: "node_room n = unat (- 1 - c)"
    using assms by (simp add: node_room_def node_ok_def dist_wf_def txn_wf_def)
  show "0 < node_room n \<longleftrightarrow> c \<noteq> - 1"
    unfolding room by (metis eq_iff_diff_eq_0 unat_gt_0)
qed

lemma room_after:
  assumes "c' = c \<or> c' = c + 1" and "c \<noteq> - 1"
  shows "unat (- 1 - c :: txn_id) \<le> Suc (unat (- 1 - c'))"
proof -
  have "unat (x + 1 :: txn_id) \<le> Suc (unat x)" for x
    using mod_less_eq_dividend [of "unat x + 1"] by (simp add: unat_word_ariths(1))
  from this [of "- 1 - (c + 1)"] show ?thesis
    using assms(1) by auto
qed

lemma spec_handle_batches:
  assumes "prepared_batches_ok a" and "batch_ok (request_ops req)" and "spec_handle req a = (a', reply)"
  shows "prepared_batches_ok a'"
proof -
  have a': "a' = fst (spec_handle req a)"
    using assms(3) by simp
  have "\<exists>i. ps_prepared a' = ps_prepared a \<or> ps_prepared a' = (ps_prepared a)(i := None) \<or>
      ps_prepared a' = (ps_prepared a)(i \<mapsto> request_ops req)"
  proof (cases req)
    case (Prepare i ops)
    then show ?thesis
      using spec_handle_state(1) [of i ops a] spec_prepare_state [of i ops a] unfolding a' by fastforce
  next
    case (Finish i d)
    then show ?thesis
      using spec_handle_state(2) [of i d a] spec_finish_state [of i d a] unfolding a' by metis
  next
    case (Propose ops)
    then show ?thesis
      using spec_handle_state(3) [of ops a] spec_propose_state [of ops a] unfolding a' by fastforce
  qed
  then show ?thesis
    using assms(1,2) by (auto simp: prepared_batches_ok_def split: if_splits)
qed

lemma node_step:
  assumes "codecs_ok cs" and "backend_ok cs n" and "0 < node_room n" and "batch_ok (request_ops req)"
    and "handle cs ck req (fst n) = (node', reply)"
  shows "backend_ok cs (node', clock)" "node_room n \<le> Suc (node_room (node', clock))"
    "node_sys (node', clock) = node_sys n"
    "spec_handle req (node_view cs n) = (node_abs cs node', reply)"
proof -
  let ?s = "mem_state (sn_storage (fst n))" and ?s' = "mem_state (sn_storage node')"
  obtain c where c: "node_ok cs c (fst n)" "c \<noteq> - 1"
    using assms(2,3) node_room_ok(2) unfolding backend_ok_def by metis
  have ok: "registry_ok ?s" "prepared_batches_ok (node_view cs n)"
    using assms(2) by (simp_all add: backend_ok_def)
  obtain c' where c': "c' = c \<or> c' = c + 1" "node_ok cs c' node'"
      and commits: "commits cs (request_tables req (node_view cs n)) ?s ?s'"
      and spec: "spec_handle req (node_view cs n) = (node_abs cs node', reply)"
    using handle_refines [OF assms(1) c batch_okD(2) [OF assms(4)] assms(5)] by blast
  show "spec_handle req (node_view cs n) = (node_abs cs node', reply)"
    by (rule spec)
  have "batch_ok (case ps_prepared (node_view cs n) i of None \<Rightarrow> [] | Some ops \<Rightarrow> ops)" for i
    using ok(2) by (cases "ps_prepared (node_view cs n) i") (simp_all add: prepared_batches_ok_def batch_ok_def)
  then have tables: "request_tables req (node_view cs n) \<subseteq> dist_tables \<union> Collect public_table"
    using assms(4) by (auto simp: request_tables_def batch_ok_def split: participant_request.splits)
  then have "request_tables req (node_view cs n) \<subseteq> Collect table_name"
    using internal_names by (auto simp: public_table_def)
  then have "registry_ok ?s'"
    by (rule registry_after [OF ok(1) commits])
  then show "backend_ok cs (node', clock)"
    using assms(1) c'(2) spec_handle_batches [OF ok(2) assms(4) spec] by (auto simp: backend_ok_def)
  show "node_room n \<le> Suc (node_room (node', clock))"
    using room_after [OF c'(1) c(2)] node_room_ok(1) [OF c(1)] node_room_ok(1) [of cs c' "(node', clock)"] c'(2)
    by simp
  have "?s' t = ?s t" if "system_table t" for t
  proof (rule system_rows_after [OF commits])
    show "t \<notin> request_tables req (node_view cs n)"
      using tables system_table_facts(1,3) [OF that] by (auto simp: public_table_def)
  qed (use system_table_facts [OF that] in simp_all)
  then show "node_sys (node', clock) = node_sys n"
    by (auto simp: node_sys_def fun_eq_iff)
qed

lemma authorized_is_conditional:
  "ops \<noteq> [] \<Longrightarrow> commit_ops_at_current_authorized eng cs ck db ops = conditional_in_storage eng cs ck [] ops db"
proof -
  assume "ops \<noteq> []"
  then have "\<not> bt_is_empty (ops_to_write_set ops)"
    by (metis bt_is_empty_iff list.set_sel(1) ops_to_write_set_keys)
  with \<open>ops \<noteq> []\<close> show ?thesis
    by (simp add: commit_ops_at_current_authorized_def commit_write_set_at_current_authorized_def
        conditional_in_storage_def check_conditions_def split: sum.split)
qed

lemma node_conditions:
  "system_table (fst (condition_parts cond)) \<Longrightarrow>
     condition_holds (\<lambda>t k. bt_get (mem_state (sn_storage (fst n)) t) k) cond = condition_holds (node_sys n) cond"
  by (cases cond) (auto simp: condition_holds_def node_sys_def)

lemma node_system:
  assumes "codecs_ok cs" and "backend_ok cs n" and "0 < node_room n" and "system_table t"
    and "\<forall>c \<in> set conditions. system_table (fst (condition_parts c))"
    and "conditional_in_storage mem_engine_ops cs ck conditions [OpPut t k v] (sn_storage (fst n)) = (db', r)"
    and "n' = ((fst n)\<lparr>sn_storage := db'\<rparr>, clock)"
  shows "backend_ok cs n'" "node_room n \<le> Suc (node_room n')" "node_view cs n' = node_view cs n"
    "if \<forall>c \<in> set conditions. condition_holds (node_sys n) c
     then (\<exists>i. r = Inr i) \<and> node_sys n' = (node_sys n)(t := (node_sys n t)(k \<mapsto> v))
     else r = Inl Conflict \<and> node_sys n' = node_sys n"
proof -
  let ?s = "mem_state (sn_storage (fst n))" and ?s' = "mem_state db'"
  let ?W = "ops_to_write_set [OpPut t k v]"
  obtain c where c: "node_ok cs c (fst n)" "c \<noteq> - 1"
    using assms(2,3) node_room_ok(2) unfolding backend_ok_def by metis
  then have node: "mem_healthy (sn_storage (fst n))" "\<not> sn_lock_poisoned (fst n)" "sn_window (fst n) = 0"
      "dist_wf cs c ?s"
    by (simp_all add: node_ok_def)
  have ok: "registry_ok ?s" "prepared_batches_ok (node_view cs n)"
    using assms(2) by (simp_all add: backend_ok_def)
  have W: "bt_get ?W (t', k') = (if t' = t \<and> k' = k then Some (Some v) else None)" for t' k'
    by (simp add: ops_to_write_set_def)
  then have set: "system_set ?W"
    using assms(4) by (auto simp: system_set_def split: if_splits)
  note shape = system_set_shape [OF set]
  have sim: "mem_healthy db'" "conditional_in_storage store_engine cs ck conditions [OpPut t k v] ?s = (?s', r)"
    using mem.conditional_in_storage_simulates [OF node(1), of cs ck conditions "[OpPut t k v]"] assms(6)
    by (auto simp: mem.simulates_def prod_eq_iff)
  have agree: "(\<forall>cond \<in> set conditions. condition_holds (\<lambda>t k. bt_get (?s t) k) cond) \<longleftrightarrow>
      (\<forall>cond \<in> set conditions. condition_holds (node_sys n) cond)"
    using assms(5) node_conditions by blast
  have run: "(?s', r) =
      (if \<forall>cond \<in> set conditions. condition_holds (node_sys n) cond
       then (commit_store cs (next_record cs ck c ?W ?s) ?s, Inr (c + 1)) else (?s, Inl Conflict))"
    using conditional_store [OF assms(1) dist_wfD(1) [OF node(4)] shape(2,1,3), of ck conditions] sim(2) c(2)
    unfolding agree by (simp split: if_splits)
  have "backend_ok cs n' \<and> node_room n \<le> Suc (node_room n') \<and> node_view cs n' = node_view cs n \<and>
    (if \<forall>c \<in> set conditions. condition_holds (node_sys n) c
     then (\<exists>i. r = Inr i) \<and> node_sys n' = (node_sys n)(t := (node_sys n t)(k \<mapsto> v))
     else r = Inl Conflict \<and> node_sys n' = node_sys n)"
  proof (cases "\<forall>c \<in> set conditions. condition_holds (node_sys n) c")
    case True
    then have s': "?s' = commit_store cs (next_record cs ck c ?W ?s) ?s" and r: "r = Inr (c + 1)"
      using run by simp_all
    note after = system_after [OF assms(1) node(4) c(2) set s']
    have ok': "node_ok cs (c + 1) (fst n')"
      using node sim(1) after(1) assms(7) by (simp add: node_ok_def)
    have "commits cs {t} ?s ?s'"
    proof (rule commitsI [OF shape(1) _ s'])
      show "t' \<in> {t}" if "written ?W t' k'" for t' k'
        using that W by (auto split: if_splits)
    qed
    then have "registry_ok ?s'"
      using registry_after [OF ok(1)] system_table_facts(4,5) [OF assms(4)] by (auto simp: table_name_def)
    then have "backend_ok cs n'"
      using ok' ok(2) after(2) assms(1,7) by (auto simp: backend_ok_def)
    moreover have "node_room n \<le> Suc (node_room n')"
      using room_after [of "c + 1" c] c(2) node_room_ok(1) [OF c(1)] node_room_ok(1) [OF ok'] by simp
    moreover have "bt_get (?s' t') k' = (if t' = t \<and> k' = k then Some v else bt_get (?s t') k')"
      if "system_table t'" for t' k'
      unfolding s' using rows_after [of t' k'] system_table_facts(2,6) [OF that] W by simp
    then have "node_sys n' = (node_sys n)(t := (node_sys n t)(k \<mapsto> v))"
      using assms(4,7) by (auto simp: node_sys_def fun_eq_iff)
    ultimately show ?thesis
      using True r after(2) assms(7) by simp
  next
    case False
    then have same: "?s' = ?s" "r = Inl Conflict"
      using run by (simp_all split: if_splits)
    then have "node_ok cs c (fst n')"
      using assms(7) node sim(1) by (simp add: node_ok_def)
    then have "backend_ok cs n'"
      using ok same assms(1,7) by (auto simp: backend_ok_def)
    moreover have "node_room n' = node_room n"
      using same assms(7) by (simp add: node_room_def)
    moreover have "node_sys n' = node_sys n"
      using same assms(7) by (intro ext) (simp add: node_sys_def)
    ultimately show ?thesis
      using False same assms(7) by simp
  qed
  then show "backend_ok cs n'" "node_room n \<le> Suc (node_room n')" "node_view cs n' = node_view cs n"
    "if \<forall>c \<in> set conditions. condition_holds (node_sys n) c
     then (\<exists>i. r = Inr i) \<and> node_sys n' = (node_sys n)(t := (node_sys n t)(k \<mapsto> v))
     else r = Inl Conflict \<and> node_sys n' = node_sys n"
    by simp_all
qed


lemma node_public_read:
  assumes "backend_ok cs n" and "public_table t"
  shows "sn_read mem_engine_ops (fst n) t k con =
      (if spec_locked (node_view cs n) t k then Inl (RStorage Conflict) else Inr (ps_rows (node_view cs n) t k))"
    and "sn_range mem_engine_ops (fst n) t start end con =
      (if \<exists>k. in_range start end k \<and> spec_locked (node_view cs n) t k then Inl (RStorage Conflict)
       else Inr (bt_range start end (mem_state (sn_storage (fst n)) t)))"
    and "sn_scan_range_batches mem_engine_ops (fst n) t start end con batch_rows =
      ScanCheck (ScanEnd (Inr ()))
        (case sn_range mem_engine_ops (fst n) t start end con of
           Inl e \<Rightarrow> ScanEnd (Inl e)
         | Inr rows \<Rightarrow> scan_loop (min (max batch_rows 1) 1024) (map Inr rows) [])"
proof -
  let ?s = "mem_state (sn_storage (fst n))"
  obtain c where c: "node_ok cs c (fst n)"
    using assms(1) by (auto simp: backend_ok_def)
  then have wf: "dist_wf cs c ?s"
    by (simp add: node_ok_def)
  have open_read: "e_begin_read mem_engine_ops (sn_storage (fst n)) = Inr (store_reader ?s)"
    using mem.begin_read c by (simp add: node_ok_def)
  have t: "sized_table t" "\<not> table_is_reserved t"
    using assms(2) by (simp_all add: public_table_def table_name_def)
  have legacy: "reject_legacy_prepares (store_reader ?s) = Inr ()"
    using dist_wfD(1) [OF wf] by (simp add: txn_wf_def)
  note locked = row_locked_spec [OF wf t(1)]
  have range: "validate_read_range (store_reader ?s) t start end =
      (if \<exists>k. in_range start end k \<and> spec_locked (node_view cs n) t k then Inl Conflict else Inr ())"
    using has_range_locks_store [OF legacy t] by (simp add: validate_read_range_def locked)
  have "validate_read_key (store_reader ?s) t k =
      (if spec_locked (node_view cs n) t k then Inl Conflict else Inr ())"
    using t legacy by (simp add: validate_read_key_def locked [symmetric] row_locked_def)
  then show "sn_read mem_engine_ops (fst n) t k con =
      (if spec_locked (node_view cs n) t k then Inl (RStorage Conflict) else Inr (ps_rows (node_view cs n) t k))"
    using t(2) by (simp add: sn_read_def open_read participant_abs_def)
  show "sn_range mem_engine_ops (fst n) t start end con =
      (if \<exists>k. in_range start end k \<and> spec_locked (node_view cs n) t k then Inl (RStorage Conflict)
       else Inr (bt_range start end (?s t)))"
    by (simp add: sn_range_def open_read range)
  then show "sn_scan_range_batches mem_engine_ops (fst n) t start end con batch_rows =
      ScanCheck (ScanEnd (Inr ()))
        (case sn_range mem_engine_ops (fst n) t start end con of
           Inl e \<Rightarrow> ScanEnd (Inl e)
         | Inr rows \<Rightarrow> scan_loop (min (max batch_rows 1) 1024) (map Inr rows) [])"
    by (cases "\<exists>k. in_range start end k \<and> spec_locked (node_view cs n) t k")
      (simp_all only: sn_scan_range_batches_def open_read range rbind_simps store_reader_simps if_True if_False sum.case)
qed

lemma node_reserved_read:
  assumes "backend_ok cs n" and "table_is_reserved t"
  shows "sn_read mem_engine_ops (fst n) t k con = Inr (bt_get (mem_state (sn_storage (fst n)) t) k)"
    and "sn_range mem_engine_ops (fst n) t start end con = Inr (bt_range start end (mem_state (sn_storage (fst n)) t))"
proof -
  obtain c where "node_ok cs c (fst n)"
    using assms(1) by (auto simp: backend_ok_def)
  then have "e_begin_read mem_engine_ops (sn_storage (fst n)) = Inr (store_reader (mem_state (sn_storage (fst n))))"
    using mem.begin_read by (simp add: node_ok_def)
  then show "sn_read mem_engine_ops (fst n) t k con = Inr (bt_get (mem_state (sn_storage (fst n)) t) k)"
    "sn_range mem_engine_ops (fst n) t start end con = Inr (bt_range start end (mem_state (sn_storage (fst n)) t))"
    using assms(2) by (simp_all add: sn_read_def sn_range_def validate_read_key_def validate_read_range_def
        has_range_locks_def)
qed

lemma node_recover:
  assumes "codecs_ok cs" and "backend_ok cs n"
    and "\<And>i. ps_prepared (node_view cs n) i \<noteq> None \<Longrightarrow> node_sys n DIST_TXN_COORDINATOR_TABLE (txn_key i) = None"
  shows "recover_dist_txns mem_engine_ops cs n = (n, Inr ())"
proof -
  let ?s = "mem_state (sn_storage (fst n))" and ?rows = "bt_entries (mem_state (sn_storage (fst n)) DIST_TXN_PARTICIPANT_TABLE)"
  obtain c where c: "node_ok cs c (fst n)"
    using assms(2) by (auto simp: backend_ok_def)
  then have wf: "dist_wf cs c ?s"
    by (simp add: node_ok_def)
  have open_read: "e_begin_read mem_engine_ops (sn_storage (fst n)) = Inr (store_reader ?s)"
    using mem.begin_read c by (simp add: node_ok_def)
  define dec where "dec = (\<lambda>row :: row. projr (decode_prepared cs (snd row)))"
  have row: "decode_prepared cs (snd row) = Inr (dec row) \<and> prepared_ops cs ?s (pr_txn_id (dec row)) \<noteq> None"
    if "row \<in> set ?rows" for row
  proof -
    have get: "bt_get (?s DIST_TXN_PARTICIPANT_TABLE) (fst row) = Some (snd row)"
      using that by (simp add: bt_entries_iff [symmetric])
    then obtain i where i: "fst row = txn_key i"
      using dist_wfD(2) [OF wf] txn_key_surj unfolding participant_rows_ok_def by (metis option.distinct(1))
    then obtain r where "decode_prepared cs (snd row) = Inr r" "pr_txn_id r = i"
      using dist_wfD(2) [OF wf] get unfolding participant_rows_ok_def by metis
    then show ?thesis
      using get i by (simp add: dec_def prepared_ops_def)
  qed
  have "rmap (\<lambda>entry. rbind entry (\<lambda>(_, bs). decode_prepared cs bs)) (map Inr rows) = Inr (map dec rows)"
    if "set rows \<subseteq> set ?rows" for rows
    using that row by (induction rows) (simp_all add: case_prod_beta)
  then have "local_prepared_dist_txns mem_engine_ops cs (fst n) = Inr (map dec ?rows)"
    by (simp add: local_prepared_dist_txns_def open_read)
  moreover have loop: "recover_loop mem_engine_ops cs records n = (n, Inr ())"
    if "\<And>r. r \<in> set records \<Longrightarrow> prepared_ops cs ?s (pr_txn_id r) \<noteq> None" for records
    using that
  proof (induction records)
    case (Cons r records)
    then have "node_sys n DIST_TXN_COORDINATOR_TABLE (txn_key (pr_txn_id r)) = None"
      using assms(3) by (simp add: participant_abs_def)
    then have "load_dist_txn_decision mem_engine_ops cs (fst n) (pr_txn_id r) = Inr None"
      by (simp add: load_dist_txn_decision_def open_read node_sys_def system_table_def)
    then show ?case
      using Cons by simp
  qed simp
  have "recover_loop mem_engine_ops cs (map dec ?rows) n = (n, Inr ())"
    by (rule loop) (use row in fastforce)
  ultimately show ?thesis
    by (simp add: recover_dist_txns_def)
qed

lemma id_keys:
  assumes "dist_wf cs c s"
  shows "set (bt_keys (s DIST_TXN_PARTICIPANT_TABLE)) = txn_key ` dom (prepared_ops cs s)"
    and "set (bt_keys (s DIST_TXN_FINISHED_TABLE)) = txn_key ` dom (finished_decision cs s)"
proof -
  have keys: "set (bt_keys m) = txn_key ` {i. bt_get m (txn_key i) \<noteq> None}"
    if "\<And>k. bt_get m k \<noteq> None \<Longrightarrow> length k = 8" for m :: "(bytes, bytes) btm"
    using that txn_key_surj by (auto simp: bt_keys_iff image_iff) (metis option.distinct(1))
  show "set (bt_keys (s DIST_TXN_PARTICIPANT_TABLE)) = txn_key ` dom (prepared_ops cs s)"
    "set (bt_keys (s DIST_TXN_FINISHED_TABLE)) = txn_key ` dom (finished_decision cs s)"
    using dist_wfD(2,3) [OF assms]
    by (subst keys; force simp: participant_rows_ok_def finished_rows_ok_def prepared_ops_def finished_decision_def)+
qed

lemma timedD:
  "timed f n = (n', r) \<Longrightarrow> \<exists>node'. f (snd n 0) (fst n) = (node', r) \<and> n' = (node', \<lambda>k. snd n (Suc k))"
  by (auto simp: timed_def split: prod.splits)

lemma backend_okD:
  assumes "backend_ok cs n"
  shows "codecs_ok cs" "\<exists>c. node_ok cs c (fst n)" "registry_ok (mem_state (sn_storage (fst n)))"
    "\<not> sn_lock_poisoned (fst n)"
  using assms by (auto simp: backend_ok_def node_ok_def)

lemma node_request:
  assumes "backend_ok cs n" and "0 < node_room n" and "batch_ok (request_ops req)"
    and "timed (\<lambda>ck node. run ck node) n = (n', r)"
    and "\<And>ck node node'. run ck node = (node', r) \<Longrightarrow> handle cs ck req node = (node', reply)"
  shows "backend_ok cs n' \<and> node_room n \<le> Suc (node_room n') \<and> node_sys n' = node_sys n \<and>
    spec_handle req (node_view cs n) = (node_view cs n', reply)"
proof -
  obtain node' where run: "run (snd n 0) (fst n) = (node', r)" "n' = (node', \<lambda>k. snd n (Suc k))"
    using timedD [OF assms(4)] by blast
  from node_step [OF backend_okD(1) [OF assms(1)] assms(1-3) assms(5) [OF run(1)]] show ?thesis
    by (simp add: run(2))
qed

lemma node_system_request:
  assumes "backend_ok cs n" and "0 < node_room n" and "system_table t"
    and "\<forall>c \<in> set conditions. system_table (fst (condition_parts c))"
    and "timed (\<lambda>ck node. run ck node) n = (n', r)"
    and "\<And>ck. run ck (fst n) = (case conditional_in_storage mem_engine_ops cs ck conditions [OpPut t k v] (sn_storage (fst n))
            of (db, res) \<Rightarrow> ((fst n)\<lparr>sn_storage := db\<rparr>, rbind (map_err h res) (\<lambda>_. Inr ())))"
  shows "backend_ok cs n' \<and> node_room n \<le> Suc (node_room n') \<and> node_view cs n' = node_view cs n \<and>
    (if \<forall>c \<in> set conditions. condition_holds (node_sys n) c
     then r = Inr () \<and> node_sys n' = (node_sys n)(t := (node_sys n t)(k \<mapsto> v))
     else r = Inl (h Conflict) \<and> node_sys n' = node_sys n)"
proof -
  obtain node' where run: "run (snd n 0) (fst n) = (node', r)" "n' = (node', \<lambda>k. snd n (Suc k))"
    using timedD [OF assms(5)] by blast
  obtain db res where db: "conditional_in_storage mem_engine_ops cs (snd n 0) conditions [OpPut t k v] (sn_storage (fst n)) = (db, res)"
    by (cases "conditional_in_storage mem_engine_ops cs (snd n 0) conditions [OpPut t k v] (sn_storage (fst n))")
  then have n': "n' = ((fst n)\<lparr>sn_storage := db\<rparr>, \<lambda>k. snd n (Suc k))" "r = rbind (map_err h res) (\<lambda>_. Inr ())"
    using run assms(6) [of "snd n 0"] by simp_all
  from node_system [OF backend_okD(1) [OF assms(1)] assms(1-4) db n'(1)] show ?thesis
    unfolding n'(2) by (auto split: if_splits)
qed

interpretation node_backend: backend "node_replication mem_engine_ops cs describe"
    "backend_ok cs" node_room "node_view cs" node_sys
  for cs describe
proof (unfold_locales, goal_cases)
  case (1 n ops n' r)
  then have "timed (\<lambda>ck node. propose_batch mem_engine_ops cs ck node ([], []) ops) n = (n', r)"
    by (simp add: node_replication_def)
  from node_request [OF 1(1,2) _ this, where req = "Propose ops" and reply = "Answered r"] show ?case
    using 1(3) batch_okD(1) [OF 1(3)] by (auto simp: prod_eq_iff)
next
  case (2 n ops i n' r)
  then have "timed (\<lambda>ck node. prepare_dist_txn mem_engine_ops cs ck node i ops) n = (n', r)"
    by (simp add: node_replication_def)
  from node_request [OF 2(1,2) _ this, where req = "Prepare i ops" and reply = "Voted r"] show ?case
    using 2(3) batch_okD(1) [OF 2(3)] by (auto simp: prod_eq_iff)
next
  case (3 n i d n' r)
  then have "timed (\<lambda>ck node. finish_dist_txn mem_engine_ops cs ck node i d) n = (n', r)"
    by (simp add: node_replication_def)
  from node_request [OF 3(1,2) _ this, where req = "Finish i d" and reply = "Answered r"] show ?case
    by (auto simp: prod_eq_iff batch_ok_def)
next
  case (4 n t k v n' r)
  then have "timed (\<lambda>ck node. propose_authorized_batch mem_engine_ops cs ck node [OpPut t k v]) n = (n', r)"
    by (simp add: node_replication_def)
  from node_system_request [OF 4(1-3) _ this, where conditions = "[]" and k = k and v = v and h = RStorage] show ?case
    using backend_okD(4) [OF 4(1)]
    by (simp add: propose_authorized_batch_def sn_commit_ops_at_current_authorized_def discard_id_def
        authorized_is_conditional with_commit_lock_def split: prod.split)
next
  case (5 n t c k v n' r)
  then have "timed (\<lambda>ck node. propose_authorized_conditional_batch mem_engine_ops cs ck node [c] [OpPut t k v]) n = (n', r)"
    by (simp add: node_replication_def)
  from node_system_request [OF 5(1-3) _ this, where conditions = "[c]" and k = k and v = v
      and h = "\<lambda>e. if e = Conflict then RConflict else RStorage e"] show ?case
    using 5(3,4) backend_okD(4) [OF 5(1)]
    by (simp add: propose_authorized_conditional_batch_def commit_conditional_batch_authorized_def with_commit_lock_def
        conflict_err_def split: prod.split)
next
  case (6 n t k con)
  then show ?case
    using node_reserved_read(1) [OF 6(1) system_table_facts(1) [OF 6(2)]]
    by (simp add: node_replication_def node_sys_def)
next
  case (7 n t con)
  then show ?case
    using node_reserved_read(2) [OF 7(1) system_table_facts(1) [OF 7(2)], of "[]" "[]"]
    by (auto simp: node_replication_def node_sys_def fun_eq_iff)
next
  case (8 n t con)
  obtain c where "dist_wf cs c (mem_state (sn_storage (fst n)))"
    using backend_okD(2) [OF 8(1)] by (auto simp: node_ok_def)
  note keys = id_keys [OF this]
  have "table_is_reserved t"
    using 8(2) by (auto simp: table_is_reserved_def RESERVED_KEYSPACE_PREFIX_def dist_table_defs)
  from node_reserved_read(2) [OF 8(1) this, of "[]" "[]"] show ?case
    using 8(2) keys by (auto simp: node_replication_def participant_abs_def dist_table_defs)
next
  case (9 n t k con)
  then show ?case
    using node_public_read(1) [OF 9] by (simp add: node_replication_def)
next
  case (10 n t start e con)
  then show ?case
    using node_public_read(2) [OF 10]
    by (auto simp: node_replication_def participant_abs_def public_table_def intro!: exI)
next
  case (11 n t start e con batch_rows)
  then show ?case
    using node_public_read(3) [OF 11] by (simp add: node_replication_def)
next
  case (12 n)
  then show ?case
    by (simp add: node_replication_def)
next
  case (13 n)
  let ?s = "mem_state (sn_storage (fst n))"
  have "sn_range mem_engine_ops (fst n) KEYSPACE_REGISTRY_TABLE [] [] Strong =
      Inr (bt_entries (?s KEYSPACE_REGISTRY_TABLE))"
    using node_reserved_read(2) [OF 13 internal_tables_reserved(5), of "[]" "[]" Strong] by simp
  then have "rp_registered_keyspaces (node_replication mem_engine_ops cs describe) n =
      registered_public_keyspaces describe (\<lambda>table start end _. storage_err (rd_rows (store_reader ?s) table start end))"
    by (simp add: node_replication_def registered_public_keyspaces_def)
  then obtain ts where "rp_registered_keyspaces (node_replication mem_engine_ops cs describe) n = Inr ts"
      "\<forall>t \<in> set ts. public_table t"
      "\<forall>t k. \<not> table_is_reserved t \<and> bt_get (?s t) k \<noteq> None \<longrightarrow> t \<in> set ts"
    using registered_keyspaces_store [OF backend_okD(3) [OF 13], of describe] by auto
  then show ?case
    by (intro exI [of _ ts]) (simp add: participant_abs_def)
next
  case (14 n)
  then show ?case
    using node_recover [OF backend_okD(1) [OF 14(1)] 14] by (simp add: node_replication_def)
next
  case (15 n)
  obtain c where c: "node_ok cs c (fst n)"
    using backend_okD(2) [OF 15] by blast
  then have "finished_rows_ok cs (mem_state (sn_storage (fst n)))"
    using dist_wfD(3) by (auto simp: node_ok_def)
  then show ?case
    using node_ok_disjoint [OF c]
    by (auto simp: finished_rows_ok_def participant_abs_def finished_decision_def)
qed

end
