(* ===== verification/Shard_Map.thy ===== *)
theory Shard_Map
  imports Shard
begin

text \<open>
  Facts about the shard map and the routing of \<open>src/repl/shard.rs\<close> that do not depend on the
  shards: the balanced map is total and even, every key has a partition, and reassigning a
  partition moves that partition only.
\<close>

section \<open>Balanced maps\<close>

lemma residue_count:
  assumes "j < L"
  shows "card {q. q < N \<and> q mod L = j} = N div L + (if j < N mod L then 1 else 0)"
proof (induction N)
  case (Suc N)
  have "{q. q < Suc N \<and> q mod L = j} =
      (if N mod L = j then insert N {q. q < N \<and> q mod L = j} else {q. q < N \<and> q mod L = j})"
    by (auto simp: less_Suc_eq)
  then have "card {q. q < Suc N \<and> q mod L = j} = card {q. q < N \<and> q mod L = j} + (if N mod L = j then 1 else 0)"
    by simp
  then show ?case
    using Suc assms mod_less_divisor [of L N] by (auto simp: mod_Suc div_Suc)
qed simp

lemma check_unique_iff: "check_unique ids seen = Inr () \<longleftrightarrow> distinct ids \<and> set ids \<inter> seen = {}"
  by (induction ids arbitrary: seen) auto

lemma fold_placement:
  assumes "N \<le> 2 ^ 32"
  shows "bt_get (fold (\<lambda>p. bt_insert (of_nat p) (f p)) [0..<N] bt_empty) (part :: partition_id) =
    (if unat part < N then Some (f (unat part)) else None)"
  using assms
proof (induction N)
  case (Suc N)
  then have "unat (of_nat N :: partition_id) = N"
    by (simp add: unat_of_nat)
  then have "part = of_nat N \<longleftrightarrow> unat part = N"
    using word_eq_iff_unsigned [of part "of_nat N", where ?'a = nat] by auto
  then show ?case
    using Suc by (auto simp: less_Suc_eq)
qed simp

lemma balanced_placement:
  assumes "balanced strategy ids = Inr m"
  shows "ids \<noteq> []" "distinct ids" "0 < partition_count strategy" "sm_strategy m = strategy"
    "bt_get (sm_placement m) part =
       (if part < partition_count strategy then Some (ids ! (unat part mod length ids)) else None)"
proof -
  have "unat (partition_count strategy) \<le> 2 ^ 32"
    using unsigned_less [of "partition_count strategy", where ?'a = nat] by simp
  from fold_placement [OF this, of "\<lambda>p. ids ! (p mod length ids)"] show "ids \<noteq> []" "distinct ids" "0 < partition_count strategy" "sm_strategy m = strategy"
    "bt_get (sm_placement m) part =
       (if part < partition_count strategy then Some (ids ! (unat part mod length ids)) else None)"
    using assms
    by (auto simp: balanced_def check_unique_iff rbind_eq_Inr Let_def word_less_nat_alt word_neq_0_conv
        split: if_splits)
qed

text \<open>
  C36. A balanced map places every partition on one of the given shards and no other number on
  any, and any two shards get the same number of partitions up to one.
\<close>

theorem balanced_map_even:
  assumes "balanced strategy ids = Inr m"
  shows "(\<forall>part. bt_get (sm_placement m) part \<noteq> None \<longleftrightarrow> part < partition_count strategy) \<and>
    (\<forall>part shard. bt_get (sm_placement m) part = Some shard \<longrightarrow> shard \<in> set ids) \<and>
    (\<forall>shard \<in> set ids. card {part. bt_get (sm_placement m) part = Some shard} \<in>
       {unat (partition_count strategy) div length ids, unat (partition_count strategy) div length ids + 1})"
proof (intro conjI allI impI ballI)
  note place = balanced_placement [OF assms]
  let ?N = "unat (partition_count strategy)"
  fix part shard
  show "bt_get (sm_placement m) part \<noteq> None \<longleftrightarrow> part < partition_count strategy"
    by (simp add: place(5))
  show "shard \<in> set ids" if "bt_get (sm_placement m) part = Some shard"
    using that place(1) by (auto simp: place(5) split: if_splits)
  assume "shard \<in> set ids"
  then obtain j where j: "j < length ids" "shard = ids ! j"
    by (auto simp: in_set_conv_nth)
  have "bij_betw unat {part :: partition_id. bt_get (sm_placement m) part = Some shard} {q. q < ?N \<and> q mod length ids = j}"
  proof (rule bij_betwI')
    show "(unat a = unat b) = (a = b)" for a b :: partition_id
      by (simp add: word_eq_iff_unsigned [where ?'a = nat])
    have mem: "part \<in> {part. bt_get (sm_placement m) part = Some shard} \<longleftrightarrow> unat part < ?N \<and> unat part mod length ids = j" for part
      using j place(1,2) by (auto simp: place(5) word_less_nat_alt nth_eq_iff_index_eq)
    show "unat a \<in> {q. q < ?N \<and> q mod length ids = j}" if "a \<in> {part. bt_get (sm_placement m) part = Some shard}" for a
      using that mem by blast
    show "\<exists>a \<in> {part. bt_get (sm_placement m) part = Some shard}. q = unat a" if "q \<in> {q. q < ?N \<and> q mod length ids = j}" for q
    proof -
      have "unat (of_nat q :: partition_id) = q"
        using that unsigned_less [of "partition_count strategy", where ?'a = nat] by (simp add: unat_of_nat)
      then show ?thesis
        using that mem [of "of_nat q"] by (metis (mono_tags, lifting) mem_Collect_eq)
    qed
  qed
  from bij_betw_same_card [OF this]
  show "card {part. bt_get (sm_placement m) part = Some shard} \<in> {?N div length ids, ?N div length ids + 1}"
    using residue_count [OF j(1), of ?N] by simp
qed

theorem balanced_map_even_witness:
  "\<exists>m. balanced (HashSlots 5) [10, 20] = Inr m \<and> card {part. bt_get (sm_placement m) part = Some 10} \<in> {2, 3}"
proof -
  obtain m where "balanced (HashSlots 5) [10, 20] = Inr m"
    by (simp add: balanced_def Let_def)
  moreover have "5 div Suc (Suc 0) = 2"
    by code_simp
  ultimately show ?thesis
    using balanced_map_even [of "HashSlots 5" "[10, 20]"] by auto
qed

section \<open>Partitions of keys\<close>

lemma partition_of_ok:
  assumes "0 < partition_count strategy"
  shows "\<exists>part. partition_of env strategy key = Inr part \<and> part < partition_count strategy"
proof (cases strategy)
  case (HashSlots n)
  let ?h = "stable_hash env key mod (ucast n :: u64)"
  have n: "0 < unat n"
    using assms HashSlots by (simp add: word_less_nat_alt)
  have "unat (ucast n :: u64) = unat n"
    using unsigned_less [of n, where ?'a = nat] by (simp add: unsigned_ucast_eq take_bit_nat_eq_self)
  then have h: "unat ?h < unat n"
    using n by (simp add: unat_mod)
  then have "unat ?h < 2 ^ 32"
    using unsigned_less [of n, where ?'a = nat] by simp
  moreover from this have "unat (ucast ?h :: partition_id) = unat ?h"
    by (simp add: unsigned_ucast_eq take_bit_nat_eq_self)
  ultimately show ?thesis
    using n h HashSlots by (auto simp: Let_def word_less_nat_alt)
qed

section \<open>Reassigning a partition\<close>

lemma map_reassign_partition_ok:
  assumes "map_reassign_partition m part shard = (m', Inr ())"
  shows "sm_strategy m' = sm_strategy m" "bt_get (sm_placement m) part \<noteq> None"
    "bt_get (sm_placement m') = (bt_get (sm_placement m))(part \<mapsto> shard)"
    "sm_version m' = (if bt_get (sm_placement m) part = Some shard then sm_version m else sm_version m + 1)"
    "sm_version m \<le> sm_version m'"
  using assms u64_succ_greater [of "sm_version m"]
  by (auto simp: map_reassign_partition_def checked_succ fun_eq_iff split: option.splits if_splits)

lemma map_reassign_partition_error:
  "map_reassign_partition m part shard = (m', Inl e) \<Longrightarrow> m' = m"
  by (auto simp: map_reassign_partition_def split: option.splits if_splits)

end
