(* ===== verification/Router.thy ===== *)
theory Router
  imports Backend Shard_Map
begin

text \<open>
  The sharded router of \<open>src/repl/shard.rs\<close> over shards that fulfil the contract \<open>backend\<close>, step by
  step: routing always finds an existing shard, a batch is grouped by its owners, the phases of
  a distributed batch act on the views of the shards as the participant specification says, and
  the coordinator's rows on the global shard give out fresh ids and keep the decisions.
\<close>

section \<open>Routers whose placement is complete\<close>

abbreviation node_at :: "'n sharded \<Rightarrow> shard_id \<Rightarrow> 'n option" where
  "node_at st s \<equiv> bt_get (sh_shards st) s"

definition placed :: "'n sharded \<Rightarrow> bool" where
  "placed st \<longleftrightarrow>
     \<not> sh_map_poisoned st \<and> \<not> sh_migrations_poisoned st \<and> \<not> sh_barrier_poisoned st \<and>
     node_at st (sh_global st) \<noteq> None \<and> 0 < partition_count (sm_strategy (sh_map st)) \<and>
     (\<forall>part < partition_count (sm_strategy (sh_map st)).
        \<exists>s. bt_get (sm_placement (sh_map st)) part = Some s \<and> node_at st s \<noteq> None)"

definition sh_owner :: "shard_env \<Rightarrow> 'n sharded \<Rightarrow> string \<Rightarrow> bytes \<Rightarrow> shard_id" where
  "sh_owner env st t k = projr (shard_for env st t k)"

lemma shard_for_ok:
  assumes "placed st"
  shows "shard_for env st t k = Inr (sh_owner env st t k)" "node_at st (sh_owner env st t k) \<noteq> None"
proof -
  obtain part where part: "partition_of env (sm_strategy (sh_map st)) (canonical_route_key t k) = Inr part"
      "part < partition_count (sm_strategy (sh_map st))"
    using partition_of_ok assms unfolding placed_def by blast
  then obtain s where "bt_get (sm_placement (sh_map st)) part = Some s" "node_at st s \<noteq> None"
    using assms unfolding placed_def by blast
  then have "\<exists>s. shard_for env st t k = Inr s \<and> node_at st s \<noteq> None"
    using part(1) assms
    by (auto simp: placed_def shard_for_def route_key_def shard_map_read_def shard_for_partition_def
        map_shard_for_partition_def)
  then show "shard_for env st t k = Inr (sh_owner env st t k)" "node_at st (sh_owner env st t k) \<noteq> None"
    by (auto simp: sh_owner_def)
qed

text \<open>
  Two routers that agree in everything but the migrations on record and the states of their
  shards, shard by shard.
\<close>

definition each :: "(shard_id \<Rightarrow> 'n \<Rightarrow> 'n \<Rightarrow> bool) \<Rightarrow> 'n sharded \<Rightarrow> 'n sharded \<Rightarrow> bool" where
  "each R st st' \<longleftrightarrow> st' = st\<lparr>sh_shards := sh_shards st', sh_migrations := sh_migrations st'\<rparr> \<and>
     (\<forall>s. rel_option (R s) (node_at st s) (node_at st' s))"

lemma eachI:
  assumes "st' = st\<lparr>sh_shards := sh_shards st', sh_migrations := sh_migrations st'\<rparr>"
    and "\<And>s n. node_at st s = Some n \<Longrightarrow> \<exists>n'. node_at st' s = Some n' \<and> R s n n'"
    and "\<And>s. node_at st s = None \<Longrightarrow> node_at st' s = None"
  shows "each R st st'"
proof -
  have "rel_option (R s) (node_at st s) (node_at st' s)" for s
    using assms(2,3) [of s] by (cases "node_at st s") auto
  then show ?thesis
    using assms(1) by (simp add: each_def)
qed

lemma eachD:
  assumes "each R st st'" and "node_at st s = Some n"
  shows "\<exists>n'. node_at st' s = Some n' \<and> R s n n'"
  using assms unfolding each_def by (metis option_rel_Some1)

lemma each_back:
  assumes "each R st st'" and "node_at st' s = Some n'"
  shows "\<exists>n. node_at st s = Some n \<and> R s n n'"
  using assms unfolding each_def by (metis option_rel_Some2)

lemma each_None: "each R st st' \<Longrightarrow> node_at st' s = None \<longleftrightarrow> node_at st s = None"
  unfolding each_def by (metis option.rel_distinct(1,2) option.collapse)

lemma each_fields:
  assumes "each R st st'"
  shows "sh_map st' = sh_map st" "sh_global st' = sh_global st"
    "sh_map_poisoned st' = sh_map_poisoned st" "sh_migrations_poisoned st' = sh_migrations_poisoned st"
    "sh_barrier_poisoned st' = sh_barrier_poisoned st"
proof -
  have "st' = st\<lparr>sh_shards := sh_shards st', sh_migrations := sh_migrations st'\<rparr>"
    using assms by (simp add: each_def)
  then show "sh_map st' = sh_map st" "sh_global st' = sh_global st"
    "sh_map_poisoned st' = sh_map_poisoned st" "sh_migrations_poisoned st' = sh_migrations_poisoned st"
    "sh_barrier_poisoned st' = sh_barrier_poisoned st"
    by (metis sharded.select_convs sharded.surjective sharded.update_convs(2,4))+
qed

lemma each_trans:
  assumes "each R st st'" and "each S st' st''" and "\<And>s n n' n''. R s n n' \<Longrightarrow> S s n' n'' \<Longrightarrow> T s n n''"
  shows "each T st st''"
proof (rule eachI)
  show "st'' = st\<lparr>sh_shards := sh_shards st'', sh_migrations := sh_migrations st''\<rparr>"
    using each_fields [OF assms(1)] each_fields [OF assms(2)] by (simp add: sharded.equality)
  show "\<exists>n''. node_at st'' s = Some n'' \<and> T s n n''" if "node_at st s = Some n" for s n
    using eachD [OF assms(1) that] eachD [OF assms(2)] assms(3) by blast
  show "node_at st'' s = None" if "node_at st s = None" for s
    using that each_None [OF assms(1)] each_None [OF assms(2)] by blast
qed

lemma each_mono: "each R st st' \<Longrightarrow> (\<And>s n n'. R s n n' \<Longrightarrow> S s n n') \<Longrightarrow> each S st st'"
  unfolding each_def by (metis option.rel_mono_strong)

lemma each_strong:
  assumes "each R st st'" and "\<And>s n. node_at st s = Some n \<Longrightarrow> P s n"
  shows "each (\<lambda>s n n'. P s n \<and> R s n n') st st'"
proof -
  have "rel_option (\<lambda>n n'. P s n \<and> R s n n') (node_at st s) (node_at st' s)" for s
    using assms unfolding each_def by (cases "node_at st s"; cases "node_at st' s") (auto dest: spec [of _ s])
  then show ?thesis
    using assms(1) by (simp add: each_def)
qed

lemma each_placed: "each R st st' \<Longrightarrow> placed st' \<longleftrightarrow> placed st"
  by (simp add: placed_def each_fields each_None)

lemma each_routing:
  assumes "each R st st'"
  shows "shard_for_partition st' = shard_for_partition st" "route_key env st' = route_key env st"
    "shard_for env st' = shard_for env st" "sh_owner env st' = sh_owner env st"
proof -
  show part: "shard_for_partition st' = shard_for_partition st" and route: "route_key env st' = route_key env st"
    using assms by (simp_all add: fun_eq_iff shard_for_partition_def route_key_def shard_map_read_def each_fields)
  show "shard_for env st' = shard_for env st"
    by (intro ext) (simp only: shard_for_def part route each_fields(2) [OF assms])
  then show "sh_owner env st' = sh_owner env st"
    by (simp add: fun_eq_iff sh_owner_def)
qed

definition put_node :: "shard_id \<Rightarrow> 'n \<Rightarrow> 'n sharded \<Rightarrow> 'n sharded" where
  "put_node s n st = st\<lparr>sh_shards := bt_insert s n (sh_shards st)\<rparr>"

lemma put_node_simps [simp]:
  "node_at (put_node s n st) s' = (if s' = s then Some n else node_at st s')"
  "sh_global (put_node s n st) = sh_global st"
  by (simp_all add: put_node_def)

lemma call_shard_ok:
  "node_at st s = Some n \<Longrightarrow> m n = (n', r) \<Longrightarrow> call_shard s m st = (put_node s n' st, r)"
  by (simp add: call_shard_def sh_shard_def put_node_def)

lemma each_put_node:
  assumes "node_at st s = Some n" and "R s n n'" and "\<And>s' n. s' \<noteq> s \<Longrightarrow> node_at st s' = Some n \<Longrightarrow> R s' n n"
  shows "each R st (put_node s n' st)"
  using assms by (intro eachI) (auto simp: put_node_def)

section \<open>Grouping a batch by shards\<close>

definition own_ops :: "shard_env \<Rightarrow> 'n sharded \<Rightarrow> op list \<Rightarrow> shard_id \<Rightarrow> op list" where
  "own_ops env st ops s = filter (\<lambda>op. sh_owner env st (op_table op) (op_key op) = s) ops"

lemma op_parts_eq: "op_parts op = (op_table op, op_key op)"
  by (cases op) simp_all

lemma route_public_ops_ok:
  assumes "placed st"
  shows "\<exists>groups. route_public_ops env st ops = Inr groups \<and>
    (\<forall>s. bt_get groups s = (if own_ops env st ops s = [] then None else Some (own_ops env st ops s)))"
proof -
  define f where "f = (\<lambda>op groups. rbind (case op_parts op of (table, key) \<Rightarrow> shard_for env st table key) (\<lambda>shard.
       Inr (bt_update shard [] (\<lambda>ops. ops @ [op]) groups)) :: (shard_id, op list) btm repl)"
  have "\<exists>groups. rfold f ops bt_empty = Inr groups \<and>
      (\<forall>s. bt_get groups s = (if own_ops env st ops s = [] then None else Some (own_ops env st ops s)))"
  proof (induction ops rule: rev_induct)
    case (snoc op ops)
    let ?s = "sh_owner env st (op_table op) (op_key op)"
    have own: "own_ops env st (ops @ [op]) s = own_ops env st ops s @ (if s = ?s then [op] else [])" for s
      by (simp add: own_ops_def)
    have "f op g = Inr (bt_update ?s [] (\<lambda>ops. ops @ [op]) g)" for g
      by (simp add: f_def op_parts_eq shard_for_ok [OF assms])
    then show ?case
      using snoc by (auto simp: own rfold_append bt_get_update)
  qed (simp add: own_ops_def)
  then show ?thesis
    by (simp add: route_public_ops_def f_def)
qed

lemma batch_ok_own: "batch_ok ops \<Longrightarrow> batch_ok (own_ops env st ops s)"
  by (auto simp: batch_ok_def own_ops_def)

lemma own_ops_rows:
  "bt_get (ops_to_write_set (own_ops env st ops s)) (t, k) =
     (if sh_owner env st t k = s then bt_get (ops_to_write_set ops) (t, k) else None)"
proof (cases "sh_owner env st t k = s")
  case True
  have "find P (rev (filter Q ops)) = find P (rev ops)" if "\<And>op. P op \<Longrightarrow> Q op" for P Q :: "op \<Rightarrow> bool"
    using that by (induction ops rule: rev_induct) auto
  from this [of "\<lambda>op. (op_table op, op_key op) = (t, k)"] show ?thesis
    using True unfolding ops_to_write_set_def own_ops_def get_fold_op_to_write by simp
next
  case False
  then have "bt_get (ops_to_write_set (own_ops env st ops s)) (t, k) = None"
    using ops_to_write_set_keys [of "own_ops env st ops s" "(t, k)"] by (auto simp: own_ops_def)
  then show ?thesis
    using False by simp
qed

section \<open>The phases of a distributed batch\<close>

definition blocked :: "op list \<Rightarrow> participant_spec \<Rightarrow> bool" where
  "blocked ops a \<longleftrightarrow> touches_lock ops a"

lemma spec_prepare_fresh:
  assumes "ps_prepared a i = None" and "ps_finished a i = None"
  shows "spec_prepare i ops a =
    (if blocked ops a then (a, VNo) else (a\<lparr>ps_prepared := (ps_prepared a)(i \<mapsto> ops)\<rparr>, VYes))"
  using assms unfolding spec_prepare_def blocked_def by (simp only: simp_thms if_False option.case)

context backend
begin

definition moved :: "nat \<Rightarrow> 'n \<Rightarrow> 'n \<Rightarrow> bool" where
  "moved j n n' \<longleftrightarrow> ok n' \<and> room n \<le> room n' + j"

definition prepare_rel :: "dist_txn_id \<Rightarrow> (shard_id \<times> op list) list \<Rightarrow> bool \<Rightarrow> shard_id \<Rightarrow> 'n \<Rightarrow> 'n \<Rightarrow> bool" where
  "prepare_rel i gs yes s n n' \<longleftrightarrow>
     (case map_of gs s of
        None \<Rightarrow> n' = n
      | Some ops \<Rightarrow> moved 1 n n' \<and> sys n' = sys n \<and>
          (view n' = (view n)\<lparr>ps_prepared := (ps_prepared (view n))(i \<mapsto> ops)\<rparr> \<or> \<not> yes \<and> view n' = view n))"

lemma prepare_shards_run:
  assumes "distinct (map fst gs)"
    and "\<And>s ops. (s, ops) \<in> set gs \<Longrightarrow> batch_ok ops \<and> (\<exists>n. node_at st s = Some n \<and> ok n \<and> 0 < room n \<and>
           ps_prepared (view n) i = None \<and> ps_finished (view n) i = None)"
  shows "\<exists>st' yes. prepare_shards rp i gs st = (st', Inr (if yes then None else Some RConflict)) \<and>
    each (prepare_rel i gs yes) st st' \<and>
    (yes \<longleftrightarrow> (\<forall>(s, ops) \<in> set gs. \<not> blocked ops (view (the (node_at st s)))))"
  using assms
proof (induction gs arbitrary: st)
  case Nil
  have "each (prepare_rel i [] True) st st"
    by (rule eachI) (auto simp: prepare_rel_def)
  then show ?case
    by (intro exI [of _ st] exI [of _ True]) simp
next
  case (Cons g gs)
  obtain s ops where g: "g = (s, ops)"
    by (cases g)
  obtain n where n: "node_at st s = Some n" "ok n" "0 < room n" "ps_prepared (view n) i = None" "ps_finished (view n) i = None"
      and ops: "batch_ok ops"
    using Cons.prems(2) [of s ops] g by auto
  obtain n' r where call: "rp_prepare_dist_txn rp i ops n = (n', r)"
    by (cases "rp_prepare_dist_txn rp i ops n")
  from prepare [OF n(2,3) ops call] obtain v where step: "moved 1 n n'" "sys n' = sys n" "r = Inr v"
      "spec_prepare i ops (view n) = (view n', v)"
    by (auto simp: moved_def)
  have called: "call_shard s (rp_prepare_dist_txn rp i ops) st = (put_node s n' st, r)"
    using call_shard_ok [of st s n "rp_prepare_dist_txn rp i ops"] n(1) call by simp
  have others: "s' \<noteq> s \<and> node_at (put_node s n' st) s' = node_at st s'" if "(s', ops') \<in> set gs" for s' ops'
    using that Cons.prems(1) g by force
  show ?case
  proof (cases "blocked ops (view n)")
    case True
    then have v: "v = VNo" "view n' = view n"
      using step(4) spec_prepare_fresh [OF n(4,5)] by simp_all
    have "each (prepare_rel i (g # gs) False) st (put_node s n' st)"
    proof (rule each_put_node [OF n(1)])
      show "prepare_rel i (g # gs) False s n n'"
        using step v by (simp add: prepare_rel_def g)
      show "prepare_rel i (g # gs) False s' m m" if "s' \<noteq> s" "node_at st s' = Some m" for s' m
      proof (cases "map_of gs s'")
        case (Some ops')
        then have "ok m"
          using Cons.prems(2) [of s' ops'] that(2) by (auto dest: map_of_SomeD)
        then show ?thesis
          using that(1) Some by (simp add: prepare_rel_def g moved_def)
      qed (use that(1) in \<open>simp add: prepare_rel_def g\<close>)
    qed
    moreover have "prepare_shards rp i (g # gs) st = (put_node s n' st, Inr (Some RConflict))"
      by (simp add: g n(1) called step(3) v(1))
    ultimately show ?thesis
      using True n(1) by (intro exI [of _ "put_node s n' st"] exI [of _ False]) (simp add: g)
  next
    case False
    then have v: "v = VYes" "view n' = (view n)\<lparr>ps_prepared := (ps_prepared (view n))(i \<mapsto> ops)\<rparr>"
      using step(4) spec_prepare_fresh [OF n(4,5)] by simp_all
    have "batch_ok ops' \<and> (\<exists>m. node_at (put_node s n' st) s' = Some m \<and> ok m \<and> 0 < room m \<and>
           ps_prepared (view m) i = None \<and> ps_finished (view m) i = None)" if "(s', ops') \<in> set gs" for s' ops'
      using Cons.prems(2) [of s' ops'] others [OF that] that by (simp del: put_node_simps)
    note IH = Cons.IH [OF _ this]
    obtain st' yes where rest: "prepare_shards rp i gs (put_node s n' st) = (st', Inr (if yes then None else Some RConflict))"
        "each (prepare_rel i gs yes) (put_node s n' st) st'"
        "yes \<longleftrightarrow> (\<forall>(s', ops') \<in> set gs. \<not> blocked ops' (view (the (node_at (put_node s n' st) s'))))"
      using IH Cons.prems(1) by (auto simp del: put_node_simps)
    have gone: "map_of gs s = None"
      using Cons.prems(1) g by (simp add: map_of_eq_None_iff)
    have "each (\<lambda>s' m m'. if s' = s then m = n \<and> m' = n' else m' = m) st (put_node s n' st)"
      by (rule each_put_node [OF n(1)]) simp_all
    then have "each (prepare_rel i (g # gs) yes) st st'"
    proof (rule each_trans [OF _ rest(2)])
      show "prepare_rel i (g # gs) yes s' m m''"
        if "if s' = s then m = n \<and> m' = n' else m' = m" "prepare_rel i gs yes s' m' m''" for s' m m' m''
        using that step v gone by (cases "s' = s") (simp_all add: prepare_rel_def g)
    qed
    moreover have "prepare_shards rp i (g # gs) st = (st', Inr (if yes then None else Some RConflict))"
      using rest(1) by (simp add: g n(1) called step(3) v(1))
    moreover have "yes \<longleftrightarrow> (\<forall>(s, ops) \<in> set (g # gs). \<not> blocked ops (view (the (node_at st s))))"
    proof -
      have "(\<forall>(s', ops') \<in> set gs. \<not> blocked ops' (view (the (node_at (put_node s n' st) s')))) \<longleftrightarrow>
          (\<forall>(s', ops') \<in> set gs. \<not> blocked ops' (view (the (node_at st s'))))"
        by (intro ball_cong) (auto dest: others)
      then show ?thesis
        using rest(3) False n(1) by (simp add: g)
    qed
    ultimately show ?thesis
      by blast
  qed
qed

definition finish_rel :: "dist_txn_id \<Rightarrow> decision \<Rightarrow> shard_id set \<Rightarrow> shard_id \<Rightarrow> 'n \<Rightarrow> 'n \<Rightarrow> bool" where
  "finish_rel i d ss s n n' \<longleftrightarrow>
     (if s \<in> ss then moved 1 n n' \<and> sys n' = sys n \<and> view n' = fst (spec_finish i d (view n)) else n' = n)"

lemma finish_shards_run:
  assumes "distinct ss"
    and "\<And>s. s \<in> set ss \<Longrightarrow> \<exists>n. node_at st s = Some n \<and> ok n \<and> 0 < room n \<and> ps_finished (view n) i = None"
  shows "\<exists>st'. finish_shards rp i d ss err st = (st', Inr err) \<and> each (finish_rel i d (set ss)) st st'"
  using assms
proof (induction ss arbitrary: st)
  case Nil
  have "each (finish_rel i d {}) st st"
    by (rule eachI) (auto simp: finish_rel_def)
  then show ?case
    by simp
next
  case (Cons s ss)
  obtain n where n: "node_at st s = Some n" "ok n" "0 < room n" "ps_finished (view n) i = None"
    using Cons.prems(2) [of s] by auto
  obtain n' r where call: "rp_finish_dist_txn rp i d n = (n', r)"
    by (cases "rp_finish_dist_txn rp i d n")
  from finish [OF n(2,3) call] have step: "moved 1 n n'" "sys n' = sys n" "spec_finish i d (view n) = (view n', r)"
    by (auto simp: moved_def)
  then have r: "r = Inr ()"
    using n(4) by (simp add: spec_finish_def)
  have called: "call_shard s (rp_finish_dist_txn rp i d) st = (put_node s n' st, r)"
    using call_shard_ok [of st s n "rp_finish_dist_txn rp i d"] n(1) call by simp
  obtain st' where rest: "finish_shards rp i d ss err (put_node s n' st) = (st', Inr err)"
      "each (finish_rel i d (set ss)) (put_node s n' st) st'"
  proof -
    have "\<exists>m. node_at (put_node s n' st) s' = Some m \<and> ok m \<and> 0 < room m \<and> ps_finished (view m) i = None"
      if "s' \<in> set ss" for s'
      using Cons.prems(2) [of s'] that Cons.prems(1) by auto
    from Cons.IH [OF _ this] show ?thesis
      using that Cons.prems(1) by auto
  qed
  have "each (\<lambda>s' m m'. if s' = s then m = n \<and> m' = n' else m' = m) st (put_node s n' st)"
    by (rule each_put_node [OF n(1)]) simp_all
  then have "each (finish_rel i d (set (s # ss))) st st'"
  proof (rule each_trans [OF _ rest(2)])
    show "finish_rel i d (set (s # ss)) s' m m''"
      if "if s' = s then m = n \<and> m' = n' else m' = m" "finish_rel i d (set ss) s' m' m''" for s' m m' m''
      using that step Cons.prems(1) by (cases "s' = s") (simp_all add: finish_rel_def)
  qed
  then show ?case
    using rest(1) by (intro exI [of _ st']) (simp add: n(1) called r)
qed

end

section \<open>Transaction ids and decisions\<close>

text \<open>
  The ids that any shard or the coordinator knows, and the state of the coordinator's rows on
  the global shard: every decision row belongs to its key, and the sequence row, once there, is
  not below any known id.
\<close>

definition router_ids ::
  "('n \<Rightarrow> participant_spec) \<Rightarrow> ('n \<Rightarrow> string \<Rightarrow> bytes \<Rightarrow> bytes option) \<Rightarrow> 'n sharded \<Rightarrow> dist_txn_id set" where
  "router_ids view sys st =
     {i. \<exists>s n. node_at st s = Some n \<and> (ps_prepared (view n) i \<noteq> None \<or> ps_finished (view n) i \<noteq> None)} \<union>
     {i. \<exists>g. node_at st (sh_global st) = Some g \<and> sys g DIST_TXN_COORDINATOR_TABLE (txn_key i) \<noteq> None}"

lemma router_idsI:
  "node_at st s = Some n \<Longrightarrow> ps_prepared (view n) i \<noteq> None \<or> ps_finished (view n) i \<noteq> None \<Longrightarrow> i \<in> router_ids view sys st"
  "node_at st (sh_global st) = Some g \<Longrightarrow> sys g DIST_TXN_COORDINATOR_TABLE (txn_key i) \<noteq> None \<Longrightarrow> i \<in> router_ids view sys st"
  unfolding router_ids_def by blast+

lemma router_idsE:
  assumes "i \<in> router_ids view sys st"
  obtains s n where "node_at st s = Some n" "ps_prepared (view n) i \<noteq> None \<or> ps_finished (view n) i \<noteq> None"
    | g where "node_at st (sh_global st) = Some g" "sys g DIST_TXN_COORDINATOR_TABLE (txn_key i) \<noteq> None"
  using assms unfolding router_ids_def by blast

definition decided :: "codecs \<Rightarrow> (string \<Rightarrow> bytes \<Rightarrow> bytes option) \<Rightarrow> dist_txn_id \<Rightarrow> decision option" where
  "decided cs rows i =
     map_option (\<lambda>bs. cd_decision (projr (decode_decision cs bs))) (rows DIST_TXN_COORDINATOR_TABLE (txn_key i))"

definition coordinator_ok ::
  "codecs \<Rightarrow> (string \<Rightarrow> bytes \<Rightarrow> bytes option) \<Rightarrow> dist_txn_id set \<Rightarrow> bool" where
  "coordinator_ok cs rows ids \<longleftrightarrow>
     (\<forall>k bs. rows DIST_TXN_COORDINATOR_TABLE k = Some bs \<longrightarrow>
        (\<exists>r. decode_decision cs bs = Inr r \<and> k = txn_key (cd_txn_id r))) \<and>
     (\<forall>bs. rows DIST_TXN_SEQUENCE_TABLE DIST_TXN_SEQUENCE_KEY = Some bs \<longrightarrow>
        (\<exists>l. bs = encode_txn_id l \<and> (\<forall>i \<in> ids. i \<le> l)))"

lemma coordinator_ok_mono: "coordinator_ok cs rows ids \<Longrightarrow> ids' \<subseteq> ids \<Longrightarrow> coordinator_ok cs rows ids'"
  unfolding coordinator_ok_def by blast

definition router_ok ::
  "('n \<Rightarrow> bool) \<Rightarrow> ('n \<Rightarrow> participant_spec) \<Rightarrow> ('n \<Rightarrow> string \<Rightarrow> bytes \<Rightarrow> bytes option) \<Rightarrow> shard_env \<Rightarrow>
   'n sharded \<Rightarrow> bool" where
  "router_ok ok view sys env st \<longleftrightarrow>
     placed st \<and> codecs_ok (se_codecs env) \<and> (\<forall>s n. node_at st s = Some n \<longrightarrow> ok n) \<and>
     (\<forall>g. node_at st (sh_global st) = Some g \<longrightarrow>
        coordinator_ok (se_codecs env) (sys g) (router_ids view sys st) \<and>
        (\<forall>s n i d d'. node_at st s = Some n \<and> ps_finished (view n) i = Some d \<and>
            decided (se_codecs env) (sys g) i = Some d' \<longrightarrow> d' = d))"

lemma router_okD:
  assumes "router_ok ok view sys env st"
  shows "placed st" "codecs_ok (se_codecs env)" "node_at st s = Some n \<Longrightarrow> ok n" "\<exists>g. node_at st (sh_global st) = Some g"
    "node_at st (sh_global st) = Some g \<Longrightarrow> coordinator_ok (se_codecs env) (sys g) (router_ids view sys st)"
    "node_at st (sh_global st) = Some g \<Longrightarrow> node_at st s = Some n \<Longrightarrow> ps_finished (view n) i = Some d \<Longrightarrow>
       decided (se_codecs env) (sys g) i = Some d' \<Longrightarrow> d' = d"
  using assms unfolding router_ok_def placed_def by blast+

lemma router_okI:
  assumes "placed st" and "codecs_ok (se_codecs env)" and "\<And>s n. node_at st s = Some n \<Longrightarrow> ok n"
    and "\<And>g. node_at st (sh_global st) = Some g \<Longrightarrow> coordinator_ok (se_codecs env) (sys g) (router_ids view sys st)"
    and "\<And>g s n i d d'. node_at st (sh_global st) = Some g \<Longrightarrow> node_at st s = Some n \<Longrightarrow>
           ps_finished (view n) i = Some d \<Longrightarrow> decided (se_codecs env) (sys g) i = Some d' \<Longrightarrow> d' = d"
  shows "router_ok ok view sys env st"
  using assms unfolding router_ok_def by blast

definition ids_left ::
  "('n \<Rightarrow> participant_spec) \<Rightarrow> ('n \<Rightarrow> string \<Rightarrow> bytes \<Rightarrow> bytes option) \<Rightarrow> 'n sharded \<Rightarrow> bool" where
  "ids_left view sys st \<longleftrightarrow> - 1 \<notin> router_ids view sys st \<and>
     (\<forall>g. node_at st (sh_global st) = Some g \<longrightarrow>
        sys g DIST_TXN_SEQUENCE_TABLE DIST_TXN_SEQUENCE_KEY \<noteq> Some (encode_txn_id (- 1)))"

definition put_sequence :: "dist_txn_id \<Rightarrow> (string \<Rightarrow> bytes \<Rightarrow> bytes option) \<Rightarrow> string \<Rightarrow> bytes \<Rightarrow> bytes option" where
  "put_sequence i rows = rows(DIST_TXN_SEQUENCE_TABLE :=
     (rows DIST_TXN_SEQUENCE_TABLE)(DIST_TXN_SEQUENCE_KEY \<mapsto> encode_txn_id i))"

definition put_decision :: "dist_txn_id \<Rightarrow> bytes \<Rightarrow> (string \<Rightarrow> bytes \<Rightarrow> bytes option) \<Rightarrow> string \<Rightarrow> bytes \<Rightarrow> bytes option" where
  "put_decision i bs rows = rows(DIST_TXN_COORDINATOR_TABLE :=
     (rows DIST_TXN_COORDINATOR_TABLE)(txn_key i \<mapsto> bs))"

lemma coordinator_rows:
  "put_decision i bs (put_sequence i rows) DIST_TXN_COORDINATOR_TABLE =
     (rows DIST_TXN_COORDINATOR_TABLE)(txn_key i \<mapsto> bs)"
  "put_decision i bs (put_sequence i rows) DIST_TXN_SEQUENCE_TABLE DIST_TXN_SEQUENCE_KEY = Some (encode_txn_id i)"
  "put_sequence i rows DIST_TXN_COORDINATOR_TABLE = rows DIST_TXN_COORDINATOR_TABLE"
  by (simp_all add: put_decision_def put_sequence_def DIST_TXN_SEQUENCE_TABLE_def dist_table_defs)

lemma rfold_max:
  fixes a :: "'x::linorder"
  assumes "\<And>x a. x \<in> set xs \<Longrightarrow> \<exists>b. f x a = Inr b \<and> a \<le> b \<and> (\<forall>i \<in> I x. i \<le> b) \<and> (b = a \<or> b \<in> I x)"
  shows "\<exists>b. rfold f xs a = Inr b \<and> a \<le> b \<and> (\<forall>i \<in> \<Union> (I ` set xs). i \<le> b) \<and> (b = a \<or> b \<in> \<Union> (I ` set xs))"
  using assms
proof (induction xs arbitrary: a)
  case (Cons x xs)
  obtain b where b: "f x a = Inr b" "a \<le> b" "\<forall>i \<in> I x. i \<le> b" "b = a \<or> b \<in> I x"
    using Cons.prems [of x a] by auto
  moreover obtain c where "rfold f xs b = Inr c" "b \<le> c" "\<forall>i \<in> \<Union> (I ` set xs). i \<le> c" "c = b \<or> c \<in> \<Union> (I ` set xs)"
    using Cons.IH [of b] Cons.prems by auto
  ultimately show ?case
    by (intro exI [of _ c]) (auto intro: order_trans)
qed simp

lemma max_row_id_keys:
  assumes "set (map fst rows) = txn_key ` A"
  shows "\<exists>b. max_row_id rows a = Inr b \<and> a \<le> b \<and> (\<forall>i \<in> A. i \<le> b) \<and> (b = a \<or> b \<in> A)"
proof -
  have "\<Union> ((\<lambda>row. {i. fst row = txn_key i}) ` set rows) = {i. txn_key i \<in> set (map fst rows)}"
    by (auto simp: image_iff) force
  then have union: "\<Union> ((\<lambda>row. {i. fst row = txn_key i}) ` set rows) = A"
    using assms by auto
  have step: "\<exists>b. (case row of (key, _) \<Rightarrow> \<lambda>a. rbind (storage_err (decode_txn_id key)) (\<lambda>i. Inr (max a i))) a = Inr b \<and>
      a \<le> b \<and> (\<forall>i \<in> {i. fst row = txn_key i}. i \<le> b) \<and> (b = a \<or> b \<in> {i. fst row = txn_key i})"
    if "row \<in> set rows" for row a
  proof -
    have "fst row \<in> txn_key ` A"
      using that assms by force
    then obtain i where i: "fst row = txn_key i"
      by blast
    then have "decode_txn_id (fst row) = Inr i"
      by (simp add: decode_txn_id_Inr encode_txn_id_def txn_key_def)
    then show ?thesis
      using i by (cases row) (auto simp: max_def)
  qed
  show ?thesis
    unfolding max_row_id_def union [symmetric] by (rule rfold_max) (rule step)
qed

lemma fold_max_ge:
  fixes a :: "'x::linorder"
  shows "a \<le> fold max xs a \<and> (\<forall>x \<in> set xs. x \<le> fold max xs a) \<and> (fold max xs a = a \<or> fold max xs a \<in> set xs)"
proof (induction xs arbitrary: a)
  case (Cons x xs)
  from Cons [of "max x a"] show ?case
    by (auto simp: max_def split: if_splits)
qed simp

context backend
begin

lemma coordinator_decisions_run:
  assumes "router_ok ok view sys env st" and "node_at st (sh_global st) = Some g"
  shows "\<exists>ds. coordinator_decisions rp env st = Inr ds \<and> 
    (\<forall>i d. (\<exists>r \<in> set ds. cd_txn_id r = i \<and> cd_decision r = d) \<longleftrightarrow> decided (se_codecs env) (sys g) i = Some d) \<and>
    distinct (map cd_txn_id ds)"
proof -
  let ?cs = "se_codecs env"
  have "ok g"
    using assms by (simp add: router_ok_def)
  then obtain m where m: "bt_get m = sys g DIST_TXN_COORDINATOR_TABLE"
      "rp_range rp g DIST_TXN_COORDINATOR_TABLE [] [] Strong = Inr (bt_entries m)"
    using system_range [of g DIST_TXN_COORDINATOR_TABLE Strong] by (auto simp: system_table_def)
  define dec where "dec = (\<lambda>row :: row. projr (decode_decision ?cs (snd row)))"
  have row: "decode_decision ?cs (snd row) = Inr (dec row) \<and> fst row = txn_key (cd_txn_id (dec row))"
    if "row \<in> set (bt_entries m)" for row
  proof -
    have "sys g DIST_TXN_COORDINATOR_TABLE (fst row) = Some (snd row)"
      using that by (simp add: m(1) [symmetric] bt_entries_iff [symmetric])
    then show ?thesis
      using assms unfolding router_ok_def coordinator_ok_def dec_def by fastforce
  qed
  have "rmap (\<lambda>(_, bs). storage_err (decode_decision ?cs bs)) (bt_entries m) = Inr (map dec (bt_entries m))"
    by (rule rmap_total) (use row in \<open>auto simp: case_prod_beta\<close>)
  then have "coordinator_decisions rp env st = Inr (map dec (bt_entries m))"
    using assms(2) m(2) by (simp add: coordinator_decisions_def sh_shard_def)
  moreover have "(\<exists>r \<in> set (map dec (bt_entries m)). cd_txn_id r = i \<and> cd_decision r = d) \<longleftrightarrow> decided ?cs (sys g) i = Some d" for i d
  proof
    assume "\<exists>r \<in> set (map dec (bt_entries m)). cd_txn_id r = i \<and> cd_decision r = d"
    then obtain row where r: "row \<in> set (bt_entries m)" "cd_txn_id (dec row) = i" "cd_decision (dec row) = d"
      by auto
    then have "bt_get m (txn_key i) = Some (snd row)"
      using row [OF r(1)] by (simp add: bt_entries_iff [symmetric] prod_eq_iff) (metis prod.collapse)
    then show "decided ?cs (sys g) i = Some d"
      using r(3) by (simp add: decided_def m(1) dec_def)
  next
    assume "decided ?cs (sys g) i = Some d"
    then obtain bs where bs: "bt_get m (txn_key i) = Some bs" "cd_decision (projr (decode_decision ?cs bs)) = d"
      by (auto simp: decided_def m(1))
    then have "(txn_key i, bs) \<in> set (bt_entries m)"
      by (simp add: bt_entries_iff)
    from row [OF this] show "\<exists>r \<in> set (map dec (bt_entries m)). cd_txn_id r = i \<and> cd_decision r = d"
      using bs(2) \<open>(txn_key i, bs) \<in> set (bt_entries m)\<close> by (force simp: dec_def)
  qed
  moreover have "distinct (map cd_txn_id (map dec (bt_entries m)))"
  proof -
    have "map txn_key (map cd_txn_id (map dec (bt_entries m))) = map fst (bt_entries m)"
      using row by simp
    then show ?thesis
      using bt_entries_distinct [of m] by (metis distinct_map)
  qed
  ultimately show ?thesis
    by blast
qed

lemma bootstrap_last_id_run:
  assumes "router_ok ok view sys env st"
  shows "\<exists>m. bootstrap_last_id rp env st = Inr m \<and> (\<forall>i \<in> router_ids view sys st. i \<le> m) \<and>
    (m = 0 \<or> m \<in> router_ids view sys st)"
proof -
  obtain g where g: "node_at st (sh_global st) = Some g"
    using assms by (auto simp: router_ok_def placed_def)
  obtain ds where ds: "coordinator_decisions rp env st = Inr ds"
      "\<And>i d. (\<exists>r \<in> set ds. cd_txn_id r = i \<and> cd_decision r = d) \<longleftrightarrow> decided (se_codecs env) (sys g) i = Some d"
    using coordinator_decisions_run [OF assms g] by blast
  have known: "i \<in> cd_txn_id ` set ds \<longleftrightarrow> sys g DIST_TXN_COORDINATOR_TABLE (txn_key i) \<noteq> None" for i
    using ds(2) [of i] by (force simp: decided_def)
  define I where "I = (\<lambda>(s :: shard_id, n). dom (ps_prepared (view n)) \<union> dom (ps_finished (view n)))"
  define read where "read = (\<lambda>n table maximum. rbind (rp_range rp n table [] [] Strong) (\<lambda>rows. max_row_id rows maximum))"
  have table: "\<exists>b. read n t a = Inr b \<and> a \<le> b \<and> (\<forall>i \<in> A. i \<le> b) \<and> (b = a \<or> b \<in> A)"
    if n: "ok n" and t: "(t, A) \<in> {(DIST_TXN_PARTICIPANT_TABLE, dom (ps_prepared (view n))), (DIST_TXN_FINISHED_TABLE, dom (ps_finished (view n)))}"
    for n t A a
  proof -
    have "DIST_TXN_FINISHED_TABLE \<noteq> DIST_TXN_PARTICIPANT_TABLE"
      by (simp add: dist_table_defs)
    then obtain m where "rp_range rp n t [] [] Strong = Inr (bt_entries m)" "set (bt_keys m) = txn_key ` A"
      using id_range [OF n, of t Strong] t by auto
    then show ?thesis
      using max_row_id_keys [of "bt_entries m" A a] by (simp add: read_def bt_keys_def)
  qed
  have node: "\<exists>b. (case e of (s, n) \<Rightarrow> rfold (read n) [DIST_TXN_PARTICIPANT_TABLE, DIST_TXN_FINISHED_TABLE]) a = Inr b \<and>
      a \<le> b \<and> (\<forall>i \<in> I e. i \<le> b) \<and> (b = a \<or> b \<in> I e)" if "e \<in> set (bt_entries (sh_shards st))" for e a
  proof -
    obtain s n where e: "e = (s, n)"
      by (cases e)
    then have "ok n"
      using that assms by (simp add: router_ok_def bt_entries_iff)
    obtain b where b: "read n DIST_TXN_PARTICIPANT_TABLE a = Inr b" "a \<le> b" "\<forall>i \<in> dom (ps_prepared (view n)). i \<le> b"
        "b = a \<or> b \<in> dom (ps_prepared (view n))"
      using table [OF \<open>ok n\<close>, of DIST_TXN_PARTICIPANT_TABLE "dom (ps_prepared (view n))" a] by auto
    obtain c where c: "read n DIST_TXN_FINISHED_TABLE b = Inr c" "b \<le> c" "\<forall>i \<in> dom (ps_finished (view n)). i \<le> c"
        "c = b \<or> c \<in> dom (ps_finished (view n))"
      using table [OF \<open>ok n\<close>, of DIST_TXN_FINISHED_TABLE "dom (ps_finished (view n))" b] by auto
    show ?thesis
    proof (intro exI conjI)
      show "(case e of (s, n) \<Rightarrow> rfold (read n) [DIST_TXN_PARTICIPANT_TABLE, DIST_TXN_FINISHED_TABLE]) a = Inr c"
        using b(1) c(1) by (simp add: e)
    qed (use b c in \<open>auto simp: e I_def intro: order_trans\<close>)
  qed
  obtain b where b: "rfold (\<lambda>(_, n). rfold (read n) [DIST_TXN_PARTICIPANT_TABLE, DIST_TXN_FINISHED_TABLE])
        (bt_entries (sh_shards st)) (fold max (map cd_txn_id ds) 0) = Inr b"
      "fold max (map cd_txn_id ds) 0 \<le> b" "\<forall>i \<in> \<Union> (I ` set (bt_entries (sh_shards st))). i \<le> b"
      "b = fold max (map cd_txn_id ds) 0 \<or> b \<in> \<Union> (I ` set (bt_entries (sh_shards st)))"
    using rfold_max [where f = "\<lambda>(_, n). rfold (read n) [DIST_TXN_PARTICIPANT_TABLE, DIST_TXN_FINISHED_TABLE]"
        and xs = "bt_entries (sh_shards st)" and I = I and a = "fold max (map cd_txn_id ds) 0", OF node] by blast
  have ids: "router_ids view sys st = \<Union> (I ` set (bt_entries (sh_shards st))) \<union> cd_txn_id ` set ds"
  proof (rule set_eqI)
    fix i
    have "i \<in> \<Union> (I ` set (bt_entries (sh_shards st))) \<longleftrightarrow>
        (\<exists>s n. (s, n) \<in> set (bt_entries (sh_shards st)) \<and> (ps_prepared (view n) i \<noteq> None \<or> ps_finished (view n) i \<noteq> None))"
      by (fastforce simp: I_def)
    then show "i \<in> router_ids view sys st \<longleftrightarrow>
        i \<in> \<Union> (I ` set (bt_entries (sh_shards st))) \<union> cd_txn_id ` set ds"
      using g known [of i] unfolding router_ids_def bt_entries_iff by auto
  qed
  have "bootstrap_last_id rp env st = Inr b"
    using b(1) unfolding bootstrap_last_id_def ds(1) rbind_simps read_def .
  moreover have "\<forall>i \<in> router_ids view sys st. i \<le> b"
    using b(2,3) fold_max_ge [of 0 "map cd_txn_id ds"] unfolding ids by (auto intro: order_trans)
  moreover have "b = 0 \<or> b \<in> router_ids view sys st"
    using b(4) fold_max_ge [of 0 "map cd_txn_id ds"] unfolding ids by auto
  ultimately show ?thesis
    by blast
qed

lemma allocate_run:
  assumes "router_ok ok view sys env st" and "ids_left view sys st"
    and "node_at st (sh_global st) = Some g" and "0 < room g"
  shows "\<exists>i g'. allocate_dist_txn_id rp env st = (put_node (sh_global st) g' st, Inr i) \<and> moved 1 g g' \<and>
    view g' = view g \<and> (\<forall>j \<in> router_ids view sys st. j < i) \<and>
    sys g' = put_sequence i (sys g)"
proof -
  let ?rows = "sys g DIST_TXN_SEQUENCE_TABLE"
  have sys_table: "system_table DIST_TXN_SEQUENCE_TABLE"
    by (simp add: system_table_def)
  have "ok g"
    using assms(1,3) by (simp add: router_ok_def)
  have "\<exists>last. last_allocated rp env (?rows DIST_TXN_SEQUENCE_KEY) st = Inr last \<and> last \<noteq> - 1 \<and>
      (\<forall>j \<in> router_ids view sys st. j \<le> last)"
  proof (cases "?rows DIST_TXN_SEQUENCE_KEY")
    case None
    then show ?thesis
      using bootstrap_last_id_run [OF assms(1)] assms(2) by (auto simp: last_allocated_def ids_left_def)
  next
    case (Some bs)
    then obtain l where "bs = encode_txn_id l" "\<forall>j \<in> router_ids view sys st. j \<le> l"
      using assms(1,3) unfolding router_ok_def coordinator_ok_def by blast
    then show ?thesis
      using Some assms(2,3) by (auto simp: last_allocated_def ids_left_def)
  qed
  then obtain last where last: "last_allocated rp env (?rows DIST_TXN_SEQUENCE_KEY) st = Inr last" "last \<noteq> - 1"
      "\<forall>j \<in> router_ids view sys st. j \<le> last"
    by blast
  let ?put = "OpPut DIST_TXN_SEQUENCE_TABLE DIST_TXN_SEQUENCE_KEY (encode_txn_id (last + 1))"
  let ?cond = "ValueEquals DIST_TXN_SEQUENCE_TABLE DIST_TXN_SEQUENCE_KEY (?rows DIST_TXN_SEQUENCE_KEY)"
  obtain g' r where call: "rp_propose_authorized_conditional_batch rp [?cond] [?put] g = (g', r)"
    by (cases "rp_propose_authorized_conditional_batch rp [?cond] [?put] g")
  then have step: "moved 1 g g'" "view g' = view g" "r = Inr ()"
      "sys g' = (sys g)(DIST_TXN_SEQUENCE_TABLE := ?rows(DIST_TXN_SEQUENCE_KEY \<mapsto> encode_txn_id (last + 1)))"
    using system_conditional [OF \<open>ok g\<close> assms(4) sys_table _ call] by (auto simp: condition_holds_def moved_def)
  have "call_shard (sh_global st) (propose_system_conditional_batch rp [?cond] [?put]) st =
      (put_node (sh_global st) g' st, r)"
    using call_shard_ok [of st "sh_global st" g "propose_system_conditional_batch rp [?cond] [?put]"] assms(3) call
    by (simp add: propose_system_conditional_batch_def)
  then have "allocate_dist_txn_id rp env st = (put_node (sh_global st) g' st, Inr (last + 1))"
    using assms(3) system_read [OF \<open>ok g\<close> sys_table] last(1,2) step(3)
    by (simp add: allocate_dist_txn_id_def numeral_eq_Suc sh_shard_def checked_succ)
  moreover have "j < last + 1" if "j \<in> router_ids view sys st" for j
    using last(3) that u64_succ_greater [OF last(2)] by (meson le_less_trans)
  ultimately show ?thesis
    using step by (auto simp: put_sequence_def)
qed

lemma record_decision_run:
  assumes "codecs_ok (se_codecs env)" and "node_at st (sh_global st) = Some g" and "ok g" and "0 < room g"
    and "sys g DIST_TXN_COORDINATOR_TABLE (txn_key i) = None"
  shows "\<exists>g' bs r. record_dist_txn_decision rp env now i d st = (put_node (sh_global st) g' st, Inr ()) \<and> moved 1 g g' \<and>
    view g' = view g \<and> decode_decision (se_codecs env) bs = Inr r \<and> cd_txn_id r = i \<and> cd_decision r = d \<and>
    sys g' = put_decision i bs (sys g)"
proof -
  let ?rec = "decision_new i d DEFAULT_DIST_TXN_DEADLINE_MS now"
  have sys_table: "system_table DIST_TXN_COORDINATOR_TABLE"
    by (simp add: system_table_def)
  obtain bs where "to_vec (c_decision (se_codecs env)) ?rec = Inr bs"
      "from_slice (c_decision (se_codecs env)) bs = Inr ?rec"
    using assms(1) unfolding codecs_ok_def by (blast elim: json_okE)
  then have bs: "encode_decision (se_codecs env) ?rec = Inr bs" "decode_decision (se_codecs env) bs = Inr ?rec"
    by (simp_all add: encode_decision_def decode_decision_def decision_new_def validate_record_version_def)
  let ?put = "OpPut DIST_TXN_COORDINATOR_TABLE (txn_key i) bs"
  let ?cond = "KeyMissing DIST_TXN_COORDINATOR_TABLE (txn_key i)"
  obtain g' r where call: "rp_propose_authorized_conditional_batch rp [?cond] [?put] g = (g', r)"
    by (cases "rp_propose_authorized_conditional_batch rp [?cond] [?put] g")
  then have step: "moved 1 g g'" "view g' = view g" "r = Inr ()"
      "sys g' = (sys g)(DIST_TXN_COORDINATOR_TABLE := (sys g DIST_TXN_COORDINATOR_TABLE)(txn_key i \<mapsto> bs))"
    using system_conditional [OF assms(3,4) sys_table _ call] assms(5) by (auto simp: condition_holds_def moved_def)
  have "call_shard (sh_global st) (propose_system_conditional_batch rp [?cond] [?put]) st =
      (put_node (sh_global st) g' st, r)"
    using call_shard_ok [of st "sh_global st" g "propose_system_conditional_batch rp [?cond] [?put]"] assms(2) call
    by (simp add: propose_system_conditional_batch_def)
  then have "record_dist_txn_decision rp env now i d st = (put_node (sh_global st) g' st, Inr ())"
    using assms(2) bs(1) step(3) by (simp add: record_dist_txn_decision_def)
  then show ?thesis
    using step bs(2) by (intro exI [of _ g'] exI [of _ bs] exI [of _ ?rec]) (simp add: decision_new_def put_decision_def)
qed

end

end
