(* ===== verification/Router_Batch.thy ===== *)
theory Router_Batch
  imports Router
begin

text \<open>
  Batches on the sharded router: a batch over several shards takes effect on all of them or on
  none. The theorems are the instances for clusters of single nodes over the in-memory engine;
  the section at the end sets up a cluster of two shards for the examples.
\<close>

section \<open>Batches over several shards\<close>

definition sh_node :: "shard_env \<Rightarrow> 'n sharded \<Rightarrow> string \<Rightarrow> bytes \<Rightarrow> 'n" where
  "sh_node env st t k = the (node_at st (sh_owner env st t k))"

text \<open>The rows of the whole router and the rows that a prepared transaction holds: those of the owners.\<close>

definition sh_rows ::
  "('n \<Rightarrow> participant_spec) \<Rightarrow> shard_env \<Rightarrow> 'n sharded \<Rightarrow> string \<Rightarrow> bytes \<Rightarrow> bytes option" where
  "sh_rows view env st t k = ps_rows (view (sh_node env st t k)) t k"

definition sh_locked ::
  "('n \<Rightarrow> participant_spec) \<Rightarrow> shard_env \<Rightarrow> 'n sharded \<Rightarrow> string \<Rightarrow> bytes \<Rightarrow> bool" where
  "sh_locked view env st t k = spec_locked (view (sh_node env st t k)) t k"

lemma same_views:
  assumes "placed st" and "each (\<lambda>s n n'. view n' = view n) st st'"
  shows "sh_rows view env st' = sh_rows view env st" "sh_locked view env st' = sh_locked view env st"
proof -
  have "view (sh_node env st' t k) = view (sh_node env st t k)" for t k
    using shard_for_ok(2) [OF assms(1), of env t k] eachD [OF assms(2)] each_routing(4) [OF assms(2), of env]
    by (fastforce simp: sh_node_def)
  then show "sh_rows view env st' = sh_rows view env st" "sh_locked view env st' = sh_locked view env st"
    by (simp_all add: fun_eq_iff sh_rows_def sh_locked_def)
qed

text \<open>What a batch does to the shard that gets \<open>ops\<close> of it.\<close>

definition after_batch :: "dist_txn_id \<Rightarrow> bool \<Rightarrow> op list \<Rightarrow> participant_spec \<Rightarrow> participant_spec" where
  "after_batch i yes ops a =
     (if ops = [] then a
      else a\<lparr>ps_rows := if yes then spec_apply ops (ps_rows a) else ps_rows a,
             ps_finished := (ps_finished a)(i \<mapsto> if yes then DCommit else DAbort)\<rparr>)"

lemma finish_after_prepare:
  assumes "ps_prepared a i = None" and "ps_finished a i = None" and "ops \<noteq> []"
    and "b = a\<lparr>ps_prepared := (ps_prepared a)(i \<mapsto> ops)\<rparr> \<or> \<not> yes \<and> b = a"
  shows "fst (spec_finish i (if yes then DCommit else DAbort) b) = after_batch i yes ops a" "ps_finished b i = None"
proof -
  have "(ps_prepared a)(i := None) = ps_prepared a"
    using assms(1) by auto
  then show "fst (spec_finish i (if yes then DCommit else DAbort) b) = after_batch i yes ops a" "ps_finished b i = None"
    using assms by (auto simp: spec_finish_def after_batch_def)
qed

context backend
begin

definition batch_rel ::
  "shard_id \<Rightarrow> dist_txn_id \<Rightarrow> bytes \<Rightarrow> bool \<Rightarrow> (shard_id \<Rightarrow> op list) \<Rightarrow> shard_id \<Rightarrow> 'n \<Rightarrow> 'n \<Rightarrow> bool" where
  "batch_rel gl i bs yes own s n n' \<longleftrightarrow> moved 4 n n' \<and> view n' = after_batch i yes (own s) (view n) \<and>
     sys n' = (if s = gl then put_decision i bs (put_sequence i (sys n)) else sys n)"

lemma distributed_batch_run:
  assumes "router_ok ok view sys env st" and "ids_left view sys st"
    and "\<And>s n. node_at st s = Some n \<Longrightarrow> 4 \<le> room n" and "batch_ok ops"
    and "\<And>s. bt_get groups s = (if own_ops env st ops s = [] then None else Some (own_ops env st ops s))"
  shows "\<exists>st' yes i bs r. propose_distributed_batch rp env now groups st = (st', if yes then Inr () else Inl RConflict) \<and>
    (yes \<longleftrightarrow> (\<forall>s n. node_at st s = Some n \<longrightarrow> \<not> blocked (own_ops env st ops s) (view n))) \<and>
    (\<forall>j \<in> router_ids view sys st. j < i) \<and>
    decode_decision (se_codecs env) bs = Inr r \<and> cd_txn_id r = i \<and> cd_decision r = (if yes then DCommit else DAbort) \<and>
    each (batch_rel (sh_global st) i bs yes (own_ops env st ops)) st st'"
proof -
  let ?gl = "sh_global st" and ?own = "own_ops env st ops" and ?gs = "bt_entries groups"
  have ok: "ok n" if "node_at st s = Some n" for s n
    using assms(1) that by (simp add: router_ok_def)
  obtain g where g: "node_at st ?gl = Some g"
    using assms(1) by (auto simp: router_ok_def placed_def)
  have own_node: "\<exists>n. node_at st s = Some n" if own: "?own s \<noteq> []" for s
  proof -
    obtain op where "s = sh_owner env st (op_table op) (op_key op)"
      using own by (auto simp: own_ops_def filter_empty_conv)
    then show ?thesis
      using shard_for_ok(2) assms(1) unfolding router_ok_def by blast
  qed
  have gs: "(s, xs) \<in> set ?gs \<longleftrightarrow> ?own s \<noteq> [] \<and> xs = ?own s" for s xs
    by (auto simp: bt_entries_iff assms(5))
  have map_gs: "map_of ?gs s = (if ?own s = [] then None else Some (?own s))" for s
    using assms(5) [of s] by (simp add: bt_get_def)
  obtain i g1 where alloc: "allocate_dist_txn_id rp env st = (put_node ?gl g1 st, Inr i)" "moved 1 g g1"
      "view g1 = view g" "\<forall>j \<in> router_ids view sys st. j < i" "sys g1 = put_sequence i (sys g)"
    using allocate_run [OF assms(1,2) g] assms(3) [OF g] by auto
  define st1 where "st1 = put_node ?gl g1 st"
  have "i \<notin> router_ids view sys st"
    using alloc(4) by blast
  then have fresh: "ps_prepared (view n) i = None" "ps_finished (view n) i = None" if "node_at st s = Some n" for s n
    using that by (auto simp: router_ids_def)
  have undecided: "sys g DIST_TXN_COORDINATOR_TABLE (txn_key i) = None"
    using \<open>i \<notin> router_ids view sys st\<close> g by (auto simp: router_ids_def)
  have st1: "each (\<lambda>s n n'. moved 1 n n' \<and> view n' = view n \<and> sys n' = (if s = ?gl then put_sequence i (sys n) else sys n)) st st1"
    unfolding st1_def using alloc(2,3,5) ok by (intro each_put_node [OF g]) (auto simp: moved_def)
  have "batch_ok xs \<and> (\<exists>n. node_at st1 s = Some n \<and> ok n \<and> 0 < room n \<and>
      ps_prepared (view n) i = None \<and> ps_finished (view n) i = None)" if mem: "(s, xs) \<in> set ?gs" for s xs
  proof -
    obtain n where n: "node_at st s = Some n"
      using own_node mem gs by blast
    then show ?thesis
      using eachD [OF st1 n] mem gs assms(3) [OF n] fresh [OF n] batch_ok_own [OF assms(4)] by (auto simp: moved_def)
  qed
  from prepare_shards_run [OF bt_entries_distinct this] obtain st2 yes where
      prep: "prepare_shards rp i ?gs st1 = (st2, Inr (if yes then None else Some RConflict))"
      "each (prepare_rel i ?gs yes) st1 st2"
      "yes \<longleftrightarrow> (\<forall>(s, xs) \<in> set ?gs. \<not> blocked xs (view (the (node_at st1 s))))"
    by blast
  let ?d = "if yes then DCommit else DAbort"
  let ?V = "\<lambda>s n n'. if ?own s = [] then view n' = view n
      else view n' = (view n)\<lparr>ps_prepared := (ps_prepared (view n))(i \<mapsto> ?own s)\<rparr> \<or> \<not> yes \<and> view n' = view n"
  have st2: "each (\<lambda>s n n'. moved 2 n n' \<and> ?V s n n' \<and> sys n' = (if s = ?gl then put_sequence i (sys n) else sys n)) st st2"
  proof (rule each_trans [OF st1 prep(2)], goal_cases)
    case (1 s n n' n'')
    then show ?case
      by (cases "?own s = []") (auto simp: prepare_rel_def map_gs moved_def)
  qed
  obtain g2 where g2: "node_at st2 ?gl = Some g2" "ok g2" "0 < room g2" "sys g2 = put_sequence i (sys g)"
    using eachD [OF st2 g] assms(3) [OF g] by (auto simp: moved_def)
  have gl2: "sh_global st2 = ?gl"
    using each_fields(2) [OF st2] .
  have "sys g2 DIST_TXN_COORDINATOR_TABLE (txn_key i) = None"
    using g2(4) undecided by (simp add: coordinator_rows)
  then obtain g3 bs r where rec: "record_dist_txn_decision rp env now i ?d st2 = (put_node ?gl g3 st2, Inr ())" "moved 1 g2 g3"
      "view g3 = view g2" "decode_decision (se_codecs env) bs = Inr r" "cd_txn_id r = i" "cd_decision r = ?d"
      "sys g3 = put_decision i bs (sys g2)"
    using record_decision_run [of env st2 g2 i now ?d] g2 assms(1) unfolding gl2 by (auto simp: router_ok_def)
  define st3 where "st3 = put_node ?gl g3 st2"
  have "each (\<lambda>s n n'. if s = ?gl then n = g2 \<and> n' = g3 else n' = n) st2 st3"
    unfolding st3_def by (rule each_put_node [OF g2(1)]) simp_all
  then have st3: "each (\<lambda>s n n'. moved 3 n n' \<and> ?V s n n' \<and>
      sys n' = (if s = ?gl then put_decision i bs (put_sequence i (sys n)) else sys n)) st st3"
  proof (rule each_trans [OF st2], goal_cases)
    case (1 s n n' n'')
    then show ?case
      using rec(2,3,7) by (cases "s = ?gl") (auto simp: moved_def)
  qed
  have fin: "ps_finished (view n') i = None \<and> (?own s \<noteq> [] \<longrightarrow> fst (spec_finish i ?d (view n')) = after_batch i yes (?own s) (view n))"
    if "node_at st s = Some n" "?V s n n'" for s n n'
    using that(2) fresh [OF that(1)] finish_after_prepare [of "view n" i "?own s" "view n'" yes]
    by (cases "?own s = []") auto
  have "\<exists>n. node_at st3 s = Some n \<and> ok n \<and> 0 < room n \<and> ps_finished (view n) i = None" if own: "s \<in> set (bt_keys groups)" for s
  proof -
    obtain n where n: "node_at st s = Some n"
      using own_node [of s] own unfolding bt_keys_iff assms(5) by (auto split: if_splits)
    from eachD [OF st3 n] show ?thesis
      using fin [OF n] assms(3) [OF n] by (fastforce simp: moved_def)
  qed
  then obtain st4 where fin4: "finish_shards rp i ?d (bt_keys groups) None st3 = (st4, Inr None)"
      "each (finish_rel i ?d (set (bt_keys groups))) st3 st4"
    using finish_shards_run [of "bt_keys groups" st3 i ?d None] by (auto simp: bt_keys_def)
  have "each (\<lambda>s n n'. node_at st s = Some n \<and> moved 3 n n' \<and> ?V s n n' \<and>
      sys n' = (if s = ?gl then put_decision i bs (put_sequence i (sys n)) else sys n)) st st3"
    using each_strong [OF st3, of "\<lambda>s n. node_at st s = Some n"] by simp
  then have "each (batch_rel ?gl i bs yes ?own) st st4"
  proof (rule each_trans [OF _ fin4(2)], goal_cases)
    case (1 s n n' n'')
    then show ?case
      using fin [of s n n']
      by (cases "?own s = []") (auto simp: finish_rel_def batch_rel_def bt_keys_iff assms(5) moved_def after_batch_def)
  qed
  moreover have "propose_distributed_batch rp env now groups st = (st4, if yes then Inr () else Inl RConflict)"
    using alloc(1) prep(1) rec(1) fin4(1)
    by (cases yes) (simp_all add: propose_distributed_batch_def sbind_def st1_def st3_def)
  moreover have "yes \<longleftrightarrow> (\<forall>s n. node_at st s = Some n \<longrightarrow> \<not> blocked (?own s) (view n))"
  proof -
    have "(\<forall>(s, xs) \<in> set ?gs. \<not> blocked xs (view (the (node_at st1 s)))) \<longleftrightarrow>
        (\<forall>s. ?own s \<noteq> [] \<longrightarrow> \<not> blocked (?own s) (view (the (node_at st1 s))))"
      unfolding Ball_def split_paired_All gs prod.case by auto
    also have "\<dots> \<longleftrightarrow> (\<forall>s n. node_at st s = Some n \<longrightarrow> \<not> blocked (?own s) (view n))"
    proof -
      have "view (the (node_at st1 s)) = view n" if "node_at st s = Some n" for s n
        using eachD [OF st1 that] by auto
      moreover have "\<not> blocked [] a" for a
        by (simp add: blocked_def ops_to_write_set_def)
      ultimately show ?thesis
        using own_node by metis
    qed
    finally show ?thesis
      using prep(3) by simp
  qed
  ultimately show ?thesis
    using alloc(4) rec(4-6) by blast
qed

lemma batch_rel_rows:
  assumes "placed st" and "each (batch_rel gl i bs yes (own_ops env st ops)) st st'"
  shows "sh_rows view env st' = (if yes then spec_apply ops (sh_rows view env st) else sh_rows view env st)"
    and "sh_locked view env st' = sh_locked view env st"
proof -
  have view: "view (sh_node env st' t k) = after_batch i yes (own_ops env st ops (sh_owner env st t k)) (view (sh_node env st t k))" for t k
  proof -
    obtain n where n: "node_at st (sh_owner env st t k) = Some n"
      using shard_for_ok(2) [OF assms(1)] by blast
    then show ?thesis
      using eachD [OF assms(2) n] each_routing(4) [OF assms(2)] by (auto simp: sh_node_def batch_rel_def)
  qed
  have "sh_rows view env st' t k = (if yes then spec_apply ops (sh_rows view env st) else sh_rows view env st) t k" for t k
    using own_ops_rows [of env st ops "sh_owner env st t k" t k]
    by (auto simp: sh_rows_def view after_batch_def spec_apply_def ops_to_write_set_def split: option.splits)
  then show "sh_rows view env st' = (if yes then spec_apply ops (sh_rows view env st) else sh_rows view env st)"
    by blast
  show "sh_locked view env st' = sh_locked view env st"
    by (simp add: fun_eq_iff sh_locked_def view after_batch_def spec_locked_def)
qed

lemma blocked_somewhere:
  assumes "placed st"
  shows "(\<exists>s n. node_at st s = Some n \<and> blocked (own_ops env st ops s) (view n)) \<longleftrightarrow>
    (\<exists>t k. written (ops_to_write_set ops) t k \<and> sh_locked view env st t k)"
proof -
  have "blocked (own_ops env st ops s) (view n) \<longleftrightarrow>
      (\<exists>t k. sh_owner env st t k = s \<and> written (ops_to_write_set ops) t k \<and> spec_locked (view n) t k)" for s n
    unfolding blocked_def own_ops_rows by auto
  moreover have "node_at st (sh_owner env st t k) = Some (sh_node env st t k)" for t k
    using shard_for_ok(2) [OF assms, of env t k] by (simp add: sh_node_def)
  ultimately show ?thesis
    unfolding sh_locked_def by (metis option.inject)
qed

lemma router_ok_ids:
  assumes "router_ok ok view sys env st"
    and "each (\<lambda>s n n'. ok n' \<and> sys n' = sys n \<and> ps_finished (view n') = ps_finished (view n) \<and>
           (\<forall>i. ps_prepared (view n') i = None \<longleftrightarrow> ps_prepared (view n) i = None)) st st'"
  shows "router_ok ok view sys env st'"
proof -
  have old: "\<exists>n. node_at st s = Some n \<and> ok n' \<and> sys n' = sys n \<and> ps_finished (view n') = ps_finished (view n) \<and>
      (\<forall>i. ps_prepared (view n') i = None \<longleftrightarrow> ps_prepared (view n) i = None)" if "node_at st' s = Some n'" for s n'
    using each_back [OF assms(2) that] by simp
  have gl: "sh_global st' = sh_global st"
    using each_fields(2) [OF assms(2)] .
  have ids: "router_ids view sys st' \<subseteq> router_ids view sys st"
  proof
    fix i
    assume "i \<in> router_ids view sys st'"
    then show "i \<in> router_ids view sys st"
    proof (cases rule: router_idsE)
      case (1 s n')
      then show ?thesis
        using old [OF 1(1)] router_idsI(1) [where view = view and sys = sys] by metis
    next
      case (2 g')
      then show ?thesis
        using old [OF 2(1)] router_idsI(2) [where view = view and sys = sys] gl by metis
    qed
  qed
  show ?thesis
  proof (rule router_okI)
    show "placed st'"
      using router_okD(1) [OF assms(1)] each_placed [OF assms(2)] by simp
    show "coordinator_ok (se_codecs env) (sys g') (router_ids view sys st')" if g': "node_at st' (sh_global st') = Some g'" for g'
    proof -
      obtain g where "node_at st (sh_global st) = Some g" "sys g' = sys g"
        using old [OF g'] gl by auto
      then show ?thesis
        using coordinator_ok_mono [OF router_okD(5) [OF assms(1), of g] ids] by simp
    qed
    show "d' = d" if "node_at st' (sh_global st') = Some g'" "node_at st' s = Some n'"
        "ps_finished (view n') i = Some d" "decided (se_codecs env) (sys g') i = Some d'" for g' s n' i d d'
      using that old [OF that(1)] old [OF that(2)] router_okD(6) [OF assms(1)] gl by metis
  qed (use old router_okD(2) [OF assms(1)] in blast)+
qed

lemma router_ok_batch:
  assumes "router_ok ok view sys env st" and "\<forall>j \<in> router_ids view sys st. j < i"
    and "decode_decision (se_codecs env) bs = Inr r" "cd_txn_id r = i" "cd_decision r = (if yes then DCommit else DAbort)"
    and "each (batch_rel (sh_global st) i bs yes own) st st'"
  shows "router_ok ok view sys env st'"
proof -
  let ?cs = "se_codecs env"
  have old: "\<exists>n. node_at st s = Some n \<and> ok n' \<and> view n' = after_batch i yes (own s) (view n) \<and>
      sys n' = (if s = sh_global st then put_decision i bs (put_sequence i (sys n)) else sys n)" if "node_at st' s = Some n'" for s n'
    using each_back [OF assms(6) that] by (auto simp: batch_rel_def moved_def)
  have gl: "sh_global st' = sh_global st"
    using each_fields(2) [OF assms(6)] .
  have after: "ps_prepared (after_batch i yes ops a) = ps_prepared a"
      "j \<noteq> i \<Longrightarrow> ps_finished (after_batch i yes ops a) j = ps_finished a j"
      "ps_finished (after_batch i yes ops a) i = (if ops = [] then ps_finished a i else Some (cd_decision r))" for ops a j
    using assms(5) by (simp_all add: after_batch_def)
  have ids: "router_ids view sys st' \<subseteq> insert i (router_ids view sys st)"
  proof
    fix j
    assume "j \<in> router_ids view sys st'"
    then show "j \<in> insert i (router_ids view sys st)"
    proof (cases rule: router_idsE)
      case (1 s n')
      obtain n where n: "node_at st s = Some n" "view n' = after_batch i yes (own s) (view n)"
        using old [OF 1(1)] by blast
      then show ?thesis
        using 1(2) after(1,2) router_idsI(1) [OF n(1), where view = view and sys = sys] by (metis insertCI)
    next
      case (2 g')
      obtain g where g: "node_at st (sh_global st) = Some g" "sys g' = put_decision i bs (put_sequence i (sys g))"
        using old [OF 2(1)] gl by auto
      then show ?thesis
        using 2(2) router_idsI(2) [OF g(1), where view = view and sys = sys] by (auto simp: coordinator_rows split: if_splits)
    qed
  qed
  show ?thesis
  proof (rule router_okI)
    show "placed st'"
      using router_okD(1) [OF assms(1)] each_placed [OF assms(6)] by simp
    fix g'
    assume "node_at st' (sh_global st') = Some g'"
    then obtain g where g: "node_at st (sh_global st) = Some g" "sys g' = put_decision i bs (put_sequence i (sys g))"
      using old gl by force
    have coord: "coordinator_ok ?cs (sys g) (router_ids view sys st)"
      by (rule router_okD(5) [OF assms(1) g(1)])
    show "coordinator_ok ?cs (sys g') (router_ids view sys st')"
      unfolding coordinator_ok_def
    proof (intro conjI allI impI)
      show "\<exists>r. decode_decision ?cs b = Inr r \<and> k = txn_key (cd_txn_id r)" if "sys g' DIST_TXN_COORDINATOR_TABLE k = Some b" for k b
        using that coord assms(3,4) unfolding g(2) coordinator_rows coordinator_ok_def by (auto split: if_splits)
      show "\<exists>l. b = encode_txn_id l \<and> (\<forall>j \<in> router_ids view sys st'. j \<le> l)"
        if "sys g' DIST_TXN_SEQUENCE_TABLE DIST_TXN_SEQUENCE_KEY = Some b" for b
        using that ids assms(2) unfolding g(2) coordinator_rows by (force simp: less_imp_le)
    qed
    show "d' = d" if n': "node_at st' s = Some n'" and fin: "ps_finished (view n') j = Some d"
      and dec: "decided ?cs (sys g') j = Some d'" for s n' j d d'
    proof -
      obtain n where n: "node_at st s = Some n" "view n' = after_batch i yes (own s) (view n)"
        using old [OF n'] by blast
      show ?thesis
      proof (cases "j = i")
        case True
        have "ps_finished (view n) i = None"
          using assms(2) router_idsI(1) [OF n(1), where view = view and sys = sys] by blast
        then have "d = cd_decision r"
          using fin n(2) after(3) True by (simp split: if_splits)
        then show ?thesis
          using dec True assms(3) by (simp add: decided_def g(2) coordinator_rows)
      next
        case False
        then have "decided ?cs (sys g) j = Some d'" "ps_finished (view n) j = Some d"
          using dec fin n(2) after(2) by (simp_all add: decided_def g(2) coordinator_rows)
        then show ?thesis
          using router_okD(6) [OF assms(1) g(1) n(1)] by blast
      qed
    qed
  qed (use old router_okD(2) [OF assms(1)] in blast)+
qed

lemma single_shard_batch:
  assumes "router_ok ok view sys env st" and "\<And>n. node_at st s = Some n \<Longrightarrow> 0 < room n" and "batch_ok ops"
    and "own_ops env st ops s = ops" and "call_shard s (rp_propose_batch rp ops) st = (st', r)" and "ops \<noteq> []"
  shows "router_ok ok view sys env st' \<and> sh_locked view env st' = sh_locked view env st \<and>
     (if \<exists>t k. written (ops_to_write_set ops) t k \<and> sh_locked view env st t k
      then (\<exists>e. r = Inl e \<and> is_conflict e) \<and> sh_rows view env st' = sh_rows view env st
      else r = Inr () \<and> sh_rows view env st' = spec_apply ops (sh_rows view env st))"
proof -
  note placed = router_okD(1) [OF assms(1)]
  have owner: "sh_owner env st t k = s" if "written (ops_to_write_set ops) t k" for t k
    using own_ops_rows [of env st ops s t k] that assms(4) by (auto split: if_splits)
  obtain op where "op \<in> set ops"
    using assms(6) by (meson last_in_set)
  then have "s = sh_owner env st (op_table op) (op_key op)"
    using assms(4) by (metis (mono_tags, lifting) filter_id_conv own_ops_def)
  then obtain n where n: "node_at st s = Some n"
    using shard_for_ok(2) [OF placed] by blast
  then have "ok n"
    using router_okD(3) [OF assms(1)] by blast
  obtain n' r' where call: "rp_propose_batch rp ops n = (n', r')"
    by (cases "rp_propose_batch rp ops n")
  then have st': "st' = put_node s n' st" "r' = r"
    using call_shard_ok [of st s n "rp_propose_batch rp ops"] n assms(5) by auto
  from propose [OF \<open>ok n\<close> assms(2) [OF n] assms(3) call]
  have step: "ok n'" "sys n' = sys n" "spec_propose ops (view n) = (view n', r)"
    by (auto simp: st'(2))
  have spec: "(view n', r) = (if blocked ops (view n) then (view n, Inl (RStorage Conflict))
      else ((view n)\<lparr>ps_rows := spec_apply ops (ps_rows (view n))\<rparr>, Inr ()))"
    using step(3) unfolding spec_propose_def blocked_def by simp
  have each: "each (\<lambda>s' m m'. if s' = s then m = n \<and> m' = n' else m' = m \<and> ok m) st st'"
    unfolding st'(1) using router_okD(3) [OF assms(1)] by (intro each_put_node [OF n]) auto
  have keep: "ps_finished (view n') = ps_finished (view n)" "ps_prepared (view n') = ps_prepared (view n)"
    using spec by (auto split: if_splits)
  have "router_ok ok view sys env st'"
    by (rule router_ok_ids [OF assms(1) each_mono [OF each]]) (use step keep in \<open>auto split: if_splits\<close>)
  moreover have node: "sh_node env st' t k = (if sh_owner env st t k = s then n' else sh_node env st t k)"
      "sh_owner env st t k = s \<Longrightarrow> sh_node env st t k = n" for t k
    using each_routing(4) [OF each] n by (auto simp: sh_node_def st'(1))
  then have "sh_locked view env st' = sh_locked view env st"
    using keep(2) by (auto simp: fun_eq_iff sh_locked_def spec_locked_def)
  moreover have "blocked ops (view n) \<longleftrightarrow> (\<exists>t k. written (ops_to_write_set ops) t k \<and> sh_locked view env st t k)"
    using owner node(2) unfolding blocked_def sh_locked_def by metis
  moreover have "sh_rows view env st' = (if blocked ops (view n) then sh_rows view env st else spec_apply ops (sh_rows view env st))"
  proof (intro ext)
    fix t k
    have "bt_get (ops_to_write_set ops) (t, k) = None" if "sh_owner env st t k \<noteq> s"
      using owner that by blast
    then show "sh_rows view env st' t k =
        (if blocked ops (view n) then sh_rows view env st else spec_apply ops (sh_rows view env st)) t k"
      using spec node by (cases "sh_owner env st t k = s") (auto simp: sh_rows_def spec_apply_def split: if_splits option.splits)
  qed
  ultimately show ?thesis
    using spec by (auto simp: is_conflict_def split: if_splits)
qed

lemma propose_batch_run:
  assumes "router_ok ok view sys env st" and "ids_left view sys st"
    and "\<And>s n. node_at st s = Some n \<Longrightarrow> 4 \<le> room n" and "batch_ok ops"
    and "sh_propose_batch rp env now ops st = (st', r)"
  shows "router_ok ok view sys env st'" and "sh_locked view env st' = sh_locked view env st"
    and "if \<exists>t k. written (ops_to_write_set ops) t k \<and> sh_locked view env st t k
         then (\<exists>e. r = Inl e \<and> is_conflict e) \<and> sh_rows view env st' = sh_rows view env st
         else r = Inr () \<and> sh_rows view env st' = spec_apply ops (sh_rows view env st)"
proof -
  let ?own = "own_ops env st ops"
  note placed = router_okD(1) [OF assms(1)]
  obtain groups where groups: "route_public_ops env st ops = Inr groups"
      "\<And>s. bt_get groups s = (if ?own s = [] then None else Some (?own s))"
    using route_public_ops_ok [OF placed, of env ops] by blast
  have public: "validate_public_ops ops = Inr ()" "routing_barrier st = Inr ()"
    using batch_okD(1) [OF assms(4)] placed by (simp_all add: routing_barrier_def placed_def)
  consider (empty) "ops = []" | (one) "ops \<noteq> []" "\<not> length (bt_keys groups) > 1" | (many) "ops \<noteq> []" "length (bt_keys groups) > 1"
    by blast
  then have "router_ok ok view sys env st' \<and> sh_locked view env st' = sh_locked view env st \<and>
     (if \<exists>t k. written (ops_to_write_set ops) t k \<and> sh_locked view env st t k
      then (\<exists>e. r = Inl e \<and> is_conflict e) \<and> sh_rows view env st' = sh_rows view env st
      else r = Inr () \<and> sh_rows view env st' = spec_apply ops (sh_rows view env st))"
  proof cases
    case empty
    then have "st' = st" "r = Inr ()"
      using assms(5) by (simp_all add: sh_propose_batch_def)
    then show ?thesis
      using assms(1) empty by (simp add: ops_to_write_set_def spec_apply_def fun_eq_iff)
  next
    case one
    have "?own (sh_owner env st (op_table op) (op_key op)) \<noteq> []" if "op \<in> set ops" for op
      using that by (auto simp: own_ops_def filter_empty_conv)
    then have keys: "sh_owner env st (op_table op) (op_key op) \<in> set (bt_keys groups)" if "op \<in> set ops" for op
      using that by (simp add: bt_keys_iff groups(2))
    then obtain s where s: "bt_keys groups = [s]"
      using one by (cases "bt_keys groups"; cases ops) auto
    have "?own s = ops"
      using keys s by (auto simp: own_ops_def intro!: filter_True)
    moreover have "bt_get groups s \<noteq> None"
      using s bt_keys_iff [of s groups] by simp
    ultimately have own: "?own s = ops" "bt_get groups s = Some ops"
      using groups(2) [of s] by (auto split: if_splits)
    then have call: "call_shard s (rp_propose_batch rp ops) st = (st', r)"
      using assms(5) groups(1) public one s by (simp add: sh_propose_batch_def sbind_def)
    then show ?thesis
      using single_shard_batch [OF assms(1) _ assms(4) own(1) call one(1)] assms(3) by fastforce
  next
    case many
    then have run: "propose_distributed_batch rp env now groups st = (st', r)"
      using assms(5) groups(1) public by (simp add: sh_propose_batch_def sbind_def)
    obtain yes i bs rec where out: "r = (if yes then Inr () else Inl RConflict)"
        "yes \<longleftrightarrow> (\<forall>s n. node_at st s = Some n \<longrightarrow> \<not> blocked (?own s) (view n))"
        "\<forall>j \<in> router_ids view sys st. j < i" "decode_decision (se_codecs env) bs = Inr rec" "cd_txn_id rec = i"
        "cd_decision rec = (if yes then DCommit else DAbort)"
        "each (batch_rel (sh_global st) i bs yes ?own) st st'"
      using distributed_batch_run [of env st ops groups now] assms(1-4) groups(2) run by auto
    have "yes \<longleftrightarrow> \<not> (\<exists>t k. written (ops_to_write_set ops) t k \<and> sh_locked view env st t k)"
      using blocked_somewhere [OF placed, of env ops] out(2) by blast
    then show ?thesis
      using out(1) router_ok_batch [OF assms(1) out(3-7)] batch_rel_rows [OF placed out(7)]
      by (cases yes) (simp_all add: is_conflict_def)
  qed
  then show "router_ok ok view sys env st'" "sh_locked view env st' = sh_locked view env st"
    "if \<exists>t k. written (ops_to_write_set ops) t k \<and> sh_locked view env st t k
     then (\<exists>e. r = Inl e \<and> is_conflict e) \<and> sh_rows view env st' = sh_rows view env st
     else r = Inr () \<and> sh_rows view env st' = spec_apply ops (sh_rows view env st)"
    by blast+
qed

lemma new_router_ok:
  assumes "sharded_new m shards gl = Inr st" and "codecs_ok (se_codecs env)"
    and "0 < partition_count (sm_strategy m)"
    and "\<And>part. part < partition_count (sm_strategy m) \<Longrightarrow> bt_get (sm_placement m) part \<noteq> None"
    and "\<And>s n. bt_get shards s = Some n \<Longrightarrow> ok n \<and> sys n = (\<lambda>_ _. None) \<and>
           ps_prepared (view n) = (\<lambda>_. None) \<and> ps_finished (view n) = (\<lambda>_. None)"
  shows "router_ok ok view sys env st" "ids_left view sys st"
proof -
  have unit: "rfold (\<lambda>(_, s) _. if bt_get shards s = None then Inl (e s) else Inr ()) xs () = Inr () \<Longrightarrow>
      \<forall>(p, s) \<in> set xs. bt_get shards s \<noteq> None" for e :: "shard_id \<Rightarrow> repl_error" and xs :: "(partition_id \<times> shard_id) list"
    by (induction xs) (auto split: if_splits)
  have check: "rfold (\<lambda>(_, shard) _. if bt_get shards shard = None
        then Inl (Unsupported (''shard map references unknown shard '' @ show_nat (unat shard)))
        else Inr ()) (bt_entries (sm_placement m)) () = Inr ()"
    using assms(1) by (auto simp: sharded_new_def rbind_eq_Inr split: if_splits)
  have st: "sh_map st = m" "sh_shards st = shards" "sh_global st = gl" "bt_get shards gl \<noteq> None"
      "\<not> sh_map_poisoned st" "\<not> sh_migrations_poisoned st" "\<not> sh_barrier_poisoned st"
      "\<forall>(p, s) \<in> set (bt_entries (sm_placement m)). bt_get shards s \<noteq> None"
    using assms(1) unit [OF check] by (auto simp: sharded_new_def rbind_eq_Inr split: if_splits)
  have "placed st"
    using st assms(3,4) by (fastforce simp: placed_def bt_entries_iff)
  moreover have ids: "router_ids view sys st = {}"
    using assms(5) st by (auto elim!: router_idsE)
  ultimately show "router_ok ok view sys env st" "ids_left view sys st"
    using assms(2,5) st by (auto intro!: router_okI simp: coordinator_ok_def ids_left_def decided_def)
qed

end

section \<open>Clusters of single nodes\<close>

abbreviation cluster :: "shard_env \<Rightarrow> (bytes \<Rightarrow> string) \<Rightarrow> mem_engine clocked replication" where
  "cluster env describe \<equiv> node_replication mem_engine_ops (se_codecs env) describe"

abbreviation cluster_ok :: "shard_env \<Rightarrow> mem_engine clocked sharded \<Rightarrow> bool" where
  "cluster_ok env st \<equiv> router_ok (backend_ok (se_codecs env)) (node_view (se_codecs env)) node_sys env st"

abbreviation cluster_rows :: "shard_env \<Rightarrow> mem_engine clocked sharded \<Rightarrow> string \<Rightarrow> bytes \<Rightarrow> bytes option" where
  "cluster_rows env st \<equiv> sh_rows (node_view (se_codecs env)) env st"

abbreviation cluster_locked :: "shard_env \<Rightarrow> mem_engine clocked sharded \<Rightarrow> string \<Rightarrow> bytes \<Rightarrow> bool" where
  "cluster_locked env st \<equiv> sh_locked (node_view (se_codecs env)) env st"

abbreviation cluster_ids :: "shard_env \<Rightarrow> mem_engine clocked sharded \<Rightarrow> dist_txn_id set" where
  "cluster_ids env st \<equiv> router_ids (node_view (se_codecs env)) node_sys st"

text \<open>
  C1. A batch on a cluster of single nodes is atomic, whether its rows live on one shard or on
  many: if a prepared transaction holds one of the rows, the answer is a conflict and no row of
  the cluster changes; otherwise it succeeds and all its writes, and only they, take effect. It
  leaves no locks behind and keeps the cluster well formed. Every shard must have four commits
  left before its transaction ids run out.
\<close>

theorem sharded_batch_atomic:
  assumes "cluster_ok env st" and "ids_left (node_view (se_codecs env)) node_sys st"
    and "\<forall>s n. node_at st s = Some n \<longrightarrow> 4 \<le> node_room n" and "batch_ok ops"
    and "sh_propose_batch (cluster env describe) env now ops st = (st', r)"
  shows "cluster_ok env st' \<and> cluster_locked env st' = cluster_locked env st \<and>
    (if \<exists>t k. bt_get (ops_to_write_set ops) (t, k) \<noteq> None \<and> cluster_locked env st t k
     then (\<exists>e. r = Inl e \<and> is_conflict e) \<and> cluster_rows env st' = cluster_rows env st
     else r = Inr () \<and> cluster_rows env st' = spec_apply ops (cluster_rows env st))"
  using node_backend.propose_batch_run [OF assms(1,2) _ assms(4,5)] assms(3) by blast

text \<open>
  C24. The id of a distributed transaction is larger than every id that any shard or the
  coordinator has seen, also when the sequence row is missing and the ids of a legacy cluster
  have to be collected; allocating it changes no row and no lock.
\<close>

theorem distributed_ids_fresh:
  assumes "cluster_ok env st" and "ids_left (node_view (se_codecs env)) node_sys st"
    and "\<forall>s n. node_at st s = Some n \<longrightarrow> 0 < node_room n"
    and "allocate_dist_txn_id (cluster env describe) env st = (st', r)"
  shows "\<exists>i. r = Inr i \<and> (\<forall>j \<in> cluster_ids env st. j < i) \<and>
    cluster_rows env st' = cluster_rows env st \<and> cluster_locked env st' = cluster_locked env st"
proof -
  obtain g where g: "node_at st (sh_global st) = Some g"
    using router_okD(4) [OF assms(1)] by blast
  obtain i g' where run: "st' = put_node (sh_global st) g' st" "r = Inr i" "\<forall>j \<in> cluster_ids env st. j < i"
      "node_view (se_codecs env) g' = node_view (se_codecs env) g"
    using node_backend.allocate_run [OF assms(1,2) g, of describe] assms(3,4) g by auto
  have "each (\<lambda>s n n'. node_view (se_codecs env) n' = node_view (se_codecs env) n) st st'"
    unfolding run(1) by (rule each_put_node [OF g]) (simp_all add: run(4))
  from same_views [OF router_okD(1) [OF assms(1)] this] show ?thesis
    using run(2,3) by simp
qed

section \<open>An example cluster\<close>

text \<open>Two shards and two partitions; the first byte of a key is its hash.\<close>

definition ser_migration :: "shard_migration ser" where
  "ser_migration = ser_map
     (\<lambda>m. (mg_partition m, mg_from m, mg_to m,
        case mg_state m of Copying \<Rightarrow> 0 | CatchingUp \<Rightarrow> 1 | Switching \<Rightarrow> 2 | Done \<Rightarrow> 3 | Aborted \<Rightarrow> 4))
     (\<lambda>(p, f, t, n). \<lparr>mg_partition = p, mg_from = f, mg_to = t,
        mg_state = [Copying, CatchingUp, Switching, Done, Aborted] ! n\<rparr>)
     (ser_pair ser_word (ser_pair ser_word (ser_pair ser_word ser_nat)))"

definition demo_env :: shard_env where
  "demo_env = \<lparr>se_blake3 = (\<lambda>k. [0, 0, 0, 0, 0, 0, 0] @ take 1 (k @ [0]) @ replicate 24 0),
     se_codecs = demo_codecs, se_migration = demo_json ser_migration\<rparr>"

definition demo_node :: "mem_engine clocked" where
  "demo_node = (sn_new mem_new, \<lambda>_. demo_clocks)"

definition demo_map :: shard_map where
  "demo_map = \<lparr>sm_version = 1, sm_strategy = HashSlots 2,
     sm_placement = bt_insert 1 1 (bt_insert 0 0 bt_empty)\<rparr>"

definition demo_shards :: "mem_engine clocked \<Rightarrow> mem_engine clocked \<Rightarrow> mem_engine clocked sharded" where
  "demo_shards n0 n1 = projr (sharded_new demo_map (bt_insert 1 n1 (bt_insert 0 n0 bt_empty)) 0)"

definition demo_cluster :: "mem_engine clocked sharded" where
  "demo_cluster = demo_shards demo_node demo_node"

lemma demo_node_facts:
  "backend_ok demo_codecs demo_node" "node_room demo_node = 2 ^ 64 - 1" "node_sys demo_node = (\<lambda>_ _. None)"
  "node_view demo_codecs demo_node = empty_spec"
proof -
  have store: "mem_state (sn_storage (sn_new mem_new)) = (\<lambda>_. bt_empty)"
    by (simp add: sn_new_def sn_with_group_commit_window_def mem_new_facts)
  show "node_view demo_codecs demo_node = empty_spec"
    by (simp add: demo_node_def new_node_ok)
  then show "backend_ok demo_codecs demo_node"
    using new_node_ok(1) [of demo_codecs]
    by (auto simp: backend_ok_def demo_node_def demo_codecs_ok store registry_ok_def prepared_batches_ok_def empty_spec_def)
  have "node_room demo_node = unat (- 1 - 0 :: txn_id)"
    by (rule node_room_ok(1) [of demo_codecs]) (simp add: demo_node_def new_node_ok)
  then show "node_room demo_node = 2 ^ 64 - 1"
    by (simp add: unsigned_minus_1_eq_mask mask_eq_exp_minus_1)
  show "node_sys demo_node = (\<lambda>_ _. None)"
    by (auto simp: fun_eq_iff node_sys_def demo_node_def store)
qed

lemma demo_shards_fields:
  "sh_map (demo_shards n0 n1) = demo_map" "sh_global (demo_shards n0 n1) = 0" "\<not> sh_map_poisoned (demo_shards n0 n1)"
  "node_at (demo_shards n0 n1) s = (if s = 1 then Some n1 else if s = 0 then Some n0 else None)"
  by (simp_all add: demo_shards_def sharded_new_def demo_map_def)

lemma demo_shards_ok:
  assumes "\<And>n. n \<in> {n0, n1} \<Longrightarrow> backend_ok demo_codecs n \<and> node_sys n = (\<lambda>_ _. None) \<and>
    ps_prepared (node_view demo_codecs n) = (\<lambda>_. None) \<and> ps_finished (node_view demo_codecs n) = (\<lambda>_. None)"
  shows "cluster_ok demo_env (demo_shards n0 n1)" "ids_left (node_view (se_codecs demo_env)) node_sys (demo_shards n0 n1)"
proof -
  have codecs: "se_codecs demo_env = demo_codecs"
    by (simp add: demo_env_def)
  have new: "sharded_new demo_map (bt_insert 1 n1 (bt_insert 0 n0 bt_empty)) 0 = Inr (demo_shards n0 n1)"
    by (simp add: demo_shards_def sharded_new_def demo_map_def)
  have two: "part = 0 \<or> part = 1" if "part < (2 :: partition_id)" for part
    using that by (simp add: word_less_nat_alt word_eq_iff_unsigned [where ?'a = nat] less_2_cases_iff)
  have "bt_get (sm_placement demo_map) part \<noteq> None" if "part < partition_count (sm_strategy demo_map)" for part
    using two [of part] that by (auto simp: demo_map_def)
  moreover have "backend_ok demo_codecs n \<and> node_sys n = (\<lambda>_ _. None) \<and> ps_prepared (node_view demo_codecs n) = (\<lambda>_. None) \<and>
      ps_finished (node_view demo_codecs n) = (\<lambda>_. None)"
    if "bt_get (bt_insert 1 n1 (bt_insert 0 n0 bt_empty)) s = Some n" for s n
    using that by (intro assms) (auto split: if_splits)
  ultimately show "cluster_ok demo_env (demo_shards n0 n1)"
    "ids_left (node_view (se_codecs demo_env)) node_sys (demo_shards n0 n1)"
    using node_backend.new_router_ok [OF new, of demo_env demo_codecs]
    by (auto simp: codecs demo_codecs_ok demo_map_def)
qed

lemma demo_cluster_ok:
  "cluster_ok demo_env demo_cluster" "ids_left (node_view (se_codecs demo_env)) node_sys demo_cluster"
  unfolding demo_cluster_def by (rule demo_shards_ok; auto simp: demo_node_facts empty_spec_def)+

lemma demo_cluster_fields:
  "node_at demo_cluster s = (if s = 0 \<or> s = 1 then Some demo_node else None)"
  by (simp add: demo_cluster_def demo_shards_fields)

lemma demo_owner: "sh_owner demo_env (demo_shards n0 n1) ''t'' [0] = 0" "sh_owner demo_env (demo_shards n0 n1) ''t'' [1] = 1"
  by (simp_all add: sh_owner_def shard_for_def route_key_def is_global_table_def canonical_route_key_def
      REL_INDEX_TABLE_def DOCUMENT_INDEX_TABLE_def REL_COLUMNAR_SEGMENTS_TABLE_def shard_map_read_def
      shard_for_partition_def map_shard_for_partition_def demo_shards_fields demo_map_def stable_hash_def
      demo_env_def u64_from_be_def of_be_def Let_def)

definition demo_batch :: "op list" where
  "demo_batch = [OpPut ''t'' [0] [7], OpPut ''t'' [1] [8]]"

lemma demo_batch_facts:
  "batch_ok demo_batch" "bt_get (ops_to_write_set demo_batch) (''t'', [0]) = Some (Some [7])"
  "bt_get (ops_to_write_set demo_batch) (''t'', [1]) = Some (Some [8])"
  by (simp_all add: demo_batch_def batch_ok_def public_table_def table_name_def demo_public sized_table_def
      as_bytes_def ops_to_write_set_def)

lemma demo_cluster_unlocked: "\<not> cluster_locked demo_env demo_cluster t k"
proof -
  have "node_at demo_cluster (sh_owner demo_env demo_cluster t k) = Some demo_node"
    using shard_for_ok(2) [OF router_okD(1) [OF demo_cluster_ok(1)], of demo_env t k] demo_cluster_fields
    by (auto split: if_splits)
  then show ?thesis
    using demo_node_facts(4) by (simp add: sh_locked_def sh_node_def demo_env_def empty_spec_def spec_locked_def)
qed

theorem sharded_batch_atomic_witness:
  "sh_owner demo_env demo_cluster ''t'' [0] \<noteq> sh_owner demo_env demo_cluster ''t'' [1] \<and>
   (case sh_propose_batch (cluster demo_env (\<lambda>_. [])) demo_env 0 demo_batch demo_cluster of
      (st, r) \<Rightarrow> r = Inr () \<and> cluster_rows demo_env st ''t'' [0] = Some [7] \<and> cluster_rows demo_env st ''t'' [1] = Some [8])"
proof -
  obtain st r where run: "sh_propose_batch (cluster demo_env (\<lambda>_. [])) demo_env 0 demo_batch demo_cluster = (st, r)"
    by (cases "sh_propose_batch (cluster demo_env (\<lambda>_. [])) demo_env 0 demo_batch demo_cluster")
  have "\<forall>s n. node_at demo_cluster s = Some n \<longrightarrow> 4 \<le> node_room n"
    by (auto simp: demo_cluster_fields demo_node_facts split: if_splits)
  from sharded_batch_atomic [OF demo_cluster_ok this demo_batch_facts(1) run] demo_cluster_unlocked
  show ?thesis
    by (simp add: demo_owner [of demo_node demo_node, folded demo_cluster_def] run spec_apply_def demo_batch_facts)
qed

theorem distributed_ids_fresh_witness:
  "case allocate_dist_txn_id (cluster demo_env (\<lambda>_. [])) demo_env demo_cluster of
     (st, r) \<Rightarrow> \<exists>i. r = Inr i \<and> (\<forall>j \<in> cluster_ids demo_env demo_cluster. j < i)"
proof -
  obtain st r where run: "allocate_dist_txn_id (cluster demo_env (\<lambda>_. [])) demo_env demo_cluster = (st, r)"
    by (cases "allocate_dist_txn_id (cluster demo_env (\<lambda>_. [])) demo_env demo_cluster")
  have "\<forall>s n. node_at demo_cluster s = Some n \<longrightarrow> 0 < node_room n"
    by (auto simp: demo_cluster_fields demo_node_facts split: if_splits)
  from distributed_ids_fresh [OF demo_cluster_ok this run] show ?thesis
    by (auto simp: run)
qed

end
