(* ===== verification/Router_Read.thy ===== *)
theory Router_Read
  imports Router_Batch
begin

text \<open>
  Reads on the sharded router: a key is read from its owner, a range is the ordered list of the
  rows the owners hold, whatever stale copies other shards keep, and the merging scan delivers
  the same rows in the same batches while it holds one row per shard.
\<close>

section \<open>Ranges\<close>

abbreviation owned_by :: "shard_env \<Rightarrow> 'n sharded \<Rightarrow> string \<Rightarrow> shard_id \<Rightarrow> row list \<Rightarrow> row list" where
  "owned_by env st t s rows \<equiv> filter (\<lambda>row. sh_owner env st t (fst row) = s) rows"

lemma owned_rows_run:
  assumes "placed st"
  shows "owned_rows env st t s shard_rows rows = Inr (rows @ owned_by env st t s shard_rows)"
proof -
  have "rfold (\<lambda>row rows. rbind (shard_for env st t (fst row)) (\<lambda>owner. Inr (if owner = s then rows @ [row] else rows)))
      shard_rows rows = Inr (rows @ owned_by env st t s shard_rows)"
    by (induction shard_rows arbitrary: rows) (simp_all add: shard_for_ok [OF assms])
  then show ?thesis
    by (simp add: owned_rows_def)
qed

lemma dedup_ordered: "ordered_keys rows \<Longrightarrow> dedup_keys rows = rows"
  by (induction rows rule: dedup_keys.induct) auto

lemma sort_key_ordered:
  assumes "distinct (map fst rows)"
  shows "ordered_keys (sort_key fst rows)"
proof -
  have "sorted (map fst (sort_key fst rows))"
    by simp
  moreover have "distinct (map fst (sort_key fst rows))"
    using assms distinct_map [of fst "sort_key fst rows"] distinct_map [of fst rows] by simp
  ultimately show ?thesis
    by (simp only: strict_sorted_iff)
qed

text \<open>The rows of the whole router in a range, shard by shard.\<close>

context backend
begin

definition node_rows :: "string \<Rightarrow> bytes \<Rightarrow> bytes \<Rightarrow> 'n \<Rightarrow> row list" where
  "node_rows t start end n = bt_range start end (SOME m. bt_get m = ps_rows (view n) t)"

lemma node_rows:
  assumes "ok n" and "public_table t"
  shows "ordered_keys (node_rows t start end n)"
    "(k, v) \<in> set (node_rows t start end n) \<longleftrightarrow> in_range start end k \<and> ps_rows (view n) t k = Some v"
    "rp_range rp n t start end con =
       (if \<exists>k. in_range start end k \<and> spec_locked (view n) t k then Inl (RStorage Conflict)
        else Inr (node_rows t start end n))"
proof -
  obtain m where m: "bt_get m = ps_rows (view n) t" "rp_range rp n t start end con =
      (if \<exists>k. in_range start end k \<and> spec_locked (view n) t k then Inl (RStorage Conflict) else Inr (bt_range start end m))"
    using public_range [OF assms, of start "end" con] by blast
  have "(SOME m. bt_get m = ps_rows (view n) t) = m"
    using someI [of "\<lambda>m. bt_get m = ps_rows (view n) t" m] m(1) by (intro bt_eqI) simp
  then show "ordered_keys (node_rows t start end n)"
    "(k, v) \<in> set (node_rows t start end n) \<longleftrightarrow> in_range start end k \<and> ps_rows (view n) t k = Some v"
    "rp_range rp n t start end con =
       (if \<exists>k. in_range start end k \<and> spec_locked (view n) t k then Inl (RStorage Conflict)
        else Inr (node_rows t start end n))"
    using m by (simp_all add: node_rows_def bt_range_iff)
qed

definition router_rows :: "shard_env \<Rightarrow> 'n sharded \<Rightarrow> string \<Rightarrow> bytes \<Rightarrow> bytes \<Rightarrow> row list" where
  "router_rows env st t start end =
     concat (map (\<lambda>(s, n). owned_by env st t s (node_rows t start end n)) (bt_entries (sh_shards st)))"

lemma sh_range_run:
  assumes "router_ok ok view sys env st" and "public_table t"
  shows "sh_range rp env st t start end con =
      (if \<exists>s n k. node_at st s = Some n \<and> in_range start end k \<and> spec_locked (view n) t k then Inl (RStorage Conflict)
       else Inr (sort_key fst (router_rows env st t start end)))"
    and "ordered_keys (sort_key fst (router_rows env st t start end))"
    and "(k, v) \<in> set (sort_key fst (router_rows env st t start end)) \<longleftrightarrow> in_range start end k \<and> sh_rows view env st t k = Some v"
proof -
  let ?locked = "\<lambda>n. \<exists>k. in_range start end k \<and> spec_locked (view n) t k"
  note placed = router_okD(1) [OF assms(1)]
  have ok: "ok n" if "(s, n) \<in> set (bt_entries (sh_shards st))" for s n
    using that router_okD(3) [OF assms(1)] by (simp add: bt_entries_iff)
  define f where "f = (\<lambda>(s, n) rows. rbind (rp_range rp n t start end con) (\<lambda>shard_rows.
      owned_rows env st t s shard_rows rows))"
  have loop: "rfold f es rows = (if \<exists>(s, n) \<in> set es. ?locked n then Inl (RStorage Conflict)
      else Inr (rows @ concat (map (\<lambda>(s, n). owned_by env st t s (node_rows t start end n)) es)))"
    if "set es \<subseteq> set (bt_entries (sh_shards st))" for es rows
    using that
  proof (induction es arbitrary: rows)
    case (Cons e es)
    obtain s n where e: "e = (s, n)"
      by (cases e)
    then have "ok n"
      using Cons.prems ok by auto
    have "f e rows = (if ?locked n then Inl (RStorage Conflict)
        else Inr (rows @ owned_by env st t s (node_rows t start end n)))"
      using node_rows(3) [OF \<open>ok n\<close> assms(2)] by (simp add: f_def e owned_rows_run [OF placed])
    then show ?case
      using Cons by (cases "?locked n") (simp_all add: e)
  qed simp
  have mem: "(k, v) \<in> set (router_rows env st t start end) \<longleftrightarrow> in_range start end k \<and> sh_rows view env st t k = Some v" for k v
  proof -
    have "(k, v) \<in> set (router_rows env st t start end) \<longleftrightarrow> (\<exists>s n. node_at st s = Some n \<and> sh_owner env st t k = s \<and> (k, v) \<in> set (node_rows t start end n))"
      unfolding router_rows_def by (force simp: bt_entries_iff [symmetric])
    also have "\<dots> \<longleftrightarrow> in_range start end k \<and> sh_rows view env st t k = Some v"
      using node_rows(2) [OF ok assms(2)] shard_for_ok(2) [OF placed, of env t k]
      by (fastforce simp: bt_entries_iff sh_rows_def sh_node_def)
    finally show ?thesis .
  qed
  have "distinct (map fst (concat (map (\<lambda>(s, n). owned_by env st t s (node_rows t start end n)) es)))"
    if "distinct (map fst es)" "set es \<subseteq> set (bt_entries (sh_shards st))" for es
    using that
  proof (induction es)
    case (Cons e es)
    obtain s n where e: "e = (s, n)"
      by (cases e)
    then have "ordered_keys (node_rows t start end n)"
      using node_rows(1) [OF ok assms(2)] Cons.prems(2) by auto
    then have "distinct (map fst (owned_by env st t s (node_rows t start end n)))"
      by (intro ordered_distinct ordered_filter)
    then show ?case
      using Cons by (auto simp: e) force
  qed simp
  then have "distinct (map fst (router_rows env st t start end))"
    by (simp add: router_rows_def)
  then show ordered: "ordered_keys (sort_key fst (router_rows env st t start end))"
    by (rule sort_key_ordered)
  show "(k, v) \<in> set (sort_key fst (router_rows env st t start end)) \<longleftrightarrow> in_range start end k \<and> sh_rows view env st t k = Some v"
    using mem by simp
  have "\<not> is_global_table t"
    using assms(2) by (simp add: public_table_def table_is_reserved_def RESERVED_KEYSPACE_PREFIX_def is_global_table_def)
  moreover have "(\<exists>(s, n) \<in> set (bt_entries (sh_shards st)). ?locked n) \<longleftrightarrow> (\<exists>s n k. node_at st s = Some n \<and> in_range start end k \<and> spec_locked (view n) t k)"
    unfolding Bex_def split_paired_Ex bt_entries_iff prod.case by blast
  ultimately show "sh_range rp env st t start end con =
      (if \<exists>s n k. node_at st s = Some n \<and> in_range start end k \<and> spec_locked (view n) t k then Inl (RStorage Conflict)
       else Inr (sort_key fst (router_rows env st t start end)))"
    using loop [of "bt_entries (sh_shards st)" "[]"] placed dedup_ordered [OF ordered]
    by (auto simp: sh_range_def routing_barrier_def placed_def f_def router_rows_def [symmetric])
qed

end

section \<open>The merging scan\<close>

definition head :: "'a list \<Rightarrow> 'a option" where
  "head xs = (case xs of [] \<Rightarrow> None | x # _ \<Rightarrow> Some x)"

lemma head_None [simp]: "head xs = None \<longleftrightarrow> xs = []"
  by (simp add: head_def split: list.split)

lemma owned_head_run:
  assumes "\<And>k. owner k = Inr (ow k)"
  shows "run_scan not_cancelled f (owned_head owner s found (scan_loop 1 (map Inr rows) [])) x =
    run_scan not_cancelled f (found (head (filter (\<lambda>row. ow (fst row) = s) rows))) x"
  by (induction rows) (simp_all add: head_def scan_tail_def assms)

lemma fold_min:
  fixes x :: "'i \<times> 'k::linorder"
  shows "fold (\<lambda>(j, kj) (i, ki). if kj < ki then (j, kj) else (i, ki)) xs x \<in> insert x (set xs) \<and>
    (\<forall>y \<in> insert x (set xs). snd (fold (\<lambda>(j, kj) (i, ki). if kj < ki then (j, kj) else (i, ki)) xs x) \<le> snd y)"
proof (induction xs arbitrary: x)
  case (Cons y xs)
  define z where "z = (if snd y < snd x then y else x)"
  have "(\<lambda>(j, kj) (i, ki). if kj < ki then (j, kj) else (i, ki)) y x = z"
    by (simp add: z_def case_prod_beta)
  moreover have "snd z \<le> snd x" "snd z \<le> snd y" "z \<in> {x, y}"
    by (auto simp: z_def)
  ultimately show ?case
    using Cons.IH [of z] by (auto intro: order_trans)
qed simp

lemma min_head_cases:
  "(min_head heads = None \<and> (\<forall>j < length heads. snd (heads ! j) = None)) \<or>
   (\<exists>i row. min_head heads = Some i \<and> i < length heads \<and> snd (heads ! i) = Some row \<and>
      (\<forall>j row'. j < length heads \<longrightarrow> snd (heads ! j) = Some row' \<longrightarrow> fst row \<le> fst row'))"
proof -
  define cands where "cands = [(i, fst row). (i, _, Some row) \<leftarrow> enumerate 0 heads]"
  have cands: "(i, k) \<in> set cands \<longleftrightarrow> (\<exists>row. i < length heads \<and> snd (heads ! i) = Some row \<and> k = fst row)" for i k
  proof -
    have "(i, k) \<in> set cands \<longleftrightarrow> (\<exists>s row. (i, s, Some row) \<in> set (enumerate 0 heads) \<and> k = fst row)"
      by (force simp: cands_def split: option.splits prod.splits)
    then show ?thesis
      by (auto simp: in_set_enumerate_eq prod_eq_iff)
  qed
  show ?thesis
  proof (cases cands)
    case Nil
    then show ?thesis
      using cands unfolding min_head_def cands_def [symmetric] by (auto simp: not_Some_eq [symmetric])
  next
    case (Cons first others)
    define best where "best = fold (\<lambda>(j, kj) (i, ki). if kj < ki then (j, kj) else (i, ki)) others first"
    have "min_head heads = Some (fst best)"
      unfolding min_head_def cands_def [symmetric] by (simp add: Cons best_def)
    moreover have "(fst best, snd best) \<in> set cands" "\<forall>c \<in> set cands. snd best \<le> snd c"
      using fold_min [where xs = others and x = first] by (simp_all add: Cons best_def)
    moreover obtain row where "fst best < length heads" "snd (heads ! fst best) = Some row" "snd best = fst row"
      using calculation(2) unfolding cands by blast
    moreover have "fst row \<le> fst row'" if "j < length heads" "snd (heads ! j) = Some row'" for j row'
      using calculation(3,6) that cands [of j "fst row'"] by force
    ultimately show ?thesis
      by blast
  qed
qed

lemma after_key: "key @ [0] \<le> k \<longleftrightarrow> key < (k :: bytes)"
proof (induction key arbitrary: k)
  case Nil
  then show ?case
    by (cases k) (auto simp: less_le)
next
  case (Cons b key)
  then show ?case
    by (cases k) auto
qed

lemma ordered_eqI: "ordered_keys xs \<Longrightarrow> ordered_keys ys \<Longrightarrow> set xs = set ys \<Longrightarrow> xs = ys"
  using map_of_inject_set [of xs ys] ordered_distinct ordered_map_of_inject by blast

lemma sort_key_least:
  assumes "distinct (map fst (xs @ row # ys))" and "\<And>r. r \<in> set (xs @ ys) \<Longrightarrow> fst row \<le> (fst r :: bytes)"
  shows "sort_key fst (xs @ row # ys) = row # sort_key fst (xs @ ys)"
proof (rule ordered_eqI)
  show "ordered_keys (sort_key fst (xs @ row # ys))"
    by (rule sort_key_ordered) (rule assms(1))
  have "ordered_keys (sort_key fst (xs @ ys))"
    by (rule sort_key_ordered) (use assms(1) in auto)
  moreover have "fst row < fst r" if r: "r \<in> set (xs @ ys)" for r
  proof -
    have "fst row \<notin> fst ` set (xs @ ys)"
      using assms(1) by (simp add: image_Un)
    then have "fst row \<noteq> fst r"
      using r by (metis imageI)
    then show ?thesis
      using assms(2) [OF r] by simp
  qed
  ultimately show "ordered_keys (row # sort_key fst (xs @ ys))"
    by simp
qed auto

context backend
begin

definition owned_from :: "shard_env \<Rightarrow> 'n sharded \<Rightarrow> string \<Rightarrow> bytes \<Rightarrow> shard_id \<Rightarrow> bytes \<Rightarrow> row list" where
  "owned_from env st t end s start = owned_by env st t s (node_rows t start end (the (node_at st s)))"

lemma owned_from:
  assumes "ok n" and "node_at st s = Some n" and "public_table t"
  shows "ordered_keys (owned_from env st t end s start)"
    "(k, v) \<in> set (owned_from env st t end s start) \<longleftrightarrow>
       in_range start end k \<and> ps_rows (view n) t k = Some v \<and> sh_owner env st t k = s"
  using node_rows [OF assms(1,3)] assms(2) by (auto simp: owned_from_def ordered_filter)

lemma owned_from_next:
  assumes "ok n" and "node_at st s = Some n" and "public_table t"
    and "owned_from env st t end s start = (key, v) # rows"
  shows "owned_from env st t end s (key @ [0]) = rows"
proof (rule ordered_eqI)
  note props = owned_from [OF assms(1-3)]
  show "ordered_keys (owned_from env st t end s (key @ [0]))"
    by (rule props)
  have ordered: "ordered_keys ((key, v) # rows)"
    using props(1) unfolding assms(4) [symmetric] .
  then show "ordered_keys rows"
    by simp
  have "(k, w) \<in> set (owned_from env st t end s (key @ [0])) \<longleftrightarrow> (k, w) \<in> set rows" for k w
  proof -
    have "(key, v) \<in> set (owned_from env st t end s start)"
      by (simp add: assms(4))
    then have "start \<le> key"
      unfolding props(2) by (simp add: in_range_def)
    then have "(k, w) \<in> set (owned_from env st t end s (key @ [0])) \<longleftrightarrow>
        key < k \<and> (k, w) \<in> set (owned_from env st t end s start)"
      unfolding props(2) by (auto simp: in_range_def after_key)
    also have "\<dots> \<longleftrightarrow> (k, w) \<in> set rows"
      using ordered by (auto simp: assms(4))
    finally show ?thesis .
  qed
  then show "set (owned_from env st t end s (key @ [0])) = set rows"
    by auto
qed

definition locked_in :: "string \<Rightarrow> bytes \<Rightarrow> bytes \<Rightarrow> 'n \<Rightarrow> bool" where
  "locked_in t start end n \<longleftrightarrow> (\<exists>k. in_range start end k \<and> spec_locked (view n) t k)"

lemma next_owned_row_run:
  assumes "router_ok ok view sys env st" and "public_table t" and "node_at st s = Some n"
  shows "run_scan not_cancelled f (next_owned_row rp env st s t start end con found) x =
    (if locked_in t start end n then (x, Inl (RStorage Conflict))
     else run_scan not_cancelled f (found (head (owned_from env st t end s start))) x)"
proof -
  have "ok n"
    using router_okD(3) [OF assms(1)] assms(3) by simp
  moreover have "shard_for env st t k = Inr (sh_owner env st t k)" for k
    using router_okD(1) [OF assms(1)] by (simp add: shard_for_ok)
  ultimately show ?thesis
    using assms(3) owned_head_run [of "shard_for env st t" "sh_owner env st t" f s found "node_rows t start end n" x]
    by (simp add: next_owned_row_def sh_shard_def public_scan [OF _ assms(2)] node_rows(3) [OF _ assms(2)]
        owned_from_def locked_in_def [symmetric])
qed

lemma collect_heads_run:
  assumes "router_ok ok view sys env st" and "public_table t" and "set ss \<subseteq> set (bt_keys (sh_shards st))"
  shows "run_scan not_cancelled f (collect_heads rp env st t start end con ss heads found) x =
    (if \<exists>s \<in> set ss. locked_in t start end (the (node_at st s)) then (x, Inl (RStorage Conflict))
     else run_scan not_cancelled f (found (heads @ map (\<lambda>s. (s, head (owned_from env st t end s start))) ss)) x)"
  using assms(3)
proof (induction ss arbitrary: heads)
  case (Cons s ss)
  then obtain n where "node_at st s = Some n"
    by (auto simp: bt_keys_iff)
  then show ?case
    using Cons next_owned_row_run [OF assms(1,2), of s n f start "end" con _ x] by simp
qed simp

text \<open>
  The state of the merge: \<open>rest s\<close> are the rows of shard \<open>s\<close> still to come, and the heads are their
  first rows.
\<close>

definition merging :: "shard_env \<Rightarrow> 'n sharded \<Rightarrow> string \<Rightarrow> bytes \<Rightarrow> bytes \<Rightarrow> (shard_id \<Rightarrow> row list) \<Rightarrow> bool" where
  "merging env st t start end rest \<longleftrightarrow>
     (\<forall>s \<in> set (bt_keys (sh_shards st)). \<exists>lo \<ge> start. rest s = owned_from env st t end s lo)"

abbreviation heads_of :: "'n sharded \<Rightarrow> (shard_id \<Rightarrow> row list) \<Rightarrow> heads" where
  "heads_of st rest \<equiv> map (\<lambda>s. (s, head (rest s))) (bt_keys (sh_shards st))"

abbreviation rows_left :: "'n sharded \<Rightarrow> (shard_id \<Rightarrow> row list) \<Rightarrow> row list" where
  "rows_left st rest \<equiv> concat (map rest (bt_keys (sh_shards st)))"

lemma merging_rows:
  assumes "router_ok ok view sys env st" and "public_table t" and "merging env st t start end rest"
  shows "distinct (map fst (rows_left st rest))"
    "s \<in> set (bt_keys (sh_shards st)) \<Longrightarrow> ordered_keys (rest s)"
proof -
  have rest: "ordered_keys (rest s)" "\<forall>row \<in> set (rest s). sh_owner env st t (fst row) = s"
    if "s \<in> set (bt_keys (sh_shards st))" for s
  proof -
    obtain lo where "rest s = owned_from env st t end s lo"
      using assms(3) \<open>s \<in> _\<close> unfolding merging_def by blast
    moreover obtain n where "node_at st s = Some n"
      using \<open>s \<in> _\<close> by (auto simp: bt_keys_iff)
    moreover have "ok n"
      using router_okD(3) [OF assms(1)] calculation(2) by simp
    ultimately show "ordered_keys (rest s)" "\<forall>row \<in> set (rest s). sh_owner env st t (fst row) = s"
      using owned_from [OF _ _ assms(2)] by auto
  qed
  show "s \<in> set (bt_keys (sh_shards st)) \<Longrightarrow> ordered_keys (rest s)"
    by (rule rest)
  have "distinct (map fst (concat (map rest ss)))" if "distinct ss" "set ss \<subseteq> set (bt_keys (sh_shards st))" for ss
    using that
  proof (induction ss)
    case (Cons s ss)
    have "fst row \<noteq> fst row'" if row: "row \<in> set (rest s)" and s': "s' \<in> set ss" and row': "row' \<in> set (rest s')" for row s' row'
    proof -
      have "s' \<in> set (bt_keys (sh_shards st))" "s \<in> set (bt_keys (sh_shards st))" "s' \<noteq> s"
        using Cons.prems s' by auto
      then show ?thesis
        using rest(2) [of s] rest(2) [of s'] row row' by fastforce
    qed
    then show ?case
      using Cons rest(1) [of s] by (auto simp: ordered_distinct)
  qed simp
  then show "distinct (map fst (rows_left st rest))"
    by simp
qed

lemma merge_step:
  assumes "router_ok ok view sys env st" and "public_table t" and "merging env st t start end rest"
    and "min_head (heads_of st rest) = Some i"
  obtains s n key v rows where "heads_of st rest ! i = (s, Some (key, v))" "node_at st s = Some n"
    "start \<le> key @ [0]" "owned_from env st t end s (key @ [0]) = rows"
    "merging env st t start end (rest(s := rows))"
    "(heads_of st rest)[i := (s, head rows)] = heads_of st (rest(s := rows))"
    "sort_key fst (rows_left st rest) = (key, v) # sort_key fst (rows_left st (rest(s := rows)))"
    "length (rows_left st rest) = Suc (length (rows_left st (rest(s := rows))))"
proof -
  let ?ss = "bt_keys (sh_shards st)"
  obtain row where i: "i < length ?ss" "head (rest (?ss ! i)) = Some row"
    and least: "\<forall>j row'. j < length ?ss \<longrightarrow> head (rest (?ss ! j)) = Some row' \<longrightarrow> fst row \<le> fst row'"
    using min_head_cases [of "heads_of st rest"] assms(4) by auto
  obtain key v where row: "row = (key, v)"
    by (cases row)
  define s where "s = ?ss ! i"
  define rows where "rows = tl (rest s)"
  have s: "s \<in> set ?ss"
    using i(1) by (simp add: s_def)
  have rest: "rest s = (key, v) # rows"
    using i(2) by (cases "rest s") (simp_all add: head_def s_def rows_def row)
  obtain lo where lo: "start \<le> lo" "rest s = owned_from env st t end s lo"
    using assms(3) s unfolding merging_def by blast
  obtain n where n: "node_at st s = Some n" "ok n"
    using s router_okD(3) [OF assms(1)] by (auto simp: bt_keys_iff)
  have "(key, v) \<in> set (owned_from env st t end s lo)"
    by (simp add: lo(2) [symmetric] rest)
  then have "lo \<le> key"
    using owned_from(2) [OF n(2,1) assms(2)] by (simp add: in_range_def)
  then have bound: "start \<le> key @ [0]"
    using lo(1) less_imp_le [OF after_key [of key "key @ [0]", THEN iffD1]] by (meson order.refl order.trans)
  have rows: "owned_from env st t end s (key @ [0]) = rows"
    using owned_from_next [OF n(2,1) assms(2)] lo(2) rest by metis
  obtain ss1 ss2 where ss: "?ss = ss1 @ s # ss2" "length ss1 = i"
    using id_take_nth_drop [OF i(1)] i(1) unfolding s_def by (metis length_take min.absorb4)
  moreover have "distinct ?ss"
    by simp
  ultimately have others: "s \<notin> set ss1" "s \<notin> set ss2"
    by simp_all
  have upd: "map (rest(s := rows)) ss1 = map rest ss1" "map (rest(s := rows)) ss2 = map rest ss2"
    "map (\<lambda>x. (x, head ((rest(s := rows)) x))) ss1 = map (\<lambda>x. (x, head (rest x))) ss1"
    "map (\<lambda>x. (x, head ((rest(s := rows)) x))) ss2 = map (\<lambda>x. (x, head (rest x))) ss2"
    using others by auto
  have split: "rows_left st rest = concat (map rest ss1) @ (key, v) # rows @ concat (map rest ss2)"
    "rows_left st (rest(s := rows)) = concat (map rest ss1) @ rows @ concat (map rest ss2)"
    by (simp_all only: ss map_append list.map concat_append concat.simps upd rest fun_upd_same append.simps)
  have all: "fst (key, v) \<le> fst r" if r: "r \<in> set (rows_left st rest)" for r
  proof -
    obtain s' where s': "s' \<in> set ?ss" "r \<in> set (rest s')"
      using r by auto
    obtain j where j: "j < length ?ss" "?ss ! j = s'"
      using s'(1) by (auto simp only: in_set_conv_nth)
    obtain r' others where r': "rest s' = r' # others"
      using s'(2) by (cases "rest s'") auto
    then have "fst row \<le> fst r'"
      using least [rule_format, OF j(1)] by (simp add: head_def j(2))
    moreover have "fst r' \<le> fst r"
      using merging_rows(2) [OF assms(1-3) s'(1)] s'(2) r' by (auto simp: less_imp_le)
    ultimately show ?thesis
      by (simp add: row)
  qed
  show thesis
  proof (rule that)
    show "heads_of st rest ! i = (s, Some (key, v))"
      using i(1) rest by (simp add: s_def head_def)
    show "merging env st t start end (rest(s := rows))"
      using assms(3) bound rows unfolding merging_def by auto
    show "(heads_of st rest)[i := (s, head rows)] = heads_of st (rest(s := rows))"
      unfolding ss(1) map_append list.map upd using ss(2) by (simp add: list_update_append)
    show "sort_key fst (rows_left st rest) = (key, v) # sort_key fst (rows_left st (rest(s := rows)))"
      unfolding split using merging_rows(1) [OF assms(1-3)] all by (intro sort_key_least) (simp_all add: split)
    show "length (rows_left st rest) = Suc (length (rows_left st (rest(s := rows))))"
      unfolding split by simp
  qed (use n bound rows in simp_all)
qed

lemma merge_run:
  assumes "router_ok ok view sys env st" and "public_table t" and "0 < k"
    and unlocked: "\<And>s n. node_at st s = Some n \<Longrightarrow> \<not> locked_in t start end n"
    and "merging env st t start end rest" and "length (rows_left st rest) < fuel" and "length batch < k"
  shows "run_scan not_cancelled f (merge_loop rp env st t end con k fuel (heads_of st rest) batch) x =
    run_scan not_cancelled f (batch_loop (chunks k (batch @ sort_key fst (rows_left st rest)))) x"
  using assms(5-)
proof (induction fuel arbitrary: rest batch x)
  case (Suc fuel)
  show ?case
  proof (cases "min_head (heads_of st rest)")
    case None
    then have "rest s = []" if "s \<in> set (bt_keys (sh_shards st))" for s
      using min_head_cases [of "heads_of st rest"] that by (auto simp: in_set_conv_nth)
    then have empty: "rows_left st rest = []"
      by simp
    show ?thesis
      unfolding empty using Suc.prems(3) None by (simp add: scan_tail_def chunks_short split: prod.split sum.split)
  next
    case (Some i)
    obtain s n key v rows where step: "heads_of st rest ! i = (s, Some (key, v))" "node_at st s = Some n"
        "start \<le> key @ [0]" "owned_from env st t end s (key @ [0]) = rows"
        "merging env st t start end (rest(s := rows))"
        "(heads_of st rest)[i := (s, head rows)] = heads_of st (rest(s := rows))"
        "sort_key fst (rows_left st rest) = (key, v) # sort_key fst (rows_left st (rest(s := rows)))"
        "length (rows_left st rest) = Suc (length (rows_left st (rest(s := rows))))"
      by (rule merge_step [OF assms(1,2) Suc.prems(1) Some])
    let ?batch = "batch @ [(key, v)]"
    have free: "\<not> locked_in t (key @ [0]) end n"
      using unlocked [OF step(2)] step(3) by (auto simp: locked_in_def in_range_def)
    have left: "length (rows_left st (rest(s := rows))) < fuel"
      using Suc.prems(2) unfolding step(8) by simp
    have advance: "run_scan not_cancelled f (next_owned_row rp env st s t (key @ [0]) end con
          (\<lambda>head. merge_loop rp env st t end con k fuel ((heads_of st rest)[i := (s, head)]) b)) x =
        run_scan not_cancelled f (batch_loop (chunks k (b @ sort_key fst (rows_left st (rest(s := rows)))))) x"
      if "length b < k" for b x
      unfolding next_owned_row_run [OF assms(1,2) step(2)] step(4,6) if_not_P [OF free]
      by (rule Suc.IH [OF step(5) left that])
    show ?thesis
    proof (cases "length ?batch < k")
      case True
      then show ?thesis
        using advance [of ?batch] Some by (simp add: step(1,7) Let_def)
    next
      case False
      then have "chunks k (?batch @ sort_key fst (rows_left st (rest(s := rows)))) =
          ?batch # chunks k (sort_key fst (rows_left st (rest(s := rows))))"
        using Suc.prems(3) assms(3) by (intro chunks_full) simp_all
      then show ?thesis
        using False advance [of "[]"] Some assms(3) by (simp add: step(1,7) Let_def split: prod.split sum.split)
    qed
  qed
qed simp

lemma sh_read_run:
  assumes "router_ok ok view sys env st" and "public_table t"
  shows "sh_read rp env st t k con =
    (if sh_locked view env st t k then Inl (RStorage Conflict) else Inr (sh_rows view env st t k))"
proof -
  note placed = router_okD(1) [OF assms(1)]
  obtain n where n: "node_at st (sh_owner env st t k) = Some n"
    using shard_for_ok(2) [OF placed] by blast
  then have "ok n"
    using router_okD(3) [OF assms(1)] by simp
  then show ?thesis
    using n placed by (simp add: sh_read_def routing_barrier_def placed_def shard_for_ok(1) [OF placed] sh_shard_def
        public_read [OF _ assms(2)] sh_locked_def sh_rows_def sh_node_def)
qed

lemma scan_run:
  assumes "router_ok ok view sys env st" and "public_table t"
    and "\<And>rows. sh_range rp env st t start end con = Inr rows \<Longrightarrow> length rows < fuel"
  shows "run_scan not_cancelled f (sh_scan_range_batches rp env fuel st t start end con batch_rows) x =
    (if end \<noteq> [] \<and> end \<le> start then (x, Inr ())
     else case sh_range rp env st t start end con of
       Inl e \<Rightarrow> (x, Inl e)
     | Inr rows \<Rightarrow> run_scan not_cancelled f (batch_loop (chunks (min (max batch_rows 1) 1024) rows)) x)"
proof -
  let ?rest = "\<lambda>s. owned_from env st t end s start"
  let ?k = "min (max batch_rows 1) 1024"
  have public: "\<not> is_global_table t"
    using assms(2) by (simp add: public_table_def table_is_reserved_def RESERVED_KEYSPACE_PREFIX_def is_global_table_def)
  have bounded_all: "sh_supports_bounded_scans rp st"
    by (auto simp: sh_supports_bounded_scans_def list_all_iff bounded)
  have barrier: "routing_barrier st = Inr ()"
    using router_okD(1) [OF assms(1)] by (simp add: routing_barrier_def placed_def)
  have locks: "(\<exists>s \<in> set (bt_keys (sh_shards st)). locked_in t start end (the (node_at st s))) \<longleftrightarrow>
      (\<exists>s n k. node_at st s = Some n \<and> in_range start end k \<and> spec_locked (view n) t k)"
    unfolding Bex_def bt_keys_iff locked_in_def not_None_eq by (metis option.sel)
  have rows: "router_rows env st t start end = rows_left st ?rest"
    by (auto simp: router_rows_def owned_from_def bt_keys_def bt_entries_iff comp_def intro!: arg_cong [of _ _ concat])
  have merging: "merging env st t start end ?rest"
    by (auto simp: merging_def)
  have scan: "run_scan not_cancelled f (sh_scan_range_batches rp env fuel st t start end con batch_rows) x =
      (if end \<noteq> [] \<and> end \<le> start then (x, Inr ()) else run_scan not_cancelled f
         (collect_heads rp env st t start end con (bt_keys (sh_shards st)) []
            (\<lambda>heads. merge_loop rp env st t end con ?k fuel heads [])) x)"
    by (simp add: sh_scan_range_batches_def bounded_all barrier public)
  show ?thesis
  proof (cases "\<exists>s n k. node_at st s = Some n \<and> in_range start end k \<and> spec_locked (view n) t k")
    case True
    show ?thesis
      unfolding scan collect_heads_run [OF assms(1,2) order.refl] sh_range_run(1) [OF assms(1,2)] locks
        if_P [OF True] by simp
  next
    case False
    then have "\<not> locked_in t start end n" if "node_at st s = Some n" for s n
      using that by (auto simp: locked_in_def)
    moreover have "length (rows_left st ?rest) < fuel"
      using assms(3) unfolding sh_range_run(1) [OF assms(1,2)] rows if_not_P [OF False] by simp
    ultimately have merged: "run_scan not_cancelled f (merge_loop rp env st t end con ?k fuel (heads_of st ?rest) []) x =
        run_scan not_cancelled f (batch_loop (chunks ?k (sort_key fst (rows_left st ?rest)))) x"
      using merge_run [OF assms(1,2), of ?k start "end" ?rest fuel "[]" f con x] merging by simp
    show ?thesis
      unfolding scan collect_heads_run [OF assms(1,2) order.refl] sh_range_run(1) [OF assms(1,2)] locks rows
        if_not_P [OF False] append.left_neutral merged by simp
  qed
qed

end

section \<open>Clusters of single nodes\<close>

text \<open>
  C23. A read of the cluster answers with the row of the key's owner, whatever other shards hold
  under that key, or with a conflict while a prepared transaction holds the row.
\<close>

theorem sharded_read_exact:
  assumes "cluster_ok env st" and "public_table t"
  shows "sh_read (cluster env describe) env st t k con =
    (if cluster_locked env st t k then Inl (RStorage Conflict) else Inr (cluster_rows env st t k))"
  by (rule node_backend.sh_read_run [OF assms])

text \<open>
  C22. A range of the cluster is exactly the rows its owners hold in the range, in strictly
  ascending order of their keys: no row is missing, repeated or taken from a stale copy. A
  prepared transaction on any shard that holds a row of the range turns it into a conflict.
\<close>

theorem sharded_range_exact:
  assumes "cluster_ok env st" and "public_table t"
  shows "if \<exists>s n k. node_at st s = Some n \<and> in_range start end k \<and> spec_locked (node_view (se_codecs env) n) t k
    then sh_range (cluster env describe) env st t start end con = Inl (RStorage Conflict)
    else \<exists>rows. sh_range (cluster env describe) env st t start end con = Inr rows \<and> ordered_keys rows \<and>
      (\<forall>k v. (k, v) \<in> set rows \<longleftrightarrow> in_range start end k \<and> cluster_rows env st t k = Some v)"
  unfolding node_backend.sh_range_run(1) [OF assms, of describe start "end" con]
  using node_backend.sh_range_run(2,3) [OF assms, where ?start = start] by (auto split: if_splits)

text \<open>
  C21. The merging scan of the cluster, which holds one row per shard, hands the callback the
  same rows in the same batches as cutting the whole range into pieces would, and stops when the
  callback does. One round per row is enough. The scan of an empty interval ends at once.
\<close>

theorem sharded_scan_streams:
  assumes "cluster_ok env st" and "public_table t"
    and "\<forall>rows. sh_range (cluster env describe) env st t start end con = Inr rows \<longrightarrow> length rows < fuel"
  shows "run_scan not_cancelled on_batch
      (sh_scan_range_batches (cluster env describe) env fuel st t start end con batch_rows) x =
    (if end \<noteq> [] \<and> end \<le> start then (x, Inr ())
     else case sh_range (cluster env describe) env st t start end con of
       Inl e \<Rightarrow> (x, Inl e)
     | Inr rows \<Rightarrow> run_scan not_cancelled on_batch (batch_loop (chunks (min (max batch_rows 1) 1024) rows)) x)"
  by (rule node_backend.scan_run [OF assms(1,2)]) (use assms(3) in blast)

section \<open>Reading the example cluster\<close>

text \<open>The second shard keeps a stale copy of a row that the first one owns.\<close>

definition demo_filled :: "op list \<Rightarrow> mem_engine clocked" where
  "demo_filled ops = fst (rp_propose_batch (cluster demo_env (\<lambda>_. [])) ops demo_node)"

definition demo_stale :: "mem_engine clocked sharded" where
  "demo_stale = demo_shards (demo_filled [OpPut ''t'' [0] [7]]) (demo_filled [OpPut ''t'' [0] [9], OpPut ''t'' [1] [8]])"

lemma demo_filled:
  assumes "batch_ok ops"
  shows "backend_ok demo_codecs (demo_filled ops)" "node_sys (demo_filled ops) = (\<lambda>_ _. None)"
    "node_view demo_codecs (demo_filled ops) = empty_spec\<lparr>ps_rows := spec_apply ops (\<lambda>_ _. None)\<rparr>"
    "2 ^ 63 \<le> node_room (demo_filled ops)"
proof -
  obtain n' r where run: "rp_propose_batch (cluster demo_env (\<lambda>_. [])) ops demo_node = (n', r)"
    by (cases "rp_propose_batch (cluster demo_env (\<lambda>_. [])) ops demo_node")
  have "spec_propose ops empty_spec = (empty_spec\<lparr>ps_rows := spec_apply ops (\<lambda>_ _. None)\<rparr>, Inr ())"
    by (simp add: spec_propose_def empty_spec_def spec_locked_def)
  then show "backend_ok demo_codecs (demo_filled ops)" "node_sys (demo_filled ops) = (\<lambda>_ _. None)"
    "node_view demo_codecs (demo_filled ops) = empty_spec\<lparr>ps_rows := spec_apply ops (\<lambda>_ _. None)\<rparr>"
    "2 ^ 63 \<le> node_room (demo_filled ops)"
    using node_backend.propose [of demo_codecs demo_node ops "\<lambda>_. []" n' r] demo_node_facts assms run
    by (auto simp: demo_filled_def demo_env_def)
qed

lemma demo_stale_batches:
  "batch_ok [OpPut ''t'' [0] [9], OpPut ''t'' [1] [8]]" "batch_ok [OpPut ''t'' [0] [7]]"
  by (simp_all add: batch_ok_def public_table_def table_name_def demo_public sized_table_def as_bytes_def)

lemma demo_stale_ok: "cluster_ok demo_env demo_stale"
  unfolding demo_stale_def
  by (rule demo_shards_ok) (use demo_filled [OF demo_stale_batches(1)] demo_filled [OF demo_stale_batches(2)]
    in \<open>auto simp: empty_spec_def\<close>)

lemma demo_stale_views:
  "node_view demo_codecs (demo_filled [OpPut ''t'' [0] [7]]) =
     empty_spec\<lparr>ps_rows := (\<lambda>_ _. None)(''t'' := [[0] \<mapsto> [7]])\<rparr>"
  "node_view demo_codecs (demo_filled [OpPut ''t'' [0] [9], OpPut ''t'' [1] [8]]) =
     empty_spec\<lparr>ps_rows := (\<lambda>_ _. None)(''t'' := [[0] \<mapsto> [9], [1] \<mapsto> [8]])\<rparr>"
  unfolding demo_filled(3) [OF demo_stale_batches(1)] demo_filled(3) [OF demo_stale_batches(2)]
  by (auto simp: spec_apply_def ops_to_write_set_def fun_eq_iff)

lemma demo_stale_rows:
  "cluster_rows demo_env demo_stale ''t'' = [[0] \<mapsto> [7], [1] \<mapsto> [8]]" "\<not> cluster_locked demo_env demo_stale t k"
  "node_at demo_stale s = Some n \<Longrightarrow> \<not> spec_locked (node_view (se_codecs demo_env) n) t k"
proof -
  have codecs: "se_codecs demo_env = demo_codecs"
    by (simp add: demo_env_def)
  have views: "node_view demo_codecs n = (if s = 1 then empty_spec\<lparr>ps_rows := (\<lambda>_ _. None)(''t'' := [[0] \<mapsto> [9], [1] \<mapsto> [8]])\<rparr>
      else empty_spec\<lparr>ps_rows := (\<lambda>_ _. None)(''t'' := [[0] \<mapsto> [7]])\<rparr>)" if "node_at demo_stale s = Some n" for s n
    using that demo_stale_views by (auto simp: demo_stale_def demo_shards_fields split: if_splits)
  show locked: "\<not> spec_locked (node_view (se_codecs demo_env) n) t k" if "node_at demo_stale s = Some n" for s n t k
    using views [OF that] by (simp add: codecs spec_locked_def empty_spec_def)
  have owner: "\<exists>n. node_at demo_stale (sh_owner demo_env demo_stale t k) = Some n" for t k
    using shard_for_ok(2) [OF router_okD(1) [OF demo_stale_ok]] by blast
  have owners: "sh_owner demo_env demo_stale ''t'' [0] = 0" "sh_owner demo_env demo_stale ''t'' [1] = 1"
    by (simp_all add: demo_stale_def demo_owner)
  from owner show "\<not> cluster_locked demo_env demo_stale t k"
    using locked by (auto simp: sh_locked_def sh_node_def)
  show "cluster_rows demo_env demo_stale ''t'' = [[0] \<mapsto> [7], [1] \<mapsto> [8]]"
  proof
    fix k
    obtain n where n: "node_at demo_stale (sh_owner demo_env demo_stale ''t'' k) = Some n"
      using owner by blast
    show "cluster_rows demo_env demo_stale ''t'' k = [[0] \<mapsto> [7], [1] \<mapsto> [8]] k"
      using views [OF n] n owners
      by (auto simp: sh_rows_def sh_node_def codecs empty_spec_def)
  qed
qed

theorem sharded_read_exact_witness:
  "sh_read (cluster demo_env (\<lambda>_. [])) demo_env demo_stale ''t'' [0] Strong = Inr (Some [7])"
  using sharded_read_exact [OF demo_stale_ok, of "''t''" "\<lambda>_. []" "[0]" Strong] demo_stale_rows
  by (simp add: public_table_def table_name_def demo_public sized_table_def as_bytes_def)

lemma demo_stale_public: "public_table ''t''"
  by (simp add: public_table_def table_name_def demo_public sized_table_def as_bytes_def)

lemma demo_stale_list:
  assumes "ordered_keys rows"
    and "\<And>k v. (k, v) \<in> set rows \<longleftrightarrow> in_range [] [] k \<and> cluster_rows demo_env demo_stale ''t'' k = Some v"
  shows "rows = [([0], [7]), ([1], [8])]"
proof (rule ordered_eqI)
  have "(k, v) \<in> set rows \<longleftrightarrow> (k, v) \<in> set [([0], [7]), ([1], [8])]" for k v
    unfolding assms(2) demo_stale_rows(1) by (auto simp: in_range_def)
  then show "set rows = set [([0], [7]), ([1], [8])]"
    by auto
qed (use assms(1) in simp_all)

theorem sharded_range_exact_witness:
  "sh_range (cluster demo_env (\<lambda>_. [])) demo_env demo_stale ''t'' [] [] Strong = Inr [([0], [7]), ([1], [8])]"
  using sharded_range_exact [OF demo_stale_ok demo_stale_public, of "[]" "[]" "\<lambda>_. []" Strong] demo_stale_rows(3)
    demo_stale_list by (auto split: if_splits)

lemma demo_stale_range:
  "sh_range (cluster demo_env (\<lambda>_. [])) demo_env demo_stale ''t'' [] [] Strong = Inr [([0], [7]), ([1], [8])]"
proof -
  note run = node_backend.sh_range_run [OF demo_stale_ok demo_stale_public]
  have "\<not> (\<exists>s n k. node_at demo_stale s = Some n \<and> in_range [] [] k \<and> spec_locked (node_view (se_codecs demo_env) n) ''t'' k)"
    using demo_stale_rows(3) by blast
  then show ?thesis
    unfolding run(1) using demo_stale_list [OF run(2,3)] by simp
qed

theorem sharded_scan_streams_witness:
  "run_scan not_cancelled (\<lambda>batch acc. (acc @ [map fst batch], Inr True))
     (sh_scan_range_batches (cluster demo_env (\<lambda>_. [])) demo_env 3 demo_stale ''t'' [] [] Strong 1) [] =
   ([[[0]], [[1]]], Inr ())"
proof -
  have "chunks 1 [([0], [7]), ([1], [8])] = [[([0], [7])], [([1], [8])] :: row list]"
    using chunks_full [of "[([0], [7])] :: row list" 1 "[([1], [8])]"] chunks_full [of "[([1], [8])] :: row list" 1 "[]"]
      chunks_short [of "[] :: row list" 1] by simp
  then show ?thesis
    using sharded_scan_streams [OF demo_stale_ok demo_stale_public, of "\<lambda>_. []" "[]" "[]" Strong 3
        "\<lambda>batch acc. (acc @ [map fst batch], Inr True)" 1 "[]"]
    by (simp add: demo_stale_range)
qed

end
