(* ===== verification/Router_Recover.thy ===== *)
theory Router_Recover
  imports Router_Read
begin

text \<open>
  Recovery of the sharded router: every decision that the coordinator recorded is told to every
  shard, so that after a crash between the decision and the second phase the committed
  transactions take effect everywhere and the aborted ones are forgotten.
\<close>

section \<open>Settling transactions\<close>

text \<open>
  \<open>settled D a a'\<close>: the participant \<open>a'\<close> is \<open>a\<close> after the decisions \<open>D\<close>: the decided transactions
  are no longer prepared and finished as decided, the rows of the committed ones are written,
  and everything else is as before.
\<close>

definition settled :: "(dist_txn_id \<Rightarrow> decision option) \<Rightarrow> participant_spec \<Rightarrow> participant_spec \<Rightarrow> bool" where
  "settled D a a' \<longleftrightarrow>
     (\<forall>i. ps_prepared a' i = (if D i = None then ps_prepared a i else None)) \<and>
     (\<forall>i. ps_finished a' i = (case D i of None \<Rightarrow> ps_finished a i | Some d \<Rightarrow> Some d)) \<and>
     (\<forall>i ops table key v. ps_prepared a i = Some ops \<and> D i = Some DCommit \<and>
        bt_get (ops_to_write_set ops) (table, key) = Some v \<longrightarrow> ps_rows a' table key = v) \<and>
     (\<forall>table key. (\<nexists>i ops. ps_prepared a i = Some ops \<and> D i = Some DCommit \<and>
        written (ops_to_write_set ops) table key) \<longrightarrow> ps_rows a' table key = ps_rows a table key)"

lemma settledD:
  assumes "settled D a a'"
  shows "ps_prepared a' i = (if D i = None then ps_prepared a i else None)"
    "ps_finished a' i = (case D i of None \<Rightarrow> ps_finished a i | Some d \<Rightarrow> Some d)"
    "ps_prepared a i = Some ops \<Longrightarrow> D i = Some DCommit \<Longrightarrow> bt_get (ops_to_write_set ops) (table, key) = Some v \<Longrightarrow>
       ps_rows a' table key = v"
    "(\<And>i ops. ps_prepared a i = Some ops \<Longrightarrow> D i = Some DCommit \<Longrightarrow> \<not> written (ops_to_write_set ops) table key) \<Longrightarrow>
       ps_rows a' table key = ps_rows a table key"
  using assms unfolding settled_def by (simp_all del: not_None_eq)

lemma settled_refl: "settled (\<lambda>_. None) a a"
  by (simp add: settled_def)

lemma settled_finish:
  assumes "ps_finished a i \<in> {None, Some d}" and "ps_finished a i \<noteq> None \<Longrightarrow> ps_prepared a i = None"
  shows "settled [i \<mapsto> d] a (fst (spec_finish i d a))" "snd (spec_finish i d a) = Inr ()"
proof -
  show "snd (spec_finish i d a) = Inr ()"
    using assms(1) by (auto simp: spec_finish_def)
  show "settled [i \<mapsto> d] a (fst (spec_finish i d a))"
  proof (cases "ps_finished a i")
    case None
    then show ?thesis
      by (auto simp: settled_def spec_finish_def spec_apply_def split: option.splits decision.splits)
  next
    case (Some d')
    then show ?thesis
      using assms by (auto simp: settled_def spec_finish_def)
  qed
qed

lemma settled_trans:
  assumes "settled D a a'" and "settled D' a' a''" and "spec_disjoint a" and "dom D \<inter> dom D' = {}"
  shows "settled (D ++ D') a a''"
proof -
  have apart: "D i = None \<or> D' i = None" for i
    using assms(4) by (auto simp: disjoint_iff)
  have before: "ps_prepared a i = Some ops" if "ps_prepared a' i = Some ops" for i ops
    using that settledD(1) [OF assms(1)] by (auto split: if_splits)
  show ?thesis
    unfolding settled_def
  proof (intro conjI allI impI; (elim conjE)?)
    fix i
    show "ps_prepared a'' i = (if (D ++ D') i = None then ps_prepared a i else None)"
      "ps_finished a'' i = (case (D ++ D') i of None \<Rightarrow> ps_finished a i | Some d \<Rightarrow> Some d)"
      using apart [of i] settledD(1,2) [OF assms(1), of i] settledD(1,2) [OF assms(2), of i]
      by (auto simp: map_add_def split: option.splits)
  next
    fix i ops table key v
    assume i: "ps_prepared a i = Some ops" "(D ++ D') i = Some DCommit" "bt_get (ops_to_write_set ops) (table, key) = Some v"
    have other: "\<not> written (ops_to_write_set ops') table key" if "ps_prepared a' j = Some ops'" "j \<noteq> i" for j ops'
      using spec_disjointD [OF assms(3) i(1) before [OF that(1)]] i(3) that(2) by simp
    show "ps_rows a'' table key = v"
    proof (cases "D' i")
      case None
      then have "ps_prepared a' i = None" "ps_rows a' table key = v"
        using i settledD(1,3) [OF assms(1)] by (auto simp: map_add_def)
      then show ?thesis
        using settledD(4) [OF assms(2), of table key] other by (metis option.distinct(1))
    next
      case (Some d)
      then have "D i = None" "D' i = Some DCommit"
        using apart [of i] i(2) by (auto simp: map_add_def)
      then show ?thesis
        using settledD(3) [OF assms(2) _ _ i(3)] settledD(1) [OF assms(1), of i] i(1) by simp
    qed
  next
    fix table key
    assume none: "\<nexists>i ops. ps_prepared a i = Some ops \<and> (D ++ D') i = Some DCommit \<and> written (ops_to_write_set ops) table key"
    have both: "(D ++ D') i = Some DCommit" if "D i = Some DCommit \<or> D' i = Some DCommit" for i
      using that apart [of i] by (auto simp: map_add_def)
    have "ps_rows a'' table key = ps_rows a' table key"
      by (rule settledD(4) [OF assms(2)]) (use none before both in blast)
    also have "\<dots> = ps_rows a table key"
      by (rule settledD(4) [OF assms(1)]) (use none both in blast)
    finally show "ps_rows a'' table key = ps_rows a table key" .
  qed
qed

text \<open>Only the coordinator, on the global shard, holds decisions.\<close>

definition decisions_global ::
  "('n \<Rightarrow> string \<Rightarrow> bytes \<Rightarrow> bytes option) \<Rightarrow> 'n sharded \<Rightarrow> bool" where
  "decisions_global sys st \<longleftrightarrow>
     (\<forall>s n. node_at st s = Some n \<and> s \<noteq> sh_global st \<longrightarrow> sys n DIST_TXN_COORDINATOR_TABLE = (\<lambda>_. None))"

section \<open>Steps that keep a router well formed\<close>

definition step_ok ::
  "('n \<Rightarrow> bool) \<Rightarrow> ('n \<Rightarrow> participant_spec) \<Rightarrow> ('n \<Rightarrow> string \<Rightarrow> bytes \<Rightarrow> bytes option) \<Rightarrow> shard_env \<Rightarrow>
   'n sharded \<Rightarrow> 'n \<Rightarrow> shard_id \<Rightarrow> 'n \<Rightarrow> 'n \<Rightarrow> bool" where
  "step_ok ok view sys env st g s n n' \<longleftrightarrow>
     ok n' \<and> sys n' DIST_TXN_COORDINATOR_TABLE = sys n DIST_TXN_COORDINATOR_TABLE \<and>
     sys n' DIST_TXN_SEQUENCE_TABLE = sys n DIST_TXN_SEQUENCE_TABLE \<and>
     (\<forall>i. ps_prepared (view n') i \<noteq> None \<or> ps_finished (view n') i \<noteq> None \<longrightarrow> i \<in> router_ids view sys st) \<and>
     (\<forall>i d. ps_finished (view n') i = Some d \<longrightarrow>
        decided (se_codecs env) (sys g) i = None \<or> decided (se_codecs env) (sys g) i = Some d)"

lemma router_ok_step:
  assumes "router_ok ok view sys env st" and "node_at st (sh_global st) = Some g"
    and "each (step_ok ok view sys env st g) st st'"
  shows "router_ok ok view sys env st'"
proof -
  note earlier = each_back [OF assms(3)]
  have global: "sh_global st' = sh_global st"
    by (rule each_fields [OF assms(3)])
  have rows: "sys g' DIST_TXN_COORDINATOR_TABLE = sys g DIST_TXN_COORDINATOR_TABLE"
      "sys g' DIST_TXN_SEQUENCE_TABLE = sys g DIST_TXN_SEQUENCE_TABLE"
    if "node_at st' (sh_global st') = Some g'" for g'
    using earlier [OF that] assms(2) by (auto simp: global step_ok_def)
  then have decided: "decided (se_codecs env) (sys g') i = decided (se_codecs env) (sys g) i"
    if "node_at st' (sh_global st') = Some g'" for g' i
    using that by (simp add: decided_def)
  have ids: "router_ids view sys st' \<subseteq> router_ids view sys st"
  proof
    fix i
    assume "i \<in> router_ids view sys st'"
    then show "i \<in> router_ids view sys st"
    proof (cases rule: router_idsE)
      case (1 s n')
      then show ?thesis
        using earlier [OF 1(1)] by (auto simp: step_ok_def)
    next
      case (2 g')
      then show ?thesis
        using rows [OF 2(1)] by (intro router_idsI(2) [of st g sys, OF assms(2)]) simp
    qed
  qed
  show ?thesis
  proof (rule router_okI)
    show "placed st'" "codecs_ok (se_codecs env)"
      using router_okD(1,2) [OF assms(1)] each_placed [OF assms(3)] by simp_all
    show "ok n" if "node_at st' s = Some n" for s n
      using earlier [OF that] by (auto simp: step_ok_def)
    show "coordinator_ok (se_codecs env) (sys g') (router_ids view sys st')" if "node_at st' (sh_global st') = Some g'" for g'
      using rows [OF that] coordinator_ok_mono [OF router_okD(5) [OF assms(1,2)] ids] by (simp add: coordinator_ok_def)
    show "d' = d" if "node_at st' (sh_global st') = Some g'" "node_at st' s = Some n" "ps_finished (view n) i = Some d"
        "decided (se_codecs env) (sys g') i = Some d'" for g' s n i d d'
      using earlier [OF that(2)] that(3,4) unfolding decided [OF that(1)] step_ok_def by (metis option.distinct(1) option.inject)
  qed
qed

section \<open>The same call on every shard\<close>

lemma sfold_shards_run:
  assumes "distinct ss"
    and "\<And>s. s \<in> set ss \<Longrightarrow> \<exists>n n'. node_at st s = Some n \<and> m n = (n', Inr ()) \<and> R s n n'"
  shows "\<exists>st'. sfold (\<lambda>s _. call_shard s m) ss () st = (st', Inr ()) \<and>
    each (\<lambda>s n n'. if s \<in> set ss then R s n n' else n' = n) st st'"
  using assms
proof (induction ss arbitrary: st)
  case Nil
  have "each (\<lambda>s n n'. n' = n) st st"
    by (rule eachI) auto
  then show ?case
    by simp
next
  case (Cons s ss)
  obtain n n' where n: "node_at st s = Some n" "m n = (n', Inr ())" "R s n n'"
    using Cons.prems(2) [of s] by auto
  obtain st' where st': "sfold (\<lambda>s _. call_shard s m) ss () (put_node s n' st) = (st', Inr ())"
      "each (\<lambda>s n n'. if s \<in> set ss then R s n n' else n' = n) (put_node s n' st) st'"
  proof -
    have "\<exists>k k'. node_at (put_node s n' st) s' = Some k \<and> m k = (k', Inr ()) \<and> R s' k k'" if "s' \<in> set ss" for s'
      using Cons.prems(2) [of s'] that Cons.prems(1) by auto
    from Cons.IH [OF _ this] show ?thesis
      using that Cons.prems(1) by auto
  qed
  have "each (\<lambda>s' k k'. if s' = s then k = n \<and> k' = n' else k' = k) st (put_node s n' st)"
    by (rule each_put_node [OF n(1)]) simp_all
  then have "each (\<lambda>s' k k'. if s' \<in> set (s # ss) then R s' k k' else k' = k) st st'"
    by (rule each_trans [OF _ st'(2)]) (use Cons.prems(1) n(3) in \<open>auto split: if_splits\<close>)
  moreover have "call_shard s m st = (put_node s n' st, Inr ())"
    using call_shard_ok [of st s n m] n by simp
  ultimately show ?case
    using st'(1) by (intro exI [of _ st']) simp
qed

lemma all_shards_run:
  assumes "\<And>s n. node_at st s = Some n \<Longrightarrow> \<exists>n'. m n = (n', Inr ()) \<and> R s n n'"
  shows "\<exists>st'. sfold (\<lambda>s _. call_shard s m) (bt_keys (sh_shards st)) () st = (st', Inr ()) \<and> each R st st'"
proof -
  have "\<exists>n n'. node_at st s = Some n \<and> m n = (n', Inr ()) \<and> R s n n'" if "s \<in> set (bt_keys (sh_shards st))" for s
    using that assms by (auto simp: bt_keys_iff)
  then obtain st' where st': "sfold (\<lambda>s _. call_shard s m) (bt_keys (sh_shards st)) () st = (st', Inr ())"
      "each (\<lambda>s n n'. if s \<in> set (bt_keys (sh_shards st)) then R s n n' else n' = n) st st'"
    using sfold_shards_run [of "bt_keys (sh_shards st)" st m R] by auto
  have "each (\<lambda>s n n'. node_at st s = Some n \<and> (if s \<in> set (bt_keys (sh_shards st)) then R s n n' else n' = n)) st st'"
    by (rule each_strong [OF st'(2)])
  then have "each R st st'"
    by (rule each_mono) (auto simp: bt_keys_iff)
  with st'(1) show ?thesis
    by blast
qed

context backend
begin

definition settle_rel :: "nat \<Rightarrow> (dist_txn_id \<Rightarrow> decision option) \<Rightarrow> shard_id \<Rightarrow> 'n \<Rightarrow> 'n \<Rightarrow> bool" where
  "settle_rel j D s n n' \<longleftrightarrow> moved j n n' \<and> sys n' = sys n \<and> settled D (view n) (view n')"

definition can_finish :: "coordinator_decision_record list \<Rightarrow> 'n \<Rightarrow> bool" where
  "can_finish ds n \<longleftrightarrow> ok n \<and> length ds \<le> room n \<and>
     (\<forall>r \<in> set ds. ps_finished (view n) (cd_txn_id r) \<in> {None, Some (cd_decision r)})"

lemma finish_one:
  assumes "can_finish (r # ds) n"
  shows "\<exists>n'. rp_finish_dist_txn rp (cd_txn_id r) (cd_decision r) n = (n', Inr ()) \<and>
    spec_disjoint (view n) \<and> settle_rel 1 [cd_txn_id r \<mapsto> cd_decision r] s n n'"
proof -
  have n: "ok n" "0 < room n" "ps_finished (view n) (cd_txn_id r) \<in> {None, Some (cd_decision r)}"
    using assms by (auto simp: can_finish_def)
  obtain n' res where run: "rp_finish_dist_txn rp (cd_txn_id r) (cd_decision r) n = (n', res)"
    by (cases "rp_finish_dist_txn rp (cd_txn_id r) (cd_decision r) n")
  from finish [OF n(1,2) run] have step: "moved 1 n n'" "sys n' = sys n"
      "spec_finish (cd_txn_id r) (cd_decision r) (view n) = (view n', res)"
    by (auto simp: moved_def)
  have "ps_finished (view n) (cd_txn_id r) \<noteq> None \<Longrightarrow> ps_prepared (view n) (cd_txn_id r) = None"
    using wf [OF n(1)] by blast
  from settled_finish [OF n(3) this] show ?thesis
    using run step wf [OF n(1)] by (simp add: settle_rel_def)
qed

lemma finish_all_run:
  assumes "distinct (map cd_txn_id ds)" and "\<And>s n. node_at st s = Some n \<Longrightarrow> can_finish ds n"
  shows "\<exists>st'. sfold (\<lambda>r _. finish_everywhere rp r) ds () st = (st', Inr ()) \<and>
    each (settle_rel (length ds) (map_of (map (\<lambda>r. (cd_txn_id r, cd_decision r)) ds))) st st'"
  using assms
proof (induction ds arbitrary: st)
  case Nil
  have "each (settle_rel 0 (\<lambda>_. None)) st st"
    using Nil by (intro eachI) (auto simp: settle_rel_def settled_refl moved_def can_finish_def)
  then show ?case
    by (intro exI [of _ st]) simp
next
  case (Cons r ds)
  let ?D = "map_of (map (\<lambda>r. (cd_txn_id r, cd_decision r)) ds)"
  let ?R = "\<lambda>s n n'. spec_disjoint (view n) \<and> can_finish (r # ds) n \<and> settle_rel 1 [cd_txn_id r \<mapsto> cd_decision r] s n n'"
  obtain st1 where st1: "finish_everywhere rp r st = (st1, Inr ())" "each ?R st st1"
    using all_shards_run [of st "rp_finish_dist_txn rp (cd_txn_id r) (cd_decision r)" ?R] finish_one Cons.prems(2)
    unfolding finish_everywhere_def by blast
  have fresh: "?D (cd_txn_id r) = None"
    using Cons.prems(1) by (simp add: map_of_eq_None_iff image_image)
  have "can_finish ds n'" if n': "node_at st1 s = Some n'" for s n'
  proof -
    obtain n where n: "?R s n n'"
      using each_back [OF st1(2) n'] by blast
    have "ps_finished (view n') (cd_txn_id q) = ps_finished (view n) (cd_txn_id q)" if "q \<in> set ds" for q
    proof -
      have "cd_txn_id q \<noteq> cd_txn_id r"
        using that Cons.prems(1) by simp (metis imageI)
      then show ?thesis
        using n settledD(2) [of "[cd_txn_id r \<mapsto> cd_decision r]" "view n" "view n'" "cd_txn_id q"]
        by (simp add: settle_rel_def)
    qed
    then show ?thesis
      using n by (auto simp: can_finish_def settle_rel_def moved_def)
  qed
  then obtain st2 where st2: "sfold (\<lambda>r _. finish_everywhere rp r) ds () st1 = (st2, Inr ())"
      "each (settle_rel (length ds) ?D) st1 st2"
    using Cons.IH [of st1] Cons.prems(1) by auto
  have "settle_rel (length (r # ds)) (map_of (map (\<lambda>r. (cd_txn_id r, cd_decision r)) (r # ds))) s n n''"
    if R: "?R s n n'" and R': "settle_rel (length ds) ?D s n' n''" for s n n' n''
  proof -
    have "settled ([cd_txn_id r \<mapsto> cd_decision r] ++ ?D) (view n) (view n'')"
      using R R' fresh by (intro settled_trans) (auto simp: settle_rel_def)
    moreover have "[cd_txn_id r \<mapsto> cd_decision r] ++ ?D = ?D(cd_txn_id r \<mapsto> cd_decision r)"
      using fresh by (auto simp: map_add_def fun_eq_iff split: option.splits)
    ultimately show ?thesis
      using R R' by (auto simp: settle_rel_def moved_def)
  qed
  then have "each (settle_rel (length (r # ds)) (map_of (map (\<lambda>r. (cd_txn_id r, cd_decision r)) (r # ds)))) st st2"
    by (rule each_trans [OF st1(2) st2(2)])
  moreover have "sfold (\<lambda>r _. finish_everywhere rp r) (r # ds) () st = (st2, Inr ())"
    using st1(1) st2(1) by simp
  ultimately show ?case
    by blast
qed

lemma settle_router_ok:
  assumes "router_ok ok view sys env st" and "node_at st (sh_global st) = Some g"
    and "each (settle_rel j (decided (se_codecs env) (sys g))) st st'"
  shows "router_ok ok view sys env st'"
proof (rule router_ok_step [OF assms(1,2)])
  let ?D = "decided (se_codecs env) (sys g)"
  have known: "i \<in> router_ids view sys st" if "?D i \<noteq> None" for i
    using that by (intro router_idsI(2) [of st g sys, OF assms(2)]) (auto simp: decided_def)
  have "each (\<lambda>s n n'. node_at st s = Some n \<and> settle_rel j ?D s n n') st st'"
    by (rule each_strong [OF assms(3)])
  then show "each (step_ok ok view sys env st g) st st'"
  proof (rule each_mono)
    fix s n n'
    assume step: "node_at st s = Some n \<and> settle_rel j ?D s n n'"
    then have settled: "settled ?D (view n) (view n')"
      by (simp add: settle_rel_def)
    have "i \<in> router_ids view sys st" if "ps_prepared (view n') i \<noteq> None \<or> ps_finished (view n') i \<noteq> None" for i
      using that step known [of i] settledD(1,2) [OF settled, of i] router_idsI(1) [of st s n view i]
      by (cases "?D i") auto
    moreover have "?D i = None \<or> ?D i = Some d" if "ps_finished (view n') i = Some d" for i d
      using that settledD(2) [OF settled, of i] by (auto split: option.splits)
    ultimately show "step_ok ok view sys env st g s n n'"
      using step by (simp add: step_ok_def settle_rel_def moved_def)
  qed
qed

lemma recover_run:
  assumes "router_ok ok view sys env st" and "node_at st (sh_global st) = Some g" and "decisions_global sys st"
    and "\<And>s n. node_at st s = Some n \<Longrightarrow> card {i. decided (se_codecs env) (sys g) i \<noteq> None} \<le> room n"
    and "sh_recover_dist_txns rp env st = (st', r)"
  shows "r = Inr ()" and "router_ok ok view sys env st'"
    and "each (\<lambda>s n n'. settled (decided (se_codecs env) (sys g)) (view n) (view n')) st st'"
proof -
  let ?D = "decided (se_codecs env) (sys g)"
  obtain ds where ds: "coordinator_decisions rp env st = Inr ds" "distinct (map cd_txn_id ds)"
      "\<And>i d. (\<exists>r \<in> set ds. cd_txn_id r = i \<and> cd_decision r = d) \<longleftrightarrow> ?D i = Some d"
    using coordinator_decisions_run [OF assms(1,2)] by blast
  have D: "map_of (map (\<lambda>r. (cd_txn_id r, cd_decision r)) ds) = ?D"
  proof
    fix i
    have "distinct (map fst (map (\<lambda>r. (cd_txn_id r, cd_decision r)) ds))"
      using ds(2) by (simp add: comp_def)
    then have "map_of (map (\<lambda>r. (cd_txn_id r, cd_decision r)) ds) i = Some d \<longleftrightarrow> ?D i = Some d" for d
      unfolding ds(3) [symmetric] by (auto simp: image_iff)
    then show "map_of (map (\<lambda>r. (cd_txn_id r, cd_decision r)) ds) i = ?D i"
      by (metis not_Some_eq)
  qed
  have "cd_txn_id ` set ds = {i. \<exists>d. \<exists>r \<in> set ds. cd_txn_id r = i \<and> cd_decision r = d}"
    by auto
  then have "cd_txn_id ` set ds = {i. ?D i \<noteq> None}"
    unfolding ds(3) by simp
  then have "length ds = card {i. ?D i \<noteq> None}"
    using ds(2) distinct_card [of "map cd_txn_id ds"] by simp
  then have can: "can_finish ds n" if n: "node_at st s = Some n" for s n
  proof -
    have "ps_finished (view n) (cd_txn_id r) \<in> {None, Some (cd_decision r)}" if "r \<in> set ds" for r
    proof (cases "ps_finished (view n) (cd_txn_id r)")
      case (Some d)
      moreover have "?D (cd_txn_id r) = Some (cd_decision r)"
        using ds(3) that by blast
      ultimately show ?thesis
        using router_okD(6) [OF assms(1,2) n] by (metis insertCI)
    qed simp
    then show ?thesis
      using assms(4) [OF n] router_okD(3) [OF assms(1) n] \<open>length ds = _\<close> by (simp add: can_finish_def)
  qed
  obtain st1 where st1: "sfold (\<lambda>r _. finish_everywhere rp r) ds () st = (st1, Inr ())"
      "each (settle_rel (length ds) ?D) st st1"
    using finish_all_run [OF ds(2), of st] can unfolding D by blast
  have "rp_recover_dist_txns rp n' = (n', Inr ())" if n': "node_at st1 s = Some n'" for s n'
  proof (rule recover)
    obtain n where n: "node_at st s = Some n" "settle_rel (length ds) ?D s n n'"
      using each_back [OF st1(2) n'] by blast
    show "ok n'"
      using n(2) by (simp add: settle_rel_def moved_def)
    show "sys n' DIST_TXN_COORDINATOR_TABLE (txn_key i) = None" if "ps_prepared (view n') i \<noteq> None" for i
    proof (cases "s = sh_global st")
      case True
      then have "?D i = None"
        using n(2) that settledD(1) [of ?D "view n" "view n'" i] by (auto simp: settle_rel_def split: if_splits)
      then show ?thesis
        using n assms(2) True by (simp add: settle_rel_def decided_def)
    next
      case False
      then show ?thesis
        using n assms(3) by (simp add: settle_rel_def decisions_global_def)
    qed
  qed
  then obtain st2 where st2: "sfold (\<lambda>s _. call_shard s (rp_recover_dist_txns rp)) (bt_keys (sh_shards st1)) () st1 = (st2, Inr ())"
      "each (\<lambda>s n n'. n' = n) st1 st2"
    using all_shards_run [of st1 "rp_recover_dist_txns rp" "\<lambda>s n n'. n' = n"] by blast
  have all: "each (settle_rel (length ds) ?D) st st2"
    by (rule each_trans [OF st1(2) st2(2)]) simp
  have "routing_barrier st = Inr ()"
    using router_okD(1) [OF assms(1)] by (simp add: routing_barrier_def placed_def)
  then have "st' = st2" "r = Inr ()"
    using assms(5) ds(1) st1(1) st2(1) by (simp_all add: sh_recover_dist_txns_def sbind_def sask_def)
  then show "r = Inr ()" "each (\<lambda>s n n'. settled ?D (view n) (view n')) st st'"
    using each_mono [OF all] by (auto simp: settle_rel_def)
  show "router_ok ok view sys env st'"
    using settle_router_ok [OF assms(1,2) all] \<open>st' = st2\<close> by simp
qed

end

section \<open>Clusters of single nodes\<close>

text \<open>
  C3. Recovery of a cluster always succeeds and settles every transaction the coordinator has
  decided: on every shard the rows of the committed ones are written, the aborted ones leave no
  trace, none of them is prepared any more and all are remembered as finished; transactions
  without a decision stay prepared and all other rows keep their values. Each shard needs room
  for one commit per decision.
\<close>

theorem recovery_settles_decisions:
  assumes "cluster_ok env st" and "node_at st (sh_global st) = Some g"
    and "decisions_global node_sys st"
    and "\<forall>s n. node_at st s = Some n \<longrightarrow> card {i. decided (se_codecs env) (node_sys g) i \<noteq> None} \<le> node_room n"
    and "sh_recover_dist_txns (cluster env describe) env st = (st', r)"
  shows "r = Inr () \<and> cluster_ok env st' \<and>
    each (\<lambda>s n n'. settled (decided (se_codecs env) (node_sys g)) (node_view (se_codecs env) n) (node_view (se_codecs env) n')) st st'"
  using node_backend.recover_run [OF assms(1-3) _ assms(5)] assms(4) by blast

section \<open>A crash between the phases\<close>

text \<open>
  Transaction 5 is prepared on the second shard and the coordinator has recorded its commit;
  the second phase did not run.
\<close>

definition demo_prepared :: "mem_engine clocked" where
  "demo_prepared = fst (rp_prepare_dist_txn (cluster demo_env (\<lambda>_. [])) 5 [OpPut ''t'' [1] [8]] demo_node)"

definition demo_crashed :: "mem_engine clocked sharded" where
  "demo_crashed = fst (record_dist_txn_decision (cluster demo_env (\<lambda>_. [])) demo_env 0 5 DCommit (demo_shards demo_node demo_prepared))"

lemma demo_prepared_facts:
  "backend_ok demo_codecs demo_prepared" "2 ^ 63 \<le> node_room demo_prepared" "node_sys demo_prepared = (\<lambda>_ _. None)"
  "node_view demo_codecs demo_prepared = empty_spec\<lparr>ps_prepared := [5 \<mapsto> [OpPut ''t'' [1] [8]]]\<rparr>"
proof -
  obtain n' v where run: "rp_prepare_dist_txn (cluster demo_env (\<lambda>_. [])) 5 [OpPut ''t'' [1] [8]] demo_node = (n', v)"
    by (cases "rp_prepare_dist_txn (cluster demo_env (\<lambda>_. [])) 5 [OpPut ''t'' [1] [8]] demo_node")
  have "batch_ok [OpPut ''t'' [1] [8]]"
    by (simp add: batch_ok_def public_table_def table_name_def demo_public sized_table_def as_bytes_def)
  moreover have "spec_prepare 5 [OpPut ''t'' [1] [8]] empty_spec =
      (empty_spec\<lparr>ps_prepared := [5 \<mapsto> [OpPut ''t'' [1] [8]]]\<rparr>, VYes)"
    by (simp add: spec_prepare_def empty_spec_def spec_locked_def)
  ultimately show "backend_ok demo_codecs demo_prepared" "2 ^ 63 \<le> node_room demo_prepared" "node_sys demo_prepared = (\<lambda>_ _. None)"
    "node_view demo_codecs demo_prepared = empty_spec\<lparr>ps_prepared := [5 \<mapsto> [OpPut ''t'' [1] [8]]]\<rparr>"
    using node_backend.prepare [of demo_codecs demo_node "[OpPut ''t'' [1] [8]]" "\<lambda>_. []" 5 n' v] demo_node_facts run
    by (auto simp: demo_prepared_def demo_env_def)
qed

lemma demo_crashed_facts:
  "cluster_ok demo_env demo_crashed" "decisions_global node_sys demo_crashed" "sh_global demo_crashed = 0"
  "\<exists>g. node_at demo_crashed 0 = Some g \<and> decided demo_codecs (node_sys g) = [5 \<mapsto> DCommit] \<and>
     node_view demo_codecs g = empty_spec \<and> 2 ^ 63 \<le> node_room g"
  "node_at demo_crashed 1 = Some demo_prepared" "node_at demo_crashed s \<noteq> None \<Longrightarrow> s = 0 \<or> s = 1"
proof -
  let ?st = "demo_shards demo_node demo_prepared"
  have codecs: "se_codecs demo_env = demo_codecs"
    by (simp add: demo_env_def)
  obtain g bs rec where run: "record_dist_txn_decision (cluster demo_env (\<lambda>_. [])) demo_env 0 5 DCommit ?st = (put_node 0 g ?st, Inr ())"
      "backend_ok demo_codecs g" "node_room demo_node \<le> node_room g + 1" "node_view demo_codecs g = empty_spec"
      "decode_decision demo_codecs bs = Inr rec" "cd_txn_id rec = 5" "cd_decision rec = DCommit"
      "node_sys g = put_decision 5 bs (\<lambda>_ _. None)"
    using node_backend.record_decision_run [of demo_env ?st demo_node demo_codecs 5 "\<lambda>_. []" 0 DCommit] demo_node_facts
    by (auto simp: demo_shards_fields codecs demo_codecs_ok node_backend.moved_def)
  have crashed: "demo_crashed = put_node 0 g ?st"
    using run(1) by (simp add: demo_crashed_def)
  have nodes: "node_at demo_crashed s = (if s = 0 then Some g else if s = 1 then Some demo_prepared else None)" for s
    by (simp add: crashed demo_shards_fields)
  have rows: "node_sys g DIST_TXN_COORDINATOR_TABLE = [txn_key 5 \<mapsto> bs]"
      "node_sys g DIST_TXN_SEQUENCE_TABLE = (\<lambda>_. None)"
    by (simp_all add: run(8) put_decision_def DIST_TXN_SEQUENCE_TABLE_def dist_table_defs)
  have decided: "decided demo_codecs (node_sys g) = [5 \<mapsto> DCommit]"
    by (simp add: fun_eq_iff decided_def rows run(5,7))
  show global: "sh_global demo_crashed = 0"
    by (simp add: crashed demo_shards_fields)
  show "cluster_ok demo_env demo_crashed"
  proof (rule router_okI)
    have "each (\<lambda>_ _ _. True) demo_cluster demo_crashed"
      by (rule eachI) (auto simp: demo_cluster_fields nodes crashed demo_cluster_def demo_shards_def sharded_new_def
          demo_map_def put_node_def split: if_splits)
    then show "placed demo_crashed"
      using each_placed router_okD(1) [OF demo_cluster_ok(1)] by blast
    show "codecs_ok (se_codecs demo_env)"
      by (simp add: codecs demo_codecs_ok)
    show "backend_ok (se_codecs demo_env) n" if "node_at demo_crashed s = Some n" for s n
      using that run(2) demo_prepared_facts(1) by (auto simp: nodes codecs split: if_splits)
    show "coordinator_ok (se_codecs demo_env) (node_sys g') (cluster_ids demo_env demo_crashed)"
      if "node_at demo_crashed (sh_global demo_crashed) = Some g'" for g'
    proof -
      have "g' = g"
        using that by (simp add: nodes global)
      then show ?thesis
        using run(5,6) by (simp add: codecs coordinator_ok_def rows)
    qed
    show "d' = d" if "node_at demo_crashed s = Some n" "ps_finished (node_view (se_codecs demo_env) n) i = Some d" for s n i d d'
      using that run(4) demo_prepared_facts(4) by (auto simp: nodes codecs empty_spec_def split: if_splits)
  qed
  show "decisions_global node_sys demo_crashed"
    by (auto simp: decisions_global_def nodes global demo_prepared_facts(3))
  show "\<exists>g. node_at demo_crashed 0 = Some g \<and> decided demo_codecs (node_sys g) = [5 \<mapsto> DCommit] \<and>
     node_view demo_codecs g = empty_spec \<and> 2 ^ 63 \<le> node_room g"
    using run(3,4) by (auto simp: nodes decided demo_node_facts(2))
  show "node_at demo_crashed 1 = Some demo_prepared" "node_at demo_crashed s \<noteq> None \<Longrightarrow> s = 0 \<or> s = 1"
    by (auto simp: nodes split: if_splits)
qed

theorem recovery_settles_decisions_witness:
  "case sh_recover_dist_txns (cluster demo_env (\<lambda>_. [])) demo_env demo_crashed of
     (st, r) \<Rightarrow> r = Inr () \<and> (\<exists>n. node_at st 1 = Some n \<and> ps_rows (node_view demo_codecs n) ''t'' [1] = Some [8] \<and>
       ps_prepared (node_view demo_codecs n) 5 = None \<and> ps_finished (node_view demo_codecs n) 5 = Some DCommit)"
proof -
  obtain st r where run: "sh_recover_dist_txns (cluster demo_env (\<lambda>_. [])) demo_env demo_crashed = (st, r)"
    by (cases "sh_recover_dist_txns (cluster demo_env (\<lambda>_. [])) demo_env demo_crashed")
  have codecs: "se_codecs demo_env = demo_codecs"
    by (simp add: demo_env_def)
  obtain g where g: "node_at demo_crashed (sh_global demo_crashed) = Some g" "decided demo_codecs (node_sys g) = [5 \<mapsto> DCommit]" "2 ^ 63 \<le> node_room g"
    using demo_crashed_facts(3,4) by auto
  have "\<forall>s n. node_at demo_crashed s = Some n \<longrightarrow> card {i. decided (se_codecs demo_env) (node_sys g) i \<noteq> None} \<le> node_room n"
  proof (intro allI impI)
    fix s n
    assume n: "node_at demo_crashed s = Some n"
    then have "n = g \<or> n = demo_prepared"
      using demo_crashed_facts(3,5) demo_crashed_facts(6) [of s] g(1) by auto
    then show "card {i. decided (se_codecs demo_env) (node_sys g) i \<noteq> None} \<le> node_room n"
      using g(3) demo_prepared_facts(2) by (auto simp: codecs g(2))
  qed
  from recovery_settles_decisions [OF demo_crashed_facts(1) g(1) demo_crashed_facts(2) this run]
  obtain n where n: "r = Inr ()" "node_at st 1 = Some n"
      "settled [5 \<mapsto> DCommit] (node_view demo_codecs demo_prepared) (node_view demo_codecs n)"
    using eachD [OF _ demo_crashed_facts(5)] by (fastforce simp: codecs g(2))
  have "ps_rows (node_view demo_codecs n) ''t'' [1] = Some [8]"
    by (rule settledD(3) [OF n(3), of 5 "[OpPut ''t'' [1] [8]]"]) (simp_all add: demo_prepared_facts ops_to_write_set_def)
  then show ?thesis
    using n settledD(1,2) [OF n(3), of 5] by (cases n) (simp add: run)
qed

end
