(* ===== verification/Router_Migrate.thy ===== *)
theory Router_Migrate
  imports Router_Recover
begin

text \<open>
  Migration of a partition: whatever its outcome, the rows that clients see through the router
  stay the same; when it succeeds, the partition has moved to the target shard and every other
  partition stays where it was.
\<close>

section \<open>Rows of a partition\<close>

definition key_part :: "shard_env \<Rightarrow> 'n sharded \<Rightarrow> string \<Rightarrow> bytes \<Rightarrow> partition_id" where
  "key_part env st t k = projr (partition_of env (sm_strategy (sh_map st)) (canonical_route_key t k))"

lemma public_not_global: "public_table t \<Longrightarrow> \<not> is_global_table t"
  by (simp add: public_table_def table_is_reserved_def RESERVED_KEYSPACE_PREFIX_def is_global_table_def)

lemma key_part_ok:
  assumes "placed st" and "\<not> is_global_table t"
  shows "key_part env st t k < partition_count (sm_strategy (sh_map st))"
    "route_key env st t k = Inr (Partition (key_part env st t k))"
    "bt_get (sm_placement (sh_map st)) (key_part env st t k) = Some (sh_owner env st t k)"
proof -
  obtain part where part: "partition_of env (sm_strategy (sh_map st)) (canonical_route_key t k) = Inr part"
      "part < partition_count (sm_strategy (sh_map st))"
    using partition_of_ok assms(1) unfolding placed_def by blast
  then show bound: "key_part env st t k < partition_count (sm_strategy (sh_map st))"
    by (simp add: key_part_def)
  show route: "route_key env st t k = Inr (Partition (key_part env st t k))"
    using part(1) assms by (simp add: route_key_def shard_map_read_def placed_def key_part_def)
  obtain s where s: "bt_get (sm_placement (sh_map st)) (key_part env st t k) = Some s"
    using bound assms(1) unfolding placed_def by blast
  then show "bt_get (sm_placement (sh_map st)) (key_part env st t k) = Some (sh_owner env st t k)"
    using route assms(1) by (simp add: sh_owner_def shard_for_def shard_for_partition_def map_shard_for_partition_def
        shard_map_read_def placed_def)
qed

abbreviation part_ops :: "shard_env \<Rightarrow> 'n sharded \<Rightarrow> partition_id \<Rightarrow> string \<Rightarrow> (row \<Rightarrow> op) \<Rightarrow> row list \<Rightarrow> op list" where
  "part_ops env st part t mk rows \<equiv> map mk (filter (\<lambda>row. key_part env st t (fst row) = part) rows)"

lemma batch_ops_run:
  assumes "placed st" and "\<not> is_global_table t"
  shows "batch_ops env st part t mk batch = Inr (part_ops env st part t mk batch)"
proof -
  have "rfold (\<lambda>row ops. rbind (in_partition env st part t (fst row)) (\<lambda>mine. Inr (if mine then ops @ [mk row] else ops)))
      batch ops = Inr (ops @ part_ops env st part t mk batch)" for ops
    by (induction batch arbitrary: ops) (simp_all add: in_partition_def key_part_ok [OF assms])
  then show ?thesis
    by (simp add: batch_ops_def)
qed

lemma spec_apply_append: "spec_apply (xs @ ys) rows = spec_apply ys (spec_apply xs rows)"
proof (intro ext)
  fix t k
  have "find P (rev (xs @ ys)) = (case find P (rev ys) of None \<Rightarrow> find P (rev xs) | Some op \<Rightarrow> Some op)" for P :: "op \<Rightarrow> bool"
    by (induction ys rule: rev_induct) auto
  then show "spec_apply (xs @ ys) rows t k = spec_apply ys (spec_apply xs rows) t k"
    unfolding spec_apply_def ops_to_write_set_def get_fold_op_to_write by (simp split: option.split op.split)
qed

lemma concat_chunks: "0 < k \<Longrightarrow> concat (chunks k xs) = xs"
  by (induction k xs rule: chunks.induct) (subst chunks.simps, simp)

lemma length_chunks: "0 < k \<Longrightarrow> length (chunks k xs) \<le> length xs"
proof (induction k xs rule: chunks.induct)
  case (1 k xs)
  show ?case
  proof (cases "xs = []")
    case False
    then have "length (chunks k (drop k xs)) \<le> length xs - k"
      using 1 by simp
    moreover have "Suc (length xs - k) \<le> length xs"
      using 1(2) False by (cases xs) auto
    ultimately have "Suc (length (chunks k (drop k xs))) \<le> length xs"
      by linarith
    then show ?thesis
      using 1(2) False by (subst chunks.simps) simp
  qed (simp add: chunks.simps)
qed

text \<open>The rows that a shard stores.\<close>

definition row_count :: "participant_spec \<Rightarrow> nat" where
  "row_count a = card {(t, k). ps_rows a t k \<noteq> None}"

section \<open>Copying\<close>

lemma get_part_ops:
  assumes "distinct (map fst rows)"
  shows "bt_get (ops_to_write_set (map (\<lambda>(k, v). OpPut t k v) (filter (\<lambda>row. P (fst row)) rows))) (t', k) =
      (if t' = t \<and> P k then map_option Some (map_of rows k) else None)"
    "bt_get (ops_to_write_set (map (\<lambda>(k, v). OpDelete t k) (filter (\<lambda>row. P (fst row)) rows))) (t', k) =
      (if t' = t \<and> P k then map_option (\<lambda>_. None) (map_of rows k) else None)"
  using assms
  by (induction rows rule: rev_induct)
    (auto simp: ops_to_write_set_def map_add_def map_of_eq_None_iff split: option.splits, force)

lemma run_scan_batches_Cons:
  "on_batch b x = (x', Inr True) \<Longrightarrow>
    run_scan not_cancelled on_batch (batch_loop (b # bs)) x = run_scan not_cancelled on_batch (batch_loop bs) x'"
  by simp

context backend
begin

definition copy_rel :: "shard_id \<Rightarrow> nat \<Rightarrow> op list \<Rightarrow> shard_id \<Rightarrow> 'n \<Rightarrow> 'n \<Rightarrow> bool" where
  "copy_rel to j ops s n n' \<longleftrightarrow>
     (if s = to
      then moved j n n' \<and> sys n' = sys n \<and> view n' = (view n)\<lparr>ps_rows := spec_apply ops (ps_rows (view n))\<rparr>
      else n' = n)"

lemma copy_rel_trans:
  "copy_rel to i xs s n n' \<Longrightarrow> copy_rel to j ys s n' n'' \<Longrightarrow> copy_rel to (i + j) (xs @ ys) s n n''"
  by (auto simp: copy_rel_def moved_def spec_apply_append split: if_splits)

lemma copy_batch_run:
  assumes "placed st" and "public_table t" and "\<And>row. op_table (mk row) = t" and "node_at st to = Some m" and "ok m" and "0 < room m"
    and "\<And>k. \<not> spec_locked (view m) t k"
  shows "\<exists>st'. copy_batch rp env part to t mk batch st = (st', Inr True) \<and>
    each (copy_rel to 1 (part_ops env st part t mk batch)) st st'"
proof (cases "part_ops env st part t mk batch = []")
  case True
  have "each (copy_rel to 1 []) st st"
    using assms(4,5) by (intro eachI) (auto simp: copy_rel_def moved_def spec_apply_empty)
  then show ?thesis
    using True by (intro exI [of _ st])
      (simp add: copy_batch_def sbind_def sask_def batch_ops_run [OF assms(1) public_not_global [OF assms(2)]])
next
  case False
  let ?ops = "part_ops env st part t mk batch"
  obtain m' r where call: "rp_propose_batch rp ?ops m = (m', r)"
    by (cases "rp_propose_batch rp ?ops m")
  have "batch_ok ?ops"
    using assms(2,3) by (auto simp: batch_ok_def)
  from propose [OF assms(5,6) this call] have step: "moved 1 m m'" "sys m' = sys m" "spec_propose ?ops (view m) = (view m', r)"
    by (auto simp: moved_def)
  have "t' = t" if "written (ops_to_write_set ?ops) t' k" for t' k
    using that assms(3) unfolding ops_to_write_set_keys by auto
  then have free: "\<not> touches_lock ?ops (view m)"
    using assms(7) by metis
  have "view m' = (view m)\<lparr>ps_rows := spec_apply ?ops (ps_rows (view m))\<rparr>" "r = Inr ()"
    using step(3) unfolding spec_propose_def if_not_P [OF free] by auto
  then have "each (copy_rel to 1 ?ops) st (put_node to m' st)"
    using step by (intro each_put_node [OF assms(4)]) (simp_all add: copy_rel_def)
  moreover have "call_shard to (rp_propose_batch rp ?ops) st = (put_node to m' st, r)"
    using call_shard_ok [of st to m "rp_propose_batch rp ?ops"] assms(4) call by simp
  ultimately show ?thesis
    using False \<open>r = Inr ()\<close> by (intro exI [of _ "put_node to m' st"])
      (simp add: copy_batch_def sbind_def sask_def spure_def batch_ops_run [OF assms(1) public_not_global [OF assms(2)]])
qed

lemma copy_batches_run:
  assumes "placed st" and "public_table t" and "\<And>row. op_table (mk row) = t" and "node_at st to = Some m" and "ok m"
    and "length bs \<le> room m" and "\<And>k. \<not> spec_locked (view m) t k"
  shows "\<exists>st'. run_scan not_cancelled (copy_batch rp env part to t mk) (batch_loop bs) st = (st', Inr ()) \<and>
    each (copy_rel to (length bs) (part_ops env st part t mk (concat bs))) st st'"
  using assms(1,4-)
proof (induction bs arbitrary: st m)
  case Nil
  have "each (copy_rel to 0 []) st st"
    using Nil by (intro eachI) (auto simp: copy_rel_def moved_def spec_apply_empty)
  then show ?case
    by (intro exI [of _ st]) simp
next
  case (Cons b bs)
  obtain st1 where st1: "copy_batch rp env part to t mk b st = (st1, Inr True)"
      "each (copy_rel to 1 (part_ops env st part t mk b)) st st1"
    using copy_batch_run [where mk = mk and batch = b and env = env and part = part, OF Cons.prems(1) assms(2,3) Cons.prems(2,3) _ Cons.prems(5)]
      Cons.prems(4) by auto
  obtain m1 where m1: "node_at st1 to = Some m1" "moved 1 m m1" "ps_prepared (view m1) = ps_prepared (view m)"
    using eachD [OF st1(2) Cons.prems(2)] by (auto simp: copy_rel_def)
  have "placed st1"
    using each_placed [OF st1(2)] Cons.prems(1) by simp
  moreover have "length bs \<le> room m1" "ok m1"
    using m1(2) Cons.prems(4) by (auto simp: moved_def)
  moreover have "\<not> spec_locked (view m1) t k" for k
    using Cons.prems(5) by (simp add: spec_locked_def m1(3))
  ultimately obtain st2 where st2: "run_scan not_cancelled (copy_batch rp env part to t mk) (batch_loop bs) st1 = (st2, Inr ())"
      "each (copy_rel to (length bs) (part_ops env st1 part t mk (concat bs))) st1 st2"
    using Cons.IH [of st1 m1] m1(1) by blast
  have same: "key_part env st1 = key_part env st"
    by (simp add: fun_eq_iff key_part_def each_fields [OF st1(2)])
  have "each (copy_rel to (1 + length bs) (part_ops env st part t mk b @ part_ops env st part t mk (concat bs))) st st2"
    by (rule each_trans [OF st1(2) st2(2) [unfolded same]]) (rule copy_rel_trans)
  then show ?case
    using st1(1) st2(1) run_scan_batches_Cons [of "copy_batch rp env part to t mk" b st st1 bs] by (intro exI [of _ st2]) simp
qed

abbreviation table_locked :: "string \<Rightarrow> 'n \<Rightarrow> bool" where
  "table_locked t n \<equiv> locked_in t [] [] n"

abbreviation table_rows :: "string \<Rightarrow> 'n \<Rightarrow> row list" where
  "table_rows t n \<equiv> node_rows t [] [] n"

lemma scan_and_copy_run:
  assumes "placed st" and "public_table t" and "\<And>row. op_table (mk row) = t"
    and "node_at st to = Some m" and "ok m" and "node_at st from = Some n" and "ok n"
    and "length (table_rows t n) \<le> room m" and "\<not> table_locked t n \<Longrightarrow> \<not> table_locked t m"
  shows "if table_locked t n then scan_and_copy rp env part from to t mk st = (st, Inl (RStorage Conflict))
    else \<exists>st'. scan_and_copy rp env part from to t mk st = (st', Inr ()) \<and>
      each (copy_rel to (length (table_rows t n)) (part_ops env st part t mk (table_rows t n))) st st'"
proof -
  have scan: "scan_and_copy rp env part from to t mk st = (if table_locked t n then (st, Inl (RStorage Conflict))
      else run_scan not_cancelled (copy_batch rp env part to t mk) (batch_loop (chunks 128 (table_rows t n))) st)"
    using assms(6) scan_loop_chunks [of 128 "[]" "copy_batch rp env part to t mk" "table_rows t n" st]
    by (simp add: scan_and_copy_def sbind_def sask_def sh_shard_def public_scan [OF assms(7,2)]
        node_rows(3) [OF assms(7,2)] locked_in_def [symmetric])
  show ?thesis
  proof (cases "table_locked t n")
    case False
    have "length (chunks 128 (table_rows t n)) \<le> length (table_rows t n)"
      by (rule length_chunks) simp
    then obtain st' where st': "run_scan not_cancelled (copy_batch rp env part to t mk) (batch_loop (chunks 128 (table_rows t n))) st = (st', Inr ())"
        "each (copy_rel to (length (chunks 128 (table_rows t n))) (part_ops env st part t mk (table_rows t n))) st st'"
      using copy_batches_run [where mk = mk and bs = "chunks 128 (table_rows t n)" and env = env and part = part, OF assms(1-5)] assms(8,9) False
      by (auto simp: concat_chunks locked_in_def in_range_def)
    have "each (copy_rel to (length (table_rows t n)) (part_ops env st part t mk (table_rows t n))) st st'"
      by (rule each_mono [OF st'(2)]) (use \<open>length (chunks _ _) \<le> _\<close> in \<open>auto simp: copy_rel_def moved_def split: if_splits\<close>)
    then show ?thesis
      using scan False st'(1) by auto
  qed (simp add: scan)
qed

lemma map_of_table_rows:
  assumes "ok n" and "public_table t"
  shows "map_of (table_rows t n) = ps_rows (view n) t" "distinct (map fst (table_rows t n))"
proof -
  show distinct: "distinct (map fst (table_rows t n))"
    using node_rows(1) [OF assms] by (rule ordered_distinct)
  have "map_of (table_rows t n) k = Some v \<longleftrightarrow> ps_rows (view n) t k = Some v" for k v
    using node_rows(2) [OF assms] map_of_eq_Some_iff [OF distinct] by (simp add: in_range_def)
  then show "map_of (table_rows t n) = ps_rows (view n) t"
    by (intro ext) (metis not_Some_eq)
qed

lemma spec_apply_part:
  assumes "ok n" and "public_table t"
  shows "spec_apply (part_ops env st part t (\<lambda>(k, v). OpPut t k v) (table_rows t n)) rows t' k =
      (if t' = t \<and> key_part env st t k = part \<and> ps_rows (view n) t k \<noteq> None then ps_rows (view n) t k else rows t' k)"
    "spec_apply (part_ops env st part t (\<lambda>(k, v). OpDelete t k) (table_rows t n)) rows t' k =
      (if t' = t \<and> key_part env st t k = part \<and> ps_rows (view n) t k \<noteq> None then None else rows t' k)"
  using get_part_ops [OF map_of_table_rows(2) [OF assms], of t "\<lambda>k. key_part env st t k = part" t' k]
  by (auto simp: spec_apply_def map_of_table_rows(1) [OF assms])

definition target_rel ::
  "shard_id \<Rightarrow> nat \<Rightarrow> (string \<Rightarrow> bytes \<Rightarrow> bool) \<Rightarrow> (string \<Rightarrow> bytes \<Rightarrow> bytes option) \<Rightarrow> string set \<Rightarrow> string set \<Rightarrow>
   shard_id \<Rightarrow> 'n \<Rightarrow> 'n \<Rightarrow> bool" where
  "target_rel to j mine source touched copied s n n' \<longleftrightarrow>
     (if s = to
      then moved j n n' \<and> sys n' = sys n \<and> ps_prepared (view n') = ps_prepared (view n) \<and>
        ps_finished (view n') = ps_finished (view n) \<and>
        (\<forall>t k. \<not> (t \<in> touched \<and> mine t k) \<longrightarrow> ps_rows (view n') t k = ps_rows (view n) t k) \<and>
        (\<forall>t \<in> copied. \<forall>k. mine t k \<longrightarrow> ps_rows (view n') t k = source t k)
      else n' = n)"

lemma copy_table_run:
  assumes "placed st" and "public_table t" and "from \<noteq> to" and "node_at st to = Some m" and "ok m"
    and "node_at st from = Some n" and "ok n" and "length (table_rows t m) + length (table_rows t n) \<le> room m"
  shows "\<exists>st' r copied. copy_table rp env part from to t st = (st', r) \<and>
    each (target_rel to (length (table_rows t m) + length (table_rows t n)) (\<lambda>t k. key_part env st t k = part)
      (ps_rows (view n)) {t} copied) st st' \<and>
    (if table_locked t m \<or> table_locked t n then r = Inl (RStorage Conflict) \<and> copied = {} else r = Inr () \<and> copied = {t})"
proof (cases "table_locked t m")
  case True
  have "scan_and_copy rp env part to to t (\<lambda>(k, v). OpDelete t k) st = (st, Inl (RStorage Conflict))"
    using scan_and_copy_run [OF assms(1,2) _ assms(4,5,4,5), of "\<lambda>(k, v). OpDelete t k" env part] assms(8) True
    by (simp add: case_prod_beta)
  moreover have "each (target_rel to (length (table_rows t m) + length (table_rows t n)) (\<lambda>t k. key_part env st t k = part)
      (ps_rows (view n)) {t} {}) st st"
    using assms(4,5) by (intro eachI) (auto simp: target_rel_def moved_def)
  ultimately show ?thesis
    using True by (auto simp: copy_table_def sbind_def case_prod_beta)
next
  case False
  let ?del = "\<lambda>(k :: bytes, v :: bytes). OpDelete t k"
  let ?put = "\<lambda>(k, v). OpPut t k v"
  obtain st1 where st1: "scan_and_copy rp env part to to t ?del st = (st1, Inr ())"
      "each (copy_rel to (length (table_rows t m)) (part_ops env st part t ?del (table_rows t m))) st st1"
    using scan_and_copy_run [OF assms(1,2) _ assms(4,5,4,5), of ?del env part] assms(8) False by (auto simp: case_prod_beta)
  obtain m1 where m1: "node_at st1 to = Some m1" "moved (length (table_rows t m)) m m1" "sys m1 = sys m"
      "view m1 = (view m)\<lparr>ps_rows := spec_apply (part_ops env st part t ?del (table_rows t m)) (ps_rows (view m))\<rparr>"
    using eachD [OF st1(2) assms(4)] by (auto simp: copy_rel_def)
  have n1: "node_at st1 from = Some n"
    using eachD [OF st1(2) assms(6)] assms(3) by (auto simp: copy_rel_def)
  have "placed st1"
    using each_placed [OF st1(2)] assms(1) by simp
  moreover have "ok m1" "length (table_rows t n) \<le> room m1"
    using m1(2) assms(8) by (auto simp: moved_def)
  moreover have "\<not> table_locked t m1"
    using False by (simp add: locked_in_def spec_locked_def m1(4))
  ultimately have put: "if table_locked t n then scan_and_copy rp env part from to t ?put st1 = (st1, Inl (RStorage Conflict))
      else \<exists>st2. scan_and_copy rp env part from to t ?put st1 = (st2, Inr ()) \<and>
        each (copy_rel to (length (table_rows t n)) (part_ops env st1 part t ?put (table_rows t n))) st1 st2"
    using scan_and_copy_run [of st1 t ?put to m1 "from" n env part] m1(1) n1 assms(2,7) by (simp add: case_prod_beta)
  show ?thesis
  proof (cases "table_locked t n")
    case True
    have "each (target_rel to (length (table_rows t m) + length (table_rows t n)) (\<lambda>t k. key_part env st t k = part)
        (ps_rows (view n)) {t} {}) st st1"
      by (rule each_mono [OF st1(2)])
        (auto simp: copy_rel_def target_rel_def moved_def spec_apply_part(2) [OF assms(5,2)] split: if_splits)
    then show ?thesis
      using True put st1(1) by (auto simp: copy_table_def sbind_def)
  next
    case locks: False
    then obtain st2 where st2: "scan_and_copy rp env part from to t ?put st1 = (st2, Inr ())"
        "each (copy_rel to (length (table_rows t n)) (part_ops env st1 part t ?put (table_rows t n))) st1 st2"
      using put by auto
    have same: "key_part env st1 = key_part env st"
      by (simp add: fun_eq_iff key_part_def each_fields [OF st1(2)])
    have first: "each (\<lambda>s k k'. (s = to \<longrightarrow> k = m) \<and> copy_rel to (length (table_rows t m)) (part_ops env st part t ?del (table_rows t m)) s k k') st st1"
      by (rule each_strong [OF st1(2)]) (use assms(4) in auto)
    have "each (target_rel to (length (table_rows t m) + length (table_rows t n)) (\<lambda>t k. key_part env st t k = part)
        (ps_rows (view n)) {t} {t}) st st2"
      by (rule each_trans [OF first st2(2)])
        (auto simp: copy_rel_def target_rel_def moved_def spec_apply_part [OF assms(5,2)] spec_apply_part [OF assms(7,2)] same split: if_splits)
    then show ?thesis
      using False locks st1(1) st2(1) by (auto simp: copy_table_def sbind_def)
  qed
qed

lemma target_rel_trans:
  assumes "target_rel to i mine source A B s n n'" and "target_rel to j mine source A' B' s n' n''" and "B \<inter> A' = {}"
  shows "target_rel to (i + j) mine source (A \<union> A') (B \<union> B') s n n''"
  using assms by (auto simp: target_rel_def moved_def disjoint_iff split: if_splits)

lemma target_rel_mono:
  "target_rel to i mine source A B s n n' \<Longrightarrow> i \<le> j \<Longrightarrow> A \<subseteq> A' \<Longrightarrow> B' \<subseteq> B \<Longrightarrow> target_rel to j mine source A' B' s n n'"
  by (auto simp: target_rel_def moved_def split: if_splits)

abbreviation copy_cost :: "'n \<Rightarrow> 'n \<Rightarrow> string list \<Rightarrow> nat" where
  "copy_cost m n ts \<equiv> (\<Sum>t \<leftarrow> ts. length (table_rows t m) + length (table_rows t n))"

lemma copy_partition_run:
  assumes "placed st" and "from \<noteq> to" and "distinct ts" and "\<And>t. t \<in> set ts \<Longrightarrow> public_table t"
    and "node_at st to = Some m" and "ok m" and "node_at st from = Some n" and "ok n" and "copy_cost m n ts \<le> room m"
  shows "\<exists>st' r copied. copy_partition rp env part from to ts st = (st', r) \<and>
    each (target_rel to (copy_cost m n ts) (\<lambda>t k. key_part env st t k = part) (ps_rows (view n)) (set ts) copied) st st' \<and>
    (if \<exists>t \<in> set ts. table_locked t m \<or> table_locked t n then r = Inl (RStorage Conflict) else r = Inr () \<and> copied = set ts)"
  using assms(1,3-)
proof (induction ts arbitrary: st m)
  case Nil
  have "each (target_rel to 0 (\<lambda>t k. key_part env st t k = part) (ps_rows (view n)) {} {}) st st"
    using Nil by (intro eachI) (auto simp: target_rel_def moved_def)
  then show ?case
    by (auto simp: copy_partition_def)
next
  case (Cons t ts)
  let ?mine = "\<lambda>t k. key_part env st t k = part"
  let ?cost = "length (table_rows t m) + length (table_rows t n)"
  obtain st1 r1 c1 where st1: "copy_table rp env part from to t st = (st1, r1)"
      "each (target_rel to ?cost ?mine (ps_rows (view n)) {t} c1) st st1"
      "if table_locked t m \<or> table_locked t n then r1 = Inl (RStorage Conflict) \<and> c1 = {} else r1 = Inr () \<and> c1 = {t}"
    using copy_table_run [OF Cons.prems(1) _ assms(2) Cons.prems(4-7), of t env part] Cons.prems(3,8) by auto
  show ?case
  proof (cases "table_locked t m \<or> table_locked t n")
    case True
    have "each (target_rel to (copy_cost m n (t # ts)) ?mine (ps_rows (view n)) (set (t # ts)) {}) st st1"
      by (rule each_mono [OF st1(2)]) (erule target_rel_mono, auto)
    then show ?thesis
      using True st1(1,3) by (auto simp: copy_partition_def)
  next
    case False
    then have r1: "r1 = Inr ()" "c1 = {t}"
      using st1(3) by auto
    obtain m1 where m1: "node_at st1 to = Some m1" "target_rel to ?cost ?mine (ps_rows (view n)) {t} {t} to m m1"
      using eachD [OF st1(2) Cons.prems(4)] r1(2) by auto
    have n1: "node_at st1 from = Some n"
      using eachD [OF st1(2) Cons.prems(6)] assms(2) by (auto simp: target_rel_def)
    have "ps_rows (view m1) t' = ps_rows (view m) t'" if "t' \<in> set ts" for t'
      using m1(2) that Cons.prems(2) by (fastforce simp: target_rel_def)
    then have "table_rows t' m1 = table_rows t' m" if "t' \<in> set ts" for t'
      using that by (simp add: node_rows_def)
    then have cost: "copy_cost m1 n ts = copy_cost m n ts"
      by (intro arg_cong [of _ _ sum_list]) simp
    have locked: "table_locked t' m1 = table_locked t' m" for t'
      using m1(2) by (simp add: target_rel_def locked_in_def spec_locked_def)
    have ok1: "ok m1" "copy_cost m1 n ts \<le> room m1"
      using m1(2) Cons.prems(8) by (auto simp: target_rel_def moved_def cost)
    have same: "key_part env st1 = key_part env st"
      by (simp add: fun_eq_iff key_part_def each_fields [OF st1(2)])
    obtain st2 r c where st2: "copy_partition rp env part from to ts st1 = (st2, r)"
        "each (target_rel to (copy_cost m n ts) ?mine (ps_rows (view n)) (set ts) c) st1 st2"
        "if \<exists>t \<in> set ts. table_locked t m \<or> table_locked t n then r = Inl (RStorage Conflict) else r = Inr () \<and> c = set ts"
      using Cons.IH [of st1 m1] Cons.prems(1,2,3,7) each_placed [OF st1(2)] m1(1) n1 ok1
      unfolding cost locked same by auto
    have "each (target_rel to (copy_cost m n (t # ts)) ?mine (ps_rows (view n)) (set (t # ts)) ({t} \<union> c)) st st2"
      by (rule each_trans [OF st1(2) [unfolded r1(2)] st2(2)])
        (drule (1) target_rel_trans, use Cons.prems(2) in auto)
    moreover have "copy_partition rp env part from to (t # ts) st = (st2, r)"
      using st1(1) st2(1) r1(1) by (simp add: copy_partition_def)
    ultimately show ?thesis
      using st2(3) False by (intro exI [of _ st2] exI [of _ r] exI [of _ "{t} \<union> c"]) (auto split: if_splits)
  qed
qed

text \<open>The migrations on record.\<close>

definition record_rel :: "shard_id \<Rightarrow> shard_id \<Rightarrow> 'n \<Rightarrow> 'n \<Rightarrow> bool" where
  "record_rel gl s n n' \<longleftrightarrow>
     (if s = gl then moved 1 n n' \<and> view n' = view n \<and> (\<forall>t. t \<noteq> SHARD_MIGRATIONS_TABLE \<longrightarrow> sys n' t = sys n t) else n' = n)"

lemma set_migration_run:
  assumes "placed st" and "json_ok (se_migration env)" and "node_at st (sh_global st) = Some g" and "ok g" and "0 < room g"
  shows "\<exists>st'. set_migration rp env migration st = (st', Inr ()) \<and> each (record_rel (sh_global st)) st st'"
proof -
  obtain bs where bs: "to_vec (se_migration env) migration = Inr bs"
    using assms(2) by (blast elim: json_okE)
  let ?op = "OpPut SHARD_MIGRATIONS_TABLE (u32_to_be (mg_partition migration)) bs"
  let ?st = "st\<lparr>sh_migrations := bt_insert (mg_partition migration) migration (sh_migrations st)\<rparr>"
  obtain g' r where call: "rp_propose_authorized_batch rp [?op] g = (g', r)"
    by (cases "rp_propose_authorized_batch rp [?op] g")
  have "system_table SHARD_MIGRATIONS_TABLE"
    by (simp add: system_table_def)
  from system_put [OF assms(4,5) this call] have step: "record_rel (sh_global st) (sh_global st) g g'" "r = Inr ()"
    by (auto simp: record_rel_def moved_def)
  have "call_shard (sh_global st) (propose_system rp ?op) ?st = (put_node (sh_global st) g' ?st, r)"
    using call_shard_ok [of ?st "sh_global st" g "propose_system rp ?op"] assms(3) call by (simp add: propose_system_def propose_system_batch_def)
  then have "set_migration rp env migration st = (put_node (sh_global st) g' ?st, Inr ())"
    using assms(1) bs step(2) by (simp add: set_migration_def record_migration_def placed_def)
  moreover have "each (record_rel (sh_global st)) st (put_node (sh_global st) g' ?st)"
    using step(1) assms(3) by (intro eachI) (auto simp: put_node_def record_rel_def)
  ultimately show ?thesis
    by blast
qed

section \<open>What the shards keep\<close>

definition mig_rel ::
  "shard_id \<Rightarrow> nat \<Rightarrow> (string \<Rightarrow> bytes \<Rightarrow> bool) \<Rightarrow> (string \<Rightarrow> bytes \<Rightarrow> bytes option) \<Rightarrow> string set \<Rightarrow> string set \<Rightarrow>
   shard_id \<Rightarrow> 'n \<Rightarrow> 'n \<Rightarrow> bool" where
  "mig_rel to j mine source touched copied s n n' \<longleftrightarrow>
     moved j n n' \<and> (\<forall>t. t \<noteq> SHARD_MIGRATIONS_TABLE \<longrightarrow> sys n' t = sys n t) \<and>
     ps_prepared (view n') = ps_prepared (view n) \<and> ps_finished (view n') = ps_finished (view n) \<and>
     (\<forall>t k. \<not> (s = to \<and> t \<in> touched \<and> mine t k) \<longrightarrow> ps_rows (view n') t k = ps_rows (view n) t k) \<and>
     (s = to \<longrightarrow> (\<forall>t \<in> copied. \<forall>k. mine t k \<longrightarrow> ps_rows (view n') t k = source t k))"

definition kept :: "nat \<Rightarrow> 'n \<Rightarrow> 'n \<Rightarrow> bool" where
  "kept j n n' \<longleftrightarrow> moved j n n' \<and> (\<forall>t. t \<noteq> SHARD_MIGRATIONS_TABLE \<longrightarrow> sys n' t = sys n t) \<and>
     ps_prepared (view n') = ps_prepared (view n) \<and> ps_finished (view n') = ps_finished (view n)"

lemma mig_rel_kept: "mig_rel to j mine source A B s n n' \<Longrightarrow> j \<le> J \<Longrightarrow> kept J n n'"
  by (auto simp: mig_rel_def kept_def moved_def)

lemma each_kept:
  assumes "each (mig_rel to j mine source A B) st st'" and "j \<le> J"
  shows "rel_option (kept J) (node_at st s) (node_at st' s)"
proof -
  have "each (\<lambda>_. kept J) st st'"
    by (rule each_mono [OF assms(1)]) (rule mig_rel_kept [OF _ assms(2)])
  then show ?thesis
    unfolding each_def by blast
qed

lemma mig_rel_record:
  "mig_rel to j mine source A B s n n' \<Longrightarrow> record_rel gl s n' n'' \<Longrightarrow> mig_rel to (Suc j) mine source A B s n n''"
  by (auto simp: mig_rel_def record_rel_def moved_def split: if_splits)

lemma mig_rel_start:
  "ok n \<Longrightarrow> record_rel gl s n n' \<Longrightarrow> mig_rel to 1 mine source {} {} s n n'"
  by (auto simp: mig_rel_def record_rel_def moved_def split: if_splits)

lemma mig_rel_copy:
  "mig_rel to i mine source {} {} s n n' \<Longrightarrow> target_rel to j mine source A B s n' n'' \<Longrightarrow>
    mig_rel to (i + j) mine source A B s n n''"
  by (auto simp: mig_rel_def target_rel_def moved_def split: if_splits)

lemma mig_router_ok:
  assumes "router_ok ok view sys env st" and "each (mig_rel to j mine source A B) st st'"
  shows "router_ok ok view sys env st'"
proof -
  obtain g where g: "node_at st (sh_global st) = Some g"
    using router_okD(4) [OF assms(1)] by blast
  have tables: "DIST_TXN_COORDINATOR_TABLE \<noteq> SHARD_MIGRATIONS_TABLE" "DIST_TXN_SEQUENCE_TABLE \<noteq> SHARD_MIGRATIONS_TABLE"
    by (simp_all add: DIST_TXN_SEQUENCE_TABLE_def SHARD_MIGRATIONS_TABLE_def dist_table_defs)
  have "each (\<lambda>s n n'. node_at st s = Some n \<and> mig_rel to j mine source A B s n n') st st'"
    by (rule each_strong [OF assms(2)])
  then have "each (step_ok ok view sys env st g) st st'"
  proof (rule each_mono)
    fix s n n'
    assume step: "node_at st s = Some n \<and> mig_rel to j mine source A B s n n'"
    have "decided (se_codecs env) (sys g) i = None \<or> decided (se_codecs env) (sys g) i = Some d"
      if "ps_finished (view n) i = Some d" for i d
      using router_okD(6) [OF assms(1) g _ that] step by (metis not_Some_eq)
    then show "step_ok ok view sys env st g s n n'"
      using step tables router_idsI(1) [of st s n view _ sys] by (simp add: step_ok_def mig_rel_def moved_def)
  qed
  with router_ok_step [OF assms(1) g] show ?thesis
    by blast
qed

lemma mig_rows:
  assumes "router_ok ok view sys env st" and "each (mig_rel to j (\<lambda>t k. key_part env st t k = part) source A B) st st'"
    and "\<forall>t \<in> A. public_table t" and "bt_get (sm_placement (sh_map st)) part = Some from" and "from \<noteq> to"
  shows "sh_rows view env st' = sh_rows view env st"
proof (intro ext)
  fix t k
  note placed = router_okD(1) [OF assms(1)]
  obtain n where n: "node_at st (sh_owner env st t k) = Some n"
    using shard_for_ok(2) [OF placed] by blast
  then obtain n' where n': "node_at st' (sh_owner env st t k) = Some n'"
      "mig_rel to j (\<lambda>t k. key_part env st t k = part) source A B (sh_owner env st t k) n n'"
    using eachD [OF assms(2)] by blast
  have "\<not> (sh_owner env st t k = to \<and> t \<in> A \<and> key_part env st t k = part)"
    using key_part_ok(3) [OF placed public_not_global, of t env k] assms(3-5) by auto
  then have "ps_rows (view n') t k = ps_rows (view n) t k"
    using n'(2) by (simp add: mig_rel_def)
  then show "sh_rows view env st' t k = sh_rows view env st t k"
    using n n'(1) by (simp add: sh_rows_def sh_node_def each_routing(4) [OF assms(2)])
qed

lemma rows_public: "ok n \<Longrightarrow> ps_rows (view n) t k \<noteq> None \<Longrightarrow> public_table t"
  using keyspaces [of n] by blast

lemma migration_tables_run:
  assumes "node_at st from = Some n" and "ok n" and "node_at st to = Some m" and "ok m"
  shows "\<exists>ts. migration_tables rp from to st = Inr ts \<and> distinct ts \<and> (\<forall>t \<in> set ts. public_table t) \<and>
    (\<forall>t k. ps_rows (view n) t k \<noteq> None \<or> ps_rows (view m) t k \<noteq> None \<longrightarrow> t \<in> set ts) \<and>
    (\<forall>a. rp_registered_keyspaces rp n = Inr a \<or> rp_registered_keyspaces rp m = Inr a \<longrightarrow> set a \<subseteq> set ts)"
proof -
  obtain a b where a: "rp_registered_keyspaces rp n = Inr a" "\<forall>t \<in> set a. public_table t" "\<forall>t k. ps_rows (view n) t k \<noteq> None \<longrightarrow> t \<in> set a"
    and b: "rp_registered_keyspaces rp m = Inr b" "\<forall>t \<in> set b. public_table t" "\<forall>t k. ps_rows (view m) t k \<noteq> None \<longrightarrow> t \<in> set b"
    using keyspaces [OF assms(2)] keyspaces [OF assms(4)] by blast
  let ?ts = "bt_keys (string_set (filter (\<lambda>table. \<not> is_global_table table) (a @ b)))"
  have set: "set ?ts = set a \<union> set b"
    using a(2) b(2) public_not_global by (auto simp: set_string_set)
  have "migration_tables rp from to st = Inr ?ts"
    using assms(1,3) a(1) b(1) by (simp add: migration_tables_def sh_shard_def)
  moreover have "(\<forall>t \<in> set ?ts. public_table t) \<and>
      (\<forall>t k. ps_rows (view n) t k \<noteq> None \<or> ps_rows (view m) t k \<noteq> None \<longrightarrow> t \<in> set ?ts)"
    unfolding set using a(2,3) b(2,3) by blast
  moreover have "\<forall>c. rp_registered_keyspaces rp n = Inr c \<or> rp_registered_keyspaces rp m = Inr c \<longrightarrow> set c \<subseteq> set ?ts"
    unfolding set using a(1) b(1) by auto
  ultimately show ?thesis
    using bt_keys_distinct by blast
qed

lemma table_rows_count:
  assumes "ok n" and "distinct ts" and "\<And>t. t \<in> set ts \<Longrightarrow> public_table t"
  shows "(\<Sum>t \<leftarrow> ts. length (table_rows t n)) \<le> row_count (view n)"
proof -
  let ?keys = "\<lambda>t. {k. ps_rows (view n) t k \<noteq> None}"
  have keys: "?keys t = fst ` set (table_rows t n)" if "public_table t" for t
    using map_of_table_rows(1) [OF assms(1) that] dom_map_of_conv_image_fst [of "table_rows t n"] by (auto simp: dom_def)
  have len: "length (table_rows t n) = card (?keys t)" if "public_table t" for t
    unfolding keys [OF that] using map_of_table_rows(2) [OF assms(1) that]
    by (metis distinct_card length_map list.set_map)
  obtain all where all: "\<forall>t \<in> set all. public_table t" "\<forall>t k. ps_rows (view n) t k \<noteq> None \<longrightarrow> t \<in> set all"
    using keyspaces [OF assms(1)] by blast
  have "{(t, k). ps_rows (view n) t k \<noteq> None} \<subseteq> Sigma (set all) ?keys"
    using all(2) by blast
  moreover have "finite (Sigma (set all) ?keys)"
    using keys all(1) by (intro finite_SigmaI) simp_all
  ultimately have finite: "finite {(t, k). ps_rows (view n) t k \<noteq> None}"
    by (rule finite_subset)
  have "(\<Sum>t \<leftarrow> ts. length (table_rows t n)) = (\<Sum>t \<leftarrow> ts. card (?keys t))"
    using len assms(3) by (intro arg_cong [of _ _ sum_list]) simp
  also have "\<dots> = (\<Sum>t \<in> set ts. card (?keys t))"
    by (rule sum_list_distinct_conv_sum_set [OF assms(2)])
  also have "\<dots> = card (Sigma (set ts) ?keys)"
    using keys assms(3) by (intro card_SigmaI [symmetric]) simp_all
  also have "\<dots> \<le> card {(t, k). ps_rows (view n) t k \<noteq> None}"
    by (rule card_mono [OF finite]) auto
  finally show ?thesis
    by (simp add: row_count_def)
qed

section \<open>The switch\<close>

lemma switched:
  assumes "router_ok ok view sys env st" and "each (mig_rel to j (\<lambda>t k. key_part env st t k = part) (ps_rows (view n)) A A) st st'"
    and "node_at st from = Some n" and "node_at st to = Some m" and "from \<noteq> to"
    and "bt_get (sm_placement (sh_map st)) part = Some from"
    and "\<forall>t \<in> A. public_table t" and "\<forall>t k. ps_rows (view n) t k \<noteq> None \<or> ps_rows (view m) t k \<noteq> None \<longrightarrow> t \<in> A"
    and "sm_strategy m' = sm_strategy (sh_map st)" and "bt_get (sm_placement m') = (bt_get (sm_placement (sh_map st)))(part \<mapsto> to)"
  shows "router_ok ok view sys env (st'\<lparr>sh_map := m'\<rparr>)" "sh_rows view env (st'\<lparr>sh_map := m'\<rparr>) = sh_rows view env st"
proof -
  let ?st = "st'\<lparr>sh_map := m'\<rparr>"
  note ok' = mig_router_ok [OF assms(1,2)]
  note fields = each_fields [OF assms(2)]
  have "node_at st' to \<noteq> None"
    using assms(4) each_None [OF assms(2)] by simp
  then have placed: "placed ?st"
    using router_okD(1) [OF ok'] by (simp add: placed_def assms(9,10) fields)
  show ok: "router_ok ok view sys env ?st"
  proof (rule router_okI)
    have ids: "router_ids view sys ?st = router_ids view sys st'"
      by (simp add: router_ids_def)
    show "coordinator_ok (se_codecs env) (sys g) (router_ids view sys ?st)" if "node_at ?st (sh_global ?st) = Some g" for g
      using router_okD(5) [OF ok'] that by (simp add: ids)
    show "d' = d" if "node_at ?st (sh_global ?st) = Some g" "node_at ?st s = Some n" "ps_finished (view n) i = Some d"
        "decided (se_codecs env) (sys g) i = Some d'" for g s n i d d'
      using router_okD(6) [OF ok' _ _ that(3,4)] that(1,2) by simp
  qed (use placed router_okD(2,3) [OF ok'] in simp_all)
  have kp: "key_part env ?st = key_part env st"
    by (simp add: fun_eq_iff key_part_def assms(9))
  show "sh_rows view env ?st = sh_rows view env st"
  proof (intro ext)
    fix t k
    note old = router_okD(1) [OF assms(1)]
    obtain a where a: "node_at st (sh_owner env st t k) = Some a"
      using shard_for_ok(2) [OF old] by blast
    obtain b where b: "node_at st' (sh_owner env ?st t k) = Some b"
      using shard_for_ok(2) [OF placed, of env t k] by auto
    obtain b0 where b0: "node_at st (sh_owner env ?st t k) = Some b0"
        "mig_rel to j (\<lambda>t k. key_part env st t k = part) (ps_rows (view n)) A A (sh_owner env ?st t k) b0 b"
      using each_back [OF assms(2) b] by blast
    have okn: "ok a" "ok b"
      using a b router_okD(3) [OF assms(1)] router_okD(3) [OF ok'] by auto
    have "ps_rows (view b) t k = ps_rows (view a) t k"
    proof (cases "public_table t")
      case False
      then show ?thesis
        using rows_public okn by metis
    next
      case True
      note owners = key_part_ok(3) [OF old public_not_global [OF True], of env k]
        key_part_ok(3) [OF placed public_not_global [OF True], of env k]
      show ?thesis
      proof (cases "key_part env st t k = part")
        case mine: True
        then have "sh_owner env st t k = from" "sh_owner env ?st t k = to"
          using owners assms(6) by (simp_all add: kp assms(10))
        then have "a = n" "b0 = m"
          using a b0(1) assms(3,4) by simp_all
        moreover have "ps_rows (view n) t k = None" "ps_rows (view m) t k = None" if "t \<notin> A"
          using assms(8) that by blast+
        ultimately show ?thesis
          using b0(2) mine \<open>sh_owner env ?st t k = to\<close> by (cases "t \<in> A") (simp_all add: mig_rel_def)
      next
        case other: False
        then have "sh_owner env ?st t k = sh_owner env st t k"
          using owners by (simp add: kp assms(10))
        then show ?thesis
          using a b0 other by (simp add: mig_rel_def)
      qed
    qed
    then show "sh_rows view env ?st t k = sh_rows view env st t k"
      using a b by (simp add: sh_rows_def sh_node_def)
  qed
qed

text \<open>No row is held in the tables that the inventories of two shards list.\<close>

definition quiet :: "'n \<Rightarrow> 'n \<Rightarrow> bool" where
  "quiet n m \<longleftrightarrow>
     (\<forall>a t k. (rp_registered_keyspaces rp n = Inr a \<or> rp_registered_keyspaces rp m = Inr a) \<and> t \<in> set a \<longrightarrow>
        \<not> spec_locked (view n) t k \<and> \<not> spec_locked (view m) t k)"

definition mig_outcome ::
  "shard_env \<Rightarrow> nat \<Rightarrow> partition_id \<Rightarrow> shard_id \<Rightarrow> 'n sharded \<Rightarrow> 'n sharded \<Rightarrow> shard_migration repl \<Rightarrow> bool" where
  "mig_outcome env J part to st st' r \<longleftrightarrow>
     router_ok ok view sys env st' \<and> sh_rows view env st' = sh_rows view env st \<and>
     sh_global st' = sh_global st \<and> sm_strategy (sh_map st') = sm_strategy (sh_map st) \<and> (\<forall>s. rel_option (kept J) (node_at st s) (node_at st' s)) \<and>
     (case r of
        Inl e \<Rightarrow> sh_map st' = sh_map st
      | Inr migration \<Rightarrow> mg_state migration = Done \<and>
          bt_get (sm_placement (sh_map st')) = (bt_get (sm_placement (sh_map st)))(part \<mapsto> to))"

lemma mig_record_run:
  assumes "router_ok ok view sys env st" and "json_ok (se_migration env)"
    and "each (mig_rel to j mine source A B) st st1" and "\<forall>s n. node_at st s = Some n \<longrightarrow> j < room n"
  shows "\<exists>st2. set_migration rp env migration st1 = (st2, Inr ()) \<and> each (mig_rel to (Suc j) mine source A B) st st2"
proof -
  obtain g where g: "node_at st (sh_global st) = Some g"
    using router_okD(4) [OF assms(1)] by blast
  then obtain g1 where g1: "node_at st1 (sh_global st1) = Some g1" "moved j g g1"
    using eachD [OF assms(3) g] by (auto simp: each_fields [OF assms(3)] mig_rel_def)
  then have "ok g1" "0 < room g1"
    using assms(4) [rule_format, OF g] by (auto simp: moved_def)
  then obtain st2 where st2: "set_migration rp env migration st1 = (st2, Inr ())" "each (record_rel (sh_global st1)) st1 st2"
    using set_migration_run [OF _ assms(2) g1(1)] router_okD(1) [OF mig_router_ok [OF assms(1,3)]] by blast
  have "each (mig_rel to (Suc j) mine source A B) st st2"
    by (rule each_trans [OF assms(3) st2(2)]) (rule mig_rel_record)
  with st2(1) show ?thesis
    by blast
qed

lemma abort_outcome:
  assumes "router_ok ok view sys env st" and "json_ok (se_migration env)"
    and "each (mig_rel to j (\<lambda>t k. key_part env st t k = part) source A B) st st1"
    and "\<forall>t \<in> A. public_table t" and "bt_get (sm_placement (sh_map st)) part = Some from" and "from \<noteq> to"
    and "\<forall>s n. node_at st s = Some n \<longrightarrow> j < room n"
    and "abort_migration rp env migration e st1 = (st', r)" and "Suc j \<le> J"
  shows "mig_outcome env J part to st st' r \<and> r = Inl e"
proof -
  obtain st2 where st2: "set_migration rp env (set_state Aborted migration) st1 = (st2, Inr ())"
      "each (mig_rel to (Suc j) (\<lambda>t k. key_part env st t k = part) source A B) st st2"
    using mig_record_run [OF assms(1-3,7)] by blast
  have "st' = st2" "r = Inl e"
    using assms(8) st2(1) by (simp_all add: abort_migration_def)
  moreover have "rel_option (kept J) (node_at st s) (node_at st2 s)" for s
    by (rule each_kept [OF st2(2) assms(9)])
  ultimately show ?thesis
    using mig_router_ok [OF assms(1) st2(2)] mig_rows [OF assms(1) st2(2) assms(4-6)] each_fields [OF st2(2)]
    by (simp add: mig_outcome_def)
qed

lemma switch_outcome:
  assumes "router_ok ok view sys env st" and "json_ok (se_migration env)"
    and "each (mig_rel to j (\<lambda>t k. key_part env st t k = part) (ps_rows (view n)) A A) st st1"
    and "node_at st from = Some n" and "node_at st to = Some m" and "from \<noteq> to"
    and "bt_get (sm_placement (sh_map st)) part = Some from"
    and "\<forall>t \<in> A. public_table t" and "\<forall>t k. ps_rows (view n) t k \<noteq> None \<or> ps_rows (view m) t k \<noteq> None \<longrightarrow> t \<in> A"
    and "\<forall>s n. node_at st s = Some n \<longrightarrow> Suc j < room n"
    and "switch_partition rp env part to migration st1 = (st', r)" and "Suc (Suc j) \<le> J"
  shows "mig_outcome env J part to st st' r \<and> (sm_version (sh_map st) \<noteq> - 1 \<longrightarrow> r = Inr (set_state Done migration))"
proof -
  let ?mine = "\<lambda>t k. key_part env st t k = part"
  have room: "\<forall>s n. node_at st s = Some n \<longrightarrow> j < room n"
    using assms(10) Suc_lessD by blast
  obtain st2 where st2: "set_migration rp env (set_state Switching migration) st1 = (st2, Inr ())"
      "each (mig_rel to (Suc j) ?mine (ps_rows (view n)) A A) st st2"
    using mig_record_run [OF assms(1-3) room] by blast
  note fields = each_fields [OF st2(2)]
  have healthy: "\<not> sh_map_poisoned st2" "sh_map st2 = sh_map st"
    using router_okD(1) [OF assms(1)] by (simp_all add: fields placed_def)
  obtain m' r' where map: "map_reassign_partition (sh_map st) part to = (m', r')"
    by (cases "map_reassign_partition (sh_map st) part to")
  have run: "switch_partition rp env part to migration st1 = (case r' of
      Inl e \<Rightarrow> abort_migration rp env migration e (st2\<lparr>sh_map := m'\<rparr>)
    | Inr _ \<Rightarrow> sbind (set_migration rp env (set_state Done migration)) (\<lambda>_. spure (Inr (set_state Done migration))) (st2\<lparr>sh_map := m'\<rparr>))"
    using st2(1) healthy map by (simp add: switch_partition_def sbind_def shard_map_reassign_def split: sum.split)
  show ?thesis
  proof (cases r')
    case (Inl e)
    then have "m' = sh_map st"
      using map map_reassign_partition_error by blast
    then have "st2\<lparr>sh_map := m'\<rparr> = st2"
      by (simp add: healthy(2) [symmetric])
    then have "mig_outcome env J part to st st' r"
      using abort_outcome [OF assms(1,2) st2(2) assms(8,7,6,10) _ assms(12)] assms(11) run Inl by auto
    moreover have "sm_version (sh_map st) = - 1"
      using map Inl assms(6,7) by (auto simp: map_reassign_partition_def checked_succ split: if_splits)
    ultimately show ?thesis
      by simp
  next
    case (Inr u)
    then have "map_reassign_partition (sh_map st) part to = (m', Inr ())"
      using map by simp
    note m' = map_reassign_partition_ok [OF this]
    note new = switched [OF assms(1) st2(2) assms(4-9) m'(1,3)]
    let ?st = "st2\<lparr>sh_map := m'\<rparr>"
    obtain g where g: "node_at st (sh_global st) = Some g"
      using router_okD(4) [OF assms(1)] by blast
    then obtain g2 where g2: "node_at ?st (sh_global ?st) = Some g2" "ok g2" "0 < room g2"
      using eachD [OF st2(2) g] assms(10) [rule_format, OF g] by (auto simp: fields mig_rel_def moved_def)
    obtain st3 where st3: "set_migration rp env (set_state Done migration) ?st = (st3, Inr ())" "each (record_rel (sh_global ?st)) ?st st3"
      using set_migration_run [OF router_okD(1) [OF new(1)] assms(2) g2] by blast
    have "each (\<lambda>s n n'. ok n \<and> record_rel (sh_global ?st) s n n') ?st st3"
      by (rule each_strong [OF st3(2)]) (use router_okD(3) [OF new(1)] in blast)
    then have "each (mig_rel to 1 (\<lambda>_ _. False) (\<lambda>_ _. None) {} {}) ?st st3"
      by (rule each_mono) (metis mig_rel_start)
    have "st' = st3" "r = Inr (set_state Done migration)"
      using assms(11) run Inr st3(1) by (simp_all add: sbind_def spure_def)
    moreover have "each (\<lambda>s n n'. view n' = view n) ?st st3"
      by (rule each_mono [OF st3(2)]) (auto simp: record_rel_def split: if_splits)
    then have "sh_rows view env st3 = sh_rows view env ?st"
      by (rule same_views(1) [OF router_okD(1) [OF new(1)]])
    moreover have "rel_option (kept J) (node_at st s) (node_at st3 s)" for s
    proof -
      have "rel_option (kept (Suc j)) (node_at st s) (node_at ?st s)"
        using each_kept [OF st2(2) order.refl] by simp
      moreover have "rel_option (kept 1) (node_at ?st s) (node_at st3 s)"
        by (rule each_kept [OF \<open>each (mig_rel _ _ _ _ _ _) ?st st3\<close> order.refl])
      ultimately show ?thesis
        using assms(12) by (cases "node_at st s"; cases "node_at st2 s"; cases "node_at st3 s") (auto simp: kept_def moved_def)
    qed
    ultimately show ?thesis
      using fields new mig_router_ok [OF new(1)] \<open>each (mig_rel _ _ _ _ _ _) ?st st3\<close> m'(1,3) each_fields [OF st3(2)]
      by (auto simp: mig_outcome_def set_state_def)
  qed
qed

lemma migrate_moves:
  assumes "router_ok ok view sys env st" and "json_ok (se_migration env)"
    and "node_at st from = Some n" and "node_at st to = Some m" and "from \<noteq> to"
    and "bt_get (sm_placement (sh_map st)) part = Some from"
    and "\<forall>s k. node_at st s = Some k \<longrightarrow> 3 + row_count (view m) + row_count (view n) \<le> room k"
    and "migrate_partition rp env part to st = (st', r)"
  shows "mig_outcome env (3 + row_count (view m) + row_count (view n)) part to st st' r \<and>
    (sm_version (sh_map st) \<noteq> - 1 \<and> (\<forall>t k. \<not> spec_locked (view n) t k \<and> \<not> spec_locked (view m) t k) \<longrightarrow> (\<exists>migration. r = Inr migration)) \<and>
    (\<forall>migration. r = Inr migration \<longrightarrow> quiet n m)"
proof -
  let ?mine = "\<lambda>t k. key_part env st t k = part"
  let ?mig = "\<lparr>mg_partition = part, mg_from = from, mg_to = to, mg_state = Copying\<rparr>"
  note placed = router_okD(1) [OF assms(1)]
  have oks: "ok n" "ok m"
    using router_okD(3) [OF assms(1)] assms(3,4) by auto
  obtain ts where ts: "migration_tables rp from to st = Inr ts" "distinct ts" "\<forall>t \<in> set ts. public_table t"
      "\<forall>t k. ps_rows (view n) t k \<noteq> None \<or> ps_rows (view m) t k \<noteq> None \<longrightarrow> t \<in> set ts"
      "\<forall>a. rp_registered_keyspaces rp n = Inr a \<or> rp_registered_keyspaces rp m = Inr a \<longrightarrow> set a \<subseteq> set ts"
    using migration_tables_run [OF assms(3) oks(1) assms(4) oks(2)] by blast
  have cost: "copy_cost m n ts \<le> row_count (view m) + row_count (view n)"
    using table_rows_count [OF oks(1) ts(2)] table_rows_count [OF oks(2) ts(2)] ts(3) by (simp add: sum_list_addf)
  have start: "each (mig_rel to 0 ?mine (ps_rows (view n)) {} {}) st st"
    using router_okD(3) [OF assms(1)] by (intro eachI) (auto simp: mig_rel_def moved_def)
  have "\<forall>s n. node_at st s = Some n \<longrightarrow> 0 < room n"
    using assms(7) by fastforce
  from mig_record_run [OF assms(1,2) start this]
  obtain st1 where st1: "set_migration rp env ?mig st = (st1, Inr ())" "each (mig_rel to 1 ?mine (ps_rows (view n)) {} {}) st st1"
    by auto
  obtain n1 m1 where nodes: "node_at st1 from = Some n1" "node_at st1 to = Some m1"
      "mig_rel to 1 ?mine (ps_rows (view n)) {} {} from n n1" "mig_rel to 1 ?mine (ps_rows (view n)) {} {} to m m1"
    using eachD [OF st1(2) assms(3)] eachD [OF st1(2) assms(4)] by blast
  have same: "key_part env st1 = key_part env st"
    by (simp add: fun_eq_iff key_part_def each_fields [OF st1(2)])
  have views: "ps_rows (view n1) = ps_rows (view n)" "ps_rows (view m1) = ps_rows (view m)"
      "locked_in t lo hi n1 = locked_in t lo hi n" "locked_in t lo hi m1 = locked_in t lo hi m" for t lo hi
    using nodes(3,4) by (simp_all add: mig_rel_def fun_eq_iff locked_in_def spec_locked_def)
  have "table_rows t n1 = table_rows t n" "table_rows t m1 = table_rows t m" for t
    by (simp_all add: node_rows_def views)
  then have cost1: "copy_cost m1 n1 ts = copy_cost m n ts"
    by simp
  have "copy_cost m1 n1 ts \<le> room m1"
    using cost assms(7) [rule_format, OF assms(4)] nodes(4) unfolding cost1 by (auto simp: mig_rel_def moved_def)
  then obtain st2 r2 c where st2: "copy_partition rp env part from to ts st1 = (st2, r2)"
      "each (target_rel to (copy_cost m n ts) ?mine (ps_rows (view n)) (set ts) c) st1 st2"
      "if \<exists>t \<in> set ts. table_locked t m \<or> table_locked t n then r2 = Inl (RStorage Conflict) else r2 = Inr () \<and> c = set ts"
    using copy_partition_run [of st1 "from" to ts m1 n1 env part] ts(2,3) nodes router_okD(1) [OF mig_router_ok [OF assms(1) st1(2)]] assms(5)
    unfolding cost1 views same by (auto simp: mig_rel_def moved_def)
  have copied: "each (mig_rel to (1 + copy_cost m n ts) ?mine (ps_rows (view n)) (set ts) c) st st2"
    by (rule each_trans [OF st1(2) st2(2)]) (rule mig_rel_copy)
  have run: "migrate_partition rp env part to st = (case r2 of
      Inl e \<Rightarrow> abort_migration rp env ?mig e st2 | Inr _ \<Rightarrow> switch_partition rp env part to ?mig st2)"
    using placed assms(4,5,6) ts(1) st1(1) st2(1)
    by (simp add: migrate_partition_def sbind_def sask_def routing_barrier_def placed_def ensure_shard_exists_def
        shard_for_partition_def shard_map_read_def map_shard_for_partition_def Let_def split: sum.split)
  have room: "\<forall>s k. node_at st s = Some k \<longrightarrow> 1 + copy_cost m n ts < room k" "\<forall>s k. node_at st s = Some k \<longrightarrow> Suc (1 + copy_cost m n ts) < room k"
    using assms(7) cost by fastforce+
  show ?thesis
  proof (cases r2)
    case (Inl e)
    then have "\<exists>t \<in> set ts. table_locked t m \<or> table_locked t n"
      using st2(3) by (auto split: if_splits)
    then have "\<not> (\<forall>t k. \<not> spec_locked (view n) t k \<and> \<not> spec_locked (view m) t k)"
      by (auto simp: locked_in_def)
    moreover have "abort_migration rp env ?mig e st2 = (st', r)"
      using run assms(8) Inl by simp
    moreover have "Suc (1 + copy_cost m n ts) \<le> 3 + row_count (view m) + row_count (view n)"
      using cost by simp
    ultimately show ?thesis
      using abort_outcome [OF assms(1,2) copied ts(3) assms(6,5) room(1)] by blast
  next
    case (Inr u)
    then have "c = set ts" and free: "\<forall>t \<in> set ts. \<not> table_locked t m \<and> \<not> table_locked t n"
      using st2(3) by (auto split: if_splits)
    have "quiet n m"
      unfolding quiet_def using ts(5) free by (fastforce simp: locked_in_def in_range_def)
    note all = copied [unfolded \<open>c = set ts\<close>]
    have "switch_partition rp env part to ?mig st2 = (st', r)"
      using run assms(8) Inr by simp
    moreover have "Suc (Suc (1 + copy_cost m n ts)) \<le> 3 + row_count (view m) + row_count (view n)"
      using cost by simp
    ultimately show ?thesis
      using switch_outcome [OF assms(1,2) all assms(3,4,5,6) ts(3,4) room(2)] \<open>quiet n m\<close> by blast
  qed
qed

lemma outcome_mono:
  assumes "mig_outcome env J part to st st' r" and "J \<le> K"
  shows "mig_outcome env K part to st st' r"
proof -
  have "rel_option (kept J) x y \<Longrightarrow> rel_option (kept K) x y" for x y
    by (erule option.rel_mono_strong) (use assms(2) in \<open>auto simp: kept_def moved_def\<close>)
  then show ?thesis
    using assms(1) by (simp add: mig_outcome_def)
qed

lemma migrate_run:
  assumes "router_ok ok view sys env st" and "json_ok (se_migration env)"
    and "\<forall>a b n m. node_at st a = Some n \<and> node_at st b = Some m \<longrightarrow> 3 + row_count (view m) + row_count (view n) \<le> J"
    and "\<forall>s n. node_at st s = Some n \<longrightarrow> J \<le> room n"
    and "migrate_partition rp env part to st = (st', r)"
  shows "mig_outcome env J part to st st' r \<and>
    (node_at st to \<noteq> None \<and> part < partition_count (sm_strategy (sh_map st)) \<and> sm_version (sh_map st) \<noteq> - 1 \<and>
      (\<forall>s n t k. node_at st s = Some n \<longrightarrow> \<not> spec_locked (view n) t k) \<longrightarrow> (\<exists>migration. r = Inr migration)) \<and>
    (\<forall>migration src n m. r = Inr migration \<and> bt_get (sm_placement (sh_map st)) part = Some src \<and> src \<noteq> to \<and>
      node_at st src = Some n \<and> node_at st to = Some m \<longrightarrow> quiet n m)"
proof -
  note placed = router_okD(1) [OF assms(1)]
  have "rel_option (kept J) (node_at st s) (node_at st s)" for s
    using router_okD(3) [OF assms(1)] by (cases "node_at st s") (auto simp: kept_def moved_def)
  then have stays: "mig_outcome env J part to st st (Inl e)" for e
    using assms(1) by (simp add: mig_outcome_def)
  have entry: "routing_barrier st = Inr ()" "shard_for_partition st part = ok_or (no_placement part) (bt_get (sm_placement (sh_map st)) part)"
    using placed by (simp_all add: routing_barrier_def shard_for_partition_def shard_map_read_def map_shard_for_partition_def placed_def)
  have known: "\<exists>from n. bt_get (sm_placement (sh_map st)) part = Some from \<and> node_at st from = Some n"
    if "part < partition_count (sm_strategy (sh_map st))"
    using placed that by (auto simp: placed_def)
  show ?thesis
  proof (cases "node_at st to")
    case None
    then have "st' = st" "r = Inl (unknown_shard to)"
      using assms(5) entry(1) by (simp_all add: migrate_partition_def sbind_def sask_def ensure_shard_exists_def)
    then show ?thesis
      using stays None by simp
  next
    case (Some m)
    show ?thesis
    proof (cases "bt_get (sm_placement (sh_map st)) part")
      case None
      then have "st' = st" "r = Inl (no_placement part)"
        using assms(5) entry Some by (simp_all add: migrate_partition_def sbind_def sask_def ensure_shard_exists_def)
      then show ?thesis
        using stays known None by auto
    next
      case owner: (Some src)
      show ?thesis
      proof (cases "src = to")
        case True
        have start: "each (mig_rel to 0 (\<lambda>_ _. False) (\<lambda>_ _. None) {} {}) st st"
          using router_okD(3) [OF assms(1)] by (intro eachI) (auto simp: mig_rel_def moved_def)
        have one: "1 \<le> J"
          using assms(3) Some by fastforce
        then have room: "\<forall>s n. node_at st s = Some n \<longrightarrow> 0 < room n"
          using assms(4) by (metis less_le_trans zero_less_one)
        let ?mig = "\<lparr>mg_partition = part, mg_from = src, mg_to = to, mg_state = Done\<rparr>"
        obtain st1 where st1: "set_migration rp env ?mig st = (st1, Inr ())" "each (mig_rel to 1 (\<lambda>_ _. False) (\<lambda>_ _. None) {} {}) st st1"
          using mig_record_run [OF assms(1,2) start room, of ?mig] by auto
        have "st' = st1" "r = Inr ?mig"
          using assms(5) entry Some owner True st1(1)
          by (simp_all add: migrate_partition_def sbind_def sask_def ensure_shard_exists_def Let_def set_state_def spure_def)
        moreover have "sh_rows view env st1 = sh_rows view env st"
          using same_views(1) [OF placed each_mono [OF st1(2)]] by (simp add: mig_rel_def fun_eq_iff)
        moreover have "rel_option (kept J) (node_at st s) (node_at st1 s)" for s
          by (rule each_kept [OF st1(2) one])
        ultimately show ?thesis
          using mig_router_ok [OF assms(1) st1(2)] each_fields [OF st1(2)] owner True
          by (auto simp: mig_outcome_def)
      next
        case False
        show ?thesis
        proof (cases "node_at st src")
          case None
          then have "st' = st" "r = Inl (unknown_shard src)"
            using assms(5) entry Some owner False
            by (simp_all add: migrate_partition_def sbind_def sask_def ensure_shard_exists_def Let_def migration_tables_def sh_shard_def)
          then show ?thesis
            using stays known owner None by auto
        next
          case n: (Some n)
          have J: "3 + row_count (view m) + row_count (view n) \<le> J"
            using assms(3) Some n by blast
          then have "\<forall>s k. node_at st s = Some k \<longrightarrow> 3 + row_count (view m) + row_count (view n) \<le> room k"
            using assms(4) order.trans by blast
          from migrate_moves [OF assms(1,2) n Some False owner this assms(5)] show ?thesis
            using Some n owner outcome_mono [OF _ J] by (metis option.inject)
        qed
      qed
    qed
  qed
qed

text \<open>
  The rows that prepared transactions hold, as the router sees them, do not change either, in a
  table that every shard which holds a row of it has in its inventory.
\<close>

lemma migrate_locks:
  assumes st: "router_ok ok view sys env st" and out: "mig_outcome env J part to st st' r" and t: "public_table t"
    and quiet: "\<forall>migration src n m. r = Inr migration \<and> bt_get (sm_placement (sh_map st)) part = Some src \<and> src \<noteq> to \<and>
      node_at st src = Some n \<and> node_at st to = Some m \<longrightarrow> quiet n m"
    and listed: "\<forall>s n k. node_at st s = Some n \<and> spec_locked (view n) t k \<longrightarrow> (\<exists>a. rp_registered_keyspaces rp n = Inr a \<and> t \<in> set a)"
  shows "sh_locked view env st' t k = sh_locked view env st t k"
proof -
  have st': "router_ok ok view sys env st'" "sm_strategy (sh_map st') = sm_strategy (sh_map st)"
      "\<And>s. rel_option (kept J) (node_at st s) (node_at st' s)"
    using out by (simp_all add: mig_outcome_def)
  note placed = router_okD(1) [OF st] router_okD(1) [OF st'(1)]
  have kp: "key_part env st' t k = key_part env st t k"
    by (simp add: key_part_def st'(2))
  note owner = key_part_ok(3) [OF placed(1) public_not_global [OF t], of env k]
    key_part_ok(3) [OF placed(2) public_not_global [OF t], of env k, unfolded kp]
  have same: "spec_locked (view (the (node_at st' s))) t k = spec_locked (view (the (node_at st s))) t k" if "node_at st s \<noteq> None" for s
    using st'(3) [of s] that
    by (cases "node_at st s"; cases "node_at st' s") (simp_all add: kept_def spec_locked_def)
  show ?thesis
  proof (cases "sh_owner env st' t k = sh_owner env st t k")
    case True
    then show ?thesis
      using same [OF shard_for_ok(2) [OF placed(1)]] by (simp add: sh_locked_def sh_node_def)
  next
    case False
    then obtain migration where moved: "r = Inr migration" "key_part env st t k = part" "sh_owner env st' t k = to"
      using out owner by (cases r) (auto simp: mig_outcome_def split: if_splits)
    let ?src = "sh_owner env st t k"
    obtain n where n: "node_at st ?src = Some n"
      using shard_for_ok(2) [OF placed(1)] by blast
    obtain m' where "node_at st' to = Some m'"
      using shard_for_ok(2) [OF placed(2), of env t k] moved(3) by auto
    then obtain m where m: "node_at st to = Some m"
      using st'(3) [of to] by (auto elim: option.rel_cases)
    have "quiet n m"
      using quiet moved owner(1) n m False by auto
    then have "\<not> spec_locked (view n) t k" "\<not> spec_locked (view m) t k"
      using listed n m unfolding quiet_def by blast+
    then show ?thesis
      using same [of to] m n moved(3) by (simp add: sh_locked_def sh_node_def)
  qed
qed

end

section \<open>Clusters of single nodes\<close>

text \<open>
  C2. Whatever happens during a migration, the cluster stays well formed, its owners hold the same
  rows as before, and a read through the router gives the same answer, a conflict with a prepared
  transaction included. The last part needs that every shard has the tables of its prepared
  transactions in its inventory of keyspaces. Every shard keeps its prepared transactions, its decisions and its
  coordinator rows. A failed migration leaves the shard map as it was; a successful one moves
  exactly the given partition to the target. It succeeds when the target and the partition
  exist, the version of the map can still be increased and no row is locked. \<open>J\<close> bounds the commits it
  needs: three for its own record and one per row of the two shards.
\<close>

theorem migration_keeps_rows:
  assumes "cluster_ok env st" and "json_ok (se_migration env)"
    and "\<forall>a b n m. node_at st a = Some n \<and> node_at st b = Some m \<longrightarrow>
      3 + row_count (node_view (se_codecs env) m) + row_count (node_view (se_codecs env) n) \<le> J"
    and "\<forall>s n. node_at st s = Some n \<longrightarrow> J \<le> node_room n"
    and "migrate_partition (cluster env describe) env part to st = (st', r)"
  shows "cluster_ok env st' \<and> cluster_rows env st' = cluster_rows env st \<and>
    (\<forall>t. public_table t \<and> (\<forall>s n k. node_at st s = Some n \<and> spec_locked (node_view (se_codecs env) n) t k \<longrightarrow>
         (\<exists>ts. rp_registered_keyspaces (cluster env describe) n = Inr ts \<and> t \<in> set ts)) \<longrightarrow>
       (\<forall>k con. sh_read (cluster env describe) env st' t k con = sh_read (cluster env describe) env st t k con)) \<and>
    (\<forall>s. rel_option (\<lambda>n n'.
       ps_prepared (node_view (se_codecs env) n') = ps_prepared (node_view (se_codecs env) n) \<and>
       ps_finished (node_view (se_codecs env) n') = ps_finished (node_view (se_codecs env) n) \<and>
       node_sys n' DIST_TXN_COORDINATOR_TABLE = node_sys n DIST_TXN_COORDINATOR_TABLE \<and>
       node_room n \<le> node_room n' + J) (node_at st s) (node_at st' s)) \<and>
    (case r of
       Inl e \<Rightarrow> sh_map st' = sh_map st
     | Inr migration \<Rightarrow> mg_state migration = Done \<and>
         bt_get (sm_placement (sh_map st')) = (bt_get (sm_placement (sh_map st)))(part \<mapsto> to)) \<and>
    (node_at st to \<noteq> None \<and> part < partition_count (sm_strategy (sh_map st)) \<and> sm_version (sh_map st) \<noteq> - 1 \<and>
      (\<forall>s n t k. node_at st s = Some n \<longrightarrow> \<not> spec_locked (node_view (se_codecs env) n) t k) \<longrightarrow>
     (\<exists>migration. r = Inr migration))"
proof -
  note out = node_backend.migrate_run [OF assms]
  have "DIST_TXN_COORDINATOR_TABLE \<noteq> SHARD_MIGRATIONS_TABLE"
    by (simp add: SHARD_MIGRATIONS_TABLE_def dist_table_defs)
  then have keep: "rel_option (node_backend.kept (se_codecs env) J) x y \<Longrightarrow> rel_option (\<lambda>n n'.
       ps_prepared (node_view (se_codecs env) n') = ps_prepared (node_view (se_codecs env) n) \<and>
       ps_finished (node_view (se_codecs env) n') = ps_finished (node_view (se_codecs env) n) \<and>
       node_sys n' DIST_TXN_COORDINATOR_TABLE = node_sys n DIST_TXN_COORDINATOR_TABLE \<and>
       node_room n \<le> node_room n' + J) x y" for x y
    by (elim option.rel_mono_strong) (simp add: node_backend.kept_def node_backend.moved_def)
  have "sh_read (cluster env describe) env st' t k con = sh_read (cluster env describe) env st t k con"
    if "public_table t" "\<forall>s n k. node_at st s = Some n \<and> spec_locked (node_view (se_codecs env) n) t k \<longrightarrow>
      (\<exists>ts. rp_registered_keyspaces (cluster env describe) n = Inr ts \<and> t \<in> set ts)" for t k con
  proof -
    have "cluster_locked env st' t k = cluster_locked env st t k"
      using node_backend.migrate_locks [OF assms(1) _ that(1) _ that(2)] out by blast
    moreover have "cluster_ok env st'" "cluster_rows env st' = cluster_rows env st"
      using out by (simp_all add: node_backend.mig_outcome_def)
    ultimately show ?thesis
      using node_backend.sh_read_run [OF assms(1) that(1)] node_backend.sh_read_run [OF _ that(1)] by simp
  qed
  then have "\<forall>t. public_table t \<and> (\<forall>s n k. node_at st s = Some n \<and> spec_locked (node_view (se_codecs env) n) t k \<longrightarrow>
         (\<exists>ts. rp_registered_keyspaces (cluster env describe) n = Inr ts \<and> t \<in> set ts)) \<longrightarrow>
       (\<forall>k con. sh_read (cluster env describe) env st' t k con = sh_read (cluster env describe) env st t k con)"
    by blast
  note reads_all = this
  have "\<forall>s. rel_option (\<lambda>n n'.
       ps_prepared (node_view (se_codecs env) n') = ps_prepared (node_view (se_codecs env) n) \<and>
       ps_finished (node_view (se_codecs env) n') = ps_finished (node_view (se_codecs env) n) \<and>
       node_sys n' DIST_TXN_COORDINATOR_TABLE = node_sys n DIST_TXN_COORDINATOR_TABLE \<and>
       node_room n \<le> node_room n' + J) (node_at st s) (node_at st' s)"
    using out unfolding node_backend.mig_outcome_def by (elim conjE, intro allI keep) simp
  then show ?thesis
    using out unfolding node_backend.mig_outcome_def by (elim conjE) (intro conjI reads_all; assumption)
qed

section \<open>Migrations in the example cluster\<close>

lemma demo_migration_json: "json_ok (se_migration demo_env)"
proof -
  have "ser_ok ser_migration"
    unfolding ser_migration_def by (intro ser_intros) (auto split: migration_state.split)
  then show ?thesis
    by (simp add: demo_env_def demo_json_ok)
qed

lemma demo_row_counts:
  "row_count empty_spec = 0"
  "row_count (empty_spec\<lparr>ps_rows := (\<lambda>_ _. None)(''t'' := [[0] \<mapsto> [7]])\<rparr>) = 1"
  "row_count (empty_spec\<lparr>ps_rows := (\<lambda>_ _. None)(''t'' := [[0] \<mapsto> [9], [1] \<mapsto> [8]])\<rparr>) = 2"
proof -
  have "{(t, k). ((\<lambda>_ _. None)(''t'' := [[0] \<mapsto> [7 :: u8]])) t k \<noteq> None} = {(''t'', [0 :: u8])}"
    "{(t, k). ((\<lambda>_ _. None)(''t'' := [[0] \<mapsto> [9], [1] \<mapsto> [8 :: u8]])) t k \<noteq> None} = {(''t'', [0 :: u8]), (''t'', [1])}"
    by (auto split: if_splits)
  then show "row_count empty_spec = 0"
    "row_count (empty_spec\<lparr>ps_rows := (\<lambda>_ _. None)(''t'' := [[0] \<mapsto> [7]])\<rparr>) = 1"
    "row_count (empty_spec\<lparr>ps_rows := (\<lambda>_ _. None)(''t'' := [[0] \<mapsto> [9], [1] \<mapsto> [8]])\<rparr>) = 2"
    by (simp_all add: row_count_def empty_spec_def)
qed

lemma row_budget:
  assumes "\<And>s n. node_at st s = Some n \<Longrightarrow> row_count (v n) \<le> c" and "3 + 2 * c \<le> J"
  shows "\<forall>a b n m. node_at st a = Some n \<and> node_at st b = Some m \<longrightarrow> 3 + row_count (v m) + row_count (v n) \<le> J"
proof (intro allI impI)
  fix a b n m
  assume nodes: "node_at st a = Some n \<and> node_at st b = Some m"
  then have "row_count (v m) \<le> c" "row_count (v n) \<le> c"
    using assms(1) by blast+
  then show "3 + row_count (v m) + row_count (v n) \<le> J"
    using assms(2) by simp
qed

theorem migration_keeps_rows_witness:
  "case migrate_partition (cluster demo_env (\<lambda>_. [])) demo_env 1 0 demo_stale of
     (st, r) \<Rightarrow> (\<exists>migration. r = Inr migration) \<and> cluster_rows demo_env st ''t'' = [[0] \<mapsto> [7], [1] \<mapsto> [8]] \<and>
       sh_read (cluster demo_env (\<lambda>_. [])) demo_env st ''t'' [1] Strong = Inr (Some [8]) \<and>
       bt_get (sm_placement (sh_map st)) 1 = Some 0"
proof -
  obtain st r where run: "migrate_partition (cluster demo_env (\<lambda>_. [])) demo_env 1 0 demo_stale = (st, r)"
    by (cases "migrate_partition (cluster demo_env (\<lambda>_. [])) demo_env 1 0 demo_stale")
  have codecs: "se_codecs demo_env = demo_codecs"
    by (simp add: demo_env_def)
  have node: "row_count (node_view (se_codecs demo_env) n) \<le> 2" "7 \<le> node_room n" if "node_at demo_stale s = Some n" for s n
    using that demo_filled(4) [OF demo_stale_batches(1)] demo_filled(4) [OF demo_stale_batches(2)]
    by (auto simp: demo_stale_def demo_shards_fields codecs demo_stale_views demo_row_counts split: if_splits)
  have "\<forall>a b n m. node_at demo_stale a = Some n \<and> node_at demo_stale b = Some m \<longrightarrow>
      3 + row_count (node_view (se_codecs demo_env) m) + row_count (node_view (se_codecs demo_env) n) \<le> 7"
    by (rule row_budget [of _ _ 2]) (use node(1) in simp_all)
  moreover have "\<forall>s n. node_at demo_stale s = Some n \<longrightarrow> 7 \<le> node_room n"
    using node(2) by blast
  ultimately have out: "cluster_rows demo_env st = cluster_rows demo_env demo_stale"
      "case r of Inl e \<Rightarrow> sh_map st = sh_map demo_stale
       | Inr migration \<Rightarrow> mg_state migration = Done \<and>
           bt_get (sm_placement (sh_map st)) = (bt_get (sm_placement (sh_map demo_stale)))(1 \<mapsto> 0)"
      "node_at demo_stale 0 \<noteq> None \<and> 1 < partition_count (sm_strategy (sh_map demo_stale)) \<and> sm_version (sh_map demo_stale) \<noteq> - 1 \<and>
        (\<forall>s n t k. node_at demo_stale s = Some n \<longrightarrow> \<not> spec_locked (node_view (se_codecs demo_env) n) t k) \<longrightarrow> (\<exists>migration. r = Inr migration)"
    and reads: "\<forall>t. public_table t \<and> (\<forall>s n k. node_at demo_stale s = Some n \<and> spec_locked (node_view (se_codecs demo_env) n) t k \<longrightarrow>
         (\<exists>ts. rp_registered_keyspaces (cluster demo_env (\<lambda>_. [])) n = Inr ts \<and> t \<in> set ts)) \<longrightarrow>
       (\<forall>k con. sh_read (cluster demo_env (\<lambda>_. [])) demo_env st t k con = sh_read (cluster demo_env (\<lambda>_. [])) demo_env demo_stale t k con)"
    using migration_keeps_rows [OF demo_stale_ok demo_migration_json _ _ run, of 7] by blast+
  have "sh_read (cluster demo_env (\<lambda>_. [])) demo_env st ''t'' [1] Strong = Inr (Some [8])"
  proof -
    have "sh_read (cluster demo_env (\<lambda>_. [])) demo_env st ''t'' [1] Strong =
        sh_read (cluster demo_env (\<lambda>_. [])) demo_env demo_stale ''t'' [1] Strong"
      using reads demo_stale_public demo_stale_rows(3) by blast
    then show ?thesis
      using demo_stale_rows(1,2) node_backend.sh_read_run [OF demo_stale_ok demo_stale_public] by simp
  qed
  note read = this
  have "\<exists>migration. r = Inr migration"
    using out(3) demo_stale_rows(3) by (simp add: demo_stale_def demo_shards_fields demo_map_def)
  then show ?thesis
    using out(1,2) read by (auto simp: run demo_stale_rows(1))
qed

end
