(* ===== verification/History.thy ===== *)
theory History
  imports Replication
begin

text \<open>
  The history garbage collector and the bounded readers of the commit log,
  \<open>src/txn/history.rs\<close>, with the older collector of \<open>src/txn/mod.rs\<close>. A batch reads through a
  snapshot and stages its deletions on a write transaction: it walks the commits after the
  stored cursor, drops the versions no read at or above the new cursor can see, and stores the
  cursor and the horizon; when the cursor has reached the watermark it truncates the log.
\<close>

section \<open>Constants, plans and outcomes\<close>

definition HISTORY_HORIZON_KEY :: bytes where "HISTORY_HORIZON_KEY = as_bytes ''history_horizon''"
definition MVCC_GC_CURSOR_KEY :: bytes where "MVCC_GC_CURSOR_KEY = as_bytes ''mvcc_gc_cursor''"
definition COMMIT_LOG_FLOOR_KEY :: bytes where "COMMIT_LOG_FLOOR_KEY = as_bytes ''commit_log_floor''"
definition DEFAULT_HISTORY_GC_BATCH_SIZE :: nat where "DEFAULT_HISTORY_GC_BATCH_SIZE = 1024"
definition COMMIT_LOG_SCAN_WINDOW :: u64 where "COMMIT_LOG_SCAN_WINDOW = 256"
definition GC_COMMIT_WINDOW :: u64 where "GC_COMMIT_WINDOW = 64"
definition GC_BATCH_RECORD_BYTES :: nat where "GC_BATCH_RECORD_BYTES = 8 * 1024 * 1024"
definition GC_BATCH_WINDOWS :: nat where "GC_BATCH_WINDOWS = 256"

record history_gc_batch_plan =
  hp_watermark :: txn_id
  hp_max_writes :: nat
  hp_max_record_bytes :: nat
  hp_max_windows :: nat
  hp_commit_log_floor_target :: "txn_id option"

record history_gc_batch_outcome =
  ho_mvcc_versions_pruned :: u64
  ho_commit_log_records_pruned :: u64
  ho_mvcc_cursor :: txn_id
  ho_history_horizon :: txn_id
  ho_commit_log_floor :: txn_id
  ho_done :: bool
  ho_changed :: bool

record history_gc_state =
  hs_mvcc_cursor :: txn_id
  hs_history_horizon :: txn_id
  hs_commit_log_floor :: txn_id

record commit_records_page =
  crp_records :: "commit_log_record list"
  crp_has_more :: bool

definition plan_new :: "txn_id \<Rightarrow> nat \<Rightarrow> txn_id option \<Rightarrow> history_gc_batch_plan" where
  "plan_new bound max_writes target =
     \<lparr>hp_watermark = bound, hp_max_writes = max max_writes 1,
      hp_max_record_bytes = GC_BATCH_RECORD_BYTES, hp_max_windows = GC_BATCH_WINDOWS,
      hp_commit_log_floor_target = target\<rparr>"

definition floor_target :: "history_gc_batch_plan \<Rightarrow> txn_id \<Rightarrow> txn_id option" where
  "floor_target plan mvcc_cursor =
     map_option (\<lambda>target. min (min target (hp_watermark plan)) (saturating_add mvcc_cursor 1))
       (hp_commit_log_floor_target plan)"

text \<open>\<open>clamp(1, GC_COMMIT_WINDOW)\<close> of a count of writes.\<close>

definition window_size :: "nat \<Rightarrow> u64" where
  "window_size remaining = min (max (u64_of_usize remaining) 1) GC_COMMIT_WINDOW"

section \<open>Stored progress\<close>

definition read_history_meta :: "reader \<Rightarrow> bytes \<Rightarrow> txn_id option res" where
  "read_history_meta txn key = rbind (rd_get txn TXN_META_TABLE key) (opt_transpose decode_txn_id)"

definition earliest_commit_lsn_in :: "reader \<Rightarrow> txn_id res" where
  "earliest_commit_lsn_in read =
     rbind (read_history_meta read COMMIT_LOG_FLOOR_KEY) (\<lambda>found.
       case found of
         Some floor \<Rightarrow> Inr floor
       | None \<Rightarrow>
           rbind (rd_get read COMMIT_LOG_TABLE (commit_log_key 1)) (\<lambda>first.
             if first \<noteq> None then Inr 1
             else rbind (rd_range read COMMIT_LOG_TABLE [] []) (\<lambda>rows.
               case rows of
                 [] \<Rightarrow> Inr 1
               | row # _ \<Rightarrow> rbind row (\<lambda>(key, _). decode_txn_id key))))"

definition read_history_gc_state :: "reader \<Rightarrow> history_gc_state res" where
  "read_history_gc_state read =
     rbind (read_history_meta read MVCC_GC_CURSOR_KEY) (\<lambda>cursor.
     rbind (read_history_meta read HISTORY_HORIZON_KEY) (\<lambda>horizon.
     rbind (earliest_commit_lsn_in read) (\<lambda>floor.
       Inr \<lparr>hs_mvcc_cursor = case_option 0 id cursor, hs_history_horizon = case_option 0 id horizon,
            hs_commit_log_floor = floor\<rparr>)))"

section \<open>Collecting processed writes\<close>

text \<open>The local variables of \<open>collect_processed_writes\<close>.\<close>

record collecting =
  cl_latest :: "(write_key, txn_id) btm"
  cl_examined :: nat
  cl_decoded_bytes :: nat
  cl_processed :: txn_id

text \<open>One row of a window; the flag says that the batch is full and the function returns.\<close>

definition collect_row ::
  "codecs \<Rightarrow> history_gc_batch_plan \<Rightarrow> row \<Rightarrow> collecting \<Rightarrow> (collecting \<times> bool) res" where
  "collect_row cs plan row c =
     (case row of (key, v) \<Rightarrow>
        rbind (decode_txn_id key) (\<lambda>lsn.
        rbind (decode_commit_log_record cs v) (\<lambda>record.
          if clr_txn_id record \<noteq> lsn
          then Inl (Corruption (''commit log key '' @ show_u64 lsn @ '' holds record '' @ show_u64 (clr_txn_id record)))
          else let c = c\<lparr>cl_decoded_bytes := usize_saturating_add (cl_decoded_bytes c) (length v),
                         cl_examined := usize_saturating_add (cl_examined c) (max (length (clr_writes record)) 1),
                         cl_latest := fold (\<lambda>w. bt_insert (clw_table w, clw_key w) lsn) (clr_writes record) (cl_latest c),
                         cl_processed := lsn\<rparr>
               in Inr (c, hp_max_writes plan \<le> cl_examined c \<or> hp_max_record_bytes plan \<le> cl_decoded_bytes c))))"

fun collect_rows ::
  "codecs \<Rightarrow> history_gc_batch_plan \<Rightarrow> range_iter \<Rightarrow> collecting \<Rightarrow> (collecting \<times> bool) res" where
  "collect_rows cs plan [] c = Inr (c, False)"
| "collect_rows cs plan (item # items) c =
     rbind item (\<lambda>row.
     rbind (collect_row cs plan row c) (\<lambda>(c, full).
       if full then Inr (c, True) else collect_rows cs plan items c))"

text \<open>The window loop; the first argument is the number of windows it may still read.\<close>

fun collect_windows ::
  "nat \<Rightarrow> codecs \<Rightarrow> reader \<Rightarrow> history_gc_batch_plan \<Rightarrow> collecting \<Rightarrow> collecting res" where
  "collect_windows 0 cs read plan c = Inr c"
| "collect_windows (Suc windows) cs read plan c =
     (if cl_processed c < hp_watermark plan
      then let first = saturating_add (cl_processed c) 1;
               last = min (saturating_add first (window_size (hp_max_writes plan - cl_examined c) - 1)) (hp_watermark plan)
           in rbind (rd_range read COMMIT_LOG_TABLE (commit_log_key first) (commit_log_key (saturating_add last 1))) (\<lambda>rows.
              rbind (collect_rows cs plan rows c) (\<lambda>(c, full).
                if full then Inr c
                else collect_windows windows cs read plan (c\<lparr>cl_processed := last\<rparr>)))
      else Inr c)"

definition collect_processed_writes ::
  "codecs \<Rightarrow> reader \<Rightarrow> txn_id \<Rightarrow> history_gc_batch_plan \<Rightarrow> ((write_key, txn_id) btm \<times> txn_id) res" where
  "collect_processed_writes cs read cursor plan =
     rbind (collect_windows (max (hp_max_windows plan) 1) cs read plan
              \<lparr>cl_latest = bt_empty, cl_examined = 0, cl_decoded_bytes = 0, cl_processed = cursor\<rparr>) (\<lambda>c.
       Inr (cl_latest c, cl_processed c))"

section \<open>Pruning the versions of a key\<close>

text \<open>Walking the versions of a key up to \<open>newest\<close>: the last one is kept, those before it are older.\<close>

definition scan_version ::
  "bytes \<Rightarrow> row res \<Rightarrow> bytes list \<times> (txn_id \<times> bytes \<times> bytes) option \<Rightarrow>
   (bytes list \<times> (txn_id \<times> bytes \<times> bytes) option) res" where
  "scan_version pre item found =
     rbind item (\<lambda>(version_row, v).
       if length version_row \<noteq> length pre + 8 \<or> \<not> prefix pre version_row then Inr found
       else rbind (decode_txn_id (drop (length pre) version_row)) (\<lambda>version.
         case found of (older, kept) \<Rightarrow>
           Inr (case kept of None \<Rightarrow> older | Some (_, previous, _) \<Rightarrow> older @ [previous],
                Some (version, version_row, v))))"

definition delete_versions :: "'t writer_ops \<Rightarrow> bytes list \<Rightarrow> 't \<Rightarrow> ('t \<times> u64) res" where
  "delete_versions ops older write =
     rfold (\<lambda>row (write, pruned).
       rbind (w_delete ops write TXN_MVCC_TABLE row) (\<lambda>write. Inr (write, saturating_add pruned 1))) older (write, 0)"

text \<open>A kept deletion marker goes too, when the row has not been written again and does not exist.\<close>

definition removable_tombstone :: "codecs \<Rightarrow> reader \<Rightarrow> string \<Rightarrow> bytes \<Rightarrow> txn_id \<Rightarrow> bytes \<Rightarrow> bool res" where
  "removable_tombstone cs read table key kept_version kept_value =
     rbind (decode_mvcc_record cs kept_value) (\<lambda>record.
       if mvcc_value record \<noteq> None then Inr False
       else rbind (last_key_version_from read table key) (\<lambda>version.
         if version \<noteq> kept_version then Inr False
         else rbind (rd_get read table key) (\<lambda>found. Inr (found = None))))"

definition prune_key_versions ::
  "codecs \<Rightarrow> 't writer_ops \<Rightarrow> reader \<Rightarrow> string \<Rightarrow> bytes \<Rightarrow> txn_id \<Rightarrow> 't \<Rightarrow> ('t \<times> u64) res" where
  "prune_key_versions cs ops read table key newest write =
     rbind (version_key table key) (\<lambda>pre.
     rbind (mvcc_key table key 0) (\<lambda>start.
     rbind (case checked_add newest 1 of
              Some next \<Rightarrow> mvcc_key table key next
            | None \<Rightarrow> Inr (range_end pre)) (\<lambda>end.
     rbind (rd_range read TXN_MVCC_TABLE start end) (\<lambda>rows.
     rbind (rfold (scan_version pre) rows ([], None)) (\<lambda>(older, kept).
       case kept of
         None \<Rightarrow> Inr (write, 0)
       | Some (kept_version, kept_row, kept_value) \<Rightarrow>
           if kept_version \<noteq> newest then Inr (write, 0)
           else rbind (delete_versions ops older write) (\<lambda>(write, pruned).
             rbind (removable_tombstone cs read table key kept_version kept_value) (\<lambda>remove.
               if remove
               then rbind (w_delete ops write TXN_MVCC_TABLE kept_row) (\<lambda>write. Inr (write, saturating_add pruned 1))
               else Inr (write, pruned))))))))"

section \<open>Batches\<close>

definition prune_mvcc_batch ::
  "codecs \<Rightarrow> 't writer_ops \<Rightarrow> reader \<Rightarrow> history_gc_batch_plan \<Rightarrow> history_gc_batch_outcome \<Rightarrow> 't \<Rightarrow>
   ('t \<times> history_gc_batch_outcome) res" where
  "prune_mvcc_batch cs ops read plan outcome write =
     rbind (collect_processed_writes cs read (ho_mvcc_cursor outcome) plan) (\<lambda>(latest_versions, cursor).
     rbind (rfold (\<lambda>((table, key), newest) (write, outcome).
              rbind (prune_key_versions cs ops read table key newest write) (\<lambda>(write, pruned).
                Inr (write, outcome\<lparr>ho_mvcc_versions_pruned := saturating_add (ho_mvcc_versions_pruned outcome) pruned\<rparr>)))
              (bt_entries latest_versions) (write, outcome)) (\<lambda>(write, outcome).
     let horizon = max (ho_history_horizon outcome) cursor in
     rbind (w_put ops write TXN_META_TABLE MVCC_GC_CURSOR_KEY (encode_txn_id cursor)) (\<lambda>write.
     rbind (w_put ops write TXN_META_TABLE HISTORY_HORIZON_KEY (encode_txn_id horizon)) (\<lambda>write.
       Inr (write, outcome\<lparr>ho_mvcc_cursor := cursor, ho_history_horizon := horizon, ho_changed := True\<rparr>)))))"

text \<open>The local variables of \<open>truncate_commit_log_batch\<close>, and its window loop.\<close>

record truncating =
  tr_floor :: txn_id
  tr_deleted :: nat
  tr_deleted_bytes :: nat

definition truncate_row :: "'t writer_ops \<Rightarrow> row res \<Rightarrow> 't \<times> truncating \<Rightarrow> ('t \<times> truncating) res" where
  "truncate_row ops item st =
     rbind item (\<lambda>(key, v).
       case st of (write, t) \<Rightarrow>
         rbind (w_delete ops write COMMIT_LOG_TABLE key) (\<lambda>write.
           Inr (write, t\<lparr>tr_deleted := usize_saturating_add (tr_deleted t) 1,
                         tr_deleted_bytes := usize_saturating_add (tr_deleted_bytes t) (length v)\<rparr>)))"

fun truncate_windows ::
  "nat \<Rightarrow> 't writer_ops \<Rightarrow> reader \<Rightarrow> history_gc_batch_plan \<Rightarrow> txn_id \<Rightarrow> 't \<times> truncating \<Rightarrow> ('t \<times> truncating) res" where
  "truncate_windows 0 ops read plan target st = Inr st"
| "truncate_windows (Suc windows) ops read plan target st =
     (case st of (write, t) \<Rightarrow>
        if tr_floor t < target \<and> tr_deleted t < hp_max_writes plan \<and> tr_deleted_bytes t < hp_max_record_bytes plan
        then let end = min (saturating_add (tr_floor t) (window_size (hp_max_writes plan - tr_deleted t))) target
             in rbind (rd_range read COMMIT_LOG_TABLE (commit_log_key (tr_floor t)) (commit_log_key end)) (\<lambda>rows.
                rbind (rfold (truncate_row ops) rows (write, t)) (\<lambda>(write, t).
                  truncate_windows windows ops read plan target (write, t\<lparr>tr_floor := end\<rparr>)))
        else Inr (write, t))"

definition truncate_commit_log_batch ::
  "'t writer_ops \<Rightarrow> reader \<Rightarrow> history_gc_batch_plan \<Rightarrow> txn_id \<Rightarrow> history_gc_batch_outcome \<Rightarrow> 't \<Rightarrow>
   ('t \<times> history_gc_batch_outcome) res" where
  "truncate_commit_log_batch ops read plan target outcome write =
     rbind (truncate_windows (max (hp_max_windows plan) 1) ops read plan target
              (write, \<lparr>tr_floor = ho_commit_log_floor outcome, tr_deleted = 0, tr_deleted_bytes = 0\<rparr>)) (\<lambda>(write, t).
     rbind (w_put ops write TXN_META_TABLE COMMIT_LOG_FLOOR_KEY (encode_txn_id (tr_floor t))) (\<lambda>write.
       Inr (write, outcome\<lparr>ho_commit_log_records_pruned := u64_of_usize (tr_deleted t),
                           ho_commit_log_floor := tr_floor t, ho_changed := True\<rparr>)))"

definition batch_done :: "history_gc_batch_plan \<Rightarrow> txn_id \<Rightarrow> txn_id \<Rightarrow> bool" where
  "batch_done plan cursor floor \<longleftrightarrow>
     hp_watermark plan \<le> cursor \<and> (case floor_target plan cursor of None \<Rightarrow> True | Some target \<Rightarrow> target \<le> floor)"

definition gc_history_batch ::
  "codecs \<Rightarrow> 't writer_ops \<Rightarrow> reader \<Rightarrow> history_gc_batch_plan \<Rightarrow> 't \<Rightarrow> ('t \<times> history_gc_batch_outcome) res" where
  "gc_history_batch cs ops read plan write =
     rbind (read_history_gc_state read) (\<lambda>state.
     let outcome = \<lparr>ho_mvcc_versions_pruned = 0, ho_commit_log_records_pruned = 0,
                    ho_mvcc_cursor = hs_mvcc_cursor state, ho_history_horizon = hs_history_horizon state,
                    ho_commit_log_floor = hs_commit_log_floor state, ho_done = False, ho_changed = False\<rparr>
     in rbind (if hs_mvcc_cursor state < hp_watermark plan then prune_mvcc_batch cs ops read plan outcome write
               else case floor_target plan (hs_mvcc_cursor state) of
                      Some target \<Rightarrow>
                        if hs_commit_log_floor state < target
                        then truncate_commit_log_batch ops read plan target outcome write
                        else Inr (write, outcome)
                    | None \<Rightarrow> Inr (write, outcome)) (\<lambda>(write, outcome).
          Inr (write, outcome\<lparr>ho_done := batch_done plan (ho_mvcc_cursor outcome) (ho_commit_log_floor outcome)\<rparr>)))"

section \<open>The older collector\<close>

definition gc_logical_key :: "'t writer_ops \<Rightarrow> txn_id \<Rightarrow> bytes \<times> txn_id list \<Rightarrow> 't \<times> nat \<Rightarrow> ('t \<times> nat) res" where
  "gc_logical_key ops bound = (\<lambda>(logical_key, versions) st.
     let versions = sort versions;
         below = filter (\<lambda>version. version < bound) versions;
         keep_before_watermark = (if below = [] then None else Some (Max (set below)))
     in rfold (\<lambda>version (txn, removed).
          if bound \<le> version \<or> Some version = keep_before_watermark then Inr (txn, removed)
          else rbind (w_delete ops txn TXN_MVCC_TABLE (logical_key @ u64_to_be version)) (\<lambda>txn.
            Inr (txn, usize_saturating_add removed 1))) versions st)"

definition gc_mvcc_versions_in_txn :: "'t writer_ops \<Rightarrow> txn_id \<Rightarrow> 't \<Rightarrow> ('t \<times> nat) res" where
  "gc_mvcc_versions_in_txn ops bound txn =
     rbind (rd_rows (w_reader ops txn) TXN_MVCC_TABLE [] []) (\<lambda>rows.
     rbind (rfold (\<lambda>(key, _) by_key.
              rbind (split_mvcc_version_key key) (\<lambda>(logical_key, version).
                Inr (bt_update logical_key [] (\<lambda>versions. versions @ [version]) by_key))) rows bt_empty) (\<lambda>by_key.
       rfold (gc_logical_key ops bound) (bt_entries by_key) (txn, 0)))"

section \<open>Readers over a backend\<close>

definition read_repl_meta :: "'n replication \<Rightarrow> 'n \<Rightarrow> bytes \<Rightarrow> txn_id option repl" where
  "read_repl_meta rp n key =
     rbind (rp_read rp n TXN_META_TABLE key Strong) (opt_transpose (\<lambda>bs. storage_err (decode_txn_id bs)))"

definition current_lsn :: "'n replication \<Rightarrow> 'n \<Rightarrow> txn_id repl" where
  "current_lsn rp n = rbind (read_repl_meta rp n CURRENT_TXN_ID_KEY) (\<lambda>found. Inr (case_option 0 id found))"

definition history_horizon :: "'n replication \<Rightarrow> 'n \<Rightarrow> txn_id repl" where
  "history_horizon rp n = rbind (read_repl_meta rp n HISTORY_HORIZON_KEY) (\<lambda>found. Inr (case_option 0 id found))"

definition earliest_commit_lsn :: "'n replication \<Rightarrow> 'n \<Rightarrow> txn_id repl" where
  "earliest_commit_lsn rp n =
     rbind (read_repl_meta rp n COMMIT_LOG_FLOOR_KEY) (\<lambda>found.
       case found of
         Some floor \<Rightarrow> Inr floor
       | None \<Rightarrow>
           rbind (rp_read rp n COMMIT_LOG_TABLE (commit_log_key 1) Strong) (\<lambda>first.
             if first \<noteq> None then Inr 1
             else rbind (rp_range rp n COMMIT_LOG_TABLE [] [] Strong) (\<lambda>rows.
               case rows of [] \<Rightarrow> Inr 1 | (key, _) # _ \<Rightarrow> storage_err (decode_txn_id key))))"

definition commit_log_window :: "'n replication \<Rightarrow> 'n \<Rightarrow> txn_id \<Rightarrow> txn_id \<Rightarrow> row list repl" where
  "commit_log_window rp n first to =
     rp_range rp n COMMIT_LOG_TABLE (commit_log_key first)
       (case checked_add to 1 of None \<Rightarrow> [] | Some next \<Rightarrow> commit_log_key next) Strong"

text \<open>
  The forward loop of \<open>commit_records_after\<close>: \<open>wanted\<close> records are enough, \<open>next\<close> is the first
  id not yet read.
\<close>

function records_loop ::
  "codecs \<Rightarrow> 'n replication \<Rightarrow> 'n \<Rightarrow> txn_id \<Rightarrow> nat \<Rightarrow> txn_id option \<Rightarrow> commit_log_record list \<Rightarrow>
   commit_log_record list repl" where
  "records_loop cs rp n through wanted next records =
     (case next of
        None \<Rightarrow> Inr records
      | Some first \<Rightarrow>
          if through < first \<or> wanted \<le> length records then Inr records
          else let needed = u64_of_usize (wanted - length records);
                   last = min (saturating_add first (needed - 1)) through
               in rbind (commit_log_window rp n first last) (\<lambda>rows.
                  rbind (rmap (\<lambda>(_, v). storage_err (decode_commit_log_record cs v)) rows) (\<lambda>found.
                    records_loop cs rp n through wanted (checked_add last 1) (records @ found))))"
  by pat_completeness auto

lemma window_after:
  assumes "first \<le> (through :: u64)"
  shows "first \<le> min (saturating_add first k) through"
proof -
  have "unat first \<le> unat (saturating_add first k)"
    using unsigned_less [of first, where 'a = nat] by (simp add: unat_saturating_add)
  with assms show ?thesis
    by (simp add: word_le_nat_alt)
qed

termination records_loop
proof (relation "measure (\<lambda>(cs, rp, n, through, wanted, next, records).
    case next of None \<Rightarrow> 0 | Some first \<Rightarrow> 2 ^ 64 - unat first)", simp, goal_cases)
  case (1 cs rp n through wanted nxt records first needed last rows found)
  then have "first \<le> through"
    by auto
  then have "first \<le> last"
    unfolding 1(4) by (rule window_after)
  then have "unat first \<le> unat last"
    by (simp add: word_le_nat_alt)
  then show ?case
    using 1(1) unsigned_less [of first, where 'a = nat]
    by (auto split: option.split dest!: checked_add_SomeD)
qed

declare records_loop.simps [simp del]

definition commit_records_after ::
  "codecs \<Rightarrow> 'n replication \<Rightarrow> 'n \<Rightarrow> txn_id \<Rightarrow> txn_id \<Rightarrow> nat \<Rightarrow> commit_records_page repl" where
  "commit_records_after cs rp n after through limit =
     (let limit = max limit 1; wanted = usize_saturating_add limit 1 in
      rbind (current_lsn rp n) (\<lambda>current.
      rbind (records_loop cs rp n (min through current) wanted (checked_add after 1) []) (\<lambda>records.
        Inr \<lparr>crp_records = take limit records, crp_has_more = limit < length records\<rparr>)))"

text \<open>Searching a window from its end for a commit at or before a point in time.\<close>

fun search_window :: "codecs \<Rightarrow> nat \<Rightarrow> row list \<Rightarrow> txn_id option repl" where
  "search_window cs timestamp [] = Inr None"
| "search_window cs timestamp ((_, v) # rows) =
     rbind (storage_err (decode_commit_log_record cs v)) (\<lambda>record.
       if clr_committed_at record \<le> timestamp then Inr (Some (clr_txn_id record))
       else search_window cs timestamp rows)"

function search_back ::
  "codecs \<Rightarrow> 'n replication \<Rightarrow> 'n \<Rightarrow> nat \<Rightarrow> txn_id \<Rightarrow> txn_id \<Rightarrow> txn_id option repl" where
  "search_back cs rp n timestamp earliest to =
     (if earliest \<le> to
      then let first = max (saturating_sub to (COMMIT_LOG_SCAN_WINDOW - 1)) earliest
           in rbind (commit_log_window rp n first to) (\<lambda>rows.
              rbind (search_window cs timestamp (rev rows)) (\<lambda>found.
                case found of
                  Some i \<Rightarrow> Inr (Some i)
                | None \<Rightarrow>
                    (case checked_sub first 1 of
                       None \<Rightarrow> Inr None
                     | Some previous \<Rightarrow> search_back cs rp n timestamp earliest previous)))
      else Inr None)"
  by pat_completeness auto

termination search_back
proof (relation "measure (\<lambda>(cs, rp, n, timestamp, earliest, to). unat to)", simp, goal_cases)
  case (1 cs rp n timestamp earliest to first rows found previous)
  have "unat first \<le> unat to"
    using 1(1,2) by (simp add: word_le_nat_alt [symmetric]) (simp add: word_le_nat_alt unat_saturating_sub)
  moreover have "unat previous < unat first"
    using 1 by (auto simp: checked_sub_def unat_sub word_le_nat_alt split: if_splits)
  ultimately show ?case
    by simp
qed

declare search_back.simps [simp del]

definition latest_commit_at_or_before :: "codecs \<Rightarrow> 'n replication \<Rightarrow> 'n \<Rightarrow> nat \<Rightarrow> txn_id option repl" where
  "latest_commit_at_or_before cs rp n timestamp =
     rbind (earliest_commit_lsn rp n) (\<lambda>earliest.
     rbind (current_lsn rp n) (\<lambda>last.
       search_back cs rp n timestamp (max earliest 1) last))"

end
