(* ===== verification/History_Facts.thy ===== *)
theory History_Facts
  imports History
begin

text \<open>
  Correctness of the history garbage collector. On the abstract store a batch removes exactly
  the versions that no read at or above the new horizon can see: \<open>gone\<close> are the versions of a
  row it may drop, and the value of every row as of an id at or above the horizon stays.
  Batches never touch rows, they advance the stored cursor, horizon and floor, and repeating
  them ends. The collector can then be interleaved with commits: what a row was at an id that
  is still at or above the horizon is what the history says.
\<close>

section \<open>Versions of a row\<close>

text \<open>The versions a pruning of a row up to its processed version \<open>newest\<close> removes.\<close>

definition gone :: "codecs \<Rightarrow> store \<Rightarrow> string \<Rightarrow> bytes \<Rightarrow> txn_id \<Rightarrow> txn_id set" where
  "gone cs s table key newest =
     (if newest \<in> versions_of s table key
      then {i \<in> versions_of s table key. i < newest} \<union>
        (if version_value cs s table key newest = None \<and> row_version s table key = newest \<and> bt_get (s table) key = None
         then {newest} else {})
      else {})"

lemma gone_le: "i \<in> gone cs s table key newest \<Longrightarrow> i \<le> newest"
  by (auto simp: gone_def split: if_splits)

text \<open>\<open>drops table key I s s'\<close>: \<open>s'\<close> is \<open>s\<close> without the versions \<open>I\<close> of a row.\<close>

definition drops :: "string \<Rightarrow> bytes \<Rightarrow> txn_id set \<Rightarrow> store \<Rightarrow> store \<Rightarrow> bool" where
  "drops table key I s s' \<longleftrightarrow>
     (\<forall>t. t \<noteq> TXN_MVCC_TABLE \<longrightarrow> s' t = s t) \<and>
     (\<forall>k. bt_get (s' TXN_MVCC_TABLE) k =
        (if k \<in> (\<lambda>i. vkey table key @ encode_txn_id i) ` I then None else bt_get (s TXN_MVCC_TABLE) k))"

lemma drops_empty [simp]: "drops table key {} s s' \<longleftrightarrow> s' = s"
  by (auto simp: drops_def fun_eq_iff bt_eq_iff) metis

lemma drops_trans: "drops table key I s s' \<Longrightarrow> drops table key J s' s'' \<Longrightarrow> drops table key (I \<union> J) s s''"
  by (auto simp: drops_def image_Un)

lemma drops_delete: "drops table key {i} s (store_delete TXN_MVCC_TABLE (vkey table key @ encode_txn_id i) s)"
  by (auto simp: drops_def)

lemma mvcc_key_vkey: "sized_table table \<Longrightarrow> mvcc_key table key i = Inr (vkey table key @ encode_txn_id i)"
  by (auto simp: mvcc_key_Inr)

lemma encode_txn_id_order [simp]:
  "encode_txn_id i < encode_txn_id j \<longleftrightarrow> i < j" "encode_txn_id i \<le> encode_txn_id j \<longleftrightarrow> i \<le> j"
  by (simp_all add: encode_txn_id_def)

lemma from_be_encode_txn_id [simp]: "u64_from_be (encode_txn_id i) = i"
  by (simp add: encode_txn_id_def)

text \<open>The rows of a range that are versions of the row with the given version key.\<close>

definition own_rows :: "bytes \<Rightarrow> row list \<Rightarrow> row list" where
  "own_rows pre rows = filter (\<lambda>(k, _). length k = length pre + 8 \<and> prefix pre k) rows"

lemma own_key: "length k = length pre + 8 \<and> prefix pre k \<longleftrightarrow> (\<exists>i. k = pre @ encode_txn_id i)"
proof
  assume k: "length k = length pre + 8 \<and> prefix pre k"
  then obtain r where "k = pre @ r" "length r = 8"
    by (auto simp: prefix_def)
  then show "\<exists>i. k = pre @ encode_txn_id i"
    by (metis encode_txn_id_def u64_to_from_be)
qed auto

lemma scan_versions:
  "rfold (scan_version pre) (map Inr rows) ([], None) =
     Inr (map fst (butlast (own_rows pre rows)),
          if own_rows pre rows = [] then None
          else Some (u64_from_be (drop (length pre) (fst (last (own_rows pre rows)))), last (own_rows pre rows)))"
proof (induction rows rule: rev_induct)
  case (snoc row rows)
  obtain k v where row: "row = (k, v)"
    by (cases row)
  show ?case
  proof (cases "length k = length pre + 8 \<and> prefix pre k")
    case True
    then obtain i where "k = pre @ encode_txn_id i"
      using own_key by blast
    then show ?thesis
      using snoc.IH by (auto simp: rfold_append scan_version_def row own_rows_def butlast_append encode_txn_id_def
          decode_txn_id_def map_butlast [symmetric] last_map split_beta snoc_eq_iff_butlast split: option.split)
  next
    case False
    then have "own_rows pre (rows @ [row]) = own_rows pre rows" "scan_version pre (Inr row) found = Inr found" for found
      by (auto simp: own_rows_def row scan_version_def)
    then show ?thesis
      using snoc.IH by (simp add: rfold_append)
  qed
qed (simp add: own_rows_def)

lemma ordered_last:
  assumes "ordered_keys xs" and "(k, v) \<in> set xs" and "\<forall>x \<in> set xs. fst x \<le> k"
  shows "last xs = (k, v)" and "set (butlast xs) = {x \<in> set xs. fst x < k}"
proof -
  obtain ys y where xs: "xs = ys @ [y]"
    using assms(2) by (cases xs rule: rev_cases) auto
  have less: "\<forall>x \<in> set ys. fst x < fst y"
    using assms(1) by (simp add: xs sorted_wrt_append)
  then have y: "y = (k, v)"
    using assms(2,3) unfolding xs by fastforce
  show "last xs = (k, v)" "set (butlast xs) = {x \<in> set xs. fst x < k}"
    using less by (auto simp: xs y)
qed

definition versions_end :: "bytes \<Rightarrow> txn_id \<Rightarrow> bytes" where
  "versions_end pre newest = (case checked_add newest 1 of Some next \<Rightarrow> pre @ encode_txn_id next | None \<Rightarrow> range_end pre)"

lemma versions_end_exact:
  "in_range (pre @ encode_txn_id 0) (versions_end pre newest) (pre @ encode_txn_id i) \<longleftrightarrow> i \<le> newest"
proof (cases "checked_add newest 1")
  case None
  then have "unat newest = 2 ^ 64 - 1"
    using unsigned_less [of newest, where 'a = nat] by (simp add: checked_add_None_iff)
  then have "i \<le> newest"
    using unsigned_less [of i, where 'a = nat] by (simp add: word_le_nat_alt)
  moreover have "in_range pre (range_end pre) (pre @ encode_txn_id i)"
    by (simp add: range_end_exact)
  ultimately show ?thesis
    using None by (simp add: versions_end_def in_range_def lex_append_same_le)
next
  case (Some b)
  then have "i < b \<longleftrightarrow> i \<le> newest"
    by (auto simp: word_less_nat_alt word_le_nat_alt dest!: checked_add_SomeD)
  moreover have "pre @ encode_txn_id b \<noteq> []"
    by (metis append_is_Nil_conv length_encode_txn_id list.size(3) zero_neq_numeral)
  ultimately show ?thesis
    using Some by (auto simp: versions_end_def in_range_def lex_append_same_le lex_append_same)
qed

abbreviation version_rows :: "store \<Rightarrow> bytes \<Rightarrow> txn_id \<Rightarrow> row list" where
  "version_rows s pre newest \<equiv>
     own_rows pre (bt_range (pre @ encode_txn_id 0) (versions_end pre newest) (s TXN_MVCC_TABLE))"

lemma version_rows_iff:
  "(k, v) \<in> set (version_rows s pre newest) \<longleftrightarrow>
     (\<exists>i \<le> newest. k = pre @ encode_txn_id i) \<and> bt_get (s TXN_MVCC_TABLE) k = Some v"
proof -
  have "(k, v) \<in> set (version_rows s pre newest) \<longleftrightarrow>
      (\<exists>i. k = pre @ encode_txn_id i) \<and> in_range (pre @ encode_txn_id 0) (versions_end pre newest) k \<and>
      bt_get (s TXN_MVCC_TABLE) k = Some v"
    unfolding own_rows_def own_key by (auto simp: bt_range_iff)
  then show ?thesis
    using versions_end_exact by blast
qed

lemma version_rows_split:
  assumes "newest \<in> versions_of s table key"
  shows "last (version_rows s (vkey table key) newest) =
      (vkey table key @ encode_txn_id newest, the (bt_get (s TXN_MVCC_TABLE) (vkey table key @ encode_txn_id newest)))"
      (is "last ?rows = (?k, ?v)")
    and "version_rows s (vkey table key) newest \<noteq> []"
    and "set (map fst (butlast (version_rows s (vkey table key) newest))) =
      (\<lambda>i. vkey table key @ encode_txn_id i) ` {i \<in> versions_of s table key. i < newest}"
proof -
  have ord: "ordered_keys ?rows"
    unfolding own_rows_def by (rule ordered_filter) simp
  have k: "(?k, ?v) \<in> set ?rows"
    using assms by (auto simp: version_rows_iff versions_of_def)
  have le: "\<forall>x \<in> set ?rows. fst x \<le> ?k"
    by (auto simp: version_rows_iff lex_append_same_le)
  show "last ?rows = (?k, ?v)"
    by (rule ordered_last(1) [OF ord k le])
  show "?rows \<noteq> []"
    using k by (metis empty_iff empty_set)
  have "fst ` {x \<in> set ?rows. fst x < ?k} =
      (\<lambda>i. vkey table key @ encode_txn_id i) ` {i \<in> versions_of s table key. i < newest}"
    by (auto simp: version_rows_iff versions_of_def image_iff lex_append_same)
  then show "set (map fst (butlast ?rows)) = (\<lambda>i. vkey table key @ encode_txn_id i) ` {i \<in> versions_of s table key. i < newest}"
    using ordered_last(2) [OF ord k le] by simp
qed

section \<open>Pruning one row\<close>

lemma delete_versions_store:
  "\<exists>n. delete_versions store_writer ks s = Inr (fold (store_delete TXN_MVCC_TABLE) ks s, n)"
proof -
  have "\<exists>n. rfold (\<lambda>row (write, pruned). rbind (w_delete store_writer write TXN_MVCC_TABLE row) (\<lambda>write.
      Inr (write, saturating_add pruned 1))) ks (s, m) = Inr (fold (store_delete TXN_MVCC_TABLE) ks s, n)" for m :: u64
    by (induction ks arbitrary: s m) simp_all
  then show ?thesis
    by (simp add: delete_versions_def)
qed

lemma fold_delete_drops:
  assumes "set ks = (\<lambda>i. vkey table key @ encode_txn_id i) ` I"
  shows "drops table key I s (fold (store_delete TXN_MVCC_TABLE) ks s)"
proof -
  have "t \<noteq> TXN_MVCC_TABLE \<Longrightarrow> fold (store_delete TXN_MVCC_TABLE) ks s t = s t"
    "bt_get (fold (store_delete TXN_MVCC_TABLE) ks s TXN_MVCC_TABLE) k =
       (if k \<in> set ks then None else bt_get (s TXN_MVCC_TABLE) k)" for t k
    by (induction ks arbitrary: s) auto
  then show ?thesis
    by (simp add: drops_def assms)
qed

lemma removable_tombstone_store:
  assumes "removable_tombstone cs (store_reader s) table key newest
      (the (bt_get (s TXN_MVCC_TABLE) (vkey table key @ encode_txn_id newest))) = Inr remove"
  shows "remove \<longleftrightarrow> version_value cs s table key newest = None \<and> row_version s table key = newest \<and> bt_get (s table) key = None"
  using assms
  by (auto simp: removable_tombstone_def rbind_eq_Inr last_key_version_from_def version_value_def row_version_def
      split: if_splits)

lemma gone_split:
  "newest \<in> versions_of s table key \<Longrightarrow>
   removable_tombstone cs (store_reader s) table key newest
      (the (bt_get (s TXN_MVCC_TABLE) (vkey table key @ encode_txn_id newest))) = Inr remove \<Longrightarrow>
   gone cs s table key newest = {i \<in> versions_of s table key. i < newest} \<union> (if remove then {newest} else {})"
  using removable_tombstone_store [of cs s table key newest remove] by (simp add: gone_def)

lemma prune_key_store:
  assumes "sized_table table"
  shows "prune_key_versions cs store_writer (store_reader s) table key newest w =
    (if newest \<in> versions_of s table key
     then rbind (delete_versions store_writer (map fst (butlast (version_rows s (vkey table key) newest))) w) (\<lambda>(w, n).
          rbind (removable_tombstone cs (store_reader s) table key newest
              (the (bt_get (s TXN_MVCC_TABLE) (vkey table key @ encode_txn_id newest)))) (\<lambda>remove.
            if remove then Inr (store_delete TXN_MVCC_TABLE (vkey table key @ encode_txn_id newest) w, saturating_add n 1)
            else Inr (w, n)))
     else Inr (w, 0))"
proof -
  let ?rows = "version_rows s (vkey table key) newest"
  have bounds: "mvcc_key table key 0 = Inr (vkey table key @ encode_txn_id 0)"
    "(case checked_add newest 1 of Some next \<Rightarrow> mvcc_key table key next | None \<Rightarrow> Inr (range_end (vkey table key))) =
       Inr (versions_end (vkey table key) newest)"
    by (simp_all add: mvcc_key_vkey assms versions_end_def split: option.split)
  note run = prune_key_versions_def version_key_sized [OF assms] bounds rbind_simps store_reader_simps scan_versions
  show ?thesis
  proof (cases "newest \<in> versions_of s table key")
    case True
    note rows = version_rows_split(1,2) [OF True]
    have "u64_from_be (drop (length (vkey table key)) (fst (last ?rows))) = newest"
      by (simp add: rows)
    with True show ?thesis
      by (simp add: run rows cong: if_cong)
  next
    case False
    have "u64_from_be (drop (length (vkey table key)) (fst (last ?rows))) \<noteq> newest" if rows: "?rows \<noteq> []"
    proof -
      obtain i where "fst (last ?rows) = vkey table key @ encode_txn_id i" "i \<in> versions_of s table key"
        using last_in_set [OF rows] version_rows_iff [of "fst (last ?rows)" "snd (last ?rows)" "vkey table key" newest s]
        by (auto simp: versions_of_def)
      then show ?thesis
        using False by auto
    qed
    with False show ?thesis
      by (auto simp: run split: prod.split)
  qed
qed

lemma prune_key_effect:
  assumes "prune_key_versions cs store_writer (store_reader s) table key newest w = Inr (w', n)"
  shows "sized_table table \<and> drops table key (gone cs s table key newest) w w'"
proof -
  have sized: "sized_table table"
    using assms by (auto simp: prune_key_versions_def rbind_eq_Inr version_key_Inr sized_table_def)
  let ?ks = "map fst (butlast (version_rows s (vkey table key) newest))"
  have "drops table key (gone cs s table key newest) w w'"
  proof (cases "newest \<in> versions_of s table key")
    case True
    obtain m where m: "delete_versions store_writer ?ks w = Inr (fold (store_delete TXN_MVCC_TABLE) ?ks w, m)"
      using delete_versions_store by blast
    then obtain remove where remove: "removable_tombstone cs (store_reader s) table key newest
        (the (bt_get (s TXN_MVCC_TABLE) (vkey table key @ encode_txn_id newest))) = Inr remove"
      and w': "w' = (if remove then store_delete TXN_MVCC_TABLE (vkey table key @ encode_txn_id newest)
          (fold (store_delete TXN_MVCC_TABLE) ?ks w) else fold (store_delete TXN_MVCC_TABLE) ?ks w)"
      using assms True unfolding prune_key_store [OF sized] by (auto simp: rbind_eq_Inr split: if_splits)
    note older = fold_delete_drops [OF version_rows_split(3) [OF True], of w]
    show ?thesis
      using older drops_trans [OF older drops_delete [of table key newest]]
      unfolding w' gone_split [OF True remove] by (cases remove) simp_all
  qed (use assms in \<open>simp add: prune_key_store sized gone_def\<close>)
  with sized show ?thesis
    by simp
qed

section \<open>Walking the commit log\<close>

text \<open>The versions collected so far are commits that have been processed.\<close>

definition latest_ok :: "collecting \<Rightarrow> bool" where
  "latest_ok c \<longleftrightarrow> (\<forall>tk i. bt_get (cl_latest c) tk = Some i \<longrightarrow> i \<le> cl_processed c)"

lemma get_fold_insert_const:
  "bt_get (fold (\<lambda>w. bt_insert (f w) x) ws m) k = (if k \<in> f ` set ws then Some x else bt_get m k)"
  by (induction ws arbitrary: m) auto

lemma collect_row_step:
  assumes "collect_row cs plan row c = Inr (c', full)" and "latest_ok c"
    and "commit_log_key (cl_processed c) \<le> fst row"
  shows "fst row = commit_log_key (cl_processed c') \<and> cl_processed c \<le> cl_processed c' \<and> latest_ok c'"
proof -
  obtain k v where row: "row = (k, v)"
    by (cases row)
  obtain lsn r where lsn: "decode_txn_id k = Inr lsn" "decode_commit_log_record cs v = Inr r" "clr_txn_id r = lsn"
    and c': "cl_processed c' = lsn"
      "cl_latest c' = fold (\<lambda>w. bt_insert (clw_table w, clw_key w) lsn) (clr_writes r) (cl_latest c)"
    using assms(1) by (auto simp: collect_row_def row rbind_eq_Inr Let_def split: if_splits)
  then have k: "k = commit_log_key lsn"
    by (simp add: decode_txn_id_Inr encode_txn_id_def commit_log_key_def)
  then have "cl_processed c \<le> lsn"
    using assms(3) by (simp add: row commit_log_key_def)
  then show ?thesis
    using assms(2) by (auto simp: row k c' latest_ok_def get_fold_insert_const intro: order_trans)
qed

lemma collect_rows_step:
  assumes "collect_rows cs plan (map Inr rows) c = Inr (c', full)" and "latest_ok c" and "ordered_keys rows"
    and "\<forall>row \<in> set rows. commit_log_key (cl_processed c) \<le> fst row"
  shows "latest_ok c' \<and> cl_processed c \<le> cl_processed c' \<and>
    (commit_log_key (cl_processed c') \<in> fst ` set rows \<or> \<not> full \<and> c' = c)"
  using assms
proof (induction rows arbitrary: c)
  case (Cons row rows)
  obtain d stop where d: "collect_row cs plan row c = Inr (d, stop)"
    using Cons.prems(1) by (auto simp: rbind_eq_Inr)
  note step = collect_row_step [OF d Cons.prems(2)] Cons.prems(4)
  show ?case
  proof (cases stop)
    case True
    with Cons.prems(1) d show ?thesis
      using step by (auto simp: rbind_eq_Inr)
  next
    case False
    have "\<forall>r \<in> set rows. commit_log_key (cl_processed d) \<le> fst r"
      using Cons.prems(3) step by (auto simp: less_imp_le)
    moreover have "collect_rows cs plan (map Inr rows) d = Inr (c', full)"
      using Cons.prems(1) d False by simp
    ultimately show ?thesis
      using Cons.IH [of d] Cons.prems(3) step by (auto intro: order_trans)
  qed
qed simp

lemma window_bounds:
  assumes "p < (w :: u64)"
  shows "p < saturating_add p 1" and "saturating_add p 1 \<le> min (saturating_add (saturating_add p 1) k) w"
proof -
  have "unat p + 1 < 2 ^ 64"
    using assms unsigned_less [of w, where 'a = nat] by (simp add: word_less_nat_alt)
  then have "unat (saturating_add p 1) = unat p + 1"
    by (simp add: unat_saturating_add)
  then show "p < saturating_add p 1" "saturating_add p 1 \<le> min (saturating_add (saturating_add p 1) k) w"
    using assms window_after [of "saturating_add p 1" w k] by (simp_all add: word_less_nat_alt word_le_nat_alt)
qed

lemma window_end: "commit_log_key i < commit_log_key (saturating_add j 1) \<Longrightarrow> i \<le> j"
proof -
  assume "commit_log_key i < commit_log_key (saturating_add j 1)"
  then have "unat i < unat (saturating_add j 1)"
    by (simp add: commit_log_key_def word_less_nat_alt)
  also have "\<dots> \<le> unat j + 1"
    by (simp add: unat_saturating_add)
  finally show "i \<le> j"
    by (simp add: word_le_nat_alt)
qed

lemma commit_log_key_nonempty [simp]: "commit_log_key i \<noteq> []"
  by (metis commit_log_key_def length_u64_to_be list.size(3) zero_neq_numeral)

lemma range_key: "row \<in> set (bt_range lo hi m) \<Longrightarrow> hi \<noteq> [] \<Longrightarrow> lo \<le> fst row \<and> fst row < hi"
  by (cases row) (simp add: bt_range_iff in_range_def)

lemma collect_windows_step:
  assumes "collect_windows n cs (store_reader s) plan c = Inr c'" and "latest_ok c"
  shows "latest_ok c' \<and> cl_processed c \<le> cl_processed c' \<and> cl_processed c' \<le> max (cl_processed c) (hp_watermark plan) \<and>
    (0 < n \<and> cl_processed c < hp_watermark plan \<longrightarrow> cl_processed c < cl_processed c')"
  using assms
proof (induction n arbitrary: c)
  case (Suc n)
  show ?case
  proof (cases "cl_processed c < hp_watermark plan")
    case True
    let ?first = "saturating_add (cl_processed c) 1"
    let ?last = "min (saturating_add ?first (window_size (hp_max_writes plan - cl_examined c) - 1)) (hp_watermark plan)"
    let ?rows = "bt_range (commit_log_key ?first) (commit_log_key (saturating_add ?last 1)) (s COMMIT_LOG_TABLE)"
    note bounds = window_bounds(1) [OF True] window_bounds(2) [OF True, of "window_size (hp_max_writes plan - cl_examined c) - 1"]
    obtain d full where d: "collect_rows cs plan (map Inr ?rows) c = Inr (d, full)"
      and rest: "if full then c' = d else collect_windows n cs (store_reader s) plan (d\<lparr>cl_processed := ?last\<rparr>) = Inr c'"
      using Suc.prems(1) True by (auto simp: Let_def rbind_eq_Inr split: if_splits)
    have keys: "commit_log_key ?first \<le> fst row \<and> fst row < commit_log_key (saturating_add ?last 1)"
      if "row \<in> set ?rows" for row
      by (rule range_key [OF that commit_log_key_nonempty])
    have "\<forall>row \<in> set ?rows. commit_log_key (cl_processed c) \<le> fst row"
    proof
      fix row
      assume "row \<in> set ?rows"
      with keys have "commit_log_key ?first \<le> fst row"
        by blast
      moreover have "commit_log_key (cl_processed c) \<le> commit_log_key ?first"
        using bounds(1) by (simp add: commit_log_key_def)
      ultimately show "commit_log_key (cl_processed c) \<le> fst row"
        by (rule order_trans [rotated])
    qed
    from collect_rows_step [OF d Suc.prems(2) bt_range_ordered this]
    have ok: "latest_ok d" "cl_processed c \<le> cl_processed d"
      and at: "commit_log_key (cl_processed d) \<in> fst ` set ?rows \<or> \<not> full \<and> d = c"
      by blast+
    have inside: "cl_processed c < cl_processed d" "cl_processed d \<le> ?last"
      if "commit_log_key (cl_processed d) \<in> fst ` set ?rows"
      using that keys bounds(1) window_end [of "cl_processed d" ?last] by (force simp: commit_log_key_def)+
    have last: "?last \<le> hp_watermark plan" "cl_processed c < ?last"
      using bounds by (simp, auto)
    show ?thesis
    proof (cases full)
      case True
      then show ?thesis
        using at rest ok inside last by (auto simp: max_def)
    next
      case False
      have "cl_processed d \<le> ?last"
        using at inside(2) last(2) by auto
      then have "latest_ok (d\<lparr>cl_processed := ?last\<rparr>)"
        using ok(1) by (auto simp: latest_ok_def intro: order_trans)
      with Suc.IH [of "d\<lparr>cl_processed := ?last\<rparr>"] rest False
      have "latest_ok c'" "?last \<le> cl_processed c'" "cl_processed c' \<le> max ?last (hp_watermark plan)"
        by simp_all
      moreover from this(2) last(2) have "cl_processed c < cl_processed c'"
        by (rule less_le_trans [rotated])
      ultimately show ?thesis
        using last(1) True by simp
    qed
  qed (use Suc.prems in simp)
qed simp

lemma collect_processed_step:
  assumes "collect_processed_writes cs (store_reader s) cursor plan = Inr (latest, cursor')"
    and "cursor < hp_watermark plan"
  shows "cursor < cursor'" and "cursor' \<le> hp_watermark plan"
    and "bt_get latest tk = Some i \<Longrightarrow> i \<le> cursor'"
proof -
  let ?c = "\<lparr>cl_latest = bt_empty, cl_examined = 0, cl_decoded_bytes = 0, cl_processed = cursor\<rparr>"
  obtain c where c: "collect_windows (max (hp_max_windows plan) 1) cs (store_reader s) plan ?c = Inr c"
      "latest = cl_latest c" "cursor' = cl_processed c"
    using assms(1) by (auto simp: collect_processed_writes_def rbind_eq_Inr)
  have "latest_ok ?c"
    by (simp add: latest_ok_def)
  from collect_windows_step [OF c(1) this] assms(2)
  have "latest_ok c" and step: "cursor < cl_processed c" "cl_processed c \<le> hp_watermark plan"
    by simp_all
  then show "bt_get latest tk = Some i \<Longrightarrow> i \<le> cursor'"
    unfolding c(2,3) latest_ok_def by blast
  show "cursor < cursor'" "cursor' \<le> hp_watermark plan"
    using step by (simp_all add: c(3))
qed

section \<open>Pruning a batch\<close>

text \<open>\<open>s'\<close> is \<open>s\<close> without the versions that pruning the collected rows removes.\<close>

definition swept :: "codecs \<Rightarrow> store \<Rightarrow> (write_key \<times> txn_id) list \<Rightarrow> store \<Rightarrow> store \<Rightarrow> bool" where
  "swept cs s es w w' \<longleftrightarrow>
     (\<forall>t. t \<noteq> TXN_MVCC_TABLE \<longrightarrow> w' t = w t) \<and>
     (\<forall>k. bt_get (w' TXN_MVCC_TABLE) k =
        (if \<exists>table key newest. ((table, key), newest) \<in> set es \<and>
              k \<in> (\<lambda>i. vkey table key @ encode_txn_id i) ` gone cs s table key newest
         then None else bt_get (w TXN_MVCC_TABLE) k))"

lemma swept_get:
  assumes "swept cs s es w w'"
  shows "bt_get (w' TXN_MVCC_TABLE) k = bt_get (w TXN_MVCC_TABLE) k \<or> bt_get (w' TXN_MVCC_TABLE) k = None"
  unfolding assms [unfolded swept_def, THEN conjunct2, rule_format, of k] by simp

lemma swept_Nil: "swept cs s [] w w"
  by (simp add: swept_def)

lemma swept_Cons:
  assumes "drops table key (gone cs s table key newest) w w1" and "swept cs s es w1 w2"
  shows "swept cs s (((table, key), newest) # es) w w2"
proof -
  have "bt_get (w2 TXN_MVCC_TABLE) k =
      (if \<exists>t' k' n'. ((t', k'), n') \<in> set (((table, key), newest) # es) \<and>
            k \<in> (\<lambda>i. vkey t' k' @ encode_txn_id i) ` gone cs s t' k' n'
       then None else bt_get (w TXN_MVCC_TABLE) k)" for k
    using assms unfolding swept_def drops_def by (simp (no_asm_simp)) blast
  then show ?thesis
    using assms by (auto simp: swept_def drops_def)
qed

abbreviation prune_step ::
  "codecs \<Rightarrow> store \<Rightarrow> write_key \<times> txn_id \<Rightarrow> store \<times> history_gc_batch_outcome \<Rightarrow> (store \<times> history_gc_batch_outcome) res" where
  "prune_step cs s \<equiv> \<lambda>((table, key), newest) (write, outcome).
     rbind (prune_key_versions cs store_writer (store_reader s) table key newest write) (\<lambda>(write, pruned).
       Inr (write, outcome\<lparr>ho_mvcc_versions_pruned := saturating_add (ho_mvcc_versions_pruned outcome) pruned\<rparr>))"

lemma prune_all:
  assumes "rfold (prune_step cs s) es (w, out) = Inr (w', out')"
  shows "(\<forall>((table, key), newest) \<in> set es. sized_table table) \<and> swept cs s es w w' \<and>
    (\<exists>n. out' = out\<lparr>ho_mvcc_versions_pruned := n\<rparr>)"
  using assms
proof (induction es arbitrary: w out)
  case Nil
  then have "w' = w" "out' = out"
    by simp_all
  then show ?case
    by (intro conjI exI [of _ "ho_mvcc_versions_pruned out"]) (simp_all add: swept_Nil)
next
  case (Cons e es)
  obtain table key newest where e: "e = ((table, key), newest)"
    by (metis prod.collapse)
  obtain w1 n where w1: "prune_key_versions cs store_writer (store_reader s) table key newest w = Inr (w1, n)"
    and rest: "rfold (prune_step cs s) es
        (w1, out\<lparr>ho_mvcc_versions_pruned := saturating_add (ho_mvcc_versions_pruned out) n\<rparr>) = Inr (w', out')"
    using Cons.prems by (auto simp: e rbind_eq_Inr)
  show ?case
    using prune_key_effect [OF w1] Cons.IH [OF rest] swept_Cons [of table key cs s newest w w1 es w'] by (auto simp: e)
qed

lemma swept_versions:
  assumes "swept cs s (bt_entries latest) s s'" and "\<forall>((table, key), newest) \<in> set (bt_entries latest). sized_table table"
    and "sized_table table"
  shows "versions_of s' table key =
      versions_of s table key - (case bt_get latest (table, key) of None \<Rightarrow> {} | Some newest \<Rightarrow> gone cs s table key newest)"
    and "i \<in> versions_of s' table key \<Longrightarrow> version_value cs s' table key i = version_value cs s table key i"
proof -
  have "(\<exists>t' k' newest. ((t', k'), newest) \<in> set (bt_entries latest) \<and>
        vkey table key @ encode_txn_id i \<in> (\<lambda>i. vkey t' k' @ encode_txn_id i) ` gone cs s t' k' newest) \<longleftrightarrow>
      (\<exists>newest. bt_get latest (table, key) = Some newest \<and> i \<in> gone cs s table key newest)" (is "?lhs i \<longleftrightarrow> ?rhs i") for i
  proof
    assume "?lhs i"
    then obtain t' k' newest j where at: "((t', k'), newest) \<in> set (bt_entries latest)" "j \<in> gone cs s t' k' newest"
      and eq: "vkey table key @ encode_txn_id i = vkey t' k' @ encode_txn_id j"
      by blast
    then have "sized_table t'" "vkey table key = vkey t' k'" "i = j"
      using assms(2) by auto
    then have "table = t' \<and> key = k' \<and> i = j"
      using vkey_inject assms(3) by simp
    with at show "?rhs i"
      by (simp add: bt_entries_iff)
  qed (force simp: bt_entries_iff)
  then have get: "bt_get (s' TXN_MVCC_TABLE) (vkey table key @ encode_txn_id i) =
      (if \<exists>newest. bt_get latest (table, key) = Some newest \<and> i \<in> gone cs s table key newest then None
       else bt_get (s TXN_MVCC_TABLE) (vkey table key @ encode_txn_id i))" for i
    using assms(1) unfolding swept_def by presburger
  then show "versions_of s' table key =
      versions_of s table key - (case bt_get latest (table, key) of None \<Rightarrow> {} | Some newest \<Rightarrow> gone cs s table key newest)"
    by (auto simp: versions_of_def split: option.splits if_splits)
  show "version_value cs s' table key i = version_value cs s table key i" if "i \<in> versions_of s' table key"
    using that by (auto simp: versions_of_def version_value_def get split: if_splits)
qed

lemma Max_above:
  fixes V :: "u64 set"
  assumes "m \<in> V"
  shows "Max (V - {i \<in> V. i < m}) = Max V"
proof (rule Max_eqI)
  have "m \<le> Max V" "Max V \<in> V"
    using assms by (auto intro: Max_ge Max_in)
  then show "Max V \<in> V - {i \<in> V. i < m}"
    by auto
qed auto

lemma as_of_cong:
  assumes "versions_of s' table key = versions_of s table key"
    and "\<forall>i \<in> versions_of s table key. version_value cs s' table key i = version_value cs s table key i"
  shows "as_of cs s' table key j = as_of cs s table key j"
proof (cases "{i \<in> versions_of s table key. i \<le> j} = {}")
  case False
  then have "Max {i \<in> versions_of s table key. i \<le> j} \<in> {i \<in> versions_of s table key. i \<le> j}"
    by (intro Max_in) simp_all
  then have "version_value cs s' table key (Max {i \<in> versions_of s table key. i \<le> j}) =
      version_value cs s table key (Max {i \<in> versions_of s table key. i \<le> j})"
    using assms(2) by simp
  then show ?thesis
    unfolding as_of_def Let_def assms(1) by (simp only:)
qed (simp only: as_of_def Let_def assms(1) if_True simp_thms)

text \<open>Dropping the versions \<open>gone\<close> up to \<open>newest\<close> is invisible at and above \<open>newest\<close>.\<close>

lemma as_of_gone:
  assumes versions: "versions_of s' table key = versions_of s table key - gone cs s table key newest"
    and same: "\<forall>i \<in> versions_of s' table key. version_value cs s' table key i = version_value cs s table key i"
    and top: "\<forall>i \<in> versions_of s table key. i \<le> row_version s table key"
    and "newest \<le> j"
  shows "as_of cs s' table key j = as_of cs s table key j"
proof (cases "newest \<in> versions_of s table key")
  case False
  then have "versions_of s' table key = versions_of s table key"
    using versions by (simp add: gone_def)
  then show ?thesis
    using same by (intro as_of_cong) simp_all
next
  case True
  let ?V = "{i \<in> versions_of s table key. i \<le> j}" and ?V' = "{i \<in> versions_of s' table key. i \<le> j}"
  have V: "newest \<in> ?V"
    using True assms(4) by simp
  show ?thesis
  proof (cases "newest \<in> gone cs s table key newest")
    case True
    then have tomb: "version_value cs s table key newest = None" "row_version s table key = newest"
      by (auto simp: gone_def split: if_splits)
    have "Max ?V = newest"
      using V top tomb(2) by (intro Max_eqI) auto
    moreover have "?V' = {}"
      using True top tomb(2) unfolding versions by (auto simp: gone_def split: if_splits)
    ultimately show ?thesis
      using V tomb(1) unfolding as_of_def Let_def by (metis empty_iff)
  next
    case False
    then have "?V' = ?V - {i \<in> ?V. i < newest}"
      using True assms(4) unfolding versions by (auto simp: gone_def)
    then have max: "Max ?V' = Max ?V" "?V' \<noteq> {}"
      using Max_above [OF V] V by auto
    have "Max ?V' \<in> ?V'"
      using max(2) by (intro Max_in) auto
    then have "version_value cs s' table key (Max ?V') = version_value cs s table key (Max ?V)"
      using same max(1) by simp
    then show ?thesis
      using max(2) V unfolding as_of_def Let_def by (metis (no_types, lifting) empty_iff)
  qed
qed

section \<open>Truncating the log\<close>

text \<open>\<open>s'\<close> is \<open>s\<close> without log records whose id is in the range from \<open>a\<close> to before \<open>b\<close>.\<close>

definition truncated :: "txn_id \<Rightarrow> txn_id \<Rightarrow> store \<Rightarrow> store \<Rightarrow> bool" where
  "truncated a b s s' \<longleftrightarrow>
     (\<forall>t. t \<noteq> COMMIT_LOG_TABLE \<longrightarrow> s' t = s t) \<and>
     (\<forall>k. bt_get (s' COMMIT_LOG_TABLE) k = bt_get (s COMMIT_LOG_TABLE) k \<or>
        bt_get (s' COMMIT_LOG_TABLE) k = None \<and> commit_log_key a \<le> k \<and> k < commit_log_key b)"

lemma truncated_refl: "truncated a b s s"
  by (simp add: truncated_def)

lemma commit_log_key_le [simp]: "commit_log_key i \<le> commit_log_key j \<longleftrightarrow> i \<le> j"
  by (simp add: commit_log_key_def)

lemma truncated_trans:
  assumes "truncated a b s s'" and "truncated b c s' s''" and "a \<le> b" and "b \<le> c"
  shows "truncated a c s s''"
proof -
  have keys: "commit_log_key a \<le> commit_log_key b" "commit_log_key b \<le> commit_log_key c"
    using assms(3,4) by simp_all
  have "bt_get (s'' COMMIT_LOG_TABLE) k = bt_get (s COMMIT_LOG_TABLE) k \<or>
      bt_get (s'' COMMIT_LOG_TABLE) k = None \<and> commit_log_key a \<le> k \<and> k < commit_log_key c" for k
    using assms(1,2) order_trans [OF keys(1), of k] less_le_trans [OF _ keys(2), of k]
    unfolding truncated_def by (metis (no_types))
  then show ?thesis
    using assms(1,2) by (simp add: truncated_def)
qed

lemma truncate_rows_step:
  assumes "rfold (truncate_row store_writer) (map Inr rows) (w, t) = Inr (w', t')"
    and "\<forall>row \<in> set rows. commit_log_key a \<le> fst row \<and> fst row < commit_log_key b"
  shows "truncated a b w w' \<and> tr_floor t' = tr_floor t"
  using assms
proof (induction rows arbitrary: w t)
  case (Cons row rows)
  obtain k v where row: "row = (k, v)"
    by (cases row)
  define w1 where "w1 = store_delete COMMIT_LOG_TABLE k w"
  obtain t1 where t1: "truncate_row store_writer (Inr row) (w, t) = Inr (w1, t1)" "tr_floor t1 = tr_floor t"
    by (simp add: truncate_row_def row w1_def)
  have "truncated a b w w1"
    using Cons.prems(2) by (simp add: truncated_def row w1_def)
  moreover have "truncated a b w1 w' \<and> tr_floor t' = tr_floor t1"
    using Cons.prems by (intro Cons.IH) (simp_all add: t1(1))
  ultimately show ?case
    unfolding truncated_def t1(2) by metis
qed (simp add: truncated_refl)

lemma window_size_pos: "0 < window_size n"
  by (simp add: window_size_def GC_COMMIT_WINDOW_def less_max_iff_disj)

lemma truncate_windows_step:
  assumes "truncate_windows n store_writer (store_reader s) plan target (w, t) = Inr (w', t')"
  shows "truncated (tr_floor t) (tr_floor t') w w' \<and> tr_floor t \<le> tr_floor t' \<and> tr_floor t' \<le> max (tr_floor t) target \<and>
    (0 < n \<and> tr_floor t < target \<and> tr_deleted t < hp_max_writes plan \<and> tr_deleted_bytes t < hp_max_record_bytes plan \<longrightarrow>
       tr_floor t < tr_floor t')"
  using assms
proof (induction n arbitrary: w t)
  case (Suc n)
  show ?case
  proof (cases "tr_floor t < target \<and> tr_deleted t < hp_max_writes plan \<and> tr_deleted_bytes t < hp_max_record_bytes plan")
    case True
    let ?stop = "min (saturating_add (tr_floor t) (window_size (hp_max_writes plan - tr_deleted t))) target"
    let ?rows = "bt_range (commit_log_key (tr_floor t)) (commit_log_key ?stop) (s COMMIT_LOG_TABLE)"
    obtain w1 t1 where step: "rfold (truncate_row store_writer) (map Inr ?rows) (w, t) = Inr (w1, t1)"
      and rest: "truncate_windows n store_writer (store_reader s) plan target (w1, t1\<lparr>tr_floor := ?stop\<rparr>) = Inr (w', t')"
      using Suc.prems True by (auto simp: Let_def rbind_eq_Inr)
    have first: "truncated (tr_floor t) ?stop w w1"
      using truncate_rows_step [OF step] range_key [OF _ commit_log_key_nonempty] by blast
    have "unat (tr_floor t) < unat (saturating_add (tr_floor t) (window_size (hp_max_writes plan - tr_deleted t)))"
      using True unsigned_less [of target, where 'a = nat] window_size_pos [of "hp_max_writes plan - tr_deleted t"]
      by (simp add: unat_saturating_add word_less_nat_alt)
    then have less: "tr_floor t < ?stop" "?stop \<le> target"
      using True by (simp_all add: word_less_nat_alt [symmetric])
    from Suc.IH [OF rest] have more: "truncated ?stop (tr_floor t') w1 w'" "?stop \<le> tr_floor t'" "tr_floor t' \<le> target"
      using less(2) by (simp_all add: max_absorb2)
    show ?thesis
      using truncated_trans [OF first more(1) less_imp_le [OF less(1)] more(2)] less_le_trans [OF less(1) more(2)] more(3)
      by (simp add: le_max_iff_disj)
  qed (use Suc.prems in \<open>auto simp: truncated_refl\<close>)
qed (simp add: truncated_refl)

section \<open>The effect of a batch\<close>

definition meta_value :: "store \<Rightarrow> bytes \<Rightarrow> txn_id" where
  "meta_value s key = (case bt_get (s TXN_META_TABLE) key of None \<Rightarrow> 0 | Some bs \<Rightarrow> u64_from_be bs)"

abbreviation cursor_of :: "store \<Rightarrow> txn_id" where "cursor_of s \<equiv> meta_value s MVCC_GC_CURSOR_KEY"
abbreviation horizon_of :: "store \<Rightarrow> txn_id" where "horizon_of s \<equiv> meta_value s HISTORY_HORIZON_KEY"

definition floor_of :: "store \<Rightarrow> txn_id" where
  "floor_of s = projr (earliest_commit_lsn_in (store_reader s))"

lemmas gc_keys = HISTORY_HORIZON_KEY_def MVCC_GC_CURSOR_KEY_def COMMIT_LOG_FLOOR_KEY_def CURRENT_TXN_ID_KEY_def

lemma gc_keys_distinct [simp]:
  "HISTORY_HORIZON_KEY \<noteq> MVCC_GC_CURSOR_KEY" "MVCC_GC_CURSOR_KEY \<noteq> HISTORY_HORIZON_KEY"
  "COMMIT_LOG_FLOOR_KEY \<noteq> MVCC_GC_CURSOR_KEY" "MVCC_GC_CURSOR_KEY \<noteq> COMMIT_LOG_FLOOR_KEY"
  "COMMIT_LOG_FLOOR_KEY \<noteq> HISTORY_HORIZON_KEY" "HISTORY_HORIZON_KEY \<noteq> COMMIT_LOG_FLOOR_KEY"
  "CURRENT_TXN_ID_KEY \<noteq> HISTORY_HORIZON_KEY" "CURRENT_TXN_ID_KEY \<noteq> MVCC_GC_CURSOR_KEY"
  "CURRENT_TXN_ID_KEY \<noteq> COMMIT_LOG_FLOOR_KEY" "HISTORY_HORIZON_KEY \<noteq> CURRENT_TXN_ID_KEY"
  by (simp_all only: gc_keys as_bytes_inject) simp_all

lemma read_history_meta_value:
  "read_history_meta (store_reader s) key = Inr x \<Longrightarrow> case_option 0 id x = meta_value s key"
  by (auto simp: read_history_meta_def meta_value_def decode_txn_id_def opt_transpose_def rbind_eq_Inr
      split: option.splits if_splits)

lemma gc_state_store:
  assumes "read_history_gc_state (store_reader s) = Inr st"
  shows "st = \<lparr>hs_mvcc_cursor = cursor_of s, hs_history_horizon = horizon_of s, hs_commit_log_floor = floor_of s\<rparr>"
  using assms by (auto simp: read_history_gc_state_def rbind_eq_Inr read_history_meta_value floor_of_def)

lemma as_of_mvcc:
  assumes "s' TXN_MVCC_TABLE = s TXN_MVCC_TABLE"
  shows "versions_of s' = versions_of s" and "version_value cs s' = version_value cs s" and "as_of cs s' = as_of cs s"
proof -
  show v: "versions_of s' = versions_of s" "version_value cs s' = version_value cs s"
    by (auto simp: fun_eq_iff versions_of_def version_value_def assms)
  show "as_of cs s' = as_of cs s"
    by (intro ext) (simp only: as_of_def v)
qed

lemma row_version_same: "s' TXN_VERSIONS_TABLE = s TXN_VERSIONS_TABLE \<Longrightarrow> row_version s' = row_version s"
  by (auto simp: fun_eq_iff row_version_def last_key_version_def version_key_def)

lemma history_ok_same:
  assumes "history_ok cs s" and "s' TXN_MVCC_TABLE = s TXN_MVCC_TABLE" and "s' TXN_VERSIONS_TABLE = s TXN_VERSIONS_TABLE"
    and "\<forall>t. \<not> table_is_reserved t \<longrightarrow> s' t = s t"
  shows "history_ok cs s'"
  using assms(1,4) by (simp add: history_ok_def as_of_mvcc [of s' s, OF assms(2)] row_version_same [of s' s, OF assms(3)])

text \<open>What a batch leaves as it was: all rows, all other metadata, and the past from the horizon on.\<close>

definition gc_keeps :: "codecs \<Rightarrow> store \<Rightarrow> store \<Rightarrow> bool" where
  "gc_keeps cs s s' \<longleftrightarrow>
     (\<forall>t. t \<notin> {TXN_MVCC_TABLE, COMMIT_LOG_TABLE, TXN_META_TABLE} \<longrightarrow> s' t = s t) \<and>
     (\<forall>k. k \<notin> {MVCC_GC_CURSOR_KEY, HISTORY_HORIZON_KEY, COMMIT_LOG_FLOOR_KEY} \<longrightarrow>
        bt_get (s' TXN_META_TABLE) k = bt_get (s TXN_META_TABLE) k) \<and>
     (\<forall>k \<in> {MVCC_GC_CURSOR_KEY, HISTORY_HORIZON_KEY, COMMIT_LOG_FLOOR_KEY}.
        bt_get (s' TXN_META_TABLE) k = bt_get (s TXN_META_TABLE) k \<or>
        (\<exists>i. bt_get (s' TXN_META_TABLE) k = Some (encode_txn_id i))) \<and>
     (\<forall>t \<in> {TXN_MVCC_TABLE, COMMIT_LOG_TABLE}. \<forall>k.
        bt_get (s' t) k = bt_get (s t) k \<or> bt_get (s' t) k = None) \<and>
     horizon_of s \<le> horizon_of s' \<and>
     (\<forall>table key j. \<not> table_is_reserved table \<and> sized_table table \<and> horizon_of s' \<le> j \<longrightarrow>
        as_of cs s' table key j = as_of cs s table key j)"

lemma gc_keeps_refl: "gc_keeps cs s s"
  by (simp add: gc_keeps_def)

lemma gc_keepsD:
  assumes "gc_keeps cs s s'"
  shows "t \<notin> {TXN_MVCC_TABLE, COMMIT_LOG_TABLE, TXN_META_TABLE} \<Longrightarrow> s' t = s t"
    and "k \<notin> {MVCC_GC_CURSOR_KEY, HISTORY_HORIZON_KEY, COMMIT_LOG_FLOOR_KEY} \<Longrightarrow>
      bt_get (s' TXN_META_TABLE) k = bt_get (s TXN_META_TABLE) k"
    and "k \<in> {MVCC_GC_CURSOR_KEY, HISTORY_HORIZON_KEY, COMMIT_LOG_FLOOR_KEY} \<Longrightarrow>
      bt_get (s' TXN_META_TABLE) k = bt_get (s TXN_META_TABLE) k \<or>
      (\<exists>i. bt_get (s' TXN_META_TABLE) k = Some (encode_txn_id i))"
    and "t \<in> {TXN_MVCC_TABLE, COMMIT_LOG_TABLE} \<Longrightarrow> bt_get (s' t) k = bt_get (s t) k \<or> bt_get (s' t) k = None"
    and "horizon_of s \<le> horizon_of s'"
    and "\<not> table_is_reserved table \<Longrightarrow> sized_table table \<Longrightarrow> horizon_of s' \<le> j \<Longrightarrow>
      as_of cs s' table key j = as_of cs s table key j"
proof -
  note parts = assms [unfolded gc_keeps_def]
  show "s' t = s t" if "t \<notin> {TXN_MVCC_TABLE, COMMIT_LOG_TABLE, TXN_META_TABLE}"
    using parts [THEN conjunct1] that by blast
  note parts = parts [THEN conjunct2]
  show "bt_get (s' TXN_META_TABLE) k = bt_get (s TXN_META_TABLE) k"
    if "k \<notin> {MVCC_GC_CURSOR_KEY, HISTORY_HORIZON_KEY, COMMIT_LOG_FLOOR_KEY}"
    using parts [THEN conjunct1] that by blast
  note parts = parts [THEN conjunct2]
  show "bt_get (s' TXN_META_TABLE) k = bt_get (s TXN_META_TABLE) k \<or> (\<exists>i. bt_get (s' TXN_META_TABLE) k = Some (encode_txn_id i))"
    if "k \<in> {MVCC_GC_CURSOR_KEY, HISTORY_HORIZON_KEY, COMMIT_LOG_FLOOR_KEY}"
    by (rule bspec [OF parts [THEN conjunct1] that])
  note parts = parts [THEN conjunct2]
  show "bt_get (s' t) k = bt_get (s t) k \<or> bt_get (s' t) k = None" if "t \<in> {TXN_MVCC_TABLE, COMMIT_LOG_TABLE}"
    by (rule spec [OF bspec [OF parts [THEN conjunct1] that]])
  note parts = parts [THEN conjunct2]
  show "horizon_of s \<le> horizon_of s'"
    by (rule parts [THEN conjunct1])
  show "as_of cs s' table key j = as_of cs s table key j"
    if "\<not> table_is_reserved table" "sized_table table" "horizon_of s' \<le> j"
    using parts [THEN conjunct2] that by blast
qed

lemma gc_keeps_trans:
  assumes "gc_keeps cs s s'" and "gc_keeps cs s' s''"
  shows "gc_keeps cs s s''"
  unfolding gc_keeps_def
proof (intro conjI allI impI ballI)
  show "bt_get (s'' TXN_META_TABLE) k = bt_get (s TXN_META_TABLE) k \<or> (\<exists>i. bt_get (s'' TXN_META_TABLE) k = Some (encode_txn_id i))"
    if "k \<in> {MVCC_GC_CURSOR_KEY, HISTORY_HORIZON_KEY, COMMIT_LOG_FLOOR_KEY}" for k
    using gc_keepsD(3) [OF assms(1) that] gc_keepsD(3) [OF assms(2) that] by auto
  show "bt_get (s'' t) k = bt_get (s t) k \<or> bt_get (s'' t) k = None" if "t \<in> {TXN_MVCC_TABLE, COMMIT_LOG_TABLE}" for t k
    using gc_keepsD(4) [OF assms(1) that, of k] gc_keepsD(4) [OF assms(2) that, of k] by auto
  show horizon: "horizon_of s \<le> horizon_of s''"
    by (rule order_trans [OF gc_keepsD(5) [OF assms(1)] gc_keepsD(5) [OF assms(2)]])
  show "as_of cs s'' table key j = as_of cs s table key j"
    if "\<not> table_is_reserved table \<and> sized_table table \<and> horizon_of s'' \<le> j" for table key j
    using that gc_keepsD(6) [OF assms(1)] gc_keepsD(6) [OF assms(2)] order_trans [OF gc_keepsD(5) [OF assms(2)]] by simp
qed (simp_all add: gc_keepsD(1,2) [OF assms(1)] gc_keepsD(1,2) [OF assms(2)])

text \<open>How the stored progress moves.\<close>

definition gc_moves :: "history_gc_batch_plan \<Rightarrow> store \<Rightarrow> store \<Rightarrow> bool" where
  "gc_moves plan s s' \<longleftrightarrow>
     cursor_of s \<le> cursor_of s' \<and> cursor_of s' \<le> max (cursor_of s) (hp_watermark plan) \<and>
     horizon_of s' \<le> max (horizon_of s) (hp_watermark plan) \<and>
     floor_of s \<le> floor_of s' \<and>
     (floor_of s' = floor_of s \<or> floor_of s' \<le> min (hp_watermark plan) (saturating_add (cursor_of s') 1)) \<and>
     (\<forall>k. commit_log_key (floor_of s') \<le> k \<longrightarrow> bt_get (s' COMMIT_LOG_TABLE) k = bt_get (s COMMIT_LOG_TABLE) k)"

lemma gc_moves_refl: "gc_moves plan s s"
  by (simp add: gc_moves_def)

definition gc_work :: "history_gc_batch_plan \<Rightarrow> store \<Rightarrow> nat" where
  "gc_work plan s = (unat (hp_watermark plan) - unat (cursor_of s)) +
     (case hp_commit_log_floor_target plan of None \<Rightarrow> 0 | Some target \<Rightarrow> unat target - unat (floor_of s))"

lemma table_names_distinct [simp]:
  "TXN_META_TABLE \<noteq> TXN_MVCC_TABLE" "TXN_META_TABLE \<noteq> COMMIT_LOG_TABLE" "COMMIT_LOG_TABLE \<noteq> TXN_MVCC_TABLE"
  "TXN_VERSIONS_TABLE \<noteq> TXN_MVCC_TABLE" "TXN_VERSIONS_TABLE \<noteq> COMMIT_LOG_TABLE" "TXN_VERSIONS_TABLE \<noteq> TXN_META_TABLE"
  "TXN_MVCC_TABLE \<noteq> TXN_META_TABLE" "COMMIT_LOG_TABLE \<noteq> TXN_META_TABLE" "TXN_MVCC_TABLE \<noteq> COMMIT_LOG_TABLE"
  by (simp_all add: table_name_defs)

lemma gc_tables_reserved [simp]:
  "table_is_reserved TXN_META_TABLE" "table_is_reserved TXN_MVCC_TABLE" "table_is_reserved COMMIT_LOG_TABLE"
  by (simp_all add: table_name_defs table_is_reserved_def RESERVED_KEYSPACE_PREFIX_def)

lemma gone_last:
  assumes "row_version s table key \<in> gone cs s table key newest"
    and "\<forall>i \<in> versions_of s table key. i \<le> row_version s table key"
  shows "bt_get (s table) key = None" and "versions_of s table key - gone cs s table key newest = {}"
proof -
  have newest: "newest \<in> versions_of s table key"
    using assms(1) by (auto simp: gone_def split: if_splits)
  then have "\<not> row_version s table key < newest"
    using assms(2) by (simp add: not_less)
  then have "row_version s table key = newest" "newest \<in> gone cs s table key newest"
    using assms(1) gone_le [OF assms(1)] by (auto simp: gone_def split: if_splits)
  then show "bt_get (s table) key = None" "versions_of s table key - gone cs s table key newest = {}"
    using assms(2) newest by (auto simp: gone_def split: if_splits)
qed

lemma swept_history:
  assumes "swept cs s (bt_entries latest) s s'" and "\<forall>((table, key), newest) \<in> set (bt_entries latest). sized_table table"
    and "history_ok cs s"
  shows "history_ok cs s'"
    and "\<not> table_is_reserved table \<Longrightarrow> sized_table table \<Longrightarrow> \<forall>tk i. bt_get latest tk = Some i \<longrightarrow> i \<le> j \<Longrightarrow>
      as_of cs s' table key j = as_of cs s table key j"
proof -
  have tables: "t \<noteq> TXN_MVCC_TABLE \<Longrightarrow> s' t = s t" for t
    using assms(1) by (simp add: swept_def)
  then have row_version: "row_version s' = row_version s"
    by (intro row_version_same) simp
  have old: "\<forall>i \<in> versions_of s table key. i \<noteq> 0 \<and> i \<le> row_version s table key"
      "if versions_of s table key = {} then bt_get (s table) key = None
       else row_version s table key \<in> versions_of s table key \<and>
            version_value cs s table key (row_version s table key) = bt_get (s table) key"
    if "\<not> table_is_reserved table \<and> sized_table table" for table key
    using assms(3) that unfolding history_ok_def by blast+
  show "as_of cs s' table key j = as_of cs s table key j"
    if "\<not> table_is_reserved table" "sized_table table" "\<forall>tk i. bt_get latest tk = Some i \<longrightarrow> i \<le> j"
  proof (cases "bt_get latest (table, key)")
    case (Some newest)
    with that show ?thesis
      using swept_versions(1) [OF assms(1,2) that(2), of key] swept_versions(2) [OF assms(1,2) that(2), of _ key] old(1) [of table key]
      by (intro as_of_gone [of s' table key s cs newest]) auto
  next
    case None
    then show ?thesis
      using swept_versions(1) [OF assms(1,2) that(2), of key] swept_versions(2) [OF assms(1,2) that(2), of _ key] by (intro as_of_cong) simp_all
  qed
  show "history_ok cs s'"
    unfolding history_ok_def
  proof (intro allI impI)
    fix table key
    assume table: "\<not> table_is_reserved table \<and> sized_table table"
    then have same: "bt_get (s' table) key = bt_get (s table) key"
      using tables [of table] by (metis gc_tables_reserved(2))
    note versions = swept_versions(1) [OF assms(1,2) conjunct2 [OF table], of key]
        swept_versions(2) [OF assms(1,2) conjunct2 [OF table], of _ key]
      and old = old [OF table, of key]
    let ?v = "row_version s table key"
    let ?gone = "case bt_get latest (table, key) of None \<Rightarrow> {} | Some newest \<Rightarrow> gone cs s table key newest"
    have top: "\<forall>i \<in> versions_of s table key. i \<le> ?v"
      using old(1) by blast
    have last: "bt_get (s table) key = None \<and> versions_of s' table key = {}" if "?v \<in> ?gone"
      using that gone_last [OF _ top] unfolding versions(1) by (cases "bt_get latest (table, key)") auto
    have "?v \<in> versions_of s' table key" if "versions_of s' table key \<noteq> {}"
      using that old(2) last unfolding versions(1) by (metis Diff_empty Diff_iff empty_Diff)
    moreover have "bt_get (s table) key = None" if "versions_of s' table key = {}"
      using that old(2) last unfolding versions(1) by (metis Diff_iff empty_iff)
    ultimately show "(\<forall>i \<in> versions_of s' table key. i \<noteq> 0 \<and> i \<le> row_version s' table key) \<and>
        (if versions_of s' table key = {} then bt_get (s' table) key = None
         else row_version s' table key \<in> versions_of s' table key \<and>
              version_value cs s' table key (row_version s' table key) = bt_get (s' table) key)"
      using old(1,2) versions unfolding same row_version by (simp split: if_splits)
  qed
qed

lemma meta_value_put [simp]:
  "meta_value (store_put TXN_META_TABLE key (encode_txn_id i) s) key' = (if key' = key then i else meta_value s key')"
  by (simp add: meta_value_def)

lemma meta_value_same: "s' TXN_META_TABLE = s TXN_META_TABLE \<Longrightarrow> meta_value s' = meta_value s"
  by (simp add: fun_eq_iff meta_value_def)

lemma floor_of_same:
  assumes "bt_get (s' TXN_META_TABLE) COMMIT_LOG_FLOOR_KEY = bt_get (s TXN_META_TABLE) COMMIT_LOG_FLOOR_KEY"
    and "s' COMMIT_LOG_TABLE = s COMMIT_LOG_TABLE"
  shows "floor_of s' = floor_of s"
  by (simp only: floor_of_def earliest_commit_lsn_in_def read_history_meta_def store_reader_simps assms)

lemma floor_of_put [simp]: "floor_of (store_put TXN_META_TABLE COMMIT_LOG_FLOOR_KEY (encode_txn_id i) s) = i"
  by (simp add: floor_of_def earliest_commit_lsn_in_def read_history_meta_def opt_transpose_def)

text \<open>The outcome a batch reports is the stored progress.\<close>

definition reports :: "history_gc_batch_outcome \<Rightarrow> store \<Rightarrow> bool" where
  "reports out s \<longleftrightarrow>
     ho_mvcc_cursor out = cursor_of s \<and> ho_history_horizon out = horizon_of s \<and> ho_commit_log_floor out = floor_of s"

lemma prune_batch_effect:
  assumes run: "prune_mvcc_batch cs store_writer (store_reader s) plan out s = Inr (s', out')"
    and "history_ok cs s" and "reports out s" and less: "cursor_of s < hp_watermark plan"
  shows "history_ok cs s' \<and> gc_keeps cs s s' \<and> gc_moves plan s s' \<and> reports out' s' \<and> ho_changed out' \<and>
    gc_work plan s' < gc_work plan s"
proof -
  have out: "ho_mvcc_cursor out = cursor_of s" "ho_history_horizon out = horizon_of s" "ho_commit_log_floor out = floor_of s"
    using assms(3) by (simp_all add: reports_def)
  obtain latest cursor w out1 where collect: "collect_processed_writes cs (store_reader s) (cursor_of s) plan = Inr (latest, cursor)"
    and prune: "rfold (prune_step cs s) (bt_entries latest) (s, out) = Inr (w, out1)"
    and s': "s' = store_put TXN_META_TABLE HISTORY_HORIZON_KEY (encode_txn_id (max (ho_history_horizon out1) cursor))
          (store_put TXN_META_TABLE MVCC_GC_CURSOR_KEY (encode_txn_id cursor) w)"
    and out': "out' = out1\<lparr>ho_mvcc_cursor := cursor, ho_history_horizon := max (ho_history_horizon out1) cursor, ho_changed := True\<rparr>"
    using run by (auto simp: prune_mvcc_batch_def rbind_eq_Inr Let_def out)
  obtain n where sized: "\<forall>((table, key), newest) \<in> set (bt_entries latest). sized_table table"
    and swept: "swept cs s (bt_entries latest) s w" and out1: "out1 = out\<lparr>ho_mvcc_versions_pruned := n\<rparr>"
    using prune_all [OF prune] by blast
  note step = collect_processed_step [OF collect less]
  have tables: "w t = s t" if "t \<noteq> TXN_MVCC_TABLE" for t
    using swept that by (simp add: swept_def)
  have meta: "meta_value w = meta_value s"
    by (rule meta_value_same) (simp add: tables)
  have horizon: "horizon_of s' = max (horizon_of s) cursor" and cursor: "cursor_of s' = cursor"
    by (simp_all add: s' out1 out)
  have floor: "floor_of s' = floor_of s"
    by (rule floor_of_same) (simp_all add: s' tables)
  have mvcc: "s' TXN_MVCC_TABLE = w TXN_MVCC_TABLE" and log: "s' COMMIT_LOG_TABLE = s COMMIT_LOG_TABLE"
    by (simp_all add: s' tables)
  have "history_ok cs s'"
    by (rule history_ok_same [OF swept_history(1) [OF swept sized assms(2)]]) (auto simp: s')
  moreover have "gc_keeps cs s s'"
    unfolding gc_keeps_def
  proof (intro conjI allI impI ballI)
    show "bt_get (s' t) k = bt_get (s t) k \<or> bt_get (s' t) k = None" if "t \<in> {TXN_MVCC_TABLE, COMMIT_LOG_TABLE}" for t k
      using that swept_get [OF swept, of k] by (auto simp: log mvcc)
    show "as_of cs s' table key j = as_of cs s table key j"
      if "\<not> table_is_reserved table \<and> sized_table table \<and> horizon_of s' \<le> j" for table key j
    proof -
      have "\<forall>tk i. bt_get latest tk = Some i \<longrightarrow> i \<le> j"
        using that step(3) unfolding horizon by (auto intro: order_trans)
      then show ?thesis
        using swept_history(2) [OF swept sized assms(2), of table j key] that
        by (simp add: as_of_mvcc [of s' w, OF mvcc])
    qed
  qed (auto simp: s' tables out1 out meta)
  moreover have "gc_moves plan s s'"
    using step(1,2) log order_trans [OF _ step(2), of "horizon_of s"] linear [of cursor "horizon_of s"]
    by (auto simp: gc_moves_def horizon cursor floor le_max_iff_disj)
  moreover have "gc_work plan s' < gc_work plan s"
    using step(1,2) unfolding gc_work_def cursor floor by (simp add: word_less_nat_alt word_le_nat_alt)
  ultimately show ?thesis
    by (simp add: reports_def out' horizon cursor floor out1 out)
qed

lemma truncate_batch_effect:
  assumes run: "truncate_commit_log_batch store_writer (store_reader s) plan target out s = Inr (s', out')"
    and "history_ok cs s" and "reports out s" and less: "floor_of s < target"
    and target: "floor_target plan (cursor_of s) = Some target"
    and budget: "0 < hp_max_writes plan" "0 < hp_max_record_bytes plan"
  shows "history_ok cs s' \<and> gc_keeps cs s s' \<and> gc_moves plan s s' \<and> reports out' s' \<and> ho_changed out' \<and>
    gc_work plan s' < gc_work plan s"
proof -
  have out: "ho_mvcc_cursor out = cursor_of s" "ho_history_horizon out = horizon_of s" "ho_commit_log_floor out = floor_of s"
    using assms(3) by (simp_all add: reports_def)
  let ?t = "\<lparr>tr_floor = floor_of s, tr_deleted = 0, tr_deleted_bytes = 0\<rparr>"
  obtain w t where trunc: "truncate_windows (max (hp_max_windows plan) 1) store_writer (store_reader s) plan target (s, ?t) = Inr (w, t)"
    and s': "s' = store_put TXN_META_TABLE COMMIT_LOG_FLOOR_KEY (encode_txn_id (tr_floor t)) w"
    and out': "out' = out\<lparr>ho_commit_log_records_pruned := u64_of_usize (tr_deleted t),
        ho_commit_log_floor := tr_floor t, ho_changed := True\<rparr>"
    using run by (auto simp: truncate_commit_log_batch_def rbind_eq_Inr out)
  have w: "truncated (floor_of s) (tr_floor t) s w" "floor_of s < tr_floor t" "tr_floor t \<le> target"
    using truncate_windows_step [OF trunc] less budget by (simp_all add: max_absorb2)
  have tables: "w t = s t" if "t \<noteq> COMMIT_LOG_TABLE" for t
    using w(1) that by (simp add: truncated_def)
  have meta: "meta_value w = meta_value s"
    by (rule meta_value_same) (simp add: tables)
  have cursor: "cursor_of s' = cursor_of s" and horizon: "horizon_of s' = horizon_of s" and floor: "floor_of s' = tr_floor t"
    by (simp_all add: s' meta)
  obtain bound where bound: "hp_commit_log_floor_target plan = Some bound"
    "target = min (min bound (hp_watermark plan)) (saturating_add (cursor_of s) 1)"
    using target by (auto simp: floor_target_def)
  have mvcc: "s' TXN_MVCC_TABLE = s TXN_MVCC_TABLE"
    by (simp add: s' tables)
  have "history_ok cs s'"
    by (rule history_ok_same [OF assms(2)]) (auto simp: s' tables intro!: tables)
  moreover have "gc_keeps cs s s'"
    unfolding gc_keeps_def
  proof (intro conjI allI impI ballI)
    show "bt_get (s' t) k = bt_get (s t) k \<or> bt_get (s' t) k = None" if "t \<in> {TXN_MVCC_TABLE, COMMIT_LOG_TABLE}" for t k
      using that w(1) unfolding mvcc truncated_def by (auto simp: s' tables)
  qed (auto simp: s' tables meta as_of_mvcc [of s' s, OF mvcc, unfolded s'])
  moreover have "bt_get (s' COMMIT_LOG_TABLE) k = bt_get (s COMMIT_LOG_TABLE) k" if "commit_log_key (tr_floor t) \<le> k" for k
    using w(1) that unfolding truncated_def s' by (auto simp: not_less)
  moreover have "tr_floor t \<le> min (hp_watermark plan) (saturating_add (cursor_of s) 1)"
    using w(3) by (simp add: bound(2))
  moreover have "unat bound - unat (tr_floor t) < unat bound - unat (floor_of s)"
  proof (rule diff_less_mono2)
    show "unat (floor_of s) < unat (tr_floor t)" "unat (floor_of s) < unat bound"
      using w(2) less bound(2) by (simp_all add: word_less_nat_alt [symmetric])
  qed
  ultimately show ?thesis
    using less_imp_le [OF w(2)] by (simp add: gc_moves_def gc_work_def reports_def out' out horizon cursor floor bound(1) le_max_iff_disj)
qed

lemma batch_effect:
  assumes run: "gc_history_batch cs store_writer (store_reader s) plan s = Inr (s', out)"
    and "history_ok cs s" and budget: "0 < hp_max_writes plan" "0 < hp_max_record_bytes plan"
  shows "history_ok cs s' \<and> gc_keeps cs s s' \<and> gc_moves plan s s' \<and> reports out s' \<and>
    (ho_done out \<longleftrightarrow> batch_done plan (cursor_of s') (floor_of s')) \<and>
    (if ho_changed out then gc_work plan s' < gc_work plan s else s' = s \<and> ho_done out)"
proof -
  let ?out = "\<lparr>ho_mvcc_versions_pruned = 0, ho_commit_log_records_pruned = 0,
     ho_mvcc_cursor = cursor_of s, ho_history_horizon = horizon_of s,
     ho_commit_log_floor = floor_of s, ho_done = False, ho_changed = False\<rparr>"
  have reports: "reports ?out s"
    by (simp add: reports_def)
  obtain st where st: "read_history_gc_state (store_reader s) = Inr st"
    using run by (auto simp: gc_history_batch_def rbind_eq_Inr)
  obtain o1 where step: "(if cursor_of s < hp_watermark plan then prune_mvcc_batch cs store_writer (store_reader s) plan ?out s
       else case floor_target plan (cursor_of s) of
              Some target \<Rightarrow> if floor_of s < target then truncate_commit_log_batch store_writer (store_reader s) plan target ?out s
                 else Inr (s, ?out)
            | None \<Rightarrow> Inr (s, ?out)) = Inr (s', o1)"
    and out: "out = o1\<lparr>ho_done := batch_done plan (ho_mvcc_cursor o1) (ho_commit_log_floor o1)\<rparr>"
    using run unfolding gc_history_batch_def st gc_state_store [OF st] rbind_simps Let_def history_gc_state.simps
    by (auto simp: rbind_eq_Inr)
  have res: "reports out s'" "ho_done out \<longleftrightarrow> batch_done plan (cursor_of s') (floor_of s')" "ho_changed out = ho_changed o1"
    if "reports o1 s'"
    using that by (simp_all add: out reports_def)
  consider (prune) "cursor_of s < hp_watermark plan"
    | (trunc) target where "\<not> cursor_of s < hp_watermark plan" "floor_target plan (cursor_of s) = Some target" "floor_of s < target"
    | (none) "\<not> cursor_of s < hp_watermark plan" "\<forall>target. floor_target plan (cursor_of s) = Some target \<longrightarrow> target \<le> floor_of s"
    by (metis not_less)
  then show ?thesis
  proof cases
    case prune
    with step have "prune_mvcc_batch cs store_writer (store_reader s) plan ?out s = Inr (s', o1)"
      by simp
    from prune_batch_effect [OF this assms(2) reports prune] show ?thesis
      using res by simp
  next
    case trunc
    with step have "truncate_commit_log_batch store_writer (store_reader s) plan target ?out s = Inr (s', o1)"
      by simp
    from truncate_batch_effect [OF this assms(2) reports trunc(3,2) budget] show ?thesis
      using res by simp
  next
    case none
    then have "s' = s" "o1 = ?out"
      using step by (auto split: option.splits if_splits)
    moreover have "batch_done plan (cursor_of s) (floor_of s)"
      using none by (auto simp: batch_done_def split: option.splits)
    ultimately show ?thesis
      using res reports assms(2) by (simp add: gc_keeps_refl gc_moves_refl)
  qed
qed

end
