(* ===== verification/History_Runs.thy ===== *)
theory History_Runs
  imports History_Facts
begin

text \<open>
  Runs of the history garbage collector. On a store whose log, history and progress records can
  be decoded a batch always succeeds; commits and batches keep such a store. The loop of
  \<open>src/db/history.rs\<close> that repeats batches returns, and commits and collections may be
  interleaved in any way.
\<close>

section \<open>Batches succeed\<close>

definition log_row_ok :: "codecs \<Rightarrow> bytes \<Rightarrow> bytes \<Rightarrow> bool" where
  "log_row_ok cs k bs \<longleftrightarrow>
     (\<exists>r. decode_commit_log_record cs bs = Inr r \<and> k = commit_log_key (clr_txn_id r) \<and>
        (\<forall>w \<in> set (clr_writes r). sized_table (clw_table w)))"

definition gc_ready :: "codecs \<Rightarrow> store \<Rightarrow> bool" where
  "gc_ready cs s \<longleftrightarrow>
     (\<forall>k \<in> {MVCC_GC_CURSOR_KEY, HISTORY_HORIZON_KEY, COMMIT_LOG_FLOOR_KEY}.
        \<forall>bs. bt_get (s TXN_META_TABLE) k = Some bs \<longrightarrow> (\<exists>i. bs = encode_txn_id i)) \<and>
     (\<forall>k bs. bt_get (s COMMIT_LOG_TABLE) k = Some bs \<longrightarrow> log_row_ok cs k bs) \<and>
     (\<forall>k bs. bt_get (s TXN_MVCC_TABLE) k = Some bs \<longrightarrow> (\<exists>r. decode_mvcc_record cs bs = Inr r))"

lemma gc_readyD:
  assumes "gc_ready cs s"
  shows "k \<in> {MVCC_GC_CURSOR_KEY, HISTORY_HORIZON_KEY, COMMIT_LOG_FLOOR_KEY} \<Longrightarrow>
      bt_get (s TXN_META_TABLE) k = Some bs \<Longrightarrow> \<exists>i. bs = encode_txn_id i"
    and "bt_get (s COMMIT_LOG_TABLE) k = Some bs \<Longrightarrow> log_row_ok cs k bs"
    and "bt_get (s TXN_MVCC_TABLE) k = Some bs \<Longrightarrow> \<exists>r. decode_mvcc_record cs bs = Inr r"
  using assms unfolding gc_ready_def by blast+

lemma gc_ready_kept:
  assumes "gc_ready cs s" and "gc_keeps cs s s'"
  shows "gc_ready cs s'"
  unfolding gc_ready_def
proof (intro conjI ballI allI impI)
  fix k bs
  show "\<exists>i. bs = encode_txn_id i" if "k \<in> {MVCC_GC_CURSOR_KEY, HISTORY_HORIZON_KEY, COMMIT_LOG_FLOOR_KEY}"
      "bt_get (s' TXN_META_TABLE) k = Some bs"
    using gc_keepsD(3) [OF assms(2) that(1)] gc_readyD(1) [OF assms(1) that(1), of bs] that(2) by auto
  show "log_row_ok cs k bs" if "bt_get (s' COMMIT_LOG_TABLE) k = Some bs"
    using gc_keepsD(4) [OF assms(2), of COMMIT_LOG_TABLE k] gc_readyD(2) [OF assms(1), of k bs] that by auto
  show "\<exists>r. decode_mvcc_record cs bs = Inr r" if "bt_get (s' TXN_MVCC_TABLE) k = Some bs"
    using gc_keepsD(4) [OF assms(2), of TXN_MVCC_TABLE k] gc_readyD(3) [OF assms(1), of k bs] that by auto
qed

lemma read_history_meta_ready:
  "gc_ready cs s \<Longrightarrow> k \<in> {MVCC_GC_CURSOR_KEY, HISTORY_HORIZON_KEY, COMMIT_LOG_FLOOR_KEY} \<Longrightarrow>
   \<exists>x. read_history_meta (store_reader s) k = Inr x"
  using gc_readyD(1) [of cs s k]
  by (cases "bt_get (s TXN_META_TABLE) k") (auto simp: read_history_meta_def opt_transpose_def)

lemma gc_state_ready:
  assumes "gc_ready cs s"
  shows "\<exists>st. read_history_gc_state (store_reader s) = Inr st"
proof -
  have "\<exists>floor. earliest_commit_lsn_in (store_reader s) = Inr floor"
  proof -
    obtain f where f: "read_history_meta (store_reader s) COMMIT_LOG_FLOOR_KEY = Inr f"
      using read_history_meta_ready [OF assms, of COMMIT_LOG_FLOOR_KEY] by auto
    have "\<exists>i. decode_txn_id k = Inr i" if "bt_entries (s COMMIT_LOG_TABLE) = (k, v) # rows" for k v rows
      using gc_readyD(2) [OF assms, of k v] that bt_entries_iff [of k v "s COMMIT_LOG_TABLE"]
      by (auto simp: log_row_ok_def decode_txn_id_def commit_log_key_def)
    then show ?thesis
      by (cases f; cases "bt_entries (s COMMIT_LOG_TABLE)") (auto simp: earliest_commit_lsn_in_def f)
  qed
  then show ?thesis
    using read_history_meta_ready [OF assms, of MVCC_GC_CURSOR_KEY] read_history_meta_ready [OF assms, of HISTORY_HORIZON_KEY]
    by (auto simp: read_history_gc_state_def)
qed

definition latest_sized :: "collecting \<Rightarrow> bool" where
  "latest_sized c \<longleftrightarrow> (\<forall>table key i. bt_get (cl_latest c) (table, key) = Some i \<longrightarrow> sized_table table)"

lemma collect_row_ready:
  assumes "log_row_ok cs k v" and "latest_sized c"
  shows "\<exists>c' full. collect_row cs plan (k, v) c = Inr (c', full) \<and> latest_sized c'"
proof -
  obtain r where r: "decode_commit_log_record cs v = Inr r" "k = encode_txn_id (clr_txn_id r)"
    "\<forall>w \<in> set (clr_writes r). sized_table (clw_table w)"
    using assms(1) by (auto simp: log_row_ok_def commit_log_key_def encode_txn_id_def)
  have "bt_get (fold (\<lambda>w. bt_insert (clw_table w, clw_key w) i) (clr_writes r) (cl_latest c)) (table, key) = Some j \<Longrightarrow>
      sized_table table" for i j table key
    using assms(2) r(3) unfolding get_fold_insert_const latest_sized_def by (auto split: if_splits)
  then show ?thesis
    by (auto simp: collect_row_def r(1,2) Let_def latest_sized_def)
qed

lemma collect_rows_ready:
  assumes "\<forall>(k, v) \<in> set rows. log_row_ok cs k v" and "latest_sized c"
  shows "\<exists>c' full. collect_rows cs plan (map Inr rows) c = Inr (c', full) \<and> latest_sized c'"
  using assms
proof (induction rows arbitrary: c)
  case (Cons row rows)
  obtain k v where row: "row = (k, v)"
    by (cases row)
  obtain d full where d: "collect_row cs plan row c = Inr (d, full)" "latest_sized d"
    using collect_row_ready [of cs k v c plan] Cons.prems by (auto simp: row)
  show ?case
    using Cons.IH [OF _ d(2)] Cons.prems(1) by (cases full) (auto simp: d)
qed auto

lemma collect_windows_ready:
  assumes "gc_ready cs s" and "latest_sized c"
  shows "\<exists>c'. collect_windows n cs (store_reader s) plan c = Inr c' \<and> latest_sized c'"
  using assms(2)
proof (induction n arbitrary: c)
  case (Suc n)
  show ?case
  proof (cases "cl_processed c < hp_watermark plan")
    case True
    have rows: "\<forall>(k, v) \<in> set (bt_range lo hi (s COMMIT_LOG_TABLE)). log_row_ok cs k v" for lo hi
      using gc_readyD(2) [OF assms(1)] by (auto simp: bt_range_iff)
    let ?first = "saturating_add (cl_processed c) 1"
    let ?last = "min (saturating_add ?first (window_size (hp_max_writes plan - cl_examined c) - 1)) (hp_watermark plan)"
    obtain d full where d: "collect_rows cs plan
        (map Inr (bt_range (commit_log_key ?first) (commit_log_key (saturating_add ?last 1)) (s COMMIT_LOG_TABLE))) c = Inr (d, full)"
      "latest_sized d"
      using collect_rows_ready [OF rows Suc.prems] by blast
    have "latest_sized (d\<lparr>cl_processed := ?last\<rparr>)"
      using d(2) by (simp add: latest_sized_def)
    with Suc.IH [of "d\<lparr>cl_processed := ?last\<rparr>"] d True show ?thesis
      by (cases full) (auto simp: Let_def)
  qed (use Suc.prems in simp)
qed simp

lemma removable_tombstone_ready:
  assumes "txn_wf cs c s" and "sized_table table" and "decode_mvcc_record cs v = Inr r"
  shows "\<exists>remove. removable_tombstone cs (store_reader s) table key newest v = Inr remove"
  using last_key_version_wf(1) [OF assms(1,2), of key]
  by (auto simp: removable_tombstone_def assms(3) last_key_version_from_def)

lemma prune_key_ready:
  assumes "txn_wf cs c s" and "gc_ready cs s" and "sized_table table"
  shows "\<exists>w' n. prune_key_versions cs store_writer (store_reader s) table key newest w = Inr (w', n)"
proof (cases "newest \<in> versions_of s table key")
  case True
  then obtain bs where bs: "bt_get (s TXN_MVCC_TABLE) (vkey table key @ encode_txn_id newest) = Some bs"
    by (auto simp: versions_of_def)
  then obtain r where "decode_mvcc_record cs bs = Inr r"
    using gc_readyD(3) [OF assms(2)] by blast
  then obtain remove where "removable_tombstone cs (store_reader s) table key newest bs = Inr remove"
    using removable_tombstone_ready [OF assms(1,3)] by blast
  moreover obtain w1 n where "delete_versions store_writer (map fst (butlast (version_rows s (vkey table key) newest))) w = Inr (w1, n)"
    using delete_versions_store by blast
  ultimately show ?thesis
    using True by (cases remove) (simp_all add: prune_key_store [OF assms(3)] bs)
qed (simp add: prune_key_store [OF assms(3)])

lemma prune_all_ready:
  assumes "txn_wf cs c s" and "gc_ready cs s" and "\<forall>((table, key), newest) \<in> set es. sized_table table"
  shows "\<exists>w' out'. rfold (prune_step cs s) es (w, out) = Inr (w', out')"
  using assms(3)
proof (induction es arbitrary: w out)
  case (Cons e es)
  obtain table key newest where e: "e = ((table, key), newest)"
    by (metis prod.collapse)
  obtain w1 n where "prune_key_versions cs store_writer (store_reader s) table key newest w = Inr (w1, n)"
    using prune_key_ready [OF assms(1,2), of table key newest w] Cons.prems by (auto simp: e)
  with Cons show ?case
    by (auto simp: e)
qed simp

lemma truncate_rows_ready:
  "\<exists>st'. rfold (truncate_row store_writer) (map Inr rows) st = Inr st'"
  by (induction rows arbitrary: st) (auto simp: truncate_row_def split: prod.splits)

lemma truncate_windows_ready:
  "\<exists>w' t'. truncate_windows n store_writer (store_reader s) plan target st = Inr (w', t')"
proof (induction n arbitrary: st)
  case (Suc n)
  obtain w t where st: "st = (w, t)"
    by (cases st)
  let ?stop = "min (saturating_add (tr_floor t) (window_size (hp_max_writes plan - tr_deleted t))) target"
  obtain w1 t1 where "rfold (truncate_row store_writer)
      (map Inr (bt_range (commit_log_key (tr_floor t)) (commit_log_key ?stop) (s COMMIT_LOG_TABLE))) (w, t) = Inr (w1, t1)"
    using truncate_rows_ready by (metis surj_pair)
  with Suc.IH show ?case
    by (simp add: st Let_def)
qed auto

lemma batch_ready:
  assumes "txn_wf cs c s" and "gc_ready cs s"
  shows "\<exists>s' out. gc_history_batch cs store_writer (store_reader s) plan s = Inr (s', out)"
proof -
  obtain st where st: "read_history_gc_state (store_reader s) = Inr st"
    using gc_state_ready [OF assms(2)] by blast
  have prune: "\<exists>w' out'. prune_mvcc_batch cs store_writer (store_reader s) plan out s = Inr (w', out')" for out
  proof -
    let ?c = "\<lparr>cl_latest = bt_empty, cl_examined = 0, cl_decoded_bytes = 0, cl_processed = ho_mvcc_cursor out\<rparr>"
    have start: "latest_sized ?c"
      by (simp add: latest_sized_def)
    obtain d where d: "collect_windows (max (hp_max_windows plan) 1) cs (store_reader s) plan ?c = Inr d" "latest_sized d"
      using collect_windows_ready [OF assms(2) start] by blast
    then have "\<forall>((table, key), newest) \<in> set (bt_entries (cl_latest d)). sized_table table"
      by (clarsimp simp: bt_entries_iff) (metis latest_sized_def)
    then obtain w out1 where "rfold (prune_step cs s) (bt_entries (cl_latest d)) (s, out) = Inr (w, out1)"
      using prune_all_ready [OF assms] by blast
    with d(1) show ?thesis
      by (simp add: prune_mvcc_batch_def collect_processed_writes_def Let_def)
  qed
  have trunc: "\<exists>w' out'. truncate_commit_log_batch store_writer (store_reader s) plan target out s = Inr (w', out')" for target out
    using truncate_windows_ready [of "max (hp_max_windows plan) 1" s plan target
        "(s, \<lparr>tr_floor = ho_commit_log_floor out, tr_deleted = 0, tr_deleted_bytes = 0\<rparr>)"]
    by (auto simp: truncate_commit_log_batch_def)
  show ?thesis
    unfolding gc_history_batch_def st rbind_simps Let_def rbind_eq_Inr
    using prune trunc by (auto split: option.split)
qed

section \<open>Batches on every engine\<close>

lemma delete_versions_transfer [transfer_rule]:
  "rel_fun (rel_writer R) (rel_fun (=) (rel_fun R (rel_res (rel_prod R (=))))) delete_versions delete_versions"
  unfolding delete_versions_def by transfer_prover

lemma prune_key_versions_transfer [transfer_rule]:
  "rel_fun (=) (rel_fun (rel_writer R) (rel_fun (=) (rel_fun (=) (rel_fun (=) (rel_fun (=)
     (rel_fun R (rel_res (rel_prod R (=)))))))))
     prune_key_versions prune_key_versions"
  unfolding prune_key_versions_def by transfer_prover

lemma prune_mvcc_batch_transfer [transfer_rule]:
  "rel_fun (=) (rel_fun (rel_writer R) (rel_fun (=) (rel_fun (=) (rel_fun (=)
     (rel_fun R (rel_res (rel_prod R (=))))))))
     prune_mvcc_batch prune_mvcc_batch"
  unfolding prune_mvcc_batch_def by transfer_prover

lemma truncate_row_transfer [transfer_rule]:
  "rel_fun (rel_writer R) (rel_fun (=) (rel_fun (rel_prod R (=)) (rel_res (rel_prod R (=))))) truncate_row truncate_row"
  unfolding truncate_row_def by transfer_prover

lemma truncate_windows_rel:
  assumes ops: "rel_writer R ops ops'" and "R w w'"
  shows "rel_res (rel_prod R (=)) (truncate_windows n ops read plan target (w, t)) (truncate_windows n ops' read plan target (w', t))"
  using assms(2)
proof (induction n arbitrary: w w' t)
  case (Suc n)
  have row: "rel_fun (=) (rel_fun (rel_prod R (=)) (rel_res (rel_prod R (=)))) (truncate_row ops) (truncate_row ops')"
    by (rule rel_funD [OF truncate_row_transfer ops])
  have rows: "rel_res (rel_prod R (=)) (rfold (truncate_row ops) rows (w, t)) (rfold (truncate_row ops') rows (w', t))" for rows
    by (rule rfold_transfer [THEN rel_funD, THEN rel_funD, THEN rel_funD, OF row])
      (simp_all add: list.rel_eq Suc.prems)
  let ?stop = "min (saturating_add (tr_floor t) (window_size (hp_max_writes plan - tr_deleted t))) target"
  have "rel_res (rel_prod R (=))
      (rbind (rd_range read COMMIT_LOG_TABLE (commit_log_key (tr_floor t)) (commit_log_key ?stop)) (\<lambda>rows.
         rbind (rfold (truncate_row ops) rows (w, t)) (\<lambda>(w, t). truncate_windows n ops read plan target (w, t\<lparr>tr_floor := ?stop\<rparr>))))
      (rbind (rd_range read COMMIT_LOG_TABLE (commit_log_key (tr_floor t)) (commit_log_key ?stop)) (\<lambda>rows.
         rbind (rfold (truncate_row ops') rows (w', t)) (\<lambda>(w, t). truncate_windows n ops' read plan target (w, t\<lparr>tr_floor := ?stop\<rparr>))))"
    by (intro rbind_transfer [THEN rel_funD, THEN rel_funD, of _ "(=)"] rel_funI)
      (auto simp: sum.rel_eq intro!: rbind_transfer [THEN rel_funD, THEN rel_funD, OF rows] rel_funI Suc.IH ops)
  then show ?case
    using Suc.prems by (simp add: Let_def)
qed simp

lemma truncate_windows_transfer [transfer_rule]:
  "rel_fun (=) (rel_fun (rel_writer R) (rel_fun (=) (rel_fun (=) (rel_fun (=)
     (rel_fun (rel_prod R (=)) (rel_res (rel_prod R (=))))))))
     truncate_windows truncate_windows"
  by (intro rel_funI) (auto simp: truncate_windows_rel)

lemma truncate_commit_log_batch_transfer [transfer_rule]:
  "rel_fun (rel_writer R) (rel_fun (=) (rel_fun (=) (rel_fun (=) (rel_fun (=)
     (rel_fun R (rel_res (rel_prod R (=))))))))
     truncate_commit_log_batch truncate_commit_log_batch"
  unfolding truncate_commit_log_batch_def by transfer_prover

lemma gc_history_batch_transfer [transfer_rule]:
  "rel_fun (=) (rel_fun (rel_writer R) (rel_fun (=) (rel_fun (=) (rel_fun R (rel_res (rel_prod R (=)))))))
     gc_history_batch gc_history_batch"
  unfolding gc_history_batch_def by transfer_prover

text \<open>One turn of the loop in \<open>run_history_gc_batches\<close>: a batch under the commit lock.\<close>

definition gc_batch_write ::
  "('db, 't) engine_ops \<Rightarrow> codecs \<Rightarrow> history_gc_batch_plan \<Rightarrow> 'db single_node \<Rightarrow>
   'db single_node \<times> history_gc_batch_outcome res" where
  "gc_batch_write eng cs plan node =
     maintenance_write eng node (\<lambda>read write.
       rbind (gc_history_batch cs (e_writer eng) read plan write) (\<lambda>(write, outcome).
         Inr (write, outcome, ho_changed outcome)))"

context storage_engine
begin

lemma gc_batch_on_engine:
  assumes "healthy (sn_storage node)" and "\<not> sn_lock_poisoned node"
    and batch: "gc_history_batch cs store_writer (store_reader (db_store (sn_storage node))) plan (db_store (sn_storage node)) = Inr (s', out)"
    and same: "\<not> ho_changed out \<Longrightarrow> s' = db_store (sn_storage node)"
  shows "\<exists>db'. gc_batch_write eng cs plan node = (node\<lparr>sn_storage := db'\<rparr>, Inr out) \<and> healthy db' \<and> db_store db' = s'"
proof -
  let ?db = "sn_storage node"
  obtain t where t: "e_begin_write eng ?db = Inr t" "tx_rel ?db t (db_store ?db)"
    by (rule begin_write_rel [OF assms(1)])
  note read = begin_read [OF assms(1)]
  have "rel_res (rel_prod (tx_rel ?db) (=)) (gc_history_batch cs (e_writer eng) (store_reader (db_store ?db)) plan t)
      (gc_history_batch cs store_writer (store_reader (db_store ?db)) plan (db_store ?db))"
    by (intro gc_history_batch_transfer [THEN rel_funD, THEN rel_funD, THEN rel_funD, THEN rel_funD, THEN rel_funD]
        refl writer_rel t(2))
  then obtain t' where t': "gc_history_batch cs (e_writer eng) (store_reader (db_store ?db)) plan t = Inr (t', out)" "tx_rel ?db t' s'"
    unfolding batch by (cases "gc_history_batch cs (e_writer eng) (store_reader (db_store ?db)) plan t") auto
  obtain db' where db': "e_commit eng ?db t' = (db', Inr ())" "healthy db'" "db_store db' = s'"
    using commit [OF assms(1), of t'] t'(2) by (auto simp: tx_rel_def)
  show ?thesis
  proof (cases "ho_changed out")
    case True
    then show ?thesis
      using assms(2) db' by (intro exI [of _ db']) (simp add: gc_batch_write_def maintenance_write_def with_commit_lock_def t read t' finish_commit_def)
  next
    case False
    then show ?thesis
      using assms(1,2) same
      by (intro exI [of _ ?db]) (simp add: gc_batch_write_def maintenance_write_def with_commit_lock_def t read t')
  qed
qed

end

section \<open>Stores with a readable past\<close>

definition log_below :: "txn_id \<Rightarrow> store \<Rightarrow> bool" where
  "log_below c s \<longleftrightarrow> (\<forall>k bs. bt_get (s COMMIT_LOG_TABLE) k = Some bs \<longrightarrow> k \<le> commit_log_key c)"

definition past_ok :: "codecs \<Rightarrow> txn_id \<Rightarrow> store \<Rightarrow> bool" where
  "past_ok cs c s \<longleftrightarrow> txn_wf cs c s \<and> history_ok cs s \<and> gc_ready cs s \<and> log_below c s"

lemma log_below_kept: "log_below c s \<Longrightarrow> gc_keeps cs s s' \<Longrightarrow> log_below c s'"
  unfolding log_below_def using gc_keepsD(4) [of cs s s' COMMIT_LOG_TABLE] by (metis insertCI option.distinct(1))

lemma gc_keys_not_format [simp]:
  "LOCK_FORMAT_KEY \<noteq> HISTORY_HORIZON_KEY" "LOCK_FORMAT_KEY \<noteq> MVCC_GC_CURSOR_KEY" "LOCK_FORMAT_KEY \<noteq> COMMIT_LOG_FLOOR_KEY"
  by (simp_all only: gc_keys LOCK_FORMAT_KEY_def as_bytes_inject) simp_all

lemma txn_wf_kept:
  assumes "txn_wf cs c s" and "gc_keeps cs s s'"
  shows "txn_wf cs c s'"
proof -
  note same = gc_keepsD(1) [OF assms(2)] gc_keepsD(2) [OF assms(2)]
  have tables: "s' TXN_VERSIONS_TABLE = s TXN_VERSIONS_TABLE" "s' HLC_TABLE = s HLC_TABLE" "s' LOCKS_TABLE = s LOCKS_TABLE"
    "s' DIST_TXN_PARTICIPANT_TABLE = s DIST_TXN_PARTICIPANT_TABLE"
    by (simp_all add: same(1) table_name_defs dist_table_defs LOCKS_TABLE_def)
  have keys: "bt_get (s' TXN_META_TABLE) CURRENT_TXN_ID_KEY = bt_get (s TXN_META_TABLE) CURRENT_TXN_ID_KEY"
    "bt_get (s' TXN_META_TABLE) LOCK_FORMAT_KEY = bt_get (s TXN_META_TABLE) LOCK_FORMAT_KEY"
    by (simp_all add: same(2))
  show ?thesis
    using assms(1) unfolding txn_wf_def reject_legacy_prepares_store current_txn_id_from_def stored_hlc_in_txn_def
      store_reader_simps tables keys .
qed

lemma past_ok_batch:
  assumes "past_ok cs c s"
  obtains s' out where "gc_history_batch cs store_writer (store_reader s) (plan_new bound n target) s = Inr (s', out)"
    and "past_ok cs c s'" and "gc_keeps cs s s'" and "gc_moves (plan_new bound n target) s s'"
    and "ho_done out \<longleftrightarrow> batch_done (plan_new bound n target) (cursor_of s') (floor_of s')"
    and "if ho_changed out then gc_work (plan_new bound n target) s' < gc_work (plan_new bound n target) s else s' = s \<and> ho_done out"
proof -
  have wf: "txn_wf cs c s" "history_ok cs s" "gc_ready cs s" "log_below c s"
    using assms by (simp_all add: past_ok_def)
  obtain s' out where run: "gc_history_batch cs store_writer (store_reader s) (plan_new bound n target) s = Inr (s', out)"
    using batch_ready [OF wf(1,3)] by blast
  have "0 < hp_max_writes (plan_new bound n target)" "0 < hp_max_record_bytes (plan_new bound n target)"
    by (simp_all add: plan_new_def GC_BATCH_RECORD_BYTES_def)
  from batch_effect [OF run wf(2) this] that [OF run] show ?thesis
    using txn_wf_kept [OF wf(1)] gc_ready_kept [OF wf(3)] log_below_kept [OF wf(4)] by (auto simp: past_ok_def)
qed

lemma gc_ready_after:
  assumes "codecs_ok cs" and "public_set ws" and "sized_set ws" and "gc_ready cs s"
  shows "gc_ready cs (commit_store cs (next_record cs ck c ws s) s)" (is "gc_ready cs ?s'")
  unfolding gc_ready_def
proof (intro conjI ballI allI impI)
  fix k bs
  note sep = public_separate [OF assms(2)]
  show "\<exists>i. bs = encode_txn_id i" if "k \<in> {MVCC_GC_CURSOR_KEY, HISTORY_HORIZON_KEY, COMMIT_LOG_FLOOR_KEY}"
      "bt_get (?s' TXN_META_TABLE) k = Some bs"
  proof -
    have "k \<noteq> CURRENT_TXN_ID_KEY"
      using that(1) by auto
    then have "bt_get (s TXN_META_TABLE) k = Some bs"
      using that(2) public_setD [OF assms(2), of TXN_META_TABLE k] by (simp add: rows_after)
    then show ?thesis
      by (rule gc_readyD(1) [OF assms(4) that(1)])
  qed
  show "log_row_ok cs k bs" if "bt_get (?s' COMMIT_LOG_TABLE) k = Some bs"
    using that gc_readyD(2) [OF assms(4), of k bs] next_record_facts(3) [OF assms(3), of cs ck c s]
      decode_log_bytes [OF assms(1), of "next_record cs ck c ws s"]
    unfolding log_after [OF assms(1) sep] by (auto simp: log_row_ok_def split: if_splits)
  show "\<exists>r. decode_mvcc_record cs bs = Inr r" if "bt_get (?s' TXN_MVCC_TABLE) k = Some bs"
    using that gc_readyD(3) [OF assms(4), of k bs] decode_mvcc_bytes [OF assms(1)]
    unfolding commit_store_mvcc [OF next_record_facts(2) [OF sep] next_record_facts(1) next_record_facts(3) [OF assms(3)]]
    by (auto split: option.splits)
qed

lemma log_below_after:
  assumes "codecs_ok cs" and "public_set ws" and "c \<noteq> - 1" and "log_below c s"
  shows "log_below (c + 1) (commit_store cs (next_record cs ck c ws s) s)"
proof -
  have "commit_log_key c \<le> commit_log_key (c + 1)"
    using u64_succ_greater [OF assms(3)] by (simp add: order.strict_implies_order)
  note trans = order_trans [OF _ this]
  show ?thesis
    using assms(4) unfolding log_below_def log_after [OF assms(1) public_separate [OF assms(2)]]
    by (auto intro: trans split: if_splits)
qed

lemma past_ok_after:
  assumes "codecs_ok cs" and "past_ok cs c s" and "public_set ws" and "sized_set ws" and "c \<noteq> - 1"
  shows "past_ok cs (c + 1) (commit_store cs (next_record cs ck c ws s) s)"
  using assms(2) txn_wf_after [OF assms(1) _ assms(3,5)] history_after [OF assms(1) _ assms(3,4,5)]
    gc_ready_after [OF assms(1,3,4)] log_below_after [OF assms(1,3,5)]
  by (simp add: past_ok_def)

lemma meta_after:
  assumes "public_set ws" and "CURRENT_TXN_ID_KEY \<noteq> k"
  shows "bt_get (commit_store cs (next_record cs ck c ws s) s TXN_META_TABLE) k = bt_get (s TXN_META_TABLE) k"
  using public_setD [OF assms(1), of TXN_META_TABLE k] assms(2) by (auto simp: rows_after)

lemma horizon_after:
  assumes "public_set ws"
  shows "horizon_of (commit_store cs (next_record cs ck c ws s) s) = horizon_of s"
    and "cursor_of (commit_store cs (next_record cs ck c ws s) s) = cursor_of s"
  by (simp_all add: meta_value_def meta_after [OF assms])

text \<open>A commit adds the last record of the log, so the first one can only appear, not move back.\<close>

lemma floor_after:
  assumes "codecs_ok cs" and "public_set ws" and "c \<noteq> - 1" and "log_below c s" and "gc_ready cs s"
  shows "floor_of s \<le> floor_of (commit_store cs (next_record cs ck c ws s) s)" (is "_ \<le> floor_of ?s'")
proof (cases "bt_get (s TXN_META_TABLE) COMMIT_LOG_FLOOR_KEY")
  case (Some bs)
  then obtain i where "bs = encode_txn_id i"
    using gc_readyD(1) [OF assms(5), of COMMIT_LOG_FLOOR_KEY bs] by auto
  with Some show ?thesis
    by (simp add: floor_of_def earliest_commit_lsn_in_def read_history_meta_def meta_after [OF assms(2)])
next
  case None
  let ?r = "log_bytes cs (next_record cs ck c ws s)"
  have log: "?s' COMMIT_LOG_TABLE = bt_insert (commit_log_key (c + 1)) ?r (s COMMIT_LOG_TABLE)"
    by (rule bt_eqI) (simp add: log_after [OF assms(1) public_separate [OF assms(2)]])
  have less: "fst e < commit_log_key (c + 1)" if "e \<in> set (bt_entries (s COMMIT_LOG_TABLE))" for e
  proof -
    have "fst e \<le> commit_log_key c"
      using that assms(4) bt_entries_iff [of "fst e" "snd e" "s COMMIT_LOG_TABLE"] by (simp add: log_below_def)
    then show ?thesis
      using u64_succ_greater [OF assms(3)] by (auto intro: le_less_trans)
  qed
  have entries: "bt_entries (?s' COMMIT_LOG_TABLE) = bt_entries (s COMMIT_LOG_TABLE) @ [(commit_log_key (c + 1), ?r)]"
    unfolding log bt_entries_insert by (rule al_put_last) (rule less)
  have first: "floor_of t = (if bt_get (t COMMIT_LOG_TABLE) (commit_log_key 1) \<noteq> None then 1
      else case bt_entries (t COMMIT_LOG_TABLE) of [] \<Rightarrow> 1 | e # _ \<Rightarrow> projr (decode_txn_id (fst e)))"
    if "bt_get (t TXN_META_TABLE) COMMIT_LOG_FLOOR_KEY = None" for t
    using that by (auto simp: floor_of_def earliest_commit_lsn_in_def read_history_meta_def split: list.splits)
  have same: "bt_get (?s' TXN_META_TABLE) COMMIT_LOG_FLOOR_KEY = None"
    using None by (simp add: meta_after [OF assms(2)])
  have one: "1 \<le> c + 1"
    using u64_succ_greater [OF assms(3)] by (simp add: word_le_nat_alt word_less_nat_alt)
  show ?thesis
  proof (cases "bt_entries (s COMMIT_LOG_TABLE)")
    case Nil
    then have "bt_get (s COMMIT_LOG_TABLE) (commit_log_key 1) = None"
      by (simp add: bt_get_def)
    then show ?thesis
      using one by (simp add: first [of s, OF None] first [of ?s', OF same] entries Nil commit_log_key_def decode_txn_id_def)
  next
    case (Cons e es)
    then have "bt_get (s COMMIT_LOG_TABLE) (fst e) = Some (snd e)"
      using bt_entries_iff [of "fst e" "snd e" "s COMMIT_LOG_TABLE"] by simp
    then obtain i where i: "fst e = commit_log_key i"
      using gc_readyD(2) [OF assms(5), of "fst e" "snd e"] by (auto simp: log_row_ok_def)
    have "i < c + 1"
      using less [of e] Cons by (simp add: i)
    then have "i \<le> 1" if "1 = c + 1"
      using that by simp
    moreover have "bt_get (?s' COMMIT_LOG_TABLE) (commit_log_key 1) =
        (if 1 = c + 1 then Some ?r else bt_get (s COMMIT_LOG_TABLE) (commit_log_key 1))"
      unfolding log by (simp add: commit_log_key_def)
    moreover have "projr (decode_txn_id (commit_log_key i)) = i"
      by (simp add: commit_log_key_def decode_txn_id_def)
    ultimately show ?thesis
      unfolding first [of s, OF None] first [of ?s', OF same] entries Cons by (cases "1 = c + 1") (simp_all add: i)
  qed
qed

section \<open>Commits and collections in any order\<close>

text \<open>A node commits write sets and runs batches of the collector.\<close>

datatype history_event =
    HCommit clocks txn_id write_set
  | HCollect txn_id nat "txn_id option"

fun history_step :: "codecs \<Rightarrow> history_event \<Rightarrow> mem_engine single_node \<Rightarrow> mem_engine single_node" where
  "history_step cs (HCommit ck snap ws) node = fst (sn_commit_write_set mem_engine_ops cs ck node snap ws)"
| "history_step cs (HCollect bound n target) node = fst (gc_batch_write mem_engine_ops cs (plan_new bound n target) node)"

fun sized_event :: "history_event \<Rightarrow> bool" where
  "sized_event (HCommit ck snap ws) = sized_set ws"
| "sized_event (HCollect bound n target) = True"

abbreviation node_store :: "mem_engine single_node \<Rightarrow> store" where
  "node_store node \<equiv> mem_state (sn_storage node)"

definition past_node :: "codecs \<Rightarrow> txn_id \<Rightarrow> mem_engine single_node \<Rightarrow> bool" where
  "past_node cs c node \<longleftrightarrow> \<not> sn_lock_poisoned node \<and> mem_healthy (sn_storage node) \<and> past_ok cs c (node_store node)"

text \<open>What readers of the past see stays: every id up to \<open>c\<close> that is still at or above the horizon.\<close>

definition past_kept :: "codecs \<Rightarrow> txn_id \<Rightarrow> store \<Rightarrow> store \<Rightarrow> bool" where
  "past_kept cs c s s' \<longleftrightarrow>
     horizon_of s \<le> horizon_of s' \<and> cursor_of s \<le> cursor_of s' \<and> floor_of s \<le> floor_of s' \<and>
     (\<forall>table key i. \<not> table_is_reserved table \<and> sized_table table \<and> i \<le> c \<and> horizon_of s' \<le> i \<longrightarrow>
        as_of cs s' table key i = as_of cs s table key i)"

lemma past_kept_trans:
  assumes "past_kept cs c s s'" and "past_kept cs c' s' s''" and "c \<le> c'"
  shows "past_kept cs c s s''"
  using assms unfolding past_kept_def by (auto intro: order_trans)

lemma collect_on_node:
  assumes "past_node cs c node"
  obtains node' out where "gc_batch_write mem_engine_ops cs (plan_new bound n target) node = (node', Inr out)"
    and "past_node cs c node'" and "gc_keeps cs (node_store node) (node_store node')"
    and "gc_moves (plan_new bound n target) (node_store node) (node_store node')"
    and "ho_done out \<longleftrightarrow> batch_done (plan_new bound n target) (cursor_of (node_store node')) (floor_of (node_store node'))"
    and "if ho_changed out then gc_work (plan_new bound n target) (node_store node') < gc_work (plan_new bound n target) (node_store node)
      else ho_done out"
proof -
  have node: "\<not> sn_lock_poisoned node" "mem_healthy (sn_storage node)" "past_ok cs c (node_store node)"
    using assms by (simp_all add: past_node_def)
  obtain s' out where batch:
    "gc_history_batch cs store_writer (store_reader (node_store node)) (plan_new bound n target) (node_store node) = Inr (s', out)"
    and s': "past_ok cs c s'" "gc_keeps cs (node_store node) s'" "gc_moves (plan_new bound n target) (node_store node) s'"
      "ho_done out \<longleftrightarrow> batch_done (plan_new bound n target) (cursor_of s') (floor_of s')"
      "if ho_changed out then gc_work (plan_new bound n target) s' < gc_work (plan_new bound n target) (node_store node)
       else s' = node_store node \<and> ho_done out"
    by (rule past_ok_batch [OF node(3)])
  have "\<not> ho_changed out \<Longrightarrow> s' = node_store node"
    using s'(5) by simp
  then obtain e' where e': "gc_batch_write mem_engine_ops cs (plan_new bound n target) node = (node\<lparr>sn_storage := e'\<rparr>, Inr out)"
    "mem_healthy e'" "mem_state e' = s'"
    using mem.gc_batch_on_engine [OF node(2,1) batch] by blast
  show ?thesis
    by (rule that [OF e'(1)]) (use node(1) s' e'(2,3) in \<open>simp_all add: past_node_def split: if_splits\<close>)
qed

lemma commit_on_node_store:
  assumes "past_node cs c node"
  shows "fst (sn_commit_write_set mem_engine_ops cs ck node snap ws) =
      node\<lparr>sn_storage := fst (commit_write_set mem_engine_ops cs ck (sn_storage node) snap ws)\<rparr>"
    and "mem_healthy (fst (commit_write_set mem_engine_ops cs ck (sn_storage node) snap ws))"
    and "node_store (fst (sn_commit_write_set mem_engine_ops cs ck node snap ws)) =
      fst (commit_write_set store_engine cs ck (node_store node) snap ws)"
proof -
  have node: "\<not> sn_lock_poisoned node" "mem_healthy (sn_storage node)"
    using assms by (simp_all add: past_node_def)
  show step: "fst (sn_commit_write_set mem_engine_ops cs ck node snap ws) =
      node\<lparr>sn_storage := fst (commit_write_set mem_engine_ops cs ck (sn_storage node) snap ws)\<rparr>"
    using node(1) by (simp add: sn_commit_write_set_def with_commit_lock_def split: prod.split)
  show "mem_healthy (fst (commit_write_set mem_engine_ops cs ck (sn_storage node) snap ws))"
    "node_store (fst (sn_commit_write_set mem_engine_ops cs ck node snap ws)) =
      fst (commit_write_set store_engine cs ck (node_store node) snap ws)"
    using serve_store [OF node(2), of cs ck snap ws] by (simp_all add: serve_def step)
qed

lemma commit_on_node_cases:
  assumes "codecs_ok cs" and "past_node cs c node" and "sized_set ws"
  obtains (same) "node_store (fst (sn_commit_write_set mem_engine_ops cs ck node snap ws)) = node_store node"
    | (commit) "public_set ws" "c \<noteq> - 1" "node_store (fst (sn_commit_write_set mem_engine_ops cs ck node snap ws)) =
        commit_store cs (next_record cs ck c ws (node_store node)) (node_store node)"
proof -
  have "txn_wf cs c (node_store node)"
    using assms(2) by (simp add: past_node_def past_ok_def)
  from commit_step_cases [OF assms(1) this assms(3), of ck snap] that show thesis
    unfolding commit_on_node_store(3) [OF assms(2)] by blast
qed

lemma commit_on_node_horizon:
  assumes "codecs_ok cs" and "past_node cs c node" and "sized_set ws"
  shows "horizon_of (node_store (fst (sn_commit_write_set mem_engine_ops cs ck node snap ws))) = horizon_of (node_store node)"
  by (rule commit_on_node_cases [OF assms, of ck snap]) (simp_all add: horizon_after)

lemma commit_on_node:
  assumes "codecs_ok cs" and "past_node cs c node" and "sized_set ws"
  shows "\<exists>c' \<ge> c. past_node cs c' (fst (sn_commit_write_set mem_engine_ops cs ck node snap ws)) \<and>
    past_kept cs c (node_store node) (node_store (fst (sn_commit_write_set mem_engine_ops cs ck node snap ws)))"
proof -
  let ?node = "fst (sn_commit_write_set mem_engine_ops cs ck node snap ws)"
  have node: "\<not> sn_lock_poisoned node" "past_ok cs c (node_store node)"
    using assms(2) by (simp_all add: past_node_def)
  have past: "past_node cs c' ?node \<longleftrightarrow> past_ok cs c' (node_store ?node)" for c'
    using node(1) commit_on_node_store(1,2) [OF assms(2)] by (simp add: past_node_def)
  show ?thesis
  proof (rule commit_on_node_cases [OF assms, of ck snap])
    assume "node_store ?node = node_store node"
    then show ?thesis
      using node(2) by (intro exI [of _ c]) (simp add: past past_kept_def)
  next
    assume commit: "public_set ws" "c \<noteq> - 1" "node_store ?node = commit_store cs (next_record cs ck c ws (node_store node)) (node_store node)"
    have "past_kept cs c (node_store node) (node_store ?node)"
      unfolding commit(3) past_kept_def horizon_after [OF commit(1)]
      using as_of_after [OF assms(1) commit(1) assms(3) commit(2)] floor_after [OF assms(1) commit(1,2)] node(2)
      by (simp add: past_ok_def)
    then show ?thesis
      using past_ok_after [OF assms(1) node(2) commit(1) assms(3) commit(2)] less_imp_le [OF u64_succ_greater [OF commit(2)]]
      by (intro exI [of _ "c + 1"]) (simp add: past commit(3))
  qed
qed

lemma history_step_inv:
  assumes "codecs_ok cs" and "past_node cs c node" and "sized_event ev"
  shows "\<exists>c' \<ge> c. past_node cs c' (history_step cs ev node) \<and> past_kept cs c (node_store node) (node_store (history_step cs ev node))"
proof (cases ev)
  case (HCommit ck snap ws)
  then show ?thesis
    using commit_on_node [OF assms(1,2)] assms(3) by simp
next
  case (HCollect bound n target)
  obtain node' out where "gc_batch_write mem_engine_ops cs (plan_new bound n target) node = (node', Inr out)"
    and "past_node cs c node'" and "gc_keeps cs (node_store node) (node_store node')"
    and "gc_moves (plan_new bound n target) (node_store node) (node_store node')"
    by (rule collect_on_node [OF assms(2)])
  then show ?thesis
    unfolding HCollect by (intro exI [of _ c]) (simp add: past_kept_def gc_keepsD(5,6) gc_moves_def)
qed

lemma history_run:
  assumes "codecs_ok cs" and "past_node cs c node" and "\<forall>ev \<in> set evs. sized_event ev"
  shows "\<exists>c' \<ge> c. past_node cs c' (fold (history_step cs) evs node) \<and>
    past_kept cs c (node_store node) (node_store (fold (history_step cs) evs node))"
  using assms(2,3)
proof (induction evs arbitrary: c node)
  case Nil
  then show ?case
    by (auto simp: past_kept_def)
next
  case (Cons ev evs)
  let ?node = "history_step cs ev node"
  obtain c1 where c1: "c \<le> c1" "past_node cs c1 ?node" "past_kept cs c (node_store node) (node_store ?node)"
    using history_step_inv [OF assms(1) Cons.prems(1)] Cons.prems(2) by auto
  obtain c2 where c2: "c1 \<le> c2" "past_node cs c2 (fold (history_step cs) evs ?node)"
      "past_kept cs c1 (node_store ?node) (node_store (fold (history_step cs) evs ?node))"
    using Cons.IH [OF c1(2)] Cons.prems(2) by auto
  show ?case
    using order_trans [OF c1(1) c2(1)] c2(2) past_kept_trans [OF c1(3) c2(3) c1(1)] by auto
qed

lemma past_node_new: "past_node cs 0 (sn_new mem_new)"
proof -
  have "gc_ready cs (\<lambda>_. bt_empty)" "log_below 0 (\<lambda>_. bt_empty)"
    by (simp_all add: gc_ready_def log_below_def)
  then show ?thesis
    using empty_store_wf mem_new_facts by (simp add: past_node_def past_ok_def sn_new_def sn_with_group_commit_window_def)
qed

end
