(* ===== verification/Value_Codec.thy ===== *)
theory Value_Codec
  imports Replication
begin

text \<open>
  The values of the document and relational models and their binary codec,
  \<open>src/model/mod.rs\<close>. A \<open>String\<close> is its sequence of bytes, an \<open>i64\<close>, \<open>f64\<close> or \<open>f32\<close> is its bit
  pattern, and the \<open>BTreeMap\<close> of an object is the list of its entries in the order of the keys.
  The decoder walks a byte string with a cursor; nesting is bounded by the limits. Encoded
  values are read back with their numbers normalized, and whatever bytes the decoder accepts, the
  value it returns is well formed.
\<close>

section \<open>Values\<close>

datatype val =
    VNull
  | VBool bool
  | VInt u64
  | VFloat u64
  | VStr string
  | VBytes bytes
  | VArray "val list"
  | VObject "(string \<times> val) list"
  | VVector "u32 list"
  | VGeoPoint u64 u64

datatype model_error =
    MRepl repl_error
  | MStorage storage_error
  | UnsupportedIndexValue
  | InvalidFloat
  | InvalidRange

record value_codec_limits =
  max_document_bytes :: nat
  max_nesting_depth :: nat

definition default_limits :: value_codec_limits where
  "default_limits = \<lparr>max_document_bytes = 16 * 1024 * 1024, max_nesting_depth = 128\<rparr>"

definition VALUE_MAGIC :: bytes where "VALUE_MAGIC = as_bytes ''MDBV''"
definition VALUE_FORMAT_V1 :: u8 where "VALUE_FORMAT_V1 = 1"
definition TAG_NULL :: u8 where "TAG_NULL = 0"
definition TAG_BOOL :: u8 where "TAG_BOOL = 1"
definition TAG_INT :: u8 where "TAG_INT = 2"
definition TAG_FLOAT :: u8 where "TAG_FLOAT = 3"
definition TAG_STR :: u8 where "TAG_STR = 4"
definition TAG_BYTES :: u8 where "TAG_BYTES = 5"
definition TAG_ARRAY :: u8 where "TAG_ARRAY = 6"
definition TAG_OBJECT :: u8 where "TAG_OBJECT = 7"
definition TAG_VECTOR :: u8 where "TAG_VECTOR = 8"
definition TAG_GEO_POINT :: u8 where "TAG_GEO_POINT = 9"

lemmas tag_defs =
  TAG_NULL_def TAG_BOOL_def TAG_INT_def TAG_FLOAT_def TAG_STR_def TAG_BYTES_def TAG_ARRAY_def
  TAG_OBJECT_def TAG_VECTOR_def TAG_GEO_POINT_def

definition f64_is_finite :: "u64 \<Rightarrow> bool" where
  "f64_is_finite bits \<longleftrightarrow> f64_exponent bits \<noteq> 2047"

definition f32_is_finite :: "u32 \<Rightarrow> bool" where
  "f32_is_finite bits \<longleftrightarrow> (unat bits mod 2 ^ 31) div 2 ^ 23 \<noteq> 255"

definition u32_from_be :: "bytes \<Rightarrow> u32" where
  "u32_from_be bs = of_nat (of_be bs)"

section \<open>Encoding\<close>

definition non_finite_value_error :: storage_error where
  "non_finite_value_error = Backend ''non-finite numeric values cannot be encoded''"

definition value_too_deep_error :: "nat \<Rightarrow> storage_error" where
  "value_too_deep_error limit = Backend (''value nesting depth exceeds '' @ show_nat limit)"

definition value_too_large_error :: "nat \<Rightarrow> storage_error" where
  "value_too_large_error limit = Backend (''encoded value exceeds '' @ show_nat limit @ '' bytes'')"

definition ensure_encoded_size :: "value_codec_limits \<Rightarrow> bytes \<Rightarrow> bytes res" where
  "ensure_encoded_size limits out =
     (if max_document_bytes limits < length out then Inl (value_too_large_error (max_document_bytes limits)) else Inr out)"

definition encode_len :: "nat \<Rightarrow> bytes \<Rightarrow> bytes res" where
  "encode_len n out =
     (if n < 2 ^ 64 then Inr (out @ u64_to_be (of_nat n))
      else Inl (Backend ''out of range integral type conversion attempted''))"

definition encode_len_bytes :: "bytes \<Rightarrow> bytes \<Rightarrow> bytes res" where
  "encode_len_bytes bs out = rbind (encode_len (length bs) out) (\<lambda>out. Inr (out @ bs))"

definition encode_f32 :: "u32 \<Rightarrow> bytes \<Rightarrow> bytes res" where
  "encode_f32 x out = (if f32_is_finite x then Inr (out @ u32_to_be x) else Inl non_finite_value_error)"

fun encode_value_payload :: "value_codec_limits \<Rightarrow> nat \<Rightarrow> val \<Rightarrow> bytes \<Rightarrow> bytes res" where
  "encode_value_payload limits depth v out =
     (if max_nesting_depth limits < depth then Inl (value_too_deep_error (max_nesting_depth limits))
      else rbind
        (case v of
           VNull \<Rightarrow> Inr (out @ [TAG_NULL])
         | VBool b \<Rightarrow> Inr (out @ [TAG_BOOL, if b then 1 else 0])
         | VInt i \<Rightarrow> Inr (out @ [TAG_INT] @ u64_to_be i)
         | VFloat f \<Rightarrow>
             if f64_is_finite f then Inr (out @ [TAG_FLOAT] @ u64_to_be (normalize_f64 f))
             else Inl non_finite_value_error
         | VStr s \<Rightarrow> encode_len_bytes (as_bytes s) (out @ [TAG_STR])
         | VBytes bs \<Rightarrow> encode_len_bytes bs (out @ [TAG_BYTES])
         | VArray vs \<Rightarrow>
             rbind (encode_len (length vs) (out @ [TAG_ARRAY])) (\<lambda>out.
               rfold (\<lambda>v out. encode_value_payload limits (Suc depth) v out) vs out)
         | VObject es \<Rightarrow>
             rbind (encode_len (length es) (out @ [TAG_OBJECT])) (\<lambda>out.
               rfold (\<lambda>(k, v) out.
                 rbind (encode_len_bytes (as_bytes k) out) (\<lambda>out. encode_value_payload limits (Suc depth) v out)) es out)
         | VVector xs \<Rightarrow> rbind (encode_len (length xs) (out @ [TAG_VECTOR])) (\<lambda>out. rfold encode_f32 xs out)
         | VGeoPoint lon lat \<Rightarrow>
             if f64_is_finite lon \<and> f64_is_finite lat
             then Inr (out @ [TAG_GEO_POINT] @ u64_to_be (normalize_f64 lon) @ u64_to_be (normalize_f64 lat))
             else Inl non_finite_value_error)
        (ensure_encoded_size limits))"

declare encode_value_payload.simps [simp del]

definition encode_value_with_limits :: "value_codec_limits \<Rightarrow> val \<Rightarrow> bytes res" where
  "encode_value_with_limits limits v =
     rbind (encode_value_payload limits 0 v (VALUE_MAGIC @ [VALUE_FORMAT_V1])) (ensure_encoded_size limits)"

definition encode_value :: "val \<Rightarrow> bytes res" where
  "encode_value v = encode_value_with_limits default_limits v"

section \<open>Reading with a cursor\<close>

definition read_u8 :: "bytes \<Rightarrow> nat \<Rightarrow> (u8 \<times> nat) res" where
  "read_u8 bs cursor =
     (if cursor < length bs then Inr (bs ! cursor, usize_saturating_add cursor 1)
      else Inl (Corruption ''truncated value''))"

definition read_array :: "nat \<Rightarrow> bytes \<Rightarrow> nat \<Rightarrow> (bytes \<times> nat) res" where
  "read_array n bs cursor =
     (let end = usize_saturating_add cursor n in
      if length bs < end then Inl (Corruption ''truncated value'')
      else Inr (take (end - cursor) (drop cursor bs), end))"

definition value_read_len :: "bytes \<Rightarrow> nat \<Rightarrow> (nat \<times> nat) res" where
  "value_read_len bs cursor = rbind (read_array 8 bs cursor) (\<lambda>(raw, cursor). Inr (unat (u64_from_be raw), cursor))"

definition value_read_len_bytes :: "bytes \<Rightarrow> nat \<Rightarrow> (bytes \<times> nat) res" where
  "value_read_len_bytes bs cursor =
     rbind (value_read_len bs cursor) (\<lambda>(n, cursor).
       let end = usize_saturating_add cursor n in
       if length bs < end then Inl (Corruption ''truncated bytes'')
       else Inr (take (end - cursor) (drop cursor bs), end))"

text \<open>\<open>describe\<close> is the text of the library's error for bytes that are not UTF-8.\<close>

definition read_string :: "(bytes \<Rightarrow> string) \<Rightarrow> bytes \<Rightarrow> nat \<Rightarrow> (string \<times> nat) res" where
  "read_string describe bs cursor =
     rbind (value_read_len_bytes bs cursor) (\<lambda>(raw, cursor).
     rbind (map_err Corruption (from_utf8 describe raw)) (\<lambda>s. Inr (s, cursor)))"

definition read_i64 :: "bytes \<Rightarrow> nat \<Rightarrow> (u64 \<times> nat) res" where
  "read_i64 bs cursor = rbind (read_array 8 bs cursor) (\<lambda>(raw, cursor). Inr (u64_from_be raw, cursor))"

definition read_f64 :: "bytes \<Rightarrow> nat \<Rightarrow> (u64 \<times> nat) res" where
  "read_f64 bs cursor =
     rbind (read_array 8 bs cursor) (\<lambda>(raw, cursor).
       if f64_is_finite (u64_from_be raw) then Inr (normalize_f64 (u64_from_be raw), cursor)
       else Inl (Corruption ''non-finite numeric value''))"

definition read_f32 :: "bytes \<Rightarrow> nat \<Rightarrow> (u32 \<times> nat) res" where
  "read_f32 bs cursor = rbind (read_array 4 bs cursor) (\<lambda>(raw, cursor). Inr (u32_from_be raw, cursor))"

text \<open>A loop \<open>for _ in 0..count\<close> that pushes what it reads.\<close>

fun read_items :: "(nat \<Rightarrow> ('a \<times> nat) res) \<Rightarrow> nat \<Rightarrow> nat \<Rightarrow> ('a list \<times> nat) res" where
  "read_items f 0 cursor = Inr ([], cursor)"
| "read_items f (Suc n) cursor =
     rbind (f cursor) (\<lambda>(x, cursor).
     rbind (read_items f n cursor) (\<lambda>(xs, cursor). Inr (x # xs, cursor)))"

definition read_finite_f32 :: "bytes \<Rightarrow> nat \<Rightarrow> (u32 \<times> nat) res" where
  "read_finite_f32 bs cursor =
     rbind (read_f32 bs cursor) (\<lambda>(x, cursor).
       if f32_is_finite x then Inr (x, cursor) else Inl (Corruption ''non-finite vector value''))"

section \<open>Decoding\<close>

text \<open>
  A level of nesting takes at least a byte, and no byte string has \<open>2 ^ 64\<close> of them: the depth,
  a saturating counter in the code, is counted exactly.
\<close>

function decode_value_payload ::
  "(bytes \<Rightarrow> string) \<Rightarrow> value_codec_limits \<Rightarrow> bytes \<Rightarrow> nat \<Rightarrow> nat \<Rightarrow> (val \<times> nat) res" where
  "decode_value_payload describe limits bs cursor depth =
     (if max_nesting_depth limits < depth
      then Inl (Corruption (''value nesting depth exceeds '' @ show_nat (max_nesting_depth limits)))
      else rbind (read_u8 bs cursor) (\<lambda>(tag, cursor).
        if tag = TAG_NULL then Inr (VNull, cursor)
        else if tag = TAG_BOOL then
          rbind (read_u8 bs cursor) (\<lambda>(b, cursor).
            if b = 0 then Inr (VBool False, cursor)
            else if b = 1 then Inr (VBool True, cursor)
            else Inl (Corruption (''invalid bool byte '' @ show_nat (unat b))))
        else if tag = TAG_INT then rbind (read_i64 bs cursor) (\<lambda>(i, cursor). Inr (VInt i, cursor))
        else if tag = TAG_FLOAT then rbind (read_f64 bs cursor) (\<lambda>(f, cursor). Inr (VFloat f, cursor))
        else if tag = TAG_STR then rbind (read_string describe bs cursor) (\<lambda>(s, cursor). Inr (VStr s, cursor))
        else if tag = TAG_BYTES then rbind (value_read_len_bytes bs cursor) (\<lambda>(raw, cursor). Inr (VBytes raw, cursor))
        else if tag = TAG_ARRAY then
          rbind (value_read_len bs cursor) (\<lambda>(count, cursor).
            if length bs - cursor < count then Inl (Corruption ''array item count exceeds remaining bytes'')
            else rbind (read_items (\<lambda>cursor. decode_value_payload describe limits bs cursor (Suc depth)) count cursor)
                   (\<lambda>(vs, cursor). Inr (VArray vs, cursor)))
        else if tag = TAG_OBJECT then
          rbind (value_read_len bs cursor) (\<lambda>(count, cursor).
            if usize_max < count * 9 then Inl (Corruption ''object item count overflows'')
            else if length bs - cursor < count * 9 then Inl (Corruption ''object item count exceeds remaining bytes'')
            else rbind (read_items (\<lambda>cursor.
                     rbind (read_string describe bs cursor) (\<lambda>(k, cursor).
                     rbind (decode_value_payload describe limits bs cursor (Suc depth)) (\<lambda>(v, cursor).
                       Inr ((k, v), cursor)))) count cursor)
                   (\<lambda>(es, cursor). Inr (VObject (fold (\<lambda>(k, v). al_put k v) es []), cursor)))
        else if tag = TAG_VECTOR then
          rbind (value_read_len bs cursor) (\<lambda>(count, cursor).
            if usize_max < count * 4 then Inl (Corruption ''vector byte length overflows'')
            else if length bs - cursor < count * 4 then Inl (Corruption ''truncated vector'')
            else rbind (read_items (read_finite_f32 bs) count cursor) (\<lambda>(xs, cursor). Inr (VVector xs, cursor)))
        else if tag = TAG_GEO_POINT then
          rbind (read_f64 bs cursor) (\<lambda>(lon, cursor).
          rbind (read_f64 bs cursor) (\<lambda>(lat, cursor). Inr (VGeoPoint lon lat, cursor)))
        else Inl (Corruption (''bad value tag '' @ show_nat (unat tag)))))"
  by pat_completeness auto

termination decode_value_payload
  by (relation "measure (\<lambda>(describe, limits, bs, cursor, depth). Suc (max_nesting_depth limits) - depth)") auto

declare decode_value_payload.simps [simp del]

definition decode_binary_value :: "(bytes \<Rightarrow> string) \<Rightarrow> value_codec_limits \<Rightarrow> bytes \<Rightarrow> val res" where
  "decode_binary_value describe limits bs =
     (if length bs < length VALUE_MAGIC + 1 then Inl (Corruption ''truncated value header'')
      else let version = bs ! length VALUE_MAGIC in
        if version \<noteq> VALUE_FORMAT_V1
        then Inl (Corruption (''unsupported value codec version '' @ show_nat (unat version)))
        else rbind (decode_value_payload describe limits bs (length VALUE_MAGIC + 1) 0) (\<lambda>(v, cursor).
          if cursor \<noteq> length bs then Inl (Corruption ''trailing bytes after value'') else Inr v))"

lemma rmap_cong [fundef_cong]:
  "xs = ys \<Longrightarrow> (\<And>x. x \<in> set ys \<Longrightarrow> f x = g x) \<Longrightarrow> rmap f xs = rmap g ys"
proof (induction xs arbitrary: ys)
  case (Cons x xs)
  then have "rmap f xs = rmap g xs"
    by (intro Cons.IH) auto
  with Cons.prems show ?case
    by auto
qed simp

fun canonicalize_legacy_value :: "value_codec_limits \<Rightarrow> nat \<Rightarrow> val \<Rightarrow> val res" where
  "canonicalize_legacy_value limits depth v =
     (if max_nesting_depth limits < depth
      then Inl (Corruption (''value nesting depth exceeds '' @ show_nat (max_nesting_depth limits)))
      else case v of
        VFloat f \<Rightarrow>
          if f64_is_finite f then Inr (VFloat (normalize_f64 f)) else Inl (Corruption ''non-finite numeric value'')
      | VArray vs \<Rightarrow>
          rbind (rmap (\<lambda>v. canonicalize_legacy_value limits (Suc depth) v) vs) (\<lambda>vs. Inr (VArray vs))
      | VObject es \<Rightarrow>
          rbind (rmap (\<lambda>(k, v). rbind (canonicalize_legacy_value limits (Suc depth) v) (\<lambda>v. Inr (k, v))) es)
            (\<lambda>es. Inr (VObject es))
      | VVector xs \<Rightarrow>
          if \<exists>x \<in> set xs. \<not> f32_is_finite x then Inl (Corruption ''non-finite vector value'') else Inr (VVector xs)
      | VGeoPoint lon lat \<Rightarrow>
          if f64_is_finite lon \<and> f64_is_finite lat then Inr (VGeoPoint (normalize_f64 lon) (normalize_f64 lat))
          else Inl (Corruption ''non-finite geo value'')
      | other \<Rightarrow> Inr other)"

declare canonicalize_legacy_value.simps [simp del]

text \<open>The two libraries the decoder relies on: reading JSON, and the texts of UTF-8 errors.\<close>

record value_libs =
  vl_json :: "val json"
  vl_utf8_error :: "bytes \<Rightarrow> string"

definition decode_value_with_limits :: "value_libs \<Rightarrow> value_codec_limits \<Rightarrow> bytes \<Rightarrow> val res" where
  "decode_value_with_limits libs limits bs =
     (if max_document_bytes limits < length bs then Inl (value_too_large_error (max_document_bytes limits))
      else if prefix VALUE_MAGIC bs then decode_binary_value (vl_utf8_error libs) limits bs
      else rbind (map_err Corruption (from_slice (vl_json libs) bs)) (canonicalize_legacy_value limits 0))"

definition decode_value :: "value_libs \<Rightarrow> bytes \<Rightarrow> val res" where
  "decode_value libs bs = decode_value_with_limits libs default_limits bs"

definition value_is_binary_encoded :: "bytes \<Rightarrow> bool" where
  "value_is_binary_encoded bs = prefix VALUE_MAGIC bs"

section \<open>Well-formed and canonical values\<close>

text \<open>
  What the types of the program guarantee: strings are UTF-8, and the keys of an object are in
  order, each once.
\<close>

fun value_wf :: "val \<Rightarrow> bool" where
  "value_wf (VStr s) = utf8_valid (as_bytes s)"
| "value_wf (VArray vs) = (\<forall>v \<in> set vs. value_wf v)"
| "value_wf (VObject es) = (ordered_keys es \<and> (\<forall>(k, v) \<in> set es. utf8_valid (as_bytes k) \<and> value_wf v))"
| "value_wf _ = True"

text \<open>The form in which values are stored: both zeros are the positive one.\<close>

fun canonical :: "val \<Rightarrow> val" where
  "canonical (VFloat f) = VFloat (normalize_f64 f)"
| "canonical (VArray vs) = VArray (map canonical vs)"
| "canonical (VObject es) = VObject (map (\<lambda>(k, v). (k, canonical v)) es)"
| "canonical (VGeoPoint lon lat) = VGeoPoint (normalize_f64 lon) (normalize_f64 lat)"
| "canonical v = v"

text \<open>What a decoder may return at a depth: finite canonical numbers, nested within the limit.\<close>

fun decoded_ok :: "nat \<Rightarrow> val \<Rightarrow> bool" where
  "decoded_ok levels (VFloat f) = (f64_is_finite f \<and> normalize_f64 f = f)"
| "decoded_ok levels (VStr s) = utf8_valid (as_bytes s)"
| "decoded_ok levels (VArray vs) = (\<forall>v \<in> set vs. 0 < levels \<and> decoded_ok (levels - 1) v)"
| "decoded_ok levels (VObject es) =
     (ordered_keys es \<and> (\<forall>(k, v) \<in> set es. 0 < levels \<and> utf8_valid (as_bytes k) \<and> decoded_ok (levels - 1) v))"
| "decoded_ok levels (VVector xs) = (\<forall>x \<in> set xs. f32_is_finite x)"
| "decoded_ok levels (VGeoPoint lon lat) =
     (f64_is_finite lon \<and> normalize_f64 lon = lon \<and> f64_is_finite lat \<and> normalize_f64 lat = lat)"
| "decoded_ok levels _ = True"

lemma normalize_f64_idem [simp]: "normalize_f64 (normalize_f64 f) = normalize_f64 f"
  by (auto simp: normalize_f64_def f64_is_zero_def)

lemma normalize_f64_finite [simp]: "f64_is_finite f \<Longrightarrow> f64_is_finite (normalize_f64 f)"
  by (simp add: normalize_f64_def f64_is_finite_def f64_exponent_def)

lemma decoded_ok_wf: "decoded_ok levels v \<Longrightarrow> value_wf v \<and> canonical v = v"
  by (induction levels v rule: decoded_ok.induct) (auto simp: split_beta intro!: map_idI)

section \<open>Reading back what was written\<close>

text \<open>
  \<open>decodes f x enc\<close>: wherever the bytes \<open>enc\<close> stand, \<open>f\<close> reads \<open>x\<close> from them and moves the cursor
  behind them.
\<close>

definition decodes :: "(bytes \<Rightarrow> nat \<Rightarrow> ('a \<times> nat) res) \<Rightarrow> 'a \<Rightarrow> bytes \<Rightarrow> bool" where
  "decodes f x enc \<longleftrightarrow>
     (\<forall>pre rest. length (pre @ enc @ rest) \<le> usize_max \<longrightarrow>
        f (pre @ enc @ rest) (length pre) = Inr (x, length pre + length enc))"

lemma decodesD:
  "decodes f x enc \<Longrightarrow> bs = pre @ enc @ rest \<Longrightarrow> cursor = length pre \<Longrightarrow> length bs \<le> usize_max \<Longrightarrow>
   f bs cursor = Inr (x, cursor + length enc)"
  by (simp add: decodes_def)

lemma decodes_bind:
  assumes "decodes f x enc" and "decodes (\<lambda>bs c. g x bs c) y enc'"
  shows "decodes (\<lambda>bs c. rbind (f bs c) (\<lambda>(x, c). g x bs c)) y (enc @ enc')"
  unfolding decodes_def
proof (intro allI impI)
  fix pre rest
  assume len: "length (pre @ (enc @ enc') @ rest) \<le> usize_max"
  have "f (pre @ (enc @ enc') @ rest) (length pre) = Inr (x, length pre + length enc)"
    using decodesD [OF assms(1), of "pre @ (enc @ enc') @ rest" pre "enc' @ rest"] len by simp
  moreover have "g x (pre @ (enc @ enc') @ rest) (length pre + length enc) = Inr (y, length pre + length enc + length enc')"
    using decodesD [OF assms(2), of "pre @ (enc @ enc') @ rest" "pre @ enc" rest] len by simp
  ultimately show "rbind (f (pre @ (enc @ enc') @ rest) (length pre)) (\<lambda>(x, c). g x (pre @ (enc @ enc') @ rest) c) =
      Inr (y, length pre + length (enc @ enc'))"
    by simp
qed

lemma decodes_then:
  assumes "decodes f x enc" and "\<And>bs c. g x bs c = Inr (y, c)"
  shows "decodes (\<lambda>bs c. rbind (f bs c) (\<lambda>(x, c). g x bs c)) y enc"
  using decodes_bind [OF assms(1), of g y "[]"] assms(2) by (simp add: decodes_def)

lemma decodes_read_u8: "decodes read_u8 b [b]"
  by (simp add: decodes_def read_u8_def usize_saturating_add_def)

lemma decodes_read_array: "length enc = n \<Longrightarrow> decodes (read_array n) enc enc"
  by (auto simp: decodes_def read_array_def usize_saturating_add_def Let_def)

lemma decodes_read_len: "n < 2 ^ 64 \<Longrightarrow> decodes value_read_len n (u64_to_be (of_nat n))"
  unfolding value_read_len_def [abs_def]
  by (rule decodes_then [OF decodes_read_array]) (simp_all add: unat_of_nat)

lemma decodes_read_len_bytes:
  assumes "length raw < 2 ^ 64"
  shows "decodes value_read_len_bytes raw (u64_to_be (of_nat (length raw)) @ raw)"
proof -
  have "decodes (\<lambda>bs c. let end = usize_saturating_add c (length raw) in
      if length bs < end then Inl (Corruption ''truncated bytes'') else Inr (take (end - c) (drop c bs), end)) raw raw"
    by (auto simp: decodes_def usize_saturating_add_def Let_def)
  then show ?thesis
    unfolding value_read_len_bytes_def [abs_def] by (rule decodes_bind [OF decodes_read_len [OF assms]])
qed

lemma decodes_read_string:
  assumes "length s < 2 ^ 64" and "utf8_valid (as_bytes s)"
  shows "decodes (read_string describe) s (u64_to_be (of_nat (length s)) @ as_bytes s)"
  unfolding read_string_def [abs_def] length_as_bytes [of s, symmetric]
  by (rule decodes_then [OF decodes_read_len_bytes]) (use assms in \<open>simp_all add: from_utf8_as_bytes\<close>)

lemma decodes_read_f64: "f64_is_finite f \<Longrightarrow> decodes read_f64 (normalize_f64 f) (u64_to_be (normalize_f64 f))"
  unfolding read_f64_def [abs_def] by (rule decodes_then [OF decodes_read_array]) simp_all

lemma decodes_read_i64: "decodes read_i64 i (u64_to_be i)"
  unfolding read_i64_def [abs_def] by (rule decodes_then [OF decodes_read_array]) simp_all

lemma u32_round [simp]: "u32_from_be (u32_to_be x) = x"
proof -
  have "unat x < 256 ^ 4"
    using unsigned_less [of x, where 'a = nat] by simp
  then show ?thesis
    by (simp add: u32_from_be_def u32_to_be_def of_be_be_nat)
qed

lemma length_u32_to_be [simp]: "length (u32_to_be x) = 4"
  by (simp add: u32_to_be_def)

lemma decodes_read_finite_f32: "f32_is_finite x \<Longrightarrow> decodes read_finite_f32 x (u32_to_be x)"
proof -
  have "decodes read_f32 x (u32_to_be x)"
    unfolding read_f32_def [abs_def] by (rule decodes_then [OF decodes_read_array]) simp_all
  then show "f32_is_finite x \<Longrightarrow> decodes read_finite_f32 x (u32_to_be x)"
    unfolding read_finite_f32_def [abs_def] by (rule decodes_then) simp
qed

lemma decodes_items:
  assumes "list_all2 (decodes f) xs encs" and "length xs = n"
  shows "decodes (\<lambda>bs. read_items (f bs) n) xs (concat encs)"
  using assms
proof (induction xs encs arbitrary: n rule: list_all2_induct)
  case Nil
  then show ?case
    by (simp add: decodes_def)
next
  case (Cons x xs enc encs)
  have "decodes (\<lambda>bs c. rbind (read_items (f bs) (length xs) c) (\<lambda>(xs, c). Inr (x # xs, c))) (x # xs) (concat encs)"
    by (rule decodes_then [OF Cons.IH [OF refl]]) simp
  then have "decodes (\<lambda>bs c. rbind (f bs c) (\<lambda>(x, c). rbind (read_items (f bs) (length xs) c) (\<lambda>(xs, c). Inr (x # xs, c))))
      (x # xs) (enc @ concat encs)"
    by (rule decodes_bind [OF Cons.hyps(1)])
  then show ?case
    using Cons.prems by auto
qed

section \<open>The codec\<close>

text \<open>The decoder after it has read a tag.\<close>

definition decode_tagged ::
  "(bytes \<Rightarrow> string) \<Rightarrow> value_codec_limits \<Rightarrow> nat \<Rightarrow> u8 \<Rightarrow> bytes \<Rightarrow> nat \<Rightarrow> (val \<times> nat) res" where
  "decode_tagged describe limits depth tag bs cursor =
     (if tag = TAG_NULL then Inr (VNull, cursor)
  else if tag = TAG_BOOL then
    rbind (read_u8 bs cursor) (\<lambda>(b, cursor).
      if b = 0 then Inr (VBool False, cursor)
      else if b = 1 then Inr (VBool True, cursor)
      else Inl (Corruption (''invalid bool byte '' @ show_nat (unat b))))
  else if tag = TAG_INT then rbind (read_i64 bs cursor) (\<lambda>(i, cursor). Inr (VInt i, cursor))
  else if tag = TAG_FLOAT then rbind (read_f64 bs cursor) (\<lambda>(f, cursor). Inr (VFloat f, cursor))
  else if tag = TAG_STR then rbind (read_string describe bs cursor) (\<lambda>(s, cursor). Inr (VStr s, cursor))
  else if tag = TAG_BYTES then rbind (value_read_len_bytes bs cursor) (\<lambda>(raw, cursor). Inr (VBytes raw, cursor))
  else if tag = TAG_ARRAY then
    rbind (value_read_len bs cursor) (\<lambda>(count, cursor).
      if length bs - cursor < count then Inl (Corruption ''array item count exceeds remaining bytes'')
      else rbind (read_items (\<lambda>cursor. decode_value_payload describe limits bs cursor (Suc depth)) count cursor)
             (\<lambda>(vs, cursor). Inr (VArray vs, cursor)))
  else if tag = TAG_OBJECT then
    rbind (value_read_len bs cursor) (\<lambda>(count, cursor).
      if usize_max < count * 9 then Inl (Corruption ''object item count overflows'')
      else if length bs - cursor < count * 9 then Inl (Corruption ''object item count exceeds remaining bytes'')
      else rbind (read_items (\<lambda>cursor.
               rbind (read_string describe bs cursor) (\<lambda>(k, cursor).
               rbind (decode_value_payload describe limits bs cursor (Suc depth)) (\<lambda>(v, cursor).
                 Inr ((k, v), cursor)))) count cursor)
             (\<lambda>(es, cursor). Inr (VObject (fold (\<lambda>(k, v). al_put k v) es []), cursor)))
  else if tag = TAG_VECTOR then
    rbind (value_read_len bs cursor) (\<lambda>(count, cursor).
      if usize_max < count * 4 then Inl (Corruption ''vector byte length overflows'')
      else if length bs - cursor < count * 4 then Inl (Corruption ''truncated vector'')
      else rbind (read_items (read_finite_f32 bs) count cursor) (\<lambda>(xs, cursor). Inr (VVector xs, cursor)))
  else if tag = TAG_GEO_POINT then
    rbind (read_f64 bs cursor) (\<lambda>(lon, cursor).
    rbind (read_f64 bs cursor) (\<lambda>(lat, cursor). Inr (VGeoPoint lon lat, cursor)))
  else Inl (Corruption (''bad value tag '' @ show_nat (unat tag))))"

lemma decode_payload_tagged:
  assumes "depth \<le> max_nesting_depth limits"
  shows "decode_value_payload describe limits bs cursor depth =
    rbind (read_u8 bs cursor) (\<lambda>(tag, cursor). decode_tagged describe limits depth tag bs cursor)"
  using assms unfolding decode_tagged_def
  by (subst decode_value_payload.simps) (simp only: not_less [symmetric] if_False)

lemma decodes_tagged:
  assumes "depth \<le> max_nesting_depth limits" and "decodes (decode_tagged describe limits depth tag) x enc"
  shows "decodes (\<lambda>bs cursor. decode_value_payload describe limits bs cursor depth) x (tag # enc)"
  unfolding decode_payload_tagged [OF assms(1)]
  using decodes_bind [OF decodes_read_u8, of "\<lambda>tag bs cursor. decode_tagged describe limits depth tag bs cursor" tag x enc] assms(2)
  by simp

lemma decode_tagged_simps:
  "decode_tagged describe limits depth TAG_NULL bs c = Inr (VNull, c)"
  "decode_tagged describe limits depth TAG_BOOL bs c =
     rbind (read_u8 bs c) (\<lambda>(b, c).
       if b = 0 then Inr (VBool False, c)
       else if b = 1 then Inr (VBool True, c)
       else Inl (Corruption (''invalid bool byte '' @ show_nat (unat b))))"
  "decode_tagged describe limits depth TAG_INT bs c = rbind (read_i64 bs c) (\<lambda>(i, c). Inr (VInt i, c))"
  "decode_tagged describe limits depth TAG_FLOAT bs c = rbind (read_f64 bs c) (\<lambda>(f, c). Inr (VFloat f, c))"
  "decode_tagged describe limits depth TAG_STR bs c = rbind (read_string describe bs c) (\<lambda>(s, c). Inr (VStr s, c))"
  "decode_tagged describe limits depth TAG_BYTES bs c = rbind (value_read_len_bytes bs c) (\<lambda>(raw, c). Inr (VBytes raw, c))"
  "decode_tagged describe limits depth TAG_ARRAY bs c =
     rbind (value_read_len bs c) (\<lambda>(count, c).
       if length bs - c < count then Inl (Corruption ''array item count exceeds remaining bytes'')
       else rbind (read_items (\<lambda>c. decode_value_payload describe limits bs c (Suc depth)) count c)
              (\<lambda>(vs, c). Inr (VArray vs, c)))"
  "decode_tagged describe limits depth TAG_OBJECT bs c =
     rbind (value_read_len bs c) (\<lambda>(count, c).
       if usize_max < count * 9 then Inl (Corruption ''object item count overflows'')
       else if length bs - c < count * 9 then Inl (Corruption ''object item count exceeds remaining bytes'')
       else rbind (read_items (\<lambda>c.
                rbind (read_string describe bs c) (\<lambda>(k, c).
                rbind (decode_value_payload describe limits bs c (Suc depth)) (\<lambda>(v, c). Inr ((k, v), c)))) count c)
              (\<lambda>(es, c). Inr (VObject (fold (\<lambda>(k, v). al_put k v) es []), c)))"
  "decode_tagged describe limits depth TAG_VECTOR bs c =
     rbind (value_read_len bs c) (\<lambda>(count, c).
       if usize_max < count * 4 then Inl (Corruption ''vector byte length overflows'')
       else if length bs - c < count * 4 then Inl (Corruption ''truncated vector'')
       else rbind (read_items (read_finite_f32 bs) count c) (\<lambda>(xs, c). Inr (VVector xs, c)))"
  "decode_tagged describe limits depth TAG_GEO_POINT bs c =
     rbind (read_f64 bs c) (\<lambda>(lon, c). rbind (read_f64 bs c) (\<lambda>(lat, c). Inr (VGeoPoint lon lat, c)))"
  unfolding decode_tagged_def by (simp_all add: tag_defs)

lemmas decode_tagged_fun = decode_tagged_simps [abs_def]

lemma decodes_room:
  "decodes f x enc \<Longrightarrow> n \<le> length enc \<Longrightarrow> decodes (\<lambda>bs c. if length bs - c < n then Inl e else f bs c) x enc"
  "decodes f x enc \<Longrightarrow> n \<le> length enc \<Longrightarrow> decodes (\<lambda>bs c. if usize_max < n then Inl e else f bs c) x enc"
  by (auto simp: decodes_def)

lemma encode_each:
  assumes "rfold g xs out = Inr out'"
    and "\<forall>x \<in> set xs. \<forall>out out'. g x out = Inr out' \<longrightarrow> (\<exists>enc. out' = out @ enc \<and> Q x enc)"
  shows "\<exists>encs. out' = out @ concat encs \<and> list_all2 Q xs encs"
  using assms
proof (induction xs arbitrary: out)
  case Nil
  then show ?case
    by (intro exI [of _ "[]"]) simp
next
  case (Cons x xs)
  obtain mid where mid: "g x out = Inr mid" "rfold g xs mid = Inr out'"
    using Cons.prems(1) by (auto simp: rbind_eq_Inr)
  obtain enc where enc: "mid = out @ enc" "Q x enc"
    using Cons.prems(2) mid(1) by auto
  obtain encs where "out' = mid @ concat encs" "list_all2 Q xs encs"
    using Cons.IH [OF mid(2)] Cons.prems(2) by auto
  with enc show ?case
    by (intro exI [of _ "enc # encs"]) simp
qed

lemma concat_length_ge:
  "list_all2 Q xs encs \<Longrightarrow> (\<And>x enc. Q x enc \<Longrightarrow> m \<le> length enc) \<Longrightarrow> length xs * m \<le> length (concat encs)"
  by (induction rule: list_all2_induct) (auto intro: add_mono)

lemma encode_len_Inr: "encode_len n out = Inr out' \<longleftrightarrow> n < 2 ^ 64 \<and> out' = out @ u64_to_be (of_nat n)"
  by (auto simp: encode_len_def)

lemma encode_len_bytes_Inr:
  "encode_len_bytes bs out = Inr out' \<longleftrightarrow> length bs < 2 ^ 64 \<and> out' = out @ u64_to_be (of_nat (length bs)) @ bs"
  by (auto simp: encode_len_bytes_def rbind_eq_Inr encode_len_Inr)

lemma ensure_encoded_size_Inr: "ensure_encoded_size limits out = Inr out' \<longleftrightarrow> out' = out \<and> length out \<le> max_document_bytes limits"
  by (auto simp: ensure_encoded_size_def)

lemma val_put_last: "\<forall>e \<in> set acc. fst e < k \<Longrightarrow> al_put k v acc = acc @ [(k, v)]"
  by (induction acc) auto

lemma fold_al_put_ordered: "ordered_keys es \<Longrightarrow> fold (\<lambda>(k, v). al_put k v) es [] = es"
proof -
  have "ordered_keys (acc @ es) \<Longrightarrow> fold (\<lambda>(k, v). al_put k v) es acc = acc @ es" for acc
  proof (induction es arbitrary: acc)
    case (Cons e es)
    have "\<forall>x \<in> set acc. fst x < fst e"
      using Cons.prems by (auto simp: sorted_wrt_append)
    then show ?case
      using Cons.IH [of "acc @ [e]"] Cons.prems by (simp add: split_beta val_put_last)
  qed simp
  then show "ordered_keys es \<Longrightarrow> fold (\<lambda>(k, v). al_put k v) es [] = es"
    by force
qed

lemma map_fst_canonical [simp]: "map fst (map (\<lambda>(k, v). (k, canonical v)) es) = map fst es"
  by (induction es) auto

text \<open>What encoding a value at a depth appends is read back at that depth.\<close>

definition codec_ok :: "(bytes \<Rightarrow> string) \<Rightarrow> value_codec_limits \<Rightarrow> nat \<Rightarrow> val \<Rightarrow> bytes \<Rightarrow> bool" where
  "codec_ok describe limits depth v enc \<longleftrightarrow>
     1 \<le> length enc \<and> decodes (\<lambda>bs c. decode_value_payload describe limits bs c depth) (canonical v) enc"

lemma codec_ok_tagged:
  "depth \<le> max_nesting_depth limits \<Longrightarrow> decodes (decode_tagged describe limits depth tag) (canonical v) enc \<Longrightarrow>
   codec_ok describe limits depth v (tag # enc)"
  by (simp add: codec_ok_def decodes_tagged)

lemma codec_array:
  assumes "depth \<le> max_nesting_depth limits" and "length vs < 2 ^ 64"
    and "list_all2 (codec_ok describe limits (Suc depth)) vs encs"
  shows "codec_ok describe limits depth (VArray vs) (TAG_ARRAY # u64_to_be (of_nat (length vs)) @ concat encs)"
proof -
  let ?f = "\<lambda>bs c. decode_value_payload describe limits bs c (Suc depth)"
  have "list_all2 (decodes ?f) (map canonical vs) encs"
    using assms(3) by (simp add: list_all2_map1) (erule list_all2_mono, simp add: codec_ok_def)
  then have items: "decodes (\<lambda>bs. read_items (?f bs) (length vs)) (map canonical vs) (concat encs)"
    by (rule decodes_items) simp
  have "length vs \<le> length (concat encs)"
    using concat_length_ge [OF assms(3), of 1] by (simp add: codec_ok_def)
  then have "decodes (\<lambda>bs c. if length bs - c < length vs then Inl (Corruption ''array item count exceeds remaining bytes'')
      else rbind (read_items (?f bs) (length vs) c) (\<lambda>(vs, c). Inr (VArray vs, c))) (VArray (map canonical vs)) (concat encs)"
    by (intro decodes_room(1) decodes_then [OF items]) simp_all
  then have "decodes (decode_tagged describe limits depth TAG_ARRAY) (VArray (map canonical vs))
      (u64_to_be (of_nat (length vs)) @ concat encs)"
    unfolding decode_tagged_fun by (rule decodes_bind [OF decodes_read_len [OF assms(2)]])
  then show ?thesis
    by (intro codec_ok_tagged [OF assms(1)]) simp
qed

definition codec_entry_ok :: "(bytes \<Rightarrow> string) \<Rightarrow> value_codec_limits \<Rightarrow> nat \<Rightarrow> string \<times> val \<Rightarrow> bytes \<Rightarrow> bool" where
  "codec_entry_ok describe limits depth = (\<lambda>(k, v) enc. 9 \<le> length enc \<and>
     decodes (\<lambda>bs c. rbind (read_string describe bs c) (\<lambda>(k, c).
       rbind (decode_value_payload describe limits bs c depth) (\<lambda>(v, c). Inr ((k, v), c)))) (k, canonical v) enc)"

lemma codec_entry:
  assumes "length k < 2 ^ 64" and "utf8_valid (as_bytes k)" and "codec_ok describe limits depth v enc"
  shows "codec_entry_ok describe limits depth (k, v) ((u64_to_be (of_nat (length k)) @ as_bytes k) @ enc)"
proof -
  have payload: "decodes (\<lambda>bs c. decode_value_payload describe limits bs c depth) (canonical v) enc" and len: "1 \<le> length enc"
    using assms(3) by (simp_all add: codec_ok_def)
  have "decodes (\<lambda>bs c. rbind (decode_value_payload describe limits bs c depth) (\<lambda>(v, c). Inr ((k, v), c))) (k, canonical v) enc"
    by (rule decodes_then [OF payload]) simp
  from decodes_bind [OF decodes_read_string [OF assms(1,2)], of "\<lambda>k bs c.
      rbind (decode_value_payload describe limits bs c depth) (\<lambda>(v, c). Inr ((k, v), c))", OF this]
  show ?thesis
    using len by (simp add: codec_entry_ok_def)
qed

lemma codec_object:
  assumes "depth \<le> max_nesting_depth limits" and "length es < 2 ^ 64" and "ordered_keys es"
    and "list_all2 (codec_entry_ok describe limits (Suc depth)) es encs"
  shows "codec_ok describe limits depth (VObject es) (TAG_OBJECT # u64_to_be (of_nat (length es)) @ concat encs)"
proof -
  let ?f = "\<lambda>bs c. rbind (read_string describe bs c) (\<lambda>(k, c).
     rbind (decode_value_payload describe limits bs c (Suc depth)) (\<lambda>(v, c). Inr ((k, v), c)))"
  let ?es = "map (\<lambda>(k, v). (k, canonical v)) es"
  have "list_all2 (decodes ?f) ?es encs"
    using assms(4) by (simp add: list_all2_map1 split_beta) (erule list_all2_mono, simp add: codec_entry_ok_def split_beta)
  then have items: "decodes (\<lambda>bs. read_items (?f bs) (length es)) ?es (concat encs)"
    by (rule decodes_items) simp
  have room: "length es * 9 \<le> length (concat encs)"
    by (rule concat_length_ge [OF assms(4)]) (auto simp: codec_entry_ok_def)
  have "fold (\<lambda>(k, v). al_put k v) ?es [] = ?es"
    by (rule fold_al_put_ordered) (simp only: map_fst_canonical assms(3))
  then have "decodes (\<lambda>bs c. rbind (read_items (?f bs) (length es) c)
      (\<lambda>(es, c). Inr (VObject (fold (\<lambda>(k, v). al_put k v) es []), c))) (VObject ?es) (concat encs)"
    by (intro decodes_then [OF items]) simp
  from decodes_room(2) [OF decodes_room(1) [OF this room] room]
  have "decodes (decode_tagged describe limits depth TAG_OBJECT) (VObject ?es) (u64_to_be (of_nat (length es)) @ concat encs)"
    unfolding decode_tagged_fun by (rule decodes_bind [OF decodes_read_len [OF assms(2)]])
  then show ?thesis
    by (intro codec_ok_tagged [OF assms(1)]) simp
qed

lemma codec_vector:
  assumes "depth \<le> max_nesting_depth limits" and "length xs < 2 ^ 64"
    and "list_all2 (\<lambda>x enc. 4 \<le> length enc \<and> decodes read_finite_f32 x enc) xs encs"
  shows "codec_ok describe limits depth (VVector xs) (TAG_VECTOR # u64_to_be (of_nat (length xs)) @ concat encs)"
proof -
  have "list_all2 (decodes read_finite_f32) xs encs"
    by (rule list_all2_mono [OF assms(3)]) simp
  then have items: "decodes (\<lambda>bs. read_items (read_finite_f32 bs) (length xs)) xs (concat encs)"
    by (rule decodes_items) simp
  have room: "length xs * 4 \<le> length (concat encs)"
    by (rule concat_length_ge [OF assms(3)]) simp
  have "decodes (\<lambda>bs c. rbind (read_items (read_finite_f32 bs) (length xs) c) (\<lambda>(xs, c). Inr (VVector xs, c))) (VVector xs) (concat encs)"
    by (rule decodes_then [OF items]) simp
  from decodes_room(2) [OF decodes_room(1) [OF this room] room]
  have "decodes (decode_tagged describe limits depth TAG_VECTOR) (VVector xs) (u64_to_be (of_nat (length xs)) @ concat encs)"
    unfolding decode_tagged_fun by (rule decodes_bind [OF decodes_read_len [OF assms(2)]])
  then show ?thesis
    by (intro codec_ok_tagged [OF assms(1)]) simp
qed

lemma codec_geo:
  assumes "depth \<le> max_nesting_depth limits" and "f64_is_finite lon" and "f64_is_finite lat"
  shows "codec_ok describe limits depth (VGeoPoint lon lat)
    (TAG_GEO_POINT # u64_to_be (normalize_f64 lon) @ u64_to_be (normalize_f64 lat))"
proof -
  have "decodes (\<lambda>bs c. rbind (read_f64 bs c) (\<lambda>(lat, c). Inr (VGeoPoint (normalize_f64 lon) lat, c)))
      (VGeoPoint (normalize_f64 lon) (normalize_f64 lat)) (u64_to_be (normalize_f64 lat))"
    by (rule decodes_then [OF decodes_read_f64 [OF assms(3)]]) simp
  then have "decodes (decode_tagged describe limits depth TAG_GEO_POINT) (VGeoPoint (normalize_f64 lon) (normalize_f64 lat))
      (u64_to_be (normalize_f64 lon) @ u64_to_be (normalize_f64 lat))"
    unfolding decode_tagged_fun by (rule decodes_bind [OF decodes_read_f64 [OF assms(2)]])
  then show ?thesis
    by (intro codec_ok_tagged [OF assms(1)]) simp
qed

lemma codec_scalars:
  assumes "depth \<le> max_nesting_depth limits"
  shows "codec_ok describe limits depth VNull [TAG_NULL]"
    and "codec_ok describe limits depth (VBool b) [TAG_BOOL, if b then 1 else 0]"
    and "codec_ok describe limits depth (VInt i) (TAG_INT # u64_to_be i)"
    and "f64_is_finite f \<Longrightarrow> codec_ok describe limits depth (VFloat f) (TAG_FLOAT # u64_to_be (normalize_f64 f))"
    and "length s < 2 ^ 64 \<Longrightarrow> utf8_valid (as_bytes s) \<Longrightarrow>
      codec_ok describe limits depth (VStr s) (TAG_STR # u64_to_be (of_nat (length s)) @ as_bytes s)"
    and "length raw < 2 ^ 64 \<Longrightarrow>
      codec_ok describe limits depth (VBytes raw) (TAG_BYTES # u64_to_be (of_nat (length raw)) @ raw)"
proof -
  show "codec_ok describe limits depth VNull [TAG_NULL]"
    by (rule codec_ok_tagged [OF assms]) (simp add: decodes_def decode_tagged_simps)
  show "codec_ok describe limits depth (VBool b) [TAG_BOOL, if b then 1 else 0]"
    by (rule codec_ok_tagged [OF assms]) (unfold decode_tagged_fun, rule decodes_then [OF decodes_read_u8], simp)
  show "codec_ok describe limits depth (VInt i) (TAG_INT # u64_to_be i)"
    by (rule codec_ok_tagged [OF assms]) (unfold decode_tagged_fun, rule decodes_then [OF decodes_read_i64], simp)
  show "codec_ok describe limits depth (VFloat f) (TAG_FLOAT # u64_to_be (normalize_f64 f))" if "f64_is_finite f"
    by (rule codec_ok_tagged [OF assms]) (unfold decode_tagged_fun, rule decodes_then [OF decodes_read_f64 [OF that]], simp)
  show "codec_ok describe limits depth (VStr s) (TAG_STR # u64_to_be (of_nat (length s)) @ as_bytes s)"
    if "length s < 2 ^ 64" "utf8_valid (as_bytes s)"
    by (rule codec_ok_tagged [OF assms]) (unfold decode_tagged_fun, rule decodes_then [OF decodes_read_string [OF that]], simp)
  show "codec_ok describe limits depth (VBytes raw) (TAG_BYTES # u64_to_be (of_nat (length raw)) @ raw)" if "length raw < 2 ^ 64"
    by (rule codec_ok_tagged [OF assms]) (unfold decode_tagged_fun, rule decodes_then [OF decodes_read_len_bytes [OF that]], simp)
qed

text \<open>The part of an encoding after the tests of depth and size.\<close>

definition encode_body :: "value_codec_limits \<Rightarrow> nat \<Rightarrow> val \<Rightarrow> bytes \<Rightarrow> bytes res" where
  "encode_body limits depth v out =
     (case v of
        VNull \<Rightarrow> Inr (out @ [TAG_NULL])
      | VBool b \<Rightarrow> Inr (out @ [TAG_BOOL, if b then 1 else 0])
      | VInt i \<Rightarrow> Inr (out @ [TAG_INT] @ u64_to_be i)
      | VFloat f \<Rightarrow>
          if f64_is_finite f then Inr (out @ [TAG_FLOAT] @ u64_to_be (normalize_f64 f))
          else Inl non_finite_value_error
      | VStr s \<Rightarrow> encode_len_bytes (as_bytes s) (out @ [TAG_STR])
      | VBytes bs \<Rightarrow> encode_len_bytes bs (out @ [TAG_BYTES])
      | VArray vs \<Rightarrow>
          rbind (encode_len (length vs) (out @ [TAG_ARRAY])) (\<lambda>out.
            rfold (\<lambda>v out. encode_value_payload limits (Suc depth) v out) vs out)
      | VObject es \<Rightarrow>
          rbind (encode_len (length es) (out @ [TAG_OBJECT])) (\<lambda>out.
            rfold (\<lambda>(k, v) out.
              rbind (encode_len_bytes (as_bytes k) out) (\<lambda>out. encode_value_payload limits (Suc depth) v out)) es out)
      | VVector xs \<Rightarrow> rbind (encode_len (length xs) (out @ [TAG_VECTOR])) (\<lambda>out. rfold encode_f32 xs out)
      | VGeoPoint lon lat \<Rightarrow>
          if f64_is_finite lon \<and> f64_is_finite lat
          then Inr (out @ [TAG_GEO_POINT] @ u64_to_be (normalize_f64 lon) @ u64_to_be (normalize_f64 lat))
          else Inl non_finite_value_error)"

lemma encode_payload_Inr:
  "encode_value_payload limits depth v out = Inr out' \<longleftrightarrow>
     depth \<le> max_nesting_depth limits \<and> encode_body limits depth v out = Inr out' \<and> length out' \<le> max_document_bytes limits"
  unfolding encode_body_def
  by (subst encode_value_payload.simps) (auto simp only: rbind_eq_Inr ensure_encoded_size_Inr not_less [symmetric] if_True if_False sum.distinct split: if_split)

lemma encode_payload_ok:
  assumes "encode_value_payload limits depth v out = Inr out'" and "value_wf v"
  shows "\<exists>enc. out' = out @ enc \<and> codec_ok describe limits depth v enc"
  using assms
proof (induction v arbitrary: depth out out')
  case (VArray vs)
  then have depth: "depth \<le> max_nesting_depth limits" and len: "length vs < 2 ^ 64"
    and run: "rfold (\<lambda>v out. encode_value_payload limits (Suc depth) v out) vs (out @ TAG_ARRAY # u64_to_be (of_nat (length vs))) = Inr out'"
    by (auto simp: encode_payload_Inr encode_body_def rbind_eq_Inr encode_len_Inr)
  have "\<forall>v \<in> set vs. \<forall>out out'. encode_value_payload limits (Suc depth) v out = Inr out' \<longrightarrow>
      (\<exists>enc. out' = out @ enc \<and> codec_ok describe limits (Suc depth) v enc)"
    using VArray.IH VArray.prems(2) by simp
  from encode_each [OF run this] show ?case
    using codec_array [OF depth len] by fastforce
next
  case (VObject es)
  then have depth: "depth \<le> max_nesting_depth limits" and len: "length es < 2 ^ 64" and ord: "ordered_keys es"
    and run: "rfold (\<lambda>(k, v) out. rbind (encode_len_bytes (as_bytes k) out) (\<lambda>out. encode_value_payload limits (Suc depth) v out))
        es (out @ TAG_OBJECT # u64_to_be (of_nat (length es))) = Inr out'"
    by (auto simp: encode_payload_Inr encode_body_def rbind_eq_Inr encode_len_Inr)
  have "\<exists>enc. out' = out @ enc \<and> codec_entry_ok describe limits (Suc depth) (k, v) enc"
    if entry: "(k, v) \<in> set es" "rbind (encode_len_bytes (as_bytes k) out) (\<lambda>out. encode_value_payload limits (Suc depth) v out) = Inr out'"
    for k v out out'
  proof -
    have wf: "utf8_valid (as_bytes k)" "value_wf v"
      using VObject.prems(2) entry(1) by auto
    have k: "length k < 2 ^ 64"
      and v: "encode_value_payload limits (Suc depth) v (out @ u64_to_be (of_nat (length k)) @ as_bytes k) = Inr out'"
      using entry(2) by (auto simp: rbind_eq_Inr encode_len_bytes_Inr)
    obtain enc where "out' = (out @ u64_to_be (of_nat (length k)) @ as_bytes k) @ enc" "codec_ok describe limits (Suc depth) v enc"
      using VObject.IH [OF entry(1) _ v wf(2)] by auto
    then show ?thesis
      using codec_entry [OF k wf(1)] by fastforce
  qed
  then have "\<forall>e \<in> set es. \<forall>out out'. (\<lambda>(k, v) out. rbind (encode_len_bytes (as_bytes k) out)
        (\<lambda>out. encode_value_payload limits (Suc depth) v out)) e out = Inr out' \<longrightarrow>
      (\<exists>enc. out' = out @ enc \<and> codec_entry_ok describe limits (Suc depth) e enc)"
    by auto
  from encode_each [OF run this] show ?case
    using codec_object [OF depth len ord] by fastforce
next
  case (VVector xs)
  then have depth: "depth \<le> max_nesting_depth limits" and len: "length xs < 2 ^ 64"
    and run: "rfold encode_f32 xs (out @ TAG_VECTOR # u64_to_be (of_nat (length xs))) = Inr out'"
    by (auto simp: encode_payload_Inr encode_body_def rbind_eq_Inr encode_len_Inr)
  have "\<forall>x \<in> set xs. \<forall>out out'. encode_f32 x out = Inr out' \<longrightarrow>
      (\<exists>enc. out' = out @ enc \<and> 4 \<le> length enc \<and> decodes read_finite_f32 x enc)"
    using decodes_read_finite_f32 by (auto simp: encode_f32_def split: if_splits)
  from encode_each [OF run this] show ?case
    using codec_vector [OF depth len] by fastforce
next
  case (VStr s)
  then show ?case
    using codec_scalars(5) by (fastforce simp: encode_payload_Inr encode_body_def encode_len_bytes_Inr)
next
  case (VBytes raw)
  then show ?case
    using codec_scalars(6) by (fastforce simp: encode_payload_Inr encode_body_def encode_len_bytes_Inr)
qed (use codec_scalars(1-4) codec_geo in \<open>fastforce simp: encode_payload_Inr encode_body_def split: if_splits\<close>)+

lemma value_magic_length [simp]: "length VALUE_MAGIC = 4"
  by (simp add: VALUE_MAGIC_def)

lemma decode_encoded:
  assumes "value_wf v" and "encode_value_with_limits limits v = Inr bs" and "max_document_bytes limits \<le> usize_max"
  shows "decode_value_with_limits libs limits bs = Inr (canonical v)"
proof -
  let ?head = "VALUE_MAGIC @ [VALUE_FORMAT_V1]"
  have enc: "encode_value_payload limits 0 v ?head = Inr bs" and size: "length bs \<le> max_document_bytes limits"
    using assms(2) by (auto simp: encode_value_with_limits_def rbind_eq_Inr ensure_encoded_size_Inr)
  then obtain enc where bs: "bs = ?head @ enc" and ok: "codec_ok (vl_utf8_error libs) limits 0 v enc"
    using encode_payload_ok [OF _ assms(1)] by blast
  have "decode_value_payload (vl_utf8_error libs) limits bs (length ?head) 0 = Inr (canonical v, length bs)"
    using decodesD [of "\<lambda>bs c. decode_value_payload (vl_utf8_error libs) limits bs c 0" "canonical v" enc bs ?head "[]"] ok size assms(3) by (simp add: codec_ok_def bs)
  then have "decode_binary_value (vl_utf8_error libs) limits bs = Inr (canonical v)"
    by (simp add: decode_binary_value_def bs nth_append)
  then show ?thesis
    using size by (simp add: decode_value_with_limits_def bs)
qed

text \<open>
  C37. Whatever value of the program the encoder accepts under some limits, the decoder reads back
  from the bytes under the same limits, with negative zeros made positive and nothing else
  changed.
\<close>

theorem value_codec_roundtrip:
  assumes "value_wf v" and "encode_value_with_limits limits v = Inr bs" and "max_document_bytes limits \<le> usize_max"
  shows "decode_value_with_limits libs limits bs = Inr (canonical v)"
  by (rule decode_encoded [OF assms])

section \<open>What a decoder returns\<close>

lemma read_items_all:
  "read_items f n c = Inr (xs, c') \<Longrightarrow> (\<And>c x c'. f c = Inr (x, c') \<Longrightarrow> P x) \<Longrightarrow> \<forall>x \<in> set xs. P x"
  by (induction n arbitrary: c xs) (auto simp: rbind_eq_Inr)

lemma set_al_put: "set (al_put k v es) \<subseteq> insert (k, v) (set es)"
  by (induction es) auto

lemma fold_al_put_facts:
  "ordered_keys acc \<Longrightarrow> ordered_keys (fold (\<lambda>(k, v). al_put k v) es acc) \<and>
   set (fold (\<lambda>(k, v). al_put k v) es acc) \<subseteq> set es \<union> set acc"
proof (induction es arbitrary: acc)
  case (Cons e es)
  show ?case
    using Cons.IH [OF ordered_al_put [OF Cons.prems, of "fst e" "snd e"]] set_al_put [of "fst e" "snd e" acc]
    by (auto simp: split_beta)
qed simp

lemma from_utf8_valid: "from_utf8 describe raw = Inr s \<Longrightarrow> utf8_valid (as_bytes s)"
proof -
  assume s: "from_utf8 describe raw = Inr s"
  have "of_char (char_of (unat b)) = b" for b :: u8
    using unat_of_char_u8 [of "char_of (unat b)"] unsigned_less [of b, where 'a = nat] by (simp add: unsigned_word_eqI)
  then have "as_bytes s = raw"
    using s by (auto simp: from_utf8_def as_bytes_def o_def split: if_splits intro: map_idI)
  then show ?thesis
    using s by (auto simp: from_utf8_def split: if_splits)
qed

lemma read_string_valid: "read_string describe bs c = Inr (s, c') \<Longrightarrow> utf8_valid (as_bytes s)"
  by (cases "value_read_len_bytes bs c") (auto simp: read_string_def rbind_eq_Inr map_err_def split: sum.splits dest: from_utf8_valid)

lemma read_f64_finite: "read_f64 bs c = Inr (f, c') \<Longrightarrow> f64_is_finite f \<and> normalize_f64 f = f"
  by (auto simp: read_f64_def rbind_eq_Inr split: if_splits)

lemma read_finite_f32_finite: "read_finite_f32 bs c = Inr (x, c') \<Longrightarrow> f32_is_finite x"
  by (auto simp: read_finite_f32_def rbind_eq_Inr split: if_splits)

lemma decode_tagged_type:
  assumes "decode_tagged describe limits depth tag bs c = Inr (v, c')"
    and child: "\<And>c v c'. decode_value_payload describe limits bs c (Suc depth) = Inr (v, c') \<Longrightarrow>
      0 < levels \<and> decoded_ok (levels - 1) v"
  shows "decoded_ok levels v"
proof -
  consider "tag = TAG_NULL" | "tag = TAG_BOOL" | "tag = TAG_INT" | "tag = TAG_FLOAT" | "tag = TAG_STR" | "tag = TAG_BYTES"
    | (array) "tag = TAG_ARRAY" | (object) "tag = TAG_OBJECT" | (vector) "tag = TAG_VECTOR" | "tag = TAG_GEO_POINT"
    using assms(1) unfolding decode_tagged_def by (auto split: if_splits)
  then show ?thesis
  proof cases
    case array
    then obtain n d vs where vs: "read_items (\<lambda>c. decode_value_payload describe limits bs c (Suc depth)) n d = Inr (vs, c')" "v = VArray vs"
      using assms(1) by (auto simp: decode_tagged_simps rbind_eq_Inr split: if_splits)
    have "\<forall>v \<in> set vs. 0 < levels \<and> decoded_ok (levels - 1) v"
      by (rule read_items_all [OF vs(1)]) (rule child)
    then show ?thesis
      by (simp add: vs(2))
  next
    case object
    let ?P = "\<lambda>(k, v). 0 < levels \<and> utf8_valid (as_bytes k) \<and> decoded_ok (levels - 1) v"
    obtain n d es where es: "read_items (\<lambda>c. rbind (read_string describe bs c) (\<lambda>(k, c).
        rbind (decode_value_payload describe limits bs c (Suc depth)) (\<lambda>(v, c). Inr ((k, v), c)))) n d = Inr (es, c')"
      "v = VObject (fold (\<lambda>(k, v). al_put k v) es [])"
      using assms(1) object by (auto simp: decode_tagged_simps rbind_eq_Inr split: if_splits)
    have "\<forall>e \<in> set es. ?P e"
      by (rule read_items_all [OF es(1)]) (auto simp: rbind_eq_Inr dest!: child dest: read_string_valid)
    then show ?thesis
      using fold_al_put_facts [of "[]" es] by (auto simp: es(2))
  next
    case vector
    then obtain n d xs where xs: "read_items (read_finite_f32 bs) n d = Inr (xs, c')" "v = VVector xs"
      using assms(1) by (auto simp: decode_tagged_simps rbind_eq_Inr split: if_splits)
    have "\<forall>x \<in> set xs. f32_is_finite x"
      by (rule read_items_all [OF xs(1)]) (rule read_finite_f32_finite)
    then show ?thesis
      by (simp add: xs(2))
  qed (use assms(1) in \<open>auto simp: decode_tagged_simps rbind_eq_Inr split: if_splits dest!: read_f64_finite dest: read_string_valid\<close>)
qed

lemma decode_payload_type:
  assumes "decode_value_payload describe limits bs c depth = Inr (v, c')"
  shows "depth \<le> max_nesting_depth limits \<and> decoded_ok (max_nesting_depth limits - depth) v"
  using assms
proof (induction "Suc (max_nesting_depth limits) - depth" arbitrary: depth c v c' rule: less_induct)
  case less
  have depth: "depth \<le> max_nesting_depth limits"
    using less.prems by (subst (asm) decode_value_payload.simps) (auto split: if_splits)
  then obtain tag d where "decode_tagged describe limits depth tag bs d = Inr (v, c')"
    using less.prems by (auto simp: decode_payload_tagged rbind_eq_Inr)
  then have "decoded_ok (max_nesting_depth limits - depth) v"
  proof (rule decode_tagged_type)
    fix c v c'
    assume "decode_value_payload describe limits bs c (Suc depth) = Inr (v, c')"
    moreover have "Suc (max_nesting_depth limits) - Suc depth < Suc (max_nesting_depth limits) - depth"
      using depth by simp
    ultimately have "Suc depth \<le> max_nesting_depth limits \<and> decoded_ok (max_nesting_depth limits - Suc depth) v"
      by (rule less.hyps [rotated])
    then show "0 < max_nesting_depth limits - depth \<and> decoded_ok (max_nesting_depth limits - depth - 1) v"
      by simp
  qed
  with depth show ?case
    by simp
qed

lemma list_all2_source: "list_all2 R xs ys \<Longrightarrow> y \<in> set ys \<Longrightarrow> \<exists>x \<in> set xs. R x y"
  by (induction rule: list_all2_induct) auto

lemma canonicalize_object:
  "canonicalize_legacy_value limits depth (VObject es) = Inr w \<longleftrightarrow>
     depth \<le> max_nesting_depth limits \<and>
     (\<exists>fs. w = VObject fs \<and>
        list_all2 (\<lambda>e f. fst f = fst e \<and> canonicalize_legacy_value limits (Suc depth) (snd e) = Inr (snd f)) es fs)"
proof -
  have step: "(\<lambda>(k, v). rbind (canonicalize_legacy_value limits (Suc depth) v) (\<lambda>v. Inr (k, v))) e = Inr f \<longleftrightarrow>
      fst f = fst e \<and> canonicalize_legacy_value limits (Suc depth) (snd e) = Inr (snd f)" for e f
    by (cases f) (auto simp: split_beta rbind_eq_Inr)
  have "rmap (\<lambda>(k, v). rbind (canonicalize_legacy_value limits (Suc depth) v) (\<lambda>v. Inr (k, v))) es = Inr fs \<longleftrightarrow>
      list_all2 (\<lambda>e f. fst f = fst e \<and> canonicalize_legacy_value limits (Suc depth) (snd e) = Inr (snd f)) es fs" for fs
    unfolding rmap_Inr_iff step ..
  then show ?thesis
    by (subst canonicalize_legacy_value.simps) (auto simp: rbind_eq_Inr)
qed

lemma canonicalize_type:
  assumes "canonicalize_legacy_value limits depth v = Inr w" and "value_wf v"
  shows "depth \<le> max_nesting_depth limits \<and> decoded_ok (max_nesting_depth limits - depth) w"
  using assms
proof (induction v arbitrary: depth w)
  case (VArray vs)
  then obtain ws where depth: "depth \<le> max_nesting_depth limits" and w: "w = VArray ws"
    and ws: "list_all2 (\<lambda>v w. canonicalize_legacy_value limits (Suc depth) v = Inr w) vs ws"
    by (subst (asm) canonicalize_legacy_value.simps) (auto simp: rbind_eq_Inr rmap_Inr_iff split: if_splits)
  have "Suc depth \<le> max_nesting_depth limits \<and> decoded_ok (max_nesting_depth limits - Suc depth) w" if "w \<in> set ws" for w
    using ws that VArray.IH VArray.prems(2) by (fastforce simp: list_all2_conv_all_nth in_set_conv_nth)
  with depth show ?case
    by (auto simp: w Suc_le_eq)
next
  case (VObject es)
  then obtain fs where depth: "depth \<le> max_nesting_depth limits" and w: "w = VObject fs"
    and fs: "list_all2 (\<lambda>e f. fst f = fst e \<and> canonicalize_legacy_value limits (Suc depth) (snd e) = Inr (snd f)) es fs"
    by (auto simp: canonicalize_object)
  have keys: "map fst fs = map fst es"
    using fs by (induction rule: list_all2_induct) simp_all
  have "utf8_valid (as_bytes (fst f)) \<and> Suc depth \<le> max_nesting_depth limits \<and> decoded_ok (max_nesting_depth limits - Suc depth) (snd f)"
    if f: "f \<in> set fs" for f
  proof -
    obtain e where e: "e \<in> set es" "fst f = fst e" "canonicalize_legacy_value limits (Suc depth) (snd e) = Inr (snd f)"
      using list_all2_source [OF fs f] by blast
    then show ?thesis
      using VObject.IH [OF e(1) _ e(3)] VObject.prems(2) by (cases e) auto
  qed
  with depth keys VObject.prems(2) show ?case
    by (auto simp: w Suc_le_eq)
qed (subst (asm) canonicalize_legacy_value.simps, auto split: if_splits)+

text \<open>
  C38. Whatever bytes are given to the decoder, a value it returns has the shape the rest of the
  program relies on: its strings are UTF-8, the keys of its objects are in order and each occurs
  once, its doubles and geographic coordinates are finite with a single zero, the entries of its
  vectors are finite, and it is not nested deeper than the limit.
  Values in the older JSON form rely on the JSON reader to return values of the type.
\<close>

theorem decoded_values_typed:
  assumes "decode_value_with_limits libs limits bs = Inr v"
    and "\<And>bs v. from_slice (vl_json libs) bs = Inr v \<Longrightarrow> value_wf v"
  shows "decoded_ok (max_nesting_depth limits) v \<and> value_wf v \<and> canonical v = v"
proof -
  have "decoded_ok (max_nesting_depth limits) v"
  proof (cases "prefix VALUE_MAGIC bs")
    case True
    then show ?thesis
      using assms(1) decode_payload_type
      by (fastforce simp: decode_value_with_limits_def decode_binary_value_def rbind_eq_Inr Let_def split: if_splits)
  next
    case False
    then obtain u where "from_slice (vl_json libs) bs = Inr u" "canonicalize_legacy_value limits 0 u = Inr v"
      using assms(1) by (auto simp: decode_value_with_limits_def rbind_eq_Inr map_err_def split: if_splits sum.splits)
    then show ?thesis
      using canonicalize_type [of limits 0 u v] assms(2) by simp
  qed
  then show ?thesis
    using decoded_ok_wf by blast
qed

section \<open>Examples\<close>

definition demo_libs :: value_libs where
  "demo_libs = \<lparr>vl_json = \<lparr>to_vec = \<lambda>_. Inl [], from_slice = \<lambda>bs. if bs = as_bytes ''null'' then Inr VNull else Inl []\<rparr>, vl_utf8_error = \<lambda>_. []\<rparr>"

definition demo_value :: val where
  "demo_value = VObject [(''a'', VArray [VFloat (push_bit 63 1), VStr ''x''])]"

lemma demo_value_encodes: "\<exists>bs. encode_value_with_limits default_limits demo_value = Inr bs"
  by (simp add: encode_value_with_limits_def demo_value_def encode_value_payload.simps encode_len_bytes_def encode_len_def
      ensure_encoded_size_def default_limits_def f64_is_finite_def f64_exponent_def)

theorem value_codec_roundtrip_witness:
  "\<exists>bs. encode_value_with_limits default_limits demo_value = Inr bs \<and>
     decode_value_with_limits demo_libs default_limits bs = Inr (VObject [(''a'', VArray [VFloat 0, VStr ''x''])])"
proof -
  obtain bs where bs: "encode_value_with_limits default_limits demo_value = Inr bs"
    using demo_value_encodes by blast
  have "value_wf demo_value" "max_document_bytes default_limits \<le> usize_max"
    by (simp_all add: demo_value_def default_limits_def usize_max_def as_bytes_def)
  from value_codec_roundtrip [OF this(1) bs this(2)] bs show ?thesis
    by (auto simp: demo_value_def normalize_f64_def f64_is_zero_def)
qed

theorem decoded_values_typed_witness:
  "\<exists>v. decode_value_with_limits demo_libs default_limits (VALUE_MAGIC @ [1, 1, 1]) = Inr v \<and> decoded_ok 128 v"
proof -
  have run: "decode_value_with_limits demo_libs default_limits (VALUE_MAGIC @ [1, 1, 1]) = Inr (VBool True)"
    by (simp add: decode_value_with_limits_def decode_binary_value_def default_limits_def VALUE_FORMAT_V1_def nth_append
        decode_value_payload.simps read_u8_def usize_saturating_add_def usize_max_def tag_defs)
  have "from_slice (vl_json demo_libs) bs = Inr v \<Longrightarrow> value_wf v" for bs v
    by (auto simp: demo_libs_def split: if_splits)
  from decoded_values_typed [OF run this] run show ?thesis
    by (simp add: default_limits_def)
qed

end
