(* ===== verification/Temporal.thy ===== *)
theory Temporal
  imports History_Runs Value_Codec
begin

text \<open>
  Time travel over tables, from \<open>src/temporal.rs\<close>: reading the rows of a table as of a commit or
  a time, and listing the versions of its rows, both from the version history and both while
  commits and the history collector go on. A backend is read several times by one call, so the
  functions take the states of the backend at the successive reads.
\<close>

section \<open>Rows, schemas and errors\<close>

type_synonym sql_row = "val list"

datatype column_type = CInt | CFloat | CStr | CBool | CBytes | CNull

record column_def =
  cd_name :: string
  cd_ty :: column_type
  cd_nullable :: bool

record table_schema =
  ts_columns :: "column_def list"
  ts_primary_key :: nat

definition column_def_new :: "string \<Rightarrow> column_type \<Rightarrow> bool \<Rightarrow> column_def" where
  "column_def_new name ty nullable = \<lparr>cd_name = name, cd_ty = ty, cd_nullable = nullable\<rparr>"

definition REL_ROWS_TABLE :: string where "REL_ROWS_TABLE = ''rel_rows''"

text \<open>The errors of the query layer, apart from the refusals of its authorization.\<close>

datatype query_error =
    QRepl repl_error
  | QStorage storage_error
  | QModel model_error
  | QParse string
  | QInputLimit string
  | QResourceLimit string
  | QBusy string
  | QCancelled string
  | QTimeout string
  | QUnsupported string
  | QDataFusion string
  | QInvalidSchema string
  | QInvalidRow string
  | QMissingTable string
  | QMissingColumn string
  | QDuplicatePrimaryKey
  | QInvalidValue string
  | QSerde string

fun query_of_storage :: "storage_error \<Rightarrow> query_error" where
  "query_of_storage (ResourceLimit reason) = QResourceLimit reason"
| "query_of_storage (Timeout reason) = QTimeout reason"
| "query_of_storage (Cancelled reason) = QCancelled reason"
| "query_of_storage other = QStorage other"

definition decode_row :: "value_libs \<Rightarrow> bytes \<Rightarrow> query_error + sql_row option" where
  "decode_row libs bs =
     rbind (map_err query_of_storage (decode_value libs bs)) (\<lambda>v.
       case v of
         VArray row \<Rightarrow> Inr (Some row)
       | _ \<Rightarrow> Inl (QStorage (Corruption ''relational row is not an array'')))"

definition decode_row_bytes :: "value_libs \<Rightarrow> bytes \<Rightarrow> query_error + sql_row option" where
  "decode_row_bytes libs bs = decode_row libs bs"

section \<open>Points in time\<close>

datatype temporal_point = AtLsn txn_id | AtTimestamp nat

record temporal_retention =
  rt_min_lsn :: txn_id
  rt_keep_history :: bool

definition default_retention :: temporal_retention where
  "default_retention = \<lparr>rt_min_lsn = 0, rt_keep_history = True\<rparr>"

record temporal_rows =
  snapshot_lsn :: txn_id
  snapshot_rows :: "sql_row list"

datatype temporal_error =
    RetentionExpired txn_id txn_id
  | MissingPoint temporal_point
  | TUnsupported string
  | TQuery query_error
  | TStorage storage_error
  | TRepl repl_error
  | TSerde string

text \<open>
  What the functions use of libraries: the codecs of the records, of the values, and the text
  \<open>{:?}\<close> gives for a row, by which rows are ordered.
\<close>

record temporal_env =
  te_codecs :: codecs
  te_libs :: value_libs
  te_debug :: "sql_row \<Rightarrow> bytes"

definition lsn_for_timestamp :: "codecs \<Rightarrow> 'n replication \<Rightarrow> 'n \<Rightarrow> nat \<Rightarrow> temporal_error + txn_id" where
  "lsn_for_timestamp cs rp n timestamp =
     rbind (map_err TRepl (latest_commit_at_or_before cs rp n timestamp)) (\<lambda>found.
       ok_or (MissingPoint (AtTimestamp timestamp)) found)"

fun resolve_temporal_point :: "codecs \<Rightarrow> 'n replication \<Rightarrow> 'n \<Rightarrow> temporal_point \<Rightarrow> temporal_error + txn_id" where
  "resolve_temporal_point cs rp n (AtLsn lsn) = Inr lsn"
| "resolve_temporal_point cs rp n (AtTimestamp timestamp) = lsn_for_timestamp cs rp n timestamp"

definition validate_retention :: "temporal_retention \<Rightarrow> txn_id \<Rightarrow> temporal_error + unit" where
  "validate_retention retention requested =
     (if requested < rt_min_lsn retention then Inl (RetentionExpired requested (rt_min_lsn retention))
      else if \<not> rt_keep_history retention
      then Inl (TUnsupported ''history retention is disabled for this temporal table'')
      else Inr ())"

definition ensure_history_retained :: "'n replication \<Rightarrow> 'n \<Rightarrow> txn_id \<Rightarrow> temporal_error + txn_id" where
  "ensure_history_retained rp n lsn =
     rbind (map_err TRepl (history_horizon rp n)) (\<lambda>horizon.
       if lsn < horizon then Inl (RetentionExpired lsn horizon) else Inr horizon)"

definition validate_temporal_row :: "table_schema \<Rightarrow> sql_row \<Rightarrow> temporal_error + unit" where
  "validate_temporal_row schema row =
     (if length row \<noteq> length (ts_columns schema)
      then Inl (TQuery (QInvalidRow (''temporal row has '' @ show_nat (length row) @ '' columns, expected '' @
             show_nat (length (ts_columns schema)))))
      else Inr ())"

definition table_prefix :: "string \<Rightarrow> bytes" where
  "table_prefix table = push_len_bytes [] (as_bytes table)"

definition system_versioned_schema :: "table_schema \<Rightarrow> table_schema" where
  "system_versioned_schema schema = schema\<lparr>ts_columns := ts_columns schema @
     [column_def_new ''valid_from_lsn'' CInt False, column_def_new ''valid_to_lsn'' CInt True,
      column_def_new ''valid_from'' CInt False, column_def_new ''valid_to'' CInt True]\<rparr>"

section \<open>Rows as of a commit\<close>

text \<open>The latest version of every key up to the snapshot; \<open>pre\<close> is the prefix of the table's history.\<close>

definition as_of_version ::
  "codecs \<Rightarrow> bytes \<Rightarrow> txn_id \<Rightarrow> row \<Rightarrow> (bytes, txn_id \<times> bytes option) btm \<Rightarrow>
   temporal_error + (bytes, txn_id \<times> bytes option) btm" where
  "as_of_version cs pre snapshot r by_key =
     (case r of (vk, v) \<Rightarrow>
        if length vk < length pre + 8 \<or> \<not> prefix pre vk then Inr by_key
        else rbind (map_err TStorage (decode_txn_id (drop (length vk - 8) vk))) (\<lambda>version.
          if snapshot < version then Inr by_key
          else let logical_key = take (length vk - 8 - length pre) (drop (length pre) vk) in
            rbind (map_err TStorage (decode_mvcc_record cs v)) (\<lambda>found.
              if (case bt_get by_key logical_key of None \<Rightarrow> True | Some (current, _) \<Rightarrow> current < version)
              then Inr (bt_insert logical_key (version, mvcc_value found) by_key)
              else Inr by_key)))"

definition decode_versioned_row :: "temporal_env \<Rightarrow> table_schema \<Rightarrow> bytes option \<Rightarrow> sql_row list \<Rightarrow> temporal_error + sql_row list" where
  "decode_versioned_row env schema stored rows =
     (case stored of
        None \<Rightarrow> Inr rows
      | Some bs \<Rightarrow>
          rbind (map_err TQuery (decode_row_bytes (te_libs env) bs)) (\<lambda>found.
            case found of
              None \<Rightarrow> Inr rows
            | Some row \<Rightarrow> rbind (validate_temporal_row schema row) (\<lambda>_. Inr (rows @ [row]))))"

definition sorted_rows :: "temporal_env \<Rightarrow> table_schema \<Rightarrow> bytes option list \<Rightarrow> temporal_error + sql_row list" where
  "sorted_rows env schema stored =
     rbind (rfold (decode_versioned_row env schema) stored []) (\<lambda>rows. Inr (sort_key (te_debug env) rows))"

text \<open>The backend is read three times: in the states \<open>at 0\<close>, \<open>at 1\<close> and \<open>at 2\<close>.\<close>

definition rows_as_of_lsn ::
  "temporal_env \<Rightarrow> 'n replication \<Rightarrow> (nat \<Rightarrow> 'n) \<Rightarrow> string \<Rightarrow> table_schema \<Rightarrow> txn_id \<Rightarrow>
   temporal_error + sql_row list" where
  "rows_as_of_lsn env rp at table schema lsn =
     rbind (ensure_history_retained rp (at 0) lsn) (\<lambda>_.
     rbind (map_err TStorage (version_key REL_ROWS_TABLE (table_prefix table))) (\<lambda>pre.
     rbind (map_err TRepl (rp_range rp (at 1) TXN_MVCC_TABLE pre (range_end pre) Strong)) (\<lambda>versions.
     rbind (ensure_history_retained rp (at 2) lsn) (\<lambda>_.
     rbind (rfold (as_of_version (te_codecs env) pre lsn) versions bt_empty) (\<lambda>by_key.
       sorted_rows env schema (map (\<lambda>(_, _, v). v) (bt_entries by_key)))))))"

definition table_rows_as_of ::
  "temporal_env \<Rightarrow> 'n replication \<Rightarrow> 'n \<Rightarrow> (nat \<Rightarrow> 'n) \<Rightarrow> string \<Rightarrow> table_schema \<Rightarrow> temporal_point \<Rightarrow> temporal_retention \<Rightarrow>
   temporal_error + temporal_rows" where
  "table_rows_as_of env rp n at table schema point retention =
     rbind (resolve_temporal_point (te_codecs env) rp n point) (\<lambda>lsn.
     rbind (validate_retention retention lsn) (\<lambda>_.
     rbind (rows_as_of_lsn env rp at table schema lsn) (\<lambda>rows.
       Inr \<lparr>snapshot_lsn = lsn, snapshot_rows = rows\<rparr>)))"

section \<open>The versions of the rows\<close>

text \<open>Times count from the epoch on, so the branch for earlier ones does not arise.\<close>

definition system_time_to_millis :: "nat \<Rightarrow> temporal_error + u64" where
  "system_time_to_millis time =
     (let millis = time div 10 ^ 6 in
      if millis < 2 ^ 63 then Inr (of_nat millis)
      else Inl (TStorage (Corruption ''temporal timestamp exceeds the SQL integer range'')))"

text \<open>
  A boundary of an interval as the two values of a row. The times found so far are kept, together
  with the number of the next read of the backend.
\<close>

definition history_boundary ::
  "codecs \<Rightarrow> 'n replication \<Rightarrow> (nat \<Rightarrow> 'n) \<Rightarrow> txn_id \<Rightarrow> (txn_id, u64) btm \<times> nat \<Rightarrow>
   temporal_error + (val \<times> val) \<times> (txn_id, u64) btm \<times> nat" where
  "history_boundary cs rp at lsn st =
     (if 2 ^ 63 \<le> unat lsn then Inl (TStorage (Corruption ''temporal LSN exceeds the SQL integer range''))
      else case st of (timestamps, t) \<Rightarrow>
        (case bt_get timestamps lsn of
           Some millis \<Rightarrow> Inr ((VInt lsn, VInt millis), st)
         | None \<Rightarrow>
             rbind (map_err TRepl (rp_read rp (at t) COMMIT_LOG_TABLE (commit_log_key lsn) Strong)) (\<lambda>found.
             rbind (ok_or (MissingPoint (AtLsn lsn)) found) (\<lambda>bs.
             rbind (map_err TStorage (decode_commit_log_record cs bs)) (\<lambda>record.
               if clr_txn_id record \<noteq> lsn
               then Inl (TStorage (Corruption ''temporal commit record does not match its LSN''))
               else rbind (system_time_to_millis (clr_committed_at record)) (\<lambda>millis.
                 Inr ((VInt lsn, VInt millis), bt_insert lsn millis timestamps, Suc t)))))))"

definition history_version ::
  "codecs \<Rightarrow> bytes \<Rightarrow> txn_id \<Rightarrow> txn_id \<Rightarrow> row \<Rightarrow> (bytes, (txn_id, bytes option) btm) btm \<Rightarrow>
   temporal_error + (bytes, (txn_id, bytes option) btm) btm" where
  "history_version cs pre horizon min_lsn r by_key =
     (case r of (vk, v) \<Rightarrow>
        if length vk < length pre + 8 \<or> \<not> prefix pre vk then Inr by_key
        else rbind (map_err TStorage (decode_txn_id (drop (length vk - 8) vk))) (\<lambda>version.
          if version < horizon then Inl (RetentionExpired version horizon)
          else if version < min_lsn then Inr by_key
          else rbind (map_err TStorage (decode_mvcc_record cs v)) (\<lambda>found.
            Inr (bt_update (take (length vk - 8 - length pre) (drop (length pre) vk)) bt_empty
                  (bt_insert version (mvcc_value found)) by_key))))"

fun history_intervals ::
  "temporal_env \<Rightarrow> 'n replication \<Rightarrow> (nat \<Rightarrow> 'n) \<Rightarrow> table_schema \<Rightarrow> (txn_id \<times> bytes option) list \<Rightarrow>
   sql_row list \<times> (txn_id, u64) btm \<times> nat \<Rightarrow> temporal_error + sql_row list \<times> (txn_id, u64) btm \<times> nat" where
  "history_intervals env rp at schema [] st = Inr st"
| "history_intervals env rp at schema ((version, None) # versions) st =
     history_intervals env rp at schema versions st"
| "history_intervals env rp at schema ((version, Some bs) # versions) (rows, st) =
     rbind (map_err TQuery (decode_row_bytes (te_libs env) bs)) (\<lambda>found.
     rbind (ok_or (TStorage (Corruption ''temporal row is missing'')) found) (\<lambda>row.
     rbind (validate_temporal_row schema row) (\<lambda>_.
     rbind (history_boundary (te_codecs env) rp at version st) (\<lambda>((from_lsn, from_time), st).
     rbind (case versions of
              [] \<Rightarrow> Inr ((VNull, VNull), st)
            | (next, _) # _ \<Rightarrow> history_boundary (te_codecs env) rp at next st) (\<lambda>((to_lsn, to_time), st).
       history_intervals env rp at schema versions (rows @ [row @ [from_lsn, to_lsn, from_time, to_time]], st))))))"

definition history_rows_for_table ::
  "temporal_env \<Rightarrow> 'n replication \<Rightarrow> (nat \<Rightarrow> 'n) \<Rightarrow> string \<Rightarrow> table_schema \<Rightarrow> temporal_retention \<Rightarrow>
   temporal_error + sql_row list" where
  "history_rows_for_table env rp at table schema retention =
     rbind (validate_retention retention (rt_min_lsn retention)) (\<lambda>_.
     rbind (ensure_history_retained rp (at 0) (rt_min_lsn retention)) (\<lambda>_.
     rbind (map_err TStorage (version_key REL_ROWS_TABLE (table_prefix table))) (\<lambda>pre.
     rbind (map_err TRepl (rp_range rp (at 1) TXN_MVCC_TABLE pre (range_end pre) Strong)) (\<lambda>versions.
     rbind (ensure_history_retained rp (at 2) (rt_min_lsn retention)) (\<lambda>horizon.
     rbind (rfold (history_version (te_codecs env) pre horizon (rt_min_lsn retention)) versions bt_empty) (\<lambda>by_key.
     rbind (rfold (\<lambda>(_, versions). history_intervals env rp at schema (bt_entries versions))
              (bt_entries by_key) ([], bt_empty, 3)) (\<lambda>(rows, _).
       Inr rows)))))))"

end
