(* ===== verification/Temporal_Facts.thy ===== *)
theory Temporal_Facts
  imports Temporal
begin

text \<open>
  Reading the past of a table gives back the past: whatever commits and collections happen
  before, during and after the reads of one call, \<open>rows_as_of_lsn\<close> answers with the rows the
  table had at that commit or says that they are gone.
\<close>

section \<open>Reads of a node\<close>

lemma past_node_reads:
  assumes "past_node cs c node" and "table_is_reserved t"
  shows "sn_read mem_engine_ops node t k con = Inr (bt_get (node_store node t) k)"
    and "sn_range mem_engine_ops node t start stop con = Inr (bt_range start stop (node_store node t))"
proof -
  have "e_begin_read mem_engine_ops (sn_storage node) = Inr (store_reader (node_store node))"
    using mem.begin_read assms(1) by (simp add: past_node_def)
  then show "sn_read mem_engine_ops node t k con = Inr (bt_get (node_store node t) k)"
    "sn_range mem_engine_ops node t start stop con = Inr (bt_range start stop (node_store node t))"
    using assms(2) by (simp_all add: sn_read_def sn_range_def validate_read_key_def validate_read_range_def has_range_locks_def)
qed

lemma past_node_ready:
  assumes "past_node cs c node"
  shows "gc_ready cs (node_store node)"
  using assms by (simp add: past_node_def past_ok_def)

lemma ensure_on_node:
  assumes "past_node cs c node"
  shows "ensure_history_retained (node_replication mem_engine_ops cs describe) (node, ck) lsn =
    (if lsn < horizon_of (node_store node) then Inl (RetentionExpired lsn (horizon_of (node_store node)))
     else Inr (horizon_of (node_store node)))"
proof -
  have "history_horizon (node_replication mem_engine_ops cs describe) (node, ck) = Inr (horizon_of (node_store node))"
  proof (cases "bt_get (node_store node TXN_META_TABLE) HISTORY_HORIZON_KEY")
    case None
    then show ?thesis
      by (simp add: history_horizon_def read_repl_meta_def node_replication_def past_node_reads [OF assms] meta_value_def)
  next
    case (Some bs)
    then obtain i where "bs = encode_txn_id i"
      using gc_readyD(1) [OF past_node_ready [OF assms], of HISTORY_HORIZON_KEY bs] by auto
    with Some show ?thesis
      by (simp add: history_horizon_def read_repl_meta_def node_replication_def past_node_reads [OF assms] meta_value_def)
  qed
  then show ?thesis
    by (simp add: ensure_history_retained_def)
qed

section \<open>The latest versions\<close>

definition seen :: "bytes \<Rightarrow> txn_id \<Rightarrow> row list \<Rightarrow> bytes \<Rightarrow> txn_id set" where
  "seen pre i rows lk = {j. j \<le> i \<and> pre @ lk @ encode_txn_id j \<in> fst ` set rows}"

lemma version_row_parts:
  assumes "prefix pre k" and "length pre + 8 \<le> length k"
  obtains lk j where "k = pre @ lk @ encode_txn_id j" and "take (length k - 8 - length pre) (drop (length pre) k) = lk"
    and "drop (length k - 8) k = encode_txn_id j"
proof -
  obtain r where r: "k = pre @ r"
    using assms(1) by (auto elim: prefixE)
  let ?n = "length r - 8"
  have "encode_txn_id (u64_from_be (drop ?n r)) = drop ?n r"
    using assms(2) r by (simp add: encode_txn_id_def u64_to_from_be)
  then have "k = pre @ take ?n r @ encode_txn_id (u64_from_be (drop ?n r))"
    by (simp add: r)
  then show thesis
    by (rule that) (use assms(2) r \<open>encode_txn_id _ = _\<close> in simp_all)
qed

lemma as_of_versions:
  assumes "\<forall>(k, v) \<in> set rows. look k = v \<and> (\<exists>r. decode_mvcc_record cs v = Inr r)"
  shows "\<exists>m. rfold (as_of_version cs pre i) rows bt_empty = Inr m \<and>
    (\<forall>lk. bt_get m lk = (if seen pre i rows lk = {} then None
       else Some (Max (seen pre i rows lk), mvcc_value (projr (decode_mvcc_record cs (look (pre @ lk @ encode_txn_id (Max (seen pre i rows lk)))))))))"
  using assms
proof (induction rows rule: rev_induct)
  case Nil
  then show ?case
    by (simp add: seen_def)
next
  case (snoc row rows)
  let ?val = "\<lambda>lk j. mvcc_value (projr (decode_mvcc_record cs (look (pre @ lk @ encode_txn_id j))))"
  obtain k v where row: "row = (k, v)"
    by (cases row)
  obtain m where m: "rfold (as_of_version cs pre i) rows bt_empty = Inr m"
    and get: "bt_get m lk = (if seen pre i rows lk = {} then None else Some (Max (seen pre i rows lk), ?val lk (Max (seen pre i rows lk))))" for lk
    using snoc by auto
  show ?case
  proof (cases "length k < length pre + 8 \<or> \<not> prefix pre k")
    case True
    then have "seen pre i (rows @ [row]) = seen pre i rows"
      by (auto simp: seen_def row fun_eq_iff)
    moreover have "as_of_version cs pre i row m = Inr m"
      using True by (simp add: row as_of_version_def)
    ultimately show ?thesis
      using m get by (simp add: rfold_append)
  next
    case False
    then obtain lk j where k: "k = pre @ lk @ encode_txn_id j"
        "take (length k - 8 - length pre) (drop (length pre) k) = lk" "drop (length k - 8) k = encode_txn_id j"
      using version_row_parts [of pre k] by auto
    obtain r where r: "decode_mvcc_record cs v = Inr r" "look k = v"
      using snoc.prems by (auto simp: row)
    have grown: "seen pre i (rows @ [row]) lk' = (if lk' = lk \<and> j \<le> i then insert j (seen pre i rows lk') else seen pre i rows lk')" for lk'
      by (auto simp: seen_def row k(1))
    have step: "as_of_version cs pre i row m =
        Inr (if i < j then m else if seen pre i rows lk = {} \<or> Max (seen pre i rows lk) < j then bt_insert lk (j, mvcc_value r) m else m)"
      unfolding as_of_version_def row prod.case k(2,3) using False by (simp add: r(1) get)
    have chosen: "?val lk j = mvcc_value r"
      using r by (simp add: k(1))
    show ?thesis
    proof (cases "i < j")
      case True
      then have "seen pre i (rows @ [row]) = seen pre i rows"
        by (auto simp: grown fun_eq_iff)
      with True show ?thesis
        using m get by (simp add: rfold_append step)
    next
      case le: False
      let ?S = "seen pre i rows lk"
      have Max: "Max (insert j ?S) = (if ?S = {} \<or> Max ?S < j then j else Max ?S)"
        by (cases "?S = {}") (simp_all add: Max_insert max.commute [of j] max_def not_le [symmetric] del: Max_less_iff)
      show ?thesis
        using m le by (auto simp: rfold_append step grown get Max chosen split: if_splits)
    qed
  qed
qed

lemma bt_range_keys: "k \<in> fst ` set (bt_range lo hi m) \<longleftrightarrow> in_range lo hi k \<and> bt_get m k \<noteq> None"
proof -
  have "k \<in> fst ` set (bt_range lo hi m) \<longleftrightarrow> (\<exists>v. (k, v) \<in> set (bt_range lo hi m))"
    by force
  then show ?thesis
    by (auto simp: bt_range_iff)
qed

lemma vkey_append: "vkey t (k @ l) = vkey t k @ l"
  by (simp add: vkey_def)

lemma as_of_map:
  assumes "past_node cs c node" and "sized_table t"
  obtains m where "rfold (as_of_version cs (vkey t tp) i) (bt_range (vkey t tp) (range_end (vkey t tp)) (node_store node TXN_MVCC_TABLE)) bt_empty = Inr m"
    and "\<And>lk. Option.bind (bt_get m lk) snd = as_of cs (node_store node) t (tp @ lk) i"
proof -
  let ?T = "node_store node TXN_MVCC_TABLE" and ?pre = "vkey t tp"
  let ?rows = "bt_range ?pre (range_end ?pre) ?T"
  have "\<forall>(k, v) \<in> set ?rows. the (bt_get ?T k) = v \<and> (\<exists>r. decode_mvcc_record cs v = Inr r)"
    using gc_readyD(3) [OF past_node_ready [OF assms(1)]] by (auto simp: bt_range_iff)
  from as_of_versions [OF this, of ?pre i] obtain m where m: "rfold (as_of_version cs ?pre i) ?rows bt_empty = Inr m"
    and get: "bt_get m lk = (if seen ?pre i ?rows lk = {} then None else Some (Max (seen ?pre i ?rows lk),
      mvcc_value (projr (decode_mvcc_record cs (the (bt_get ?T (?pre @ lk @ encode_txn_id (Max (seen ?pre i ?rows lk)))))))))" for lk
    by auto
  have vs: "seen ?pre i ?rows lk = {j \<in> versions_of (node_store node) t (tp @ lk). j \<le> i}" for lk
    by (auto simp: seen_def versions_of_def vkey_append bt_range_keys range_end_exact)
  show thesis
    by (intro that [OF m]) (auto simp: get vs as_of_def Let_def version_value_def vkey_append)
qed

section \<open>From versions to rows\<close>

lemma map_of_bt_range: "map_of (bt_range lo hi m) k = (if in_range lo hi k then bt_get m k else None)"
proof -
  have "map_of (filter (\<lambda>e. P (fst e)) es) k = (if P k then map_of es k else None)" for P and es :: "(bytes \<times> 'a) list"
    by (induction es) auto
  then show ?thesis
    by (simp add: bt_range_def bt_get_def)
qed

lemma decode_versioned_Somes:
  "rfold (decode_versioned_row env schema) stored rows = rfold (decode_versioned_row env schema) (map Some (List.map_filter id stored)) rows"
  by (induction stored arbitrary: rows)
    (auto simp: map_filter_simps decode_versioned_row_def [of env schema None] split: option.split intro!: rbind_cong)

lemma sorted_rows_Somes: "sorted_rows env schema stored = sorted_rows env schema (map Some (List.map_filter id stored))"
  unfolding sorted_rows_def using decode_versioned_Somes [of env schema stored "[]"] by (simp only:)

lemma ordered_map_filter:
  assumes "ordered_keys es" and "strict_mono f"
  shows "ordered_keys (List.map_filter (\<lambda>(k, x). map_option (Pair (f k)) (g x)) es)"
    and "map_of (List.map_filter (\<lambda>(k, x). map_option (Pair (f k)) (g x)) es) (f k) = Option.bind (map_of es k) g"
proof -
  have keys: "fst ` set (List.map_filter (\<lambda>(k, x). map_option (Pair (f k)) (g x)) es) \<subseteq> f ` fst ` set es" for es
    by (induction es) (auto simp: map_filter_simps split: option.split)
  show "ordered_keys (List.map_filter (\<lambda>(k, x). map_option (Pair (f k)) (g x)) es)"
    using assms(1) keys
    by (induction es) (fastforce simp: map_filter_simps strict_mono_less [OF assms(2)] split: option.split)+
  show "map_of (List.map_filter (\<lambda>(k, x). map_option (Pair (f k)) (g x)) es) (f k) = Option.bind (map_of es k) g"
    using assms(1)
  proof (induction es)
    case (Cons e es)
    then have "map_of es (fst e) = None"
      by (auto simp: map_of_eq_None_iff)
    with Cons show ?case
      using strict_mono_eq [OF assms(2)] by (cases e) (auto simp: map_filter_simps split: option.split)
  qed (simp add: map_filter_simps)
qed

lemma strict_mono_append: "strict_mono ((@) (xs :: bytes))"
  by (auto simp: strict_mono_def lex_append_same)

lemma map_entries_rows:
  fixes m :: "(bytes, txn_id \<times> bytes option) btm"
  assumes "\<And>lk. Option.bind (bt_get m lk) snd = bt_get rows (tp @ lk)"
  shows "List.map_filter id (map (\<lambda>(_, _, v). v) (bt_entries m)) = map snd (bt_range tp (range_end tp) rows)"
proof -
  let ?A = "List.map_filter (\<lambda>(k, x). map_option (Pair (tp @ k)) (snd x)) (bt_entries m)"
  note ordered = ordered_map_filter [OF bt_entries_ordered strict_mono_append, of tp snd m]
  have "?A = bt_range tp (range_end tp) rows"
  proof (rule ordered_map_of_inject)
    show "map_of ?A = map_of (bt_range tp (range_end tp) rows)"
    proof (rule ext)
      fix k
      have "map_of ?A k = None" if "\<not> prefix tp k"
        using that by (auto simp: map_of_eq_None_iff map_filter_def)
      then show "map_of ?A k = map_of (bt_range tp (range_end tp) rows) k"
        using ordered(2) by (auto simp: map_of_bt_range range_end_exact bt_get_def assms [unfolded bt_get_def] elim!: prefixE)
    qed
  qed (simp_all add: ordered)
  then have "map snd ?A = map snd (bt_range tp (range_end tp) rows)"
    by simp
  moreover have "map snd (List.map_filter (\<lambda>(k, x). map_option (Pair (tp @ k)) (snd x)) es) =
      List.map_filter id (map (\<lambda>(_, _, v). v) es)" for es :: "(bytes \<times> txn_id \<times> bytes option) list"
    by (induction es) (auto simp: map_filter_simps split: option.split)
  ultimately show ?thesis
    by (simp only:)
qed

text \<open>
  The rows of a table in a store, decoded, checked and sorted as the temporal reads do it: the
  specification says which rows are read, and takes the decoding and the sorting from the code.
\<close>

definition table_rows :: "temporal_env \<Rightarrow> store \<Rightarrow> string \<Rightarrow> table_schema \<Rightarrow> temporal_error + sql_row list" where
  "table_rows env s table schema =
     sorted_rows env schema
       (map (Some \<circ> snd) (bt_range (table_prefix table) (range_end (table_prefix table)) (s REL_ROWS_TABLE)))"

lemma rel_rows_public [simp]: "sized_table REL_ROWS_TABLE" "\<not> table_is_reserved REL_ROWS_TABLE"
  by (simp_all add: REL_ROWS_TABLE_def sized_table_def table_is_reserved_def RESERVED_KEYSPACE_PREFIX_def)

lemma rows_as_of_nodes:
  assumes nodes: "past_node (te_codecs env) c0 (fst (at 0))" "past_node (te_codecs env) c1 (fst (at 1))" "past_node (te_codecs env) c2 (fst (at 2))"
    and past: "horizon_of (node_store (fst (at 2))) \<le> lsn \<Longrightarrow>
      \<forall>key. as_of (te_codecs env) (node_store (fst (at 1))) REL_ROWS_TABLE key lsn = bt_get (s REL_ROWS_TABLE) key"
  shows "rows_as_of_lsn env (node_replication mem_engine_ops (te_codecs env) describe) at table schema lsn =
    (if lsn < horizon_of (node_store (fst (at 0))) then Inl (RetentionExpired lsn (horizon_of (node_store (fst (at 0)))))
     else if lsn < horizon_of (node_store (fst (at 2))) then Inl (RetentionExpired lsn (horizon_of (node_store (fst (at 2)))))
     else table_rows env s table schema)"
proof -
  let ?pre = "vkey REL_ROWS_TABLE (table_prefix table)" and ?rp = "node_replication mem_engine_ops (te_codecs env) describe"
  obtain m where m: "rfold (as_of_version (te_codecs env) ?pre lsn)
      (bt_range ?pre (range_end ?pre) (node_store (fst (at 1)) TXN_MVCC_TABLE)) bt_empty = Inr m"
    and get: "\<And>lk. Option.bind (bt_get m lk) snd = as_of (te_codecs env) (node_store (fst (at 1))) REL_ROWS_TABLE (table_prefix table @ lk) lsn"
    using as_of_map [OF nodes(2) rel_rows_public(1), of "table_prefix table" lsn] by blast
  have range: "rp_range ?rp (at 1) TXN_MVCC_TABLE ?pre (range_end ?pre) Strong =
      Inr (bt_range ?pre (range_end ?pre) (node_store (fst (at 1)) TXN_MVCC_TABLE))"
    using past_node_reads(2) [OF nodes(2)] by (simp add: node_replication_def)
  have "sorted_rows env schema (map (\<lambda>(_, _, v). v) (bt_entries m)) = table_rows env s table schema"
    if "horizon_of (node_store (fst (at 2))) \<le> lsn"
  proof -
    have "List.map_filter id (map (\<lambda>(_, _, v). v) (bt_entries m)) =
        map snd (bt_range (table_prefix table) (range_end (table_prefix table)) (s REL_ROWS_TABLE))"
      by (rule map_entries_rows) (simp add: get past [OF that] del: One_nat_def)
    then show ?thesis
      by (subst sorted_rows_Somes) (simp add: table_rows_def)
  qed
  then show ?thesis
    using ensure_on_node [OF nodes(1), of describe "snd (at 0)" lsn] ensure_on_node [OF nodes(3), of describe "snd (at 2)" lsn]
    by (simp add: rows_as_of_lsn_def range m del: One_nat_def)
qed

text \<open>
  C4. Reads as of a commit are exact while commits and collections go on. After any sequence of
  commits and collector batches on a node, let \<open>c\<close> be its current transaction id. Whatever
  commits and batches follow, also between the three reads of one call, \<open>rows_as_of_lsn\<close> at
  \<open>c\<close> either reports that the history horizon has passed \<open>c\<close>, or returns exactly the rows the
  table had when \<open>c\<close> was current.
\<close>

theorem as_of_reads_the_past:
  assumes "codecs_ok (te_codecs env)" and "\<forall>ev \<in> set (evs @ concat gaps). sized_event ev"
    and "now = (\<lambda>evs. fold (history_step (te_codecs env)) evs (sn_new mem_new))"
    and "at = (\<lambda>i. (now (evs @ concat (take (Suc i) gaps)), ck))"
    and "current_txn_id mem_engine_ops (sn_storage (now evs)) = Inr c"
  shows "rows_as_of_lsn env (node_replication mem_engine_ops (te_codecs env) describe) at table schema c =
    (if c < horizon_of (node_store (fst (at 0))) then Inl (RetentionExpired c (horizon_of (node_store (fst (at 0)))))
     else if c < horizon_of (node_store (fst (at 2))) then Inl (RetentionExpired c (horizon_of (node_store (fst (at 2)))))
     else table_rows env (node_store (now evs)) table schema)"
proof -
  let ?cs = "te_codecs env"
  obtain c0 where c0: "past_node ?cs c0 (now evs)"
    using history_run [OF assms(1) past_node_new, of evs] assms(2,3) by auto
  then have store: "txn_wf ?cs c0 (node_store (now evs))" "history_ok ?cs (node_store (now evs))" "mem_healthy (sn_storage (now evs))"
    by (simp_all add: past_node_def past_ok_def)
  have "c = c0"
    using assms(5) mem.current_txn_id_eq [OF store(3)] txn_wfD(1) [OF store(1)] by simp
  have run: "\<exists>c' \<ge> c. past_node ?cs c' (fst (at i)) \<and> past_kept ?cs c (node_store (now evs)) (node_store (fst (at i)))" for i
  proof -
    have "\<forall>ev \<in> set (concat (take (Suc i) gaps)). sized_event ev"
      using assms(2) set_take_subset [of "Suc i" gaps] by auto
    then show ?thesis
      using history_run [OF assms(1) c0, of "concat (take (Suc i) gaps)"] by (simp add: assms(3,4) \<open>c = c0\<close>)
  qed
  have horizons: "horizon_of (node_store (fst (at 1))) \<le> horizon_of (node_store (fst (at 2)))"
  proof -
    obtain c1 where c1: "past_node ?cs c1 (fst (at 1))"
      using run by blast
    have "take 3 gaps = take 2 gaps @ take 1 (drop 2 gaps)"
      by (simp add: take_add [symmetric])
    then have "fst (at 2) = fold (history_step ?cs) (concat (take 1 (drop 2 gaps))) (fst (at 1))"
      by (simp add: assms(3,4) numeral_2_eq_2 numeral_3_eq_3)
    moreover have "\<forall>ev \<in> set (concat (take 1 (drop 2 gaps))). sized_event ev"
      using assms(2) set_take_subset [of 1 "drop 2 gaps"] set_drop_subset [of 2 gaps] by auto
    ultimately show ?thesis
      using history_run [OF assms(1) c1, of "concat (take 1 (drop 2 gaps))"] unfolding past_kept_def by metis
  qed
  have "as_of ?cs (node_store (fst (at 1))) REL_ROWS_TABLE key c = bt_get (node_store (now evs) REL_ROWS_TABLE) key"
    if "horizon_of (node_store (fst (at 2))) \<le> c" for key
    using run [of 1] order_trans [OF horizons that] as_of_current [OF store(1,2) rel_rows_public(2,1), of key]
    by (auto simp: past_kept_def \<open>c = c0\<close>)
  then show ?thesis
    using run [of 0] run [of 1] run [of 2] rows_as_of_nodes by blast
qed

section \<open>A table with one row\<close>

definition demo_row :: bytes where
  "demo_row = VALUE_MAGIC @ [VALUE_FORMAT_V1, TAG_ARRAY] @ u64_to_be 1 @ [TAG_BOOL, 1]"

definition demo_temporal :: temporal_env where
  "demo_temporal = \<lparr>te_codecs = demo_codecs, te_libs = demo_libs, te_debug = (\<lambda>_. [])\<rparr>"

definition demo_schema :: table_schema where
  "demo_schema = \<lparr>ts_columns = [column_def_new ''a'' CBool False], ts_primary_key = 0\<rparr>"

definition demo_row_writes :: "bytes option \<Rightarrow> write_set" where
  "demo_row_writes v = bt_insert (REL_ROWS_TABLE, table_prefix ''t'' @ [1]) v bt_empty"

lemma demo_row_decodes: "decode_value demo_libs demo_row = Inr (VArray [VBool True])"
proof -
  have "encode_value_with_limits default_limits (VArray [VBool True]) = Inr demo_row"
    by (simp add: encode_value_with_limits_def encode_value_payload.simps encode_len_def ensure_encoded_size_def
        default_limits_def demo_row_def)
  moreover have "value_wf (VArray [VBool True])" "max_document_bytes default_limits \<le> usize_max"
    by (simp_all add: default_limits_def usize_max_def)
  ultimately show ?thesis
    unfolding decode_value_def using decode_encoded [of "VArray [VBool True]" default_limits demo_row demo_libs] by simp
qed

lemma demo_row_writes_facts:
  "sized_set (demo_row_writes v)" "public_set (demo_row_writes v)" "\<not> bt_is_empty (demo_row_writes v)"
  "\<not> commit_refused (\<lambda>_. bt_empty) 0 (demo_row_writes v)"
  using rel_rows_public
  by (auto simp: demo_row_writes_def sized_set_def public_set_def commit_refused_def row_locked_def row_version_def
      last_key_version_def)

lemma demo_table:
  defines "node \<equiv> history_step demo_codecs (HCommit demo_clocks 0 (demo_row_writes (Some demo_row))) (sn_new mem_new)"
  shows "past_node demo_codecs 1 node" and "horizon_of (node_store node) = 0"
    and "current_txn_id mem_engine_ops (sn_storage node) = Inr 1"
    and "node_store node REL_ROWS_TABLE = bt_insert (table_prefix ''t'' @ [1]) demo_row bt_empty"
proof -
  let ?ws = "demo_row_writes (Some demo_row)"
  have empty: "node_store (sn_new mem_new) = (\<lambda>_. bt_empty)"
    by (simp add: sn_new_def sn_with_group_commit_window_def mem_new_facts)
  have store: "node_store node = commit_store demo_codecs (next_record demo_codecs demo_clocks 0 ?ws (\<lambda>_. bt_empty)) (\<lambda>_. bt_empty)"
    using commit_write_set_store [OF demo_codecs_ok empty_store_wf(1) demo_row_writes_facts(1-3), of demo_clocks 0 "Some demo_row"]
      demo_row_writes_facts(4) [of "Some demo_row"]
    by (simp add: node_def commit_on_node_store(3) [OF past_node_new] empty)
  obtain c where c: "past_node demo_codecs c node"
    using history_step_inv [OF demo_codecs_ok past_node_new, of "HCommit demo_clocks 0 ?ws"] demo_row_writes_facts(1) by (auto simp: node_def)
  then have wf: "txn_wf demo_codecs c (node_store node)" "mem_healthy (sn_storage node)"
    by (simp_all add: past_node_def past_ok_def)
  have "c = 1"
    using txn_wfD(1) [OF wf(1)] current_after [OF public_separate [OF demo_row_writes_facts(2)]] by (simp add: store)
  then show "past_node demo_codecs 1 node" "current_txn_id mem_engine_ops (sn_storage node) = Inr 1"
    using c mem.current_txn_id_eq [OF wf(2)] txn_wfD(1) [OF wf(1)] by simp_all
  show "horizon_of (node_store node) = 0"
    using horizon_after [OF demo_row_writes_facts(2)] by (simp add: store meta_value_def)
  show "node_store node REL_ROWS_TABLE = bt_insert (table_prefix ''t'' @ [1]) demo_row bt_empty"
    unfolding store using meta_table_reserved [of REL_ROWS_TABLE] rel_rows_public(2)
    by (intro bt_eqI, subst rows_after) (auto simp: demo_row_writes_def REL_ROWS_TABLE_def TXN_META_TABLE_def)
qed

theorem as_of_reads_the_past_witness:
  "rows_as_of_lsn demo_temporal (node_replication mem_engine_ops demo_codecs (\<lambda>_. []))
     (\<lambda>i. (fold (history_step demo_codecs)
        ([HCommit demo_clocks 0 (demo_row_writes (Some demo_row))] @
         concat (take (Suc i) [[], [HCommit demo_clocks 1 (demo_row_writes None)]])) (sn_new mem_new), \<lambda>_. demo_clocks))
     ''t'' demo_schema 1 = Inr [[VBool True]]"
proof -
  let ?node = "history_step demo_codecs (HCommit demo_clocks 0 (demo_row_writes (Some demo_row))) (sn_new mem_new)"
  have "horizon_of (node_store (history_step demo_codecs (HCommit demo_clocks 1 (demo_row_writes None)) ?node)) = 0"
    using commit_on_node_horizon [OF demo_codecs_ok demo_table(1) demo_row_writes_facts(1)] demo_table(2) by simp
  moreover have "table_rows demo_temporal (node_store ?node) ''t'' demo_schema = Inr [[VBool True]]"
    unfolding table_rows_def demo_table(4)
    by (simp add: bt_range_def range_end_exact sorted_rows_def decode_versioned_row_def demo_temporal_def
        decode_row_bytes_def decode_row_def demo_row_decodes validate_temporal_row_def demo_schema_def)
  moreover have "\<forall>ev \<in> set ([HCommit demo_clocks 0 (demo_row_writes (Some demo_row))] @
      concat [[], [HCommit demo_clocks 1 (demo_row_writes None)]]). sized_event ev"
    by (simp add: demo_row_writes_facts(1))
  ultimately show ?thesis
    using as_of_reads_the_past [of demo_temporal "[HCommit demo_clocks 0 (demo_row_writes (Some demo_row))]"
        "[[], [HCommit demo_clocks 1 (demo_row_writes None)]]" _ _ "\<lambda>_. demo_clocks" 1 "\<lambda>_. []" "''t''" demo_schema, OF _ _ refl refl]
      demo_codecs_ok demo_table(2,3)
    by (simp add: demo_temporal_def)
qed

end
