(* ===== verification/Db_History.thy ===== *)
theory Db_History
  imports Temporal_Facts
begin

text \<open>
  The history collector of a database, from \<open>src/db/history.rs\<close>: how far it may go, given the
  reads that are pinned, the tables that keep their history and the consumers of the commit log;
  its loop over batches, between which other threads commit; its report; and the pins of
  readers of the past.
\<close>

section \<open>Options, reports and errors\<close>

record history_gc_options =
  go_dry_run :: bool
  go_batch_size :: nat
  go_max_batches :: "nat option"
  go_mvcc_retain_lsns :: "u64 option"
  go_commit_log_retain_lsns :: "u64 option"

definition default_gc_options :: history_gc_options where
  "default_gc_options = \<lparr>go_dry_run = False, go_batch_size = DEFAULT_HISTORY_GC_BATCH_SIZE, go_max_batches = None,
     go_mvcc_retain_lsns = None, go_commit_log_retain_lsns = None\<rparr>"

datatype history_watermark_source =
    CurrentLsn
  | AsOfPin
  | TemporalRetention string
  | MvccRetainLsns
  | RetainLsns
  | MvccCursor
  | SubscriptionSource string
  | ContinuousQuerySource string
  | MaterializedViewSource string
  | FullTextIndexSource string
  | GeoIndexSource string

record history_gc_report =
  gr_dry_run :: bool
  gr_current_lsn :: txn_id
  gr_watermark :: txn_id
  gr_limited_by :: history_watermark_source
  gr_history_horizon :: txn_id
  gr_mvcc_cursor :: txn_id
  gr_commit_log_floor :: txn_id
  gr_commit_log_floor_target :: "txn_id option"
  gr_commit_log_limited_by :: "history_watermark_source option"
  gr_batches :: u64
  gr_mvcc_versions_pruned :: u64
  gr_commit_log_records_pruned :: u64
  gr_pending_commits :: u64
  gr_pending_commit_log_records :: u64
  gr_complete :: bool
  gr_note :: "string option"

text \<open>The errors this code can raise, among those of the database and of its indexes.\<close>

datatype text_error = XRepl repl_error | XInvalidConfig string | XSerde string

datatype geo_error = GRepl repl_error | GInvalidPoint string | GSerde string

datatype db_error =
    DUnsupportedConfig string
  | DText text_error
  | DGeo geo_error
  | DTemporal temporal_error
  | DRepl repl_error
  | DStorage storage_error
  | DSerde string

section \<open>The part of a database the collector uses\<close>

text \<open>Of the catalog entries, the contents the collector reads: the names of the indexes, and the temporal tables.\<close>

datatype catalog_entry =
    CatTable
  | CatCollection
  | CatVector
  | CatFullTextIndex string
  | CatTimeSeries
  | CatGraph
  | CatGeoIndex string
  | CatForeignTable
  | CatMaterializedView
  | CatTemporalTable string table_schema temporal_retention
  | CatTensorDataset

datatype 'db database_repl = SingleNodeRepl "'db single_node" | CpRaftRepl | ApDynamoRepl | ShardedRepl

record 'db history_db =
  hd_repl :: "'db database_repl"
  hd_catalog :: "(string, catalog_entry) btm"
  hd_pins :: active_snapshot_registry
  hd_pins_poisoned :: bool

text \<open>
  What the decoders of the durable consumer positions give: the name and the last acknowledged id
  of a subscription and of a continuous query, the freshness of a view, the position of an index.
\<close>

record consumer_libs =
  cl_subscription :: "bytes \<Rightarrow> string + string \<times> txn_id"
  cl_continuous_query :: "bytes \<Rightarrow> string + string \<times> txn_id"
  cl_view_freshness :: "bytes \<Rightarrow> string + txn_id"
  cl_text_state :: "bytes \<Rightarrow> string + txn_id"
  cl_geo_state :: "bytes \<Rightarrow> string + txn_id"
  cl_utf8_error :: "bytes \<Rightarrow> string"

definition CDC_SUBSCRIPTIONS_TABLE :: string where "CDC_SUBSCRIPTIONS_TABLE = ''__cdc_subscriptions''"
definition MATERIALIZED_VIEWS_TABLE :: string where "MATERIALIZED_VIEWS_TABLE = ''__materialized_views''"
definition MATERIALIZED_VIEW_STATE_TABLE :: string where "MATERIALIZED_VIEW_STATE_TABLE = ''__materialized_view_state''"
definition CONTINUOUS_QUERY_STATE_TABLE :: string where "CONTINUOUS_QUERY_STATE_TABLE = ''__continuous_query_state''"
definition FULL_TEXT_META_TABLE :: string where "FULL_TEXT_META_TABLE = ''__full_text_meta''"
definition GEO_META_TABLE :: string where "GEO_META_TABLE = ''__geo_meta''"

section \<open>How far the versions may be pruned\<close>

record mvcc_watermark =
  mw_current :: txn_id
  mw_lsn :: txn_id
  mw_limited_by :: history_watermark_source

definition limit_watermark :: "txn_id \<Rightarrow> history_watermark_source \<Rightarrow> mvcc_watermark \<Rightarrow> mvcc_watermark" where
  "limit_watermark lsn by w = (if lsn < mw_lsn w then w\<lparr>mw_lsn := lsn, mw_limited_by := by\<rparr> else w)"

fun limit_by_entry :: "catalog_entry \<Rightarrow> mvcc_watermark \<Rightarrow> mvcc_watermark" where
  "limit_by_entry (CatTemporalTable base_table schema retention) w =
     (if rt_keep_history retention then limit_watermark (rt_min_lsn retention) (TemporalRetention base_table) w else w)"
| "limit_by_entry _ w = w"

definition compute_watermark ::
  "('db, 't) engine_ops \<Rightarrow> (string, catalog_entry) btm \<Rightarrow> 'db single_node \<Rightarrow> u64 option \<Rightarrow> active_snapshot_registry \<Rightarrow>
   db_error + mvcc_watermark" where
  "compute_watermark eng catalog node retain_lsns pins =
     rbind (map_err DStorage (sn_current_txn_id eng node)) (\<lambda>current.
       let pinned = watermark pins current;
           w = limit_watermark pinned AsOfPin \<lparr>mw_current = current, mw_lsn = current, mw_limited_by = CurrentLsn\<rparr>;
           w = fold limit_by_entry (map snd (bt_entries catalog)) w
       in Inr (case retain_lsns of
                 None \<Rightarrow> w
               | Some retain \<Rightarrow> limit_watermark (saturating_sub (saturating_add current 1) retain) MvccRetainLsns w))"

section \<open>How far the commit log may be truncated\<close>

record floor_limit =
  fl_lsn :: txn_id
  fl_limited_by :: history_watermark_source

definition limit_floor :: "txn_id \<Rightarrow> history_watermark_source \<Rightarrow> floor_limit \<Rightarrow> floor_limit" where
  "limit_floor lsn by target = (if lsn < fl_lsn target then \<lparr>fl_lsn = lsn, fl_limited_by = by\<rparr> else target)"

definition decode_consumer_state :: "(bytes \<Rightarrow> string + 'a) \<Rightarrow> bytes \<Rightarrow> string \<Rightarrow> db_error + 'a" where
  "decode_consumer_state decode bs kind = map_err (\<lambda>e. DSerde (kind @ '' state: '' @ e)) (decode bs)"

definition meta_state_key :: "string \<Rightarrow> bytes" where
  "meta_state_key index = as_bytes ''state:'' @ as_bytes index"

definition full_text_refreshed_to ::
  "('db, 't) engine_ops \<Rightarrow> consumer_libs \<Rightarrow> 'db single_node \<Rightarrow> string \<Rightarrow> text_error + txn_id option" where
  "full_text_refreshed_to eng libs node index =
     (if index = [] then Inl (XInvalidConfig ''index name cannot be empty'')
      else rbind (map_err XRepl (sn_read eng node FULL_TEXT_META_TABLE (meta_state_key index) Strong))
        (opt_transpose (\<lambda>bs. map_err XSerde (cl_text_state libs bs))))"

definition geo_refreshed_to ::
  "('db, 't) engine_ops \<Rightarrow> consumer_libs \<Rightarrow> 'db single_node \<Rightarrow> string \<Rightarrow> geo_error + txn_id option" where
  "geo_refreshed_to eng libs node index =
     (if index = [] then Inl (GInvalidPoint ''index name cannot be empty'')
      else rbind (map_err GRepl (sn_read eng node GEO_META_TABLE (meta_state_key index) Strong))
        (opt_transpose (\<lambda>bs. map_err GSerde (cl_geo_state libs bs))))"

definition limit_floor_by_entry ::
  "('db, 't) engine_ops \<Rightarrow> consumer_libs \<Rightarrow> 'db single_node \<Rightarrow> string \<times> catalog_entry \<Rightarrow> floor_limit \<Rightarrow> db_error + floor_limit" where
  "limit_floor_by_entry eng libs node e target =
     (case e of
        (name, CatFullTextIndex index) \<Rightarrow>
          rbind (map_err DText (full_text_refreshed_to eng libs node index)) (\<lambda>refreshed.
            Inr (limit_floor (saturating_add (case_option 0 id refreshed) 1) (FullTextIndexSource name) target))
      | (name, CatGeoIndex index) \<Rightarrow>
          rbind (map_err DGeo (geo_refreshed_to eng libs node index)) (\<lambda>refreshed.
            Inr (limit_floor (saturating_add (case_option 0 id refreshed) 1) (GeoIndexSource name) target))
      | _ \<Rightarrow> Inr target)"

definition limit_floor_by_derived_indexes ::
  "('db, 't) engine_ops \<Rightarrow> consumer_libs \<Rightarrow> (string, catalog_entry) btm \<Rightarrow> 'db single_node \<Rightarrow> floor_limit \<Rightarrow>
   db_error + floor_limit" where
  "limit_floor_by_derived_indexes eng libs catalog node target =
     rfold (limit_floor_by_entry eng libs node) (bt_entries catalog) target"

definition limit_by_subscription :: "consumer_libs \<Rightarrow> row \<Rightarrow> floor_limit \<Rightarrow> db_error + floor_limit" where
  "limit_by_subscription libs r target =
     rbind (decode_consumer_state (cl_subscription libs) (snd r) ''subscription'') (\<lambda>(name, last_ack).
       Inr (limit_floor (saturating_add last_ack 1) (SubscriptionSource name) target))"

definition limit_by_continuous_query :: "consumer_libs \<Rightarrow> row \<Rightarrow> floor_limit \<Rightarrow> db_error + floor_limit" where
  "limit_by_continuous_query libs r target =
     rbind (decode_consumer_state (cl_continuous_query libs) (snd r) ''continuous query'') (\<lambda>(name, last_ack).
       Inr (limit_floor (saturating_add last_ack 1) (ContinuousQuerySource name) target))"

definition limit_by_view ::
  "('db, 't) engine_ops \<Rightarrow> consumer_libs \<Rightarrow> 'db single_node \<Rightarrow> row \<Rightarrow> floor_limit \<Rightarrow> db_error + floor_limit" where
  "limit_by_view eng libs node r target =
     rbind (map_err DRepl (sn_read eng node MATERIALIZED_VIEW_STATE_TABLE (fst r) Strong)) (\<lambda>found.
     rbind (opt_transpose (\<lambda>bs. decode_consumer_state (cl_view_freshness libs) bs ''materialized view'') found) (\<lambda>fresh.
     rbind (map_err (\<lambda>e. DSerde (''materialized view name: '' @ e)) (from_utf8 (cl_utf8_error libs) (fst r))) (\<lambda>name.
       Inr (limit_floor (saturating_add (case_option 0 id fresh) 1) (MaterializedViewSource name) target))))"

definition commit_log_floor_target ::
  "('db, 't) engine_ops \<Rightarrow> consumer_libs \<Rightarrow> (string, catalog_entry) btm \<Rightarrow> 'db single_node \<Rightarrow> mvcc_watermark \<Rightarrow> u64 \<Rightarrow>
   db_error + floor_limit" where
  "commit_log_floor_target eng libs catalog node w retain =
     (let target = \<lparr>fl_lsn = max (saturating_sub (saturating_add (mw_current w) 1) retain) 1, fl_limited_by = RetainLsns\<rparr>;
          target = limit_floor (mw_lsn w) (mw_limited_by w) target
      in rbind (map_err DRepl (sn_range eng node CDC_SUBSCRIPTIONS_TABLE [] [] Strong)) (\<lambda>rows.
         rbind (rfold (limit_by_subscription libs) rows target) (\<lambda>target.
         rbind (map_err DRepl (sn_range eng node CONTINUOUS_QUERY_STATE_TABLE [] [] Strong)) (\<lambda>rows.
         rbind (rfold (limit_by_continuous_query libs) rows target) (\<lambda>target.
         rbind (map_err DRepl (sn_range eng node MATERIALIZED_VIEWS_TABLE [] [] Strong)) (\<lambda>rows.
         rbind (rfold (limit_by_view eng libs node) rows target) (\<lambda>target.
           limit_floor_by_derived_indexes eng libs catalog node target)))))))"

section \<open>The loop over batches\<close>

record history_gc_progress =
  pg_batches :: u64
  pg_mvcc_versions_pruned :: u64
  pg_commit_log_records_pruned :: u64

definition no_progress :: history_gc_progress where
  "no_progress = \<lparr>pg_batches = 0, pg_mvcc_versions_pruned = 0, pg_commit_log_records_pruned = 0\<rparr>"

definition add_outcome :: "history_gc_batch_outcome \<Rightarrow> history_gc_progress \<Rightarrow> history_gc_progress" where
  "add_outcome outcome progress =
     \<lparr>pg_batches = (if ho_changed outcome then saturating_add (pg_batches progress) 1 else pg_batches progress),
      pg_mvcc_versions_pruned = saturating_add (pg_mvcc_versions_pruned progress) (ho_mvcc_versions_pruned outcome),
      pg_commit_log_records_pruned = saturating_add (pg_commit_log_records_pruned progress) (ho_commit_log_records_pruned outcome)\<rparr>"

text \<open>
  Every batch takes the commit lock anew: \<open>others k\<close> is what other threads do to the node before
  the batch number \<open>k\<close>. A run that does not end has no result.
\<close>

partial_function (option) run_history_gc_batches ::
  "('db, 't) engine_ops \<Rightarrow> codecs \<Rightarrow> (nat \<Rightarrow> 'db single_node \<Rightarrow> 'db single_node) \<Rightarrow> history_gc_batch_plan \<Rightarrow> nat option \<Rightarrow>
   nat \<Rightarrow> 'db single_node \<Rightarrow> history_gc_progress \<Rightarrow> ('db single_node \<times> history_gc_progress \<times> (db_error + unit)) option" where
  "run_history_gc_batches eng cs others plan max_batches executed node progress =
     (if (case max_batches of None \<Rightarrow> False | Some m \<Rightarrow> m \<le> executed) then Some (node, progress, Inr ())
      else case gc_batch_write eng cs plan (others executed node) of
             (node, Inl e) \<Rightarrow> Some (node, progress, Inl (DStorage e))
           | (node, Inr outcome) \<Rightarrow>
               (if ho_done outcome \<or> \<not> ho_changed outcome then Some (node, add_outcome outcome progress, Inr ())
                else run_history_gc_batches eng cs others plan max_batches (usize_saturating_add executed 1) node
                       (add_outcome outcome progress)))"

section \<open>A run of the collector\<close>

definition current_watermark_note :: "mvcc_watermark \<Rightarrow> bool \<Rightarrow> string option" where
  "current_watermark_note w retain_requested =
     (if \<not> retain_requested \<and> mw_lsn w = mw_current w \<and> 0 < mw_current w
      then Some (''watermark is the current LSN '' @ show_nat (unat (mw_current w)) @
        '': AS OF history below it is removed for every table without temporal keep_history retention; set mvcc_retain_lsns (CLI --history-retain-lsns) to keep recent AS OF history'')
      else None)"

definition gc_report ::
  "history_gc_options \<Rightarrow> mvcc_watermark \<Rightarrow> floor_limit option \<Rightarrow> history_gc_progress \<Rightarrow> history_gc_state \<Rightarrow> history_gc_report" where
  "gc_report options w target progress state =
     (let target_lsn = map_option fl_lsn target;
          pending_commits = saturating_sub (mw_lsn w) (hs_mvcc_cursor state);
          pending_records = (case target_lsn of None \<Rightarrow> 0 | Some t \<Rightarrow> saturating_sub t (hs_commit_log_floor state))
      in \<lparr>gr_dry_run = go_dry_run options, gr_current_lsn = mw_current w, gr_watermark = mw_lsn w,
          gr_limited_by = mw_limited_by w, gr_history_horizon = hs_history_horizon state,
          gr_mvcc_cursor = hs_mvcc_cursor state, gr_commit_log_floor = hs_commit_log_floor state,
          gr_commit_log_floor_target = target_lsn,
          gr_commit_log_limited_by = map_option (\<lambda>t.
            if \<not> go_dry_run options \<and> saturating_add (hs_mvcc_cursor state) 1 < fl_lsn t then MvccCursor else fl_limited_by t) target,
          gr_batches = pg_batches progress, gr_mvcc_versions_pruned = pg_mvcc_versions_pruned progress,
          gr_commit_log_records_pruned = pg_commit_log_records_pruned progress,
          gr_pending_commits = pending_commits, gr_pending_commit_log_records = pending_records,
          gr_complete = (pending_commits = 0 \<and> pending_records = 0),
          gr_note = current_watermark_note w (go_mvcc_retain_lsns options \<noteq> None)\<rparr>)"

definition gc_bounds ::
  "('db, 't) engine_ops \<Rightarrow> consumer_libs \<Rightarrow> history_gc_options \<Rightarrow> 'db history_db \<Rightarrow> 'db single_node \<Rightarrow>
   db_error + mvcc_watermark \<times> floor_limit option" where
  "gc_bounds eng libs options db node =
     (if hd_pins_poisoned db then Inl (DStorage (Backend ''history retention registry poisoned''))
      else rbind (compute_watermark eng (hd_catalog db) node (go_mvcc_retain_lsns options) (hd_pins db)) (\<lambda>w.
           rbind (opt_transpose (commit_log_floor_target eng libs (hd_catalog db) node w) (go_commit_log_retain_lsns options)) (\<lambda>target.
             Inr (w, target))))"

definition run_history_gc ::
  "('db, 't) engine_ops \<Rightarrow> codecs \<Rightarrow> consumer_libs \<Rightarrow> (nat \<Rightarrow> 'db single_node \<Rightarrow> 'db single_node) \<Rightarrow> history_gc_options \<Rightarrow>
   'db history_db \<Rightarrow> ('db history_db \<times> (db_error + history_gc_report)) option" where
  "run_history_gc eng cs libs others options db =
     (case hd_repl db of
        SingleNodeRepl node \<Rightarrow>
          if go_mvcc_retain_lsns options = Some 0
          then Some (db, Inl (DUnsupportedConfig ''mvcc_retain_lsns must be at least 1; leave it unset to prune up to the current LSN''))
          else if go_commit_log_retain_lsns options = Some 0
          then Some (db, Inl (DUnsupportedConfig ''commit_log_retain_lsns must be at least 1; leave it unset to keep the whole commit log''))
          else (case gc_bounds eng libs options db node of
                  Inl e \<Rightarrow> Some (db, Inl e)
                | Inr (w, target) \<Rightarrow>
                    Option.bind
                      (if go_dry_run options then Some (node, no_progress, Inr ())
                       else run_history_gc_batches eng cs others
                              (plan_new (mw_lsn w) (go_batch_size options) (map_option fl_lsn target))
                              (go_max_batches options) 0 node no_progress)
                      (\<lambda>(node, progress, finished).
                        Some (db\<lparr>hd_repl := SingleNodeRepl node\<rparr>,
                          rbind finished (\<lambda>_.
                          rbind (map_err DStorage (rbind (e_begin_read eng (sn_storage node)) read_history_gc_state)) (\<lambda>state.
                            Inr (gc_report options w target progress state))))))
      | _ \<Rightarrow> Some (db, Inl (DUnsupportedConfig ''history GC is only supported on local single-node databases'')))"

text \<open>The metrics that \<open>gc_history\<close> records are left out; it answers with the result of the run.\<close>

definition gc_history ::
  "('db, 't) engine_ops \<Rightarrow> codecs \<Rightarrow> consumer_libs \<Rightarrow> (nat \<Rightarrow> 'db single_node \<Rightarrow> 'db single_node) \<Rightarrow> history_gc_options \<Rightarrow>
   'db history_db \<Rightarrow> ('db history_db \<times> (db_error + history_gc_report)) option" where
  "gc_history eng cs libs others options db = run_history_gc eng cs libs others options db"

definition gc_history_online ::
  "('db, 't) engine_ops \<Rightarrow> codecs \<Rightarrow> consumer_libs \<Rightarrow> (nat \<Rightarrow> 'db single_node \<Rightarrow> 'db single_node) \<Rightarrow> history_gc_options \<Rightarrow>
   'db history_db \<Rightarrow> ('db history_db \<times> (db_error + history_gc_report)) option" where
  "gc_history_online eng cs libs others options db =
     (if go_mvcc_retain_lsns options \<in> {None, Some 0} \<or> go_max_batches options \<in> {None, Some 0} \<or> go_batch_size options = 0
      then Some (db, Inl (DUnsupportedConfig ''online history GC requires positive mvcc_retain_lsns, batch_size and max_batches''))
      else if go_commit_log_retain_lsns options \<noteq> None
      then Some (db, Inl (DUnsupportedConfig ''online history GC cannot truncate the commit log; use offline maintenance''))
      else gc_history eng cs libs others options db)"

section \<open>Pins\<close>

text \<open>
  A pin is taken before the horizon is read, so that the collector cannot pass it in between; it is
  released when the guard is dropped, also when the read of the horizon fails.
\<close>

definition pin_history_lsn :: "'n replication \<Rightarrow> 'n \<Rightarrow> txn_id \<Rightarrow> 'db history_db \<Rightarrow> 'db history_db \<times> (db_error + txn_id)" where
  "pin_history_lsn rp n lsn db =
     (let db = db\<lparr>hd_pins := pin_retention_lsn lsn (hd_pins db)\<rparr>;
          released = db\<lparr>hd_pins := unpin_retention_lsn lsn (hd_pins db)\<rparr>
      in case history_horizon rp n of
           Inl e \<Rightarrow> (released, Inl (DRepl e))
         | Inr horizon \<Rightarrow>
             (if lsn < horizon then (released, Inl (DTemporal (RetentionExpired lsn horizon))) else (db, Inr lsn)))"

definition drop_history_pin :: "txn_id \<Rightarrow> 'db history_db \<Rightarrow> 'db history_db" where
  "drop_history_pin lsn db = db\<lparr>hd_pins := unpin_retention_lsn lsn (hd_pins db)\<rparr>"

definition ensure_retention_above_history_horizon :: "'n replication \<Rightarrow> 'n \<Rightarrow> txn_id \<Rightarrow> db_error + unit" where
  "ensure_retention_above_history_horizon rp n min_lsn =
     rbind (map_err DRepl (history_horizon rp n)) (\<lambda>horizon.
       if min_lsn < horizon then Inl (DTemporal (RetentionExpired min_lsn horizon)) else Inr ())"

end
