(* ===== verification/Db_History_Facts.thy ===== *)
theory Db_History_Facts
  imports Db_History
begin

text \<open>
  The collector of a database comes to an end, finishes its work when no batch limit is given,
  and never passes what readers and temporal tables hold, while other threads go on committing.
\<close>

section \<open>The loop ends\<close>

text \<open>What other threads do before each batch: commits, and batches of other collectors.\<close>

definition threads :: "codecs \<Rightarrow> (nat \<Rightarrow> history_event list) \<Rightarrow> nat \<Rightarrow> mem_engine single_node \<Rightarrow> mem_engine single_node" where
  "threads cs evs k node = fold (history_step cs) (evs k) node"

fun is_commit :: "history_event \<Rightarrow> bool" where
  "is_commit (HCommit ck snap ws) = True"
| "is_commit (HCollect bound n target) = False"

lemma gc_kept:
  assumes "gc_keeps cs s s'" and "gc_moves plan s s'"
  shows "past_kept cs c s s'"
  using assms(2) gc_keepsD(5,6) [OF assms(1)] by (simp add: past_kept_def gc_moves_def)

lemma gc_work_kept:
  assumes "past_kept cs c s s'"
  shows "gc_work plan s' \<le> gc_work plan s"
  using assms by (auto simp: past_kept_def gc_work_def word_le_nat_alt split: option.split intro!: add_mono diff_le_mono2)

lemma commits_keep_horizon:
  assumes "codecs_ok cs" and "past_node cs c node" and "\<forall>ev \<in> set evs. sized_event ev \<and> is_commit ev"
  shows "horizon_of (node_store (fold (history_step cs) evs node)) = horizon_of (node_store node)"
  using assms(2,3)
proof (induction evs arbitrary: c node)
  case (Cons ev evs)
  then obtain ck snap ws where ev: "ev = HCommit ck snap ws" "sized_set ws"
    by (cases ev) auto
  obtain c' where "past_node cs c' (history_step cs ev node)"
    using history_step_inv [OF assms(1) Cons.prems(1)] Cons.prems(2) by auto
  from Cons.IH [OF this] Cons.prems(2) show ?case
    using commit_on_node_horizon [OF assms(1) Cons.prems(1) ev(2)] by (simp add: ev(1))
qed simp

text \<open>What holds between two states of a node during a run of the collector.\<close>

definition gc_run :: "codecs \<Rightarrow> (nat \<Rightarrow> history_event list) \<Rightarrow> txn_id \<Rightarrow> txn_id \<Rightarrow> mem_engine single_node \<Rightarrow> mem_engine single_node \<Rightarrow> bool" where
  "gc_run cs evs bound c node node' \<longleftrightarrow>
     (\<exists>c' \<ge> c. past_node cs c' node') \<and> past_kept cs c (node_store node) (node_store node') \<and>
     ((\<forall>k. \<forall>ev \<in> set (evs k). is_commit ev) \<longrightarrow> horizon_of (node_store node') \<le> max (horizon_of (node_store node)) bound)"

lemma gc_run_refl: "past_node cs c node \<Longrightarrow> gc_run cs evs bound c node node"
  by (auto simp: gc_run_def past_kept_def)

lemma gc_runD:
  assumes "gc_run cs evs bound c node node'"
  shows "\<exists>c' \<ge> c. past_node cs c' node'" and "past_kept cs c (node_store node) (node_store node')"
    and "\<forall>k. \<forall>ev \<in> set (evs k). is_commit ev \<Longrightarrow> horizon_of (node_store node') \<le> max (horizon_of (node_store node)) bound"
  using assms unfolding gc_run_def by blast+

lemma gc_run_trans:
  assumes "gc_run cs evs bound c node node1" and "gc_run cs evs bound c1 node1 node2" and "c \<le> c1"
  shows "gc_run cs evs bound c node node2"
  unfolding gc_run_def
proof (intro conjI impI)
  show "\<exists>c' \<ge> c. past_node cs c' node2"
    using gc_runD(1) [OF assms(2)] assms(3) order_trans by blast
  show "past_kept cs c (node_store node) (node_store node2)"
    by (rule past_kept_trans [OF gc_runD(2) [OF assms(1)] gc_runD(2) [OF assms(2)] assms(3)])
  assume commits: "\<forall>k. \<forall>ev \<in> set (evs k). is_commit ev"
  have "max (horizon_of (node_store node1)) bound \<le> max (horizon_of (node_store node)) bound"
    using gc_runD(3) [OF assms(1) commits] by simp
  then show "horizon_of (node_store node2) \<le> max (horizon_of (node_store node)) bound"
    by (rule order_trans [OF gc_runD(3) [OF assms(2) commits]])
qed

lemma batch_turn:
  assumes "codecs_ok cs" and "\<forall>k. \<forall>ev \<in> set (evs k). sized_event ev" and "past_node cs c node"
  obtains node' out where "gc_batch_write mem_engine_ops cs (plan_new bound n target) (threads cs evs k node) = (node', Inr out)"
    and "gc_run cs evs bound c node node'"
    and "ho_done out \<longleftrightarrow> batch_done (plan_new bound n target) (cursor_of (node_store node')) (floor_of (node_store node'))"
    and "if ho_changed out then gc_work (plan_new bound n target) (node_store node') < gc_work (plan_new bound n target) (node_store node)
      else ho_done out"
proof -
  let ?plan = "plan_new bound n target" and ?node = "threads cs evs k node"
  obtain c1 where c1: "c \<le> c1" "past_node cs c1 ?node" "past_kept cs c (node_store node) (node_store ?node)"
    using history_run [OF assms(1,3) spec [OF assms(2), of k]] by (auto simp: threads_def)
  obtain node' out where batch: "gc_batch_write mem_engine_ops cs ?plan ?node = (node', Inr out)"
    and node': "past_node cs c1 node'" "gc_keeps cs (node_store ?node) (node_store node')" "gc_moves ?plan (node_store ?node) (node_store node')"
    and fin: "ho_done out \<longleftrightarrow> batch_done ?plan (cursor_of (node_store node')) (floor_of (node_store node'))"
    and work: "if ho_changed out then gc_work ?plan (node_store node') < gc_work ?plan (node_store ?node) else ho_done out"
    by (rule collect_on_node [OF c1(2)])
  have "horizon_of (node_store node') \<le> max (horizon_of (node_store node)) bound"
    if "\<forall>k. \<forall>ev \<in> set (evs k). is_commit ev"
    using node'(3) commits_keep_horizon [OF assms(1,3), of "evs k"] assms(2) that
    by (simp add: gc_moves_def threads_def plan_new_def)
  then have "gc_run cs evs bound c node node'"
    using c1(1) node'(1) past_kept_trans [OF c1(3) gc_kept [OF node'(2,3)] c1(1)] by (auto simp: gc_run_def)
  moreover have "if ho_changed out then gc_work ?plan (node_store node') < gc_work ?plan (node_store node) else ho_done out"
    using work gc_work_kept [OF c1(3), of ?plan] by (simp split: if_splits)
  ultimately show thesis
    using that [OF batch _ fin] by blast
qed

text \<open>Every batch that changes anything leaves less to do, and other threads never add to it.\<close>

lemma batches_end:
  assumes "codecs_ok cs" and "\<forall>k. \<forall>ev \<in> set (evs k). sized_event ev"
    and "past_node cs c node"
  shows "\<exists>node' progress'.
    run_history_gc_batches mem_engine_ops cs (threads cs evs) (plan_new bound n target) max_batches k node progress = Some (node', progress', Inr ()) \<and>
    gc_run cs evs bound c node node' \<and>
    (max_batches = None \<longrightarrow> batch_done (plan_new bound n target) (cursor_of (node_store node')) (floor_of (node_store node')))"
  using assms(3)
proof (induction "gc_work (plan_new bound n target) (node_store node)" arbitrary: c node k progress rule: less_induct)
  case less
  let ?plan = "plan_new bound n target"
  let ?run = "run_history_gc_batches mem_engine_ops cs (threads cs evs) ?plan max_batches"
  show ?case
  proof (cases "case max_batches of None \<Rightarrow> False | Some m \<Rightarrow> m \<le> k")
    case True
    then have "?run k node progress = Some (node, progress, Inr ())" "max_batches \<noteq> None"
      by (auto simp: run_history_gc_batches.simps split: option.splits)
    then show ?thesis
      using gc_run_refl [OF less.prems] by blast
  next
    case False
    obtain node2 out where batch: "gc_batch_write mem_engine_ops cs ?plan (threads cs evs k node) = (node2, Inr out)"
      and node2: "gc_run cs evs bound c node node2"
      and fin: "ho_done out \<longleftrightarrow> batch_done ?plan (cursor_of (node_store node2)) (floor_of (node_store node2))"
      and work: "if ho_changed out then gc_work ?plan (node_store node2) < gc_work ?plan (node_store node) else ho_done out"
      by (rule batch_turn [OF assms(1,2) less.prems])
    show ?thesis
    proof (cases "ho_done out \<or> \<not> ho_changed out")
      case True
      then have "?run k node progress = Some (node2, add_outcome out progress, Inr ())" "ho_done out"
        using False work by (subst run_history_gc_batches.simps, auto simp: batch)
      then show ?thesis
        using node2 fin by blast
    next
      case more: False
      then have run: "?run k node progress = ?run (usize_saturating_add k 1) node2 (add_outcome out progress)"
        using False by (subst run_history_gc_batches.simps) (simp add: batch)
      obtain c2 where c2: "c \<le> c2" "past_node cs c2 node2"
        using node2 by (auto simp: gc_run_def)
      have "gc_work ?plan (node_store node2) < gc_work ?plan (node_store node)"
        using more work by simp
      from less.hyps [OF this c2(2), of "usize_saturating_add k 1" "add_outcome out progress"] show ?thesis
        unfolding run using gc_run_trans [OF node2 _ c2(1)] by blast
    qed
  qed
qed

section \<open>How far it goes\<close>

lemma limit_watermark_simps [simp]:
  "mw_lsn (limit_watermark lsn by w) = min lsn (mw_lsn w)" "mw_current (limit_watermark lsn by w) = mw_current w"
  by (auto simp: limit_watermark_def min_def)

lemma limit_by_entry_le: "mw_lsn (limit_by_entry e w) \<le> mw_lsn w" "mw_current (limit_by_entry e w) = mw_current w"
  by (cases e; simp)+

lemma limit_by_entries:
  "mw_current (fold limit_by_entry es w) = mw_current w \<and> mw_lsn (fold limit_by_entry es w) \<le> mw_lsn w \<and>
   (\<forall>base schema r. CatTemporalTable base schema r \<in> set es \<and> rt_keep_history r \<longrightarrow> mw_lsn (fold limit_by_entry es w) \<le> rt_min_lsn r)"
proof (induction es arbitrary: w)
  case (Cons e es)
  then show ?case
    using limit_by_entry_le [of e w] by (fastforce intro: order_trans)
qed simp

text \<open>What readers and tables hold of the past.\<close>

definition held :: "'db history_db \<Rightarrow> txn_id \<Rightarrow> bool" where
  "held db lsn \<longleftrightarrow>
     lsn \<in> set (bt_keys (asr_active (hd_pins db))) \<union> set (bt_keys (asr_retention_pins (hd_pins db))) \<or>
     (\<exists>name base schema r. bt_get (hd_catalog db) name = Some (CatTemporalTable base schema r) \<and> rt_keep_history r \<and> lsn = rt_min_lsn r)"

lemma watermark_le:
  assumes "i \<in> set (bt_keys (asr_active r)) \<union> set (bt_keys (asr_retention_pins r))"
  shows "watermark r current \<le> i"
proof -
  have "fold min js j \<le> i" if "i \<in> set (j # js)" for j js
    using that Min.set_eq_fold [of j js] Min_le [of "set (j # js)" i] by simp
  moreover obtain j js where "bt_keys (asr_active r) @ bt_keys (asr_retention_pins r) = j # js"
    using assms by (cases "bt_keys (asr_active r) @ bt_keys (asr_retention_pins r)") auto
  ultimately show ?thesis
    using assms by (metis Un_iff list.simps(5) set_append watermark_def)
qed

lemma watermark_respects_holds:
  assumes "compute_watermark eng (hd_catalog db) node retain (hd_pins db) = Inr w"
  shows "sn_current_txn_id eng node = Inr (mw_current w)" and "mw_lsn w \<le> mw_current w" and "held db lsn \<Longrightarrow> mw_lsn w \<le> lsn"
    and "retain = Some n \<Longrightarrow> mw_lsn w \<le> saturating_sub (saturating_add (mw_current w) 1) n"
proof -
  obtain current where current: "sn_current_txn_id eng node = Inr current"
    using assms by (auto simp: compute_watermark_def rbind_eq_Inr)
  let ?w0 = "limit_watermark (watermark (hd_pins db) current) AsOfPin \<lparr>mw_current = current, mw_lsn = current, mw_limited_by = CurrentLsn\<rparr>"
  let ?w1 = "fold limit_by_entry (map snd (bt_entries (hd_catalog db))) ?w0"
  have w: "w = (case retain of None \<Rightarrow> ?w1 | Some retain \<Rightarrow> limit_watermark (saturating_sub (saturating_add current 1) retain) MvccRetainLsns ?w1)"
    using assms by (simp add: compute_watermark_def current Let_def)
  note w1 = limit_by_entries [of "map snd (bt_entries (hd_catalog db))" ?w0]
  have le: "mw_lsn w \<le> mw_lsn ?w1" "mw_current w = current"
    using w1 by (auto simp: w split: option.split)
  then show "sn_current_txn_id eng node = Inr (mw_current w)" "mw_lsn w \<le> mw_current w"
    using w1 current order_trans [OF le(1)] by auto
  show "mw_lsn w \<le> lsn" if "held db lsn"
  proof -
    have "mw_lsn ?w1 \<le> lsn"
      using that unfolding held_def
    proof (elim disjE exE conjE)
      assume "lsn \<in> set (bt_keys (asr_active (hd_pins db))) \<union> set (bt_keys (asr_retention_pins (hd_pins db)))"
      from watermark_le [OF this, of current] show ?thesis
        using w1 by (auto simp: min_le_iff_disj intro: order_trans)
    next
      fix name base schema r
      assume "bt_get (hd_catalog db) name = Some (CatTemporalTable base schema r)" "rt_keep_history r" "lsn = rt_min_lsn r"
      then show ?thesis
        using w1 bt_entries_iff [of name _ "hd_catalog db"] by (metis image_eqI list.set_map snd_conv)
    qed
    then show ?thesis
      by (rule order_trans [OF le(1)])
  qed
  show "mw_lsn w \<le> saturating_sub (saturating_add (mw_current w) 1) n" if "retain = Some n"
    using that le(2) by (simp add: w)
qed

lemma limit_floor_min [simp]: "fl_lsn (limit_floor lsn by target) = min lsn (fl_lsn target)"
  by (auto simp: limit_floor_def min_def)

lemma rfold_floor_le:
  assumes "rfold f xs t = Inr t'" and "\<And>x t t'. f x t = Inr t' \<Longrightarrow> fl_lsn t' \<le> fl_lsn t"
  shows "fl_lsn t' \<le> fl_lsn t"
  using assms(1) by (induction xs arbitrary: t) (auto simp: rbind_eq_Inr dest!: assms(2) intro: order_trans)

lemma floor_target_le:
  assumes "commit_log_floor_target eng libs catalog node w retain = Inr target"
  shows "fl_lsn target \<le> mw_lsn w"
proof -
  have sub: "limit_by_subscription libs r t = Inr t' \<Longrightarrow> fl_lsn t' \<le> fl_lsn t"
    and cq: "limit_by_continuous_query libs r t = Inr t' \<Longrightarrow> fl_lsn t' \<le> fl_lsn t"
    and view: "limit_by_view eng libs node r t = Inr t' \<Longrightarrow> fl_lsn t' \<le> fl_lsn t"
    and entry: "limit_floor_by_entry eng libs node e t = Inr t' \<Longrightarrow> fl_lsn t' \<le> fl_lsn t" for r e t t'
    by (auto simp: limit_by_subscription_def limit_by_continuous_query_def limit_by_view_def limit_floor_by_entry_def rbind_eq_Inr
        split: prod.splits catalog_entry.splits)
  let ?t0 = "limit_floor (mw_lsn w) (mw_limited_by w) \<lparr>fl_lsn = max (saturating_sub (saturating_add (mw_current w) 1) retain) 1, fl_limited_by = RetainLsns\<rparr>"
  obtain rows1 t1 rows2 t2 rows3 t3 where run: "rfold (limit_by_subscription libs) rows1 ?t0 = Inr t1"
      "rfold (limit_by_continuous_query libs) rows2 t1 = Inr t2" "rfold (limit_by_view eng libs node) rows3 t2 = Inr t3"
      "rfold (limit_floor_by_entry eng libs node) (bt_entries catalog) t3 = Inr target"
    using assms by (auto simp: commit_log_floor_target_def limit_floor_by_derived_indexes_def rbind_eq_Inr Let_def)
  have "fl_lsn ?t0 \<le> mw_lsn w"
    by simp
  moreover have "fl_lsn t1 \<le> fl_lsn ?t0"
    by (rule rfold_floor_le [OF run(1)]) (rule sub)
  moreover have "fl_lsn t2 \<le> fl_lsn t1"
    by (rule rfold_floor_le [OF run(2)]) (rule cq)
  moreover have "fl_lsn t3 \<le> fl_lsn t2"
    by (rule rfold_floor_le [OF run(3)]) (rule view)
  moreover have "fl_lsn target \<le> fl_lsn t3"
    by (rule rfold_floor_le [OF run(4)]) (rule entry)
  ultimately show ?thesis
    by (meson order_trans)
qed

section \<open>What a run achieves\<close>

text \<open>A node that was created empty and then served commits and collector batches.\<close>

definition reached :: "codecs \<Rightarrow> mem_engine history_db \<Rightarrow> history_event list \<Rightarrow> mem_engine single_node \<Rightarrow> bool" where
  "reached cs db evs node \<longleftrightarrow>
     hd_repl db = SingleNodeRepl node \<and> node = fold (history_step cs) evs (sn_new mem_new) \<and> (\<forall>ev \<in> set evs. sized_event ev)"

lemma reached_node:
  assumes "codecs_ok cs" and "reached cs db evs node"
  obtains c where "past_node cs c node" and "sn_current_txn_id mem_engine_ops node = Inr c"
proof -
  obtain c where c: "past_node cs c node"
    using history_run [OF assms(1) past_node_new, of evs] assms(2) by (auto simp: reached_def)
  then have "mem_healthy (sn_storage node)" "txn_wf cs c (node_store node)"
    by (simp_all add: past_node_def past_ok_def)
  then have "sn_current_txn_id mem_engine_ops node = Inr c"
    using mem.current_txn_id_eq txn_wfD(1) by (simp add: sn_current_txn_id_def)
  with c show thesis
    by (rule that)
qed

lemma report_complete:
  assumes "read_history_gc_state (store_reader s) = Inr state"
    and "batch_done (plan_new (mw_lsn w) n (map_option fl_lsn target)) (cursor_of s) (floor_of s)"
    and "\<And>t. target = Some t \<Longrightarrow> fl_lsn t \<le> mw_lsn w"
  shows "gr_complete (gc_report options w target progress state)"
proof -
  have state: "hs_mvcc_cursor state = cursor_of s" "hs_commit_log_floor state = floor_of s"
    using gc_state_store [OF assms(1)] by simp_all
  have cursor: "mw_lsn w \<le> cursor_of s"
    using assms(2) by (simp add: batch_done_def plan_new_def)
  have sub0: "saturating_sub a b = 0" if "a \<le> b" for a b :: u64
    using that by (simp add: saturating_sub_def)
  have "cursor_of s \<le> saturating_add (cursor_of s) 1"
    using unsigned_less [of "cursor_of s", where 'a = nat] by (simp add: word_le_nat_alt unat_saturating_add)
  then have "fl_lsn t \<le> floor_of s" if "target = Some t" for t
    using assms(2) assms(3) [OF that] cursor that
    by (auto simp: batch_done_def plan_new_def floor_target_def min_def split: if_splits)
  then show ?thesis
    using cursor by (auto simp: gc_report_def state sub0 Let_def split: option.split)
qed

text \<open>How a run on a single node ends: with the error of its preparation, or with a report.\<close>

lemma gc_history_outcome:
  assumes "codecs_ok cs" and "\<forall>k. \<forall>ev \<in> set (evs k). sized_event ev" and "past_node cs c node" and "hd_repl db = SingleNodeRepl node"
  obtains (refused) e where "gc_history mem_engine_ops cs libs (threads cs evs) options db = Some (db, Inl e)"
      "go_mvcc_retain_lsns options = Some 0 \<or> go_commit_log_retain_lsns options = Some 0 \<or> gc_bounds mem_engine_ops libs options db node = Inl e"
  | (ran) w target node' progress state where "gc_bounds mem_engine_ops libs options db node = Inr (w, target)"
      "gc_history mem_engine_ops cs libs (threads cs evs) options db =
        Some (db\<lparr>hd_repl := SingleNodeRepl node'\<rparr>, Inr (gc_report options w target progress state))"
      "gc_run cs evs (mw_lsn w) c node node'" "read_history_gc_state (store_reader (node_store node')) = Inr state"
      "\<not> go_dry_run options \<Longrightarrow> go_max_batches options = None \<Longrightarrow>
         batch_done (plan_new (mw_lsn w) (go_batch_size options) (map_option fl_lsn target)) (cursor_of (node_store node')) (floor_of (node_store node'))"
proof (cases "go_mvcc_retain_lsns options = Some 0 \<or> go_commit_log_retain_lsns options = Some 0")
  case True
  then have "\<exists>e. gc_history mem_engine_ops cs libs (threads cs evs) options db = Some (db, Inl e)"
    by (auto simp: gc_history_def run_history_gc_def assms(4))
  with True show thesis
    using refused by blast
next
  case options: False
  show thesis
  proof (cases "gc_bounds mem_engine_ops libs options db node")
    case (Inl e)
    then show thesis
      using refused options assms(4) by (simp add: gc_history_def run_history_gc_def)
  next
    case (Inr bounds)
    then obtain w target where bounds: "gc_bounds mem_engine_ops libs options db node = Inr (w, target)"
      by (cases bounds) simp
    let ?plan = "plan_new (mw_lsn w) (go_batch_size options) (map_option fl_lsn target)"
    have "\<exists>node' progress. (if go_dry_run options then Some (node, no_progress, Inr ())
          else run_history_gc_batches mem_engine_ops cs (threads cs evs) ?plan (go_max_batches options) 0 node no_progress) = Some (node', progress, Inr ()) \<and>
        gc_run cs evs (mw_lsn w) c node node' \<and>
        (\<not> go_dry_run options \<longrightarrow> go_max_batches options = None \<longrightarrow> batch_done ?plan (cursor_of (node_store node')) (floor_of (node_store node')))"
      using gc_run_refl [OF assms(3), of evs "mw_lsn w"] batches_end [where bound = "mw_lsn w" and n = "go_batch_size options" and target = "map_option fl_lsn target" and
          max_batches = "go_max_batches options" and k = 0 and progress = no_progress, OF assms(1-3)]
      by (cases "go_dry_run options") simp_all
    then obtain node' progress where run: "(if go_dry_run options then Some (node, no_progress, Inr ())
          else run_history_gc_batches mem_engine_ops cs (threads cs evs) ?plan (go_max_batches options) 0 node no_progress) = Some (node', progress, Inr ())"
      and node': "gc_run cs evs (mw_lsn w) c node node'"
      and fin: "\<not> go_dry_run options \<longrightarrow> go_max_batches options = None \<longrightarrow> batch_done ?plan (cursor_of (node_store node')) (floor_of (node_store node'))"
      by (elim exE conjE that)
    obtain c' where c': "past_node cs c' node'"
      using gc_runD(1) [OF node'] by blast
    obtain state where state: "read_history_gc_state (store_reader (node_store node')) = Inr state"
      using gc_state_ready [OF past_node_ready [OF c']] by blast
    have "e_begin_read mem_engine_ops (sn_storage node') = Inr (store_reader (node_store node'))"
      using mem.begin_read c' by (simp add: past_node_def)
    then have "gc_history mem_engine_ops cs libs (threads cs evs) options db =
        Some (db\<lparr>hd_repl := SingleNodeRepl node'\<rparr>, Inr (gc_report options w target progress state))"
      using options run by (simp add: gc_history_def run_history_gc_def assms(4) bounds state)
    then show thesis
      by (rule ran [OF bounds _ node' state]) (use fin in blast)
  qed
qed

lemma gc_bounds_refused:
  assumes "gc_bounds eng libs options db node = Inl e" and "sn_current_txn_id eng node = Inr c"
  shows "hd_pins_poisoned db \<and> e = DStorage (Backend ''history retention registry poisoned'') \<or>
    (\<exists>w retain. compute_watermark eng (hd_catalog db) node (go_mvcc_retain_lsns options) (hd_pins db) = Inr w \<and>
       go_commit_log_retain_lsns options = Some retain \<and>
       commit_log_floor_target eng libs (hd_catalog db) node w retain = Inl e)"
proof -
  obtain w where "compute_watermark eng (hd_catalog db) node (go_mvcc_retain_lsns options) (hd_pins db) = Inr w"
    using assms(2) by (simp add: compute_watermark_def Let_def)
  then show ?thesis
    using assms(1) by (auto simp: gc_bounds_def rbind_eq_Inl opt_transpose_def split: option.splits if_splits)
qed


text \<open>
  C5. The collector never takes away what is held. Let the history horizon not have passed an LSN
  that a reader has pinned or that is the least one of a temporal table which keeps its history.
  Then, whatever the options and however many commits other threads make between its batches,
  the horizon has not passed it after \<open>gc_history\<close> either, and from there on up to the transaction
  that was current before the run, the history gives every row the value it gave before.
\<close>

theorem gc_history_respects_holds:
  assumes "codecs_ok cs" and "reached cs db before node" and "\<forall>k. \<forall>ev \<in> set (evs k). sized_event ev \<and> is_commit ev"
    and "held db lsn" and "horizon_of (node_store node) \<le> lsn"
    and "sn_current_txn_id mem_engine_ops node = Inr c"
  shows "\<exists>db' r node'. gc_history mem_engine_ops cs libs (threads cs evs) options db = Some (db', r) \<and> hd_repl db' = SingleNodeRepl node' \<and>
    horizon_of (node_store node') \<le> lsn \<and>
    (\<forall>table key i. \<not> table_is_reserved table \<and> sized_table table \<and> lsn \<le> i \<and> i \<le> c \<longrightarrow>
       as_of cs (node_store node') table key i = as_of cs (node_store node) table key i)"
proof -
  obtain c0 where c0: "past_node cs c0 node" "sn_current_txn_id mem_engine_ops node = Inr c0"
    using reached_node [OF assms(1,2)] by blast
  have c: "past_node cs c node"
    using c0 assms(6) by simp
  have repl: "hd_repl db = SingleNodeRepl node" and sized: "\<forall>k. \<forall>ev \<in> set (evs k). sized_event ev"
    using assms(2,3) by (auto simp: reached_def)
  show ?thesis
  proof (rule gc_history_outcome [OF assms(1) sized c repl, of libs options])
    fix w target node' progress state
    assume bounds: "gc_bounds mem_engine_ops libs options db node = Inr (w, target)"
      and run: "gc_history mem_engine_ops cs libs (threads cs evs) options db =
        Some (db\<lparr>hd_repl := SingleNodeRepl node'\<rparr>, Inr (gc_report options w target progress state))"
      and node': "gc_run cs evs (mw_lsn w) c node node'"
    have "mw_lsn w \<le> lsn"
      using bounds watermark_respects_holds(3) [OF _ assms(4)] by (auto simp: gc_bounds_def rbind_eq_Inr split: if_splits)
    then have horizon: "horizon_of (node_store node') \<le> lsn"
      using gc_runD(3) [OF node'] assms(3,5) order_trans [of _ "max (horizon_of (node_store node)) (mw_lsn w)" lsn] by simp
    then show ?thesis
      using run gc_runD(2) [OF node'] order_trans [OF horizon] by (auto simp: past_kept_def)
  qed (use repl assms(5) in auto)
qed

section \<open>A database with one row\<close>

definition demo_consumers :: consumer_libs where
  "demo_consumers = \<lparr>cl_subscription = (\<lambda>_. Inl []), cl_continuous_query = (\<lambda>_. Inl []), cl_view_freshness = (\<lambda>_. Inl []),
     cl_text_state = (\<lambda>_. Inl []), cl_geo_state = (\<lambda>_. Inl []), cl_utf8_error = (\<lambda>_. [])\<rparr>"

definition demo_events :: "history_event list" where
  "demo_events = [HCommit demo_clocks 0 (demo_row_writes (Some demo_row))]"

definition demo_db :: "mem_engine history_db" where
  "demo_db = \<lparr>hd_repl = SingleNodeRepl (fold (history_step demo_codecs) demo_events (sn_new mem_new)),
     hd_catalog = bt_insert ''v'' (CatTemporalTable ''t'' demo_schema \<lparr>rt_min_lsn = 1, rt_keep_history = True\<rparr>) bt_empty,
     hd_pins = \<lparr>asr_active = bt_empty, asr_retention_pins = bt_insert 1 1 bt_empty\<rparr>, hd_pins_poisoned = False\<rparr>"

lemma demo_db_reached:
  "reached demo_codecs demo_db demo_events (fold (history_step demo_codecs) demo_events (sn_new mem_new))"
  by (simp add: reached_def demo_db_def demo_events_def demo_row_writes_facts(1))

lemma demo_db_current:
  "sn_current_txn_id mem_engine_ops (fold (history_step demo_codecs) demo_events (sn_new mem_new)) = Inr 1"
  using demo_table(3) by (simp add: sn_current_txn_id_def demo_events_def)


theorem gc_history_respects_holds_witness:
  "\<exists>db' r node'. gc_history mem_engine_ops demo_codecs demo_consumers
       (threads demo_codecs (\<lambda>k. [HCommit demo_clocks 1 (demo_row_writes None)])) default_gc_options demo_db = Some (db', r) \<and>
     hd_repl db' = SingleNodeRepl node' \<and> horizon_of (node_store node') \<le> 1 \<and>
     as_of demo_codecs (node_store node') REL_ROWS_TABLE (table_prefix ''t'' @ [1]) 1 = Some demo_row"
proof -
  let ?node = "fold (history_step demo_codecs) demo_events (sn_new mem_new)"
  have "held demo_db 1"
    by (simp add: held_def demo_db_def bt_keys_def)
  moreover have "horizon_of (node_store ?node) \<le> 1"
    using demo_table(2) by (simp add: demo_events_def)
  moreover have "\<forall>k::nat. \<forall>ev \<in> set [HCommit demo_clocks 1 (demo_row_writes None)]. sized_event ev \<and> is_commit ev"
    by (simp add: demo_row_writes_facts(1))
  moreover have "as_of demo_codecs (node_store ?node) REL_ROWS_TABLE (table_prefix ''t'' @ [1]) 1 = Some demo_row"
  proof -
    have "txn_wf demo_codecs 1 (node_store ?node)" "history_ok demo_codecs (node_store ?node)"
      using demo_table(1) by (simp_all add: demo_events_def past_node_def past_ok_def)
    then show ?thesis
      using as_of_current [OF _ _ rel_rows_public(2,1)] demo_table(4) by (simp add: demo_events_def)
  qed
  ultimately show ?thesis
    using gc_history_respects_holds [OF demo_codecs_ok demo_db_reached, of "\<lambda>k. [HCommit demo_clocks 1 (demo_row_writes None)]" 1 1
        demo_consumers default_gc_options] demo_db_current
    by (metis order_refl rel_rows_public)
qed

end
