(* ===== verification/Documents.thy ===== *)
theory Documents
  imports Value_Codec
begin

text \<open>
  Document collections with secondary indexes, from \<open>src/model/mod.rs\<close>: the keys of documents
  and index entries, the operations a change of a document consists of, the collection handle over
  a replication backend, and queries by an index or by a scan. A handle here has no full-text and
  no geo indexes attached.
\<close>

section \<open>Identifiers, paths and predicates\<close>

text \<open>A document id is an array of sixteen bytes.\<close>

type_synonym collection_id = u32
type_synonym document_id = bytes
type_synonym index_id = u32
type_synonym field_path = "string list"

record index_spec =
  ix_id :: index_id
  ix_path :: field_path

datatype doc_predicate =
    PEq field_path val
  | PRange field_path val val

datatype plan_kind = IndexScan index_id | FullScan

record query_result =
  qr_plan :: plan_kind
  qr_examined_documents :: nat
  qr_documents :: "(document_id \<times> val) list"

record document_collection =
  dc_collection_id :: collection_id
  dc_indexes :: "index_spec list"

definition collection_new :: "collection_id \<Rightarrow> document_collection" where
  "collection_new collection_id = \<lparr>dc_collection_id = collection_id, dc_indexes = []\<rparr>"

definition collection_with_indexes :: "collection_id \<Rightarrow> index_spec list \<Rightarrow> document_collection" where
  "collection_with_indexes collection_id indexes = \<lparr>dc_collection_id = collection_id, dc_indexes = indexes\<rparr>"

definition DOCUMENT_TABLE :: string where "DOCUMENT_TABLE = ''documents''"
definition INDEX_TABLE :: string where "INDEX_TABLE = ''document_indexes''"
definition EMPTY_INDEX_VALUE :: bytes where "EMPTY_INDEX_VALUE = []"
definition DOCUMENT_KEY_LEN :: nat where "DOCUMENT_KEY_LEN = 20"
definition INDEX_PREFIX_LEN :: nat where "INDEX_PREFIX_LEN = 8"
definition INDEX_KEY_DOC_ID_LEN :: nat where "INDEX_KEY_DOC_ID_LEN = 16"

section \<open>Keys\<close>

definition make_document_key :: "collection_id \<Rightarrow> document_id \<Rightarrow> bytes" where
  "make_document_key collection_id document_id = u32_to_be collection_id @ document_id"

definition collection_range_bounds :: "collection_id \<Rightarrow> bytes \<times> bytes" where
  "collection_range_bounds collection_id = u32_prefix_range collection_id"

definition document_id_from_key :: "bytes \<Rightarrow> document_id option" where
  "document_id_from_key key = (if length key \<noteq> DOCUMENT_KEY_LEN then None else Some (drop 4 key))"

fun extract_path :: "val \<Rightarrow> field_path \<Rightarrow> val option" where
  "extract_path v [] = Some v"
| "extract_path (VObject es) (segment # path) = Option.bind (map_of es segment) (\<lambda>v. extract_path v path)"
| "extract_path _ (segment # path) = None"

fun encode_index_value :: "val \<Rightarrow> model_error + bytes" where
  "encode_index_value VNull = Inr [0x00]"
| "encode_index_value (VBool b) = Inr [0x01, if b then 1 else 0]"
| "encode_index_value (VInt i) = Inr (0x02 # encode_i64_ordered i)"
| "encode_index_value (VFloat f) = (if f64_is_finite f then Inr (0x03 # encode_f64_ordered f) else Inl InvalidFloat)"
| "encode_index_value (VStr s) = Inr (encode_terminated_bytes (as_bytes s) [0x04])"
| "encode_index_value _ = Inl UnsupportedIndexValue"

definition make_index_prefix :: "collection_id \<Rightarrow> index_id \<Rightarrow> val \<Rightarrow> model_error + bytes" where
  "make_index_prefix collection_id index_id v =
     rbind (encode_index_value v) (\<lambda>encoded. Inr (u32_to_be collection_id @ u32_to_be index_id @ encoded))"

definition make_index_key :: "collection_id \<Rightarrow> index_id \<Rightarrow> val \<Rightarrow> document_id \<Rightarrow> model_error + bytes" where
  "make_index_key collection_id index_id v document_id =
     rbind (make_index_prefix collection_id index_id v) (\<lambda>key. Inr (key @ document_id))"

definition document_id_from_index_key :: "bytes \<Rightarrow> model_error + document_id" where
  "document_id_from_index_key key =
     (if length key < INDEX_PREFIX_LEN + INDEX_KEY_DOC_ID_LEN
      then Inl (MStorage (Corruption ''index key is too short''))
      else Inr (drop (length key - INDEX_KEY_DOC_ID_LEN) key))"

section \<open>Changes as operations\<close>

definition put_document_op :: "collection_id \<Rightarrow> document_id \<Rightarrow> val \<Rightarrow> model_error + op" where
  "put_document_op collection_id doc_id doc =
     rbind (map_err MStorage (encode_value doc)) (\<lambda>bs. Inr (OpPut DOCUMENT_TABLE (make_document_key collection_id doc_id) bs))"

definition delete_document_op :: "collection_id \<Rightarrow> document_id \<Rightarrow> op" where
  "delete_document_op collection_id doc_id = OpDelete DOCUMENT_TABLE (make_document_key collection_id doc_id)"

definition append_new_index_ops ::
  "collection_id \<Rightarrow> index_spec list \<Rightarrow> document_id \<Rightarrow> val \<Rightarrow> op list \<Rightarrow> model_error + op list" where
  "append_new_index_ops collection_id indexes doc_id doc ops =
     rfold (\<lambda>index ops.
       case extract_path doc (ix_path index) of
         None \<Rightarrow> Inr ops
       | Some v \<Rightarrow> rbind (make_index_key collection_id (ix_id index) v doc_id) (\<lambda>key.
           Inr (ops @ [OpPut INDEX_TABLE key EMPTY_INDEX_VALUE]))) indexes ops"

definition append_old_index_delete_ops ::
  "collection_id \<Rightarrow> index_spec list \<Rightarrow> document_id \<Rightarrow> val \<Rightarrow> op list \<Rightarrow> model_error + op list" where
  "append_old_index_delete_ops collection_id indexes doc_id doc ops =
     rfold (\<lambda>index ops.
       case extract_path doc (ix_path index) of
         None \<Rightarrow> Inr ops
       | Some v \<Rightarrow> rbind (make_index_key collection_id (ix_id index) v doc_id) (\<lambda>key.
           Inr (ops @ [OpDelete INDEX_TABLE key]))) indexes ops"

definition document_key :: "document_collection \<Rightarrow> document_id \<Rightarrow> bytes" where
  "document_key c doc_id = make_document_key (dc_collection_id c) doc_id"

text \<open>\<open>doc_id\<close> is what \<open>DocumentId::generate\<close> gives.\<close>

definition insert_ops :: "document_collection \<Rightarrow> document_id \<Rightarrow> val \<Rightarrow> model_error + op list" where
  "insert_ops c doc_id doc =
     rbind (put_document_op (dc_collection_id c) doc_id doc) (\<lambda>put.
       append_new_index_ops (dc_collection_id c) (dc_indexes c) doc_id doc [put])"

definition put_ops_with_old :: "document_collection \<Rightarrow> document_id \<Rightarrow> val option \<Rightarrow> val \<Rightarrow> model_error + op list" where
  "put_ops_with_old c doc_id old doc =
     rbind (put_document_op (dc_collection_id c) doc_id doc) (\<lambda>put.
       append_new_index_ops (dc_collection_id c) (dc_indexes c) doc_id doc [put])"

definition put_ops_for_id :: "document_collection \<Rightarrow> document_id \<Rightarrow> val \<Rightarrow> model_error + op list" where
  "put_ops_for_id c doc_id doc = put_ops_with_old c doc_id None doc"

definition replace_ops_with_old :: "document_collection \<Rightarrow> document_id \<Rightarrow> val option \<Rightarrow> val \<Rightarrow> model_error + op list" where
  "replace_ops_with_old c doc_id old doc =
     rbind (case old of
              None \<Rightarrow> Inr []
            | Some old \<Rightarrow> append_old_index_delete_ops (dc_collection_id c) (dc_indexes c) doc_id old []) (\<lambda>ops.
     rbind (put_ops_with_old c doc_id old doc) (\<lambda>puts. Inr (ops @ puts)))"

definition delete_ops_with_old :: "document_collection \<Rightarrow> document_id \<Rightarrow> val option \<Rightarrow> model_error + op list" where
  "delete_ops_with_old c doc_id old =
     (case old of
        None \<Rightarrow> Inr []
      | Some old \<Rightarrow>
          rbind (append_old_index_delete_ops (dc_collection_id c) (dc_indexes c) doc_id old []) (\<lambda>ops.
            Inr (ops @ [delete_document_op (dc_collection_id c) doc_id])))"

section \<open>The collection over a backend\<close>

definition get_with_consistency ::
  "value_libs \<Rightarrow> 'n replication \<Rightarrow> 'n \<Rightarrow> document_collection \<Rightarrow> document_id \<Rightarrow> read_consistency \<Rightarrow> model_error + val option" where
  "get_with_consistency libs rp n c doc_id consistency =
     rbind (map_err MRepl (rp_read rp n DOCUMENT_TABLE (document_key c doc_id) consistency)) (\<lambda>found.
       case found of
         None \<Rightarrow> Inr None
       | Some bs \<Rightarrow> rbind (map_err MStorage (decode_value libs bs)) (\<lambda>v. Inr (Some v)))"

definition doc_get :: "value_libs \<Rightarrow> 'n replication \<Rightarrow> 'n \<Rightarrow> document_collection \<Rightarrow> document_id \<Rightarrow> model_error + val option" where
  "doc_get libs rp n c doc_id = get_with_consistency libs rp n c doc_id Strong"

definition update_ops ::
  "value_libs \<Rightarrow> 'n replication \<Rightarrow> 'n \<Rightarrow> document_collection \<Rightarrow> document_id \<Rightarrow> val \<Rightarrow> model_error + op list" where
  "update_ops libs rp n c doc_id doc =
     rbind (doc_get libs rp n c doc_id) (\<lambda>old.
     rbind (case old of
              None \<Rightarrow> Inr []
            | Some old \<Rightarrow> append_old_index_delete_ops (dc_collection_id c) (dc_indexes c) doc_id old []) (\<lambda>ops.
     rbind (put_document_op (dc_collection_id c) doc_id doc) (\<lambda>put.
       append_new_index_ops (dc_collection_id c) (dc_indexes c) doc_id doc (ops @ [put]))))"

definition delete_ops ::
  "value_libs \<Rightarrow> 'n replication \<Rightarrow> 'n \<Rightarrow> document_collection \<Rightarrow> document_id \<Rightarrow> model_error + op list" where
  "delete_ops libs rp n c doc_id =
     rbind (doc_get libs rp n c doc_id) (\<lambda>old.
       case old of
         None \<Rightarrow> Inr []
       | Some old \<Rightarrow>
           rbind (append_old_index_delete_ops (dc_collection_id c) (dc_indexes c) doc_id old []) (\<lambda>ops.
             Inr (ops @ [delete_document_op (dc_collection_id c) doc_id])))"

definition doc_insert ::
  "'n replication \<Rightarrow> document_collection \<Rightarrow> document_id \<Rightarrow> val \<Rightarrow> 'n \<Rightarrow> 'n \<times> (model_error + document_id)" where
  "doc_insert rp c doc_id doc n =
     (case insert_ops c doc_id doc of
        Inl e \<Rightarrow> (n, Inl e)
      | Inr ops \<Rightarrow> (case rp_propose_batch rp ops n of
          (n, r) \<Rightarrow> (n, rbind (map_err MRepl r) (\<lambda>_. Inr doc_id))))"

text \<open>
  A backend without conditional batches may still take the write of a plain document; \<open>lww\<close> is
  its \<open>propose_plain_document_lww\<close>.
\<close>

definition commit_document_change ::
  "'n replication \<Rightarrow> (u32 \<Rightarrow> op \<Rightarrow> ('n, unit) prog) \<Rightarrow> document_collection \<Rightarrow> document_id \<Rightarrow> write_condition \<Rightarrow> op list \<Rightarrow>
   'n \<Rightarrow> 'n \<times> (model_error + unit)" where
  "commit_document_change rp lww c doc_id condition ops n =
     (let plain = (case ops of
                     [op] \<Rightarrow> if dc_indexes c = [] \<and> op_table op = DOCUMENT_TABLE \<and> op_key op = document_key c doc_id
                             then Some op else None
                   | _ \<Rightarrow> None)
      in case rp_propose_conditional_batch rp [condition] ops n of
           (n, Inr _) \<Rightarrow> (n, Inr ())
         | (n, Inl e) \<Rightarrow>
             (case (e, plain) of
                (Unsupported _, Some op) \<Rightarrow> (case lww (dc_collection_id c) op n of (n, r) \<Rightarrow> (n, map_err MRepl r))
              | _ \<Rightarrow> (n, Inl (MRepl e))))"

text \<open>
  The writers read the stored document first. \<open>update_seen\<close> and \<open>delete_seen\<close> are what they do with
  the bytes \<open>seen\<close> they read; \<open>others\<close> is what other clients do to the backend in between.
\<close>

definition update_seen ::
  "value_libs \<Rightarrow> 'n replication \<Rightarrow> (u32 \<Rightarrow> op \<Rightarrow> ('n, unit) prog) \<Rightarrow> document_collection \<Rightarrow> document_id \<Rightarrow> val \<Rightarrow> bytes option \<Rightarrow>
   'n \<Rightarrow> 'n \<times> (model_error + unit)" where
  "update_seen libs rp lww c doc_id doc seen n =
     (case rbind (opt_transpose (\<lambda>bs. map_err MStorage (decode_value libs bs)) seen) (\<lambda>old. replace_ops_with_old c doc_id old doc) of
        Inl e \<Rightarrow> (n, Inl e)
      | Inr ops \<Rightarrow> commit_document_change rp lww c doc_id (ValueEquals DOCUMENT_TABLE (document_key c doc_id) seen) ops n)"

definition doc_update ::
  "value_libs \<Rightarrow> 'n replication \<Rightarrow> (u32 \<Rightarrow> op \<Rightarrow> ('n, unit) prog) \<Rightarrow> ('n \<Rightarrow> 'n) \<Rightarrow> document_collection \<Rightarrow> document_id \<Rightarrow> val \<Rightarrow>
   'n \<Rightarrow> 'n \<times> (model_error + unit)" where
  "doc_update libs rp lww others c doc_id doc n =
     (case rp_read rp n DOCUMENT_TABLE (document_key c doc_id) Strong of
        Inl e \<Rightarrow> (n, Inl (MRepl e))
      | Inr seen \<Rightarrow> update_seen libs rp lww c doc_id doc seen (others n))"

definition delete_seen ::
  "value_libs \<Rightarrow> 'n replication \<Rightarrow> (u32 \<Rightarrow> op \<Rightarrow> ('n, unit) prog) \<Rightarrow> document_collection \<Rightarrow> document_id \<Rightarrow> bytes option \<Rightarrow>
   'n \<Rightarrow> 'n \<times> (model_error + unit)" where
  "delete_seen libs rp lww c doc_id seen n =
     (case seen of
        None \<Rightarrow> (n, Inr ())
      | Some bs \<Rightarrow>
          (case rbind (map_err MStorage (decode_value libs bs)) (\<lambda>old. delete_ops_with_old c doc_id (Some old)) of
             Inl e \<Rightarrow> (n, Inl e)
           | Inr ops \<Rightarrow> commit_document_change rp lww c doc_id (ValueEquals DOCUMENT_TABLE (document_key c doc_id) (Some bs)) ops n))"

definition doc_delete ::
  "value_libs \<Rightarrow> 'n replication \<Rightarrow> (u32 \<Rightarrow> op \<Rightarrow> ('n, unit) prog) \<Rightarrow> ('n \<Rightarrow> 'n) \<Rightarrow> document_collection \<Rightarrow> document_id \<Rightarrow>
   'n \<Rightarrow> 'n \<times> (model_error + unit)" where
  "doc_delete libs rp lww others c doc_id n =
     (case rp_read rp n DOCUMENT_TABLE (document_key c doc_id) Strong of
        Inl e \<Rightarrow> (n, Inl (MRepl e))
      | Inr seen \<Rightarrow> delete_seen libs rp lww c doc_id seen (others n))"

section \<open>Reading many documents\<close>

definition doc_scan :: "value_libs \<Rightarrow> 'n replication \<Rightarrow> 'n \<Rightarrow> document_collection \<Rightarrow> model_error + (document_id \<times> val) list" where
  "doc_scan libs rp n c =
     (case collection_range_bounds (dc_collection_id c) of (start, stop) \<Rightarrow>
        rbind (map_err MRepl (rp_range rp n DOCUMENT_TABLE start stop Strong)) (\<lambda>rows.
          rmap (\<lambda>(doc_id, bs). rbind (map_err MStorage (decode_value libs bs)) (\<lambda>v. Inr (doc_id, v)))
            (List.map_filter (\<lambda>(key, bs). map_option (\<lambda>doc_id. (doc_id, bs)) (document_id_from_key key)) rows)))"

text \<open>A page: the callback of the scan counts the documents it has passed and keeps those of the page.\<close>

record page_state =
  pg_seen :: nat
  pg_documents :: "(document_id \<times> val) list"
  pg_error :: "storage_error option"

fun page_rows :: "value_libs \<Rightarrow> nat \<Rightarrow> nat \<Rightarrow> row list \<Rightarrow> page_state \<Rightarrow> page_state \<times> bool repl" where
  "page_rows libs offset stop_after [] st = (st, Inr True)"
| "page_rows libs offset stop_after ((key, bs) # rows) st =
     (case document_id_from_key key of
        None \<Rightarrow> page_rows libs offset stop_after rows st
      | Some doc_id \<Rightarrow>
          (case (if offset \<le> pg_seen st then rbind (decode_value libs bs) (\<lambda>v. Inr (pg_documents st @ [(doc_id, v)]))
                 else Inr (pg_documents st)) of
             Inl e \<Rightarrow> (st\<lparr>pg_error := Some e\<rparr>, Inr False)
           | Inr documents \<Rightarrow>
               let seen = usize_saturating_add (pg_seen st) 1;
                   st = st\<lparr>pg_seen := seen, pg_documents := documents\<rparr>
               in if stop_after \<le> seen then (st, Inr False) else page_rows libs offset stop_after rows st))"

definition doc_scan_page ::
  "value_libs \<Rightarrow> 'n replication \<Rightarrow> 'n \<Rightarrow> document_collection \<Rightarrow> nat \<Rightarrow> nat \<Rightarrow> model_error + (document_id \<times> val) list" where
  "doc_scan_page libs rp n c offset limit =
     (if limit = 0 then Inr []
      else case collection_range_bounds (dc_collection_id c) of (start, stop) \<Rightarrow>
        (case run_scan (\<lambda>st. (st, False)) (page_rows libs offset (usize_saturating_add offset limit))
                (rp_scan_range_batches rp n DOCUMENT_TABLE start stop Strong 256)
                \<lparr>pg_seen = 0, pg_documents = [], pg_error = None\<rparr> of
           (st, r) \<Rightarrow>
             rbind (map_err MRepl r) (\<lambda>_.
               case pg_error st of Some e \<Rightarrow> Inl (MStorage e) | None \<Rightarrow> Inr (pg_documents st))))"

section \<open>Queries\<close>

text \<open>
  Equality of values is the derived one: by structure, with the comparison of IEEE 754 on the
  numbers, for which the zeros are equal and a NaN differs from everything.
\<close>

definition f64_eq :: "u64 \<Rightarrow> u64 \<Rightarrow> bool" where
  "f64_eq a b \<longleftrightarrow> \<not> f64_is_nan a \<and> \<not> f64_is_nan b \<and> (a = b \<or> f64_is_zero a \<and> f64_is_zero b)"

definition f32_eq :: "u32 \<Rightarrow> u32 \<Rightarrow> bool" where
  "f32_eq a b \<longleftrightarrow>
     (let nan = (\<lambda>x :: u32. \<not> f32_is_finite x \<and> unat x mod 2 ^ 23 \<noteq> 0); zero = (\<lambda>x :: u32. unat x mod 2 ^ 31 = 0)
      in \<not> nan a \<and> \<not> nan b \<and> (a = b \<or> zero a \<and> zero b))"

fun val_eq :: "val \<Rightarrow> val \<Rightarrow> bool" where
  "val_eq v w =
     (case v of
        VNull \<Rightarrow> w = VNull
      | VBool a \<Rightarrow> w = VBool a
      | VInt a \<Rightarrow> w = VInt a
      | VFloat a \<Rightarrow> (case w of VFloat b \<Rightarrow> f64_eq a b | _ \<Rightarrow> False)
      | VStr a \<Rightarrow> w = VStr a
      | VBytes a \<Rightarrow> w = VBytes a
      | VArray as \<Rightarrow> (case w of VArray bs \<Rightarrow> list_all2 val_eq as bs | _ \<Rightarrow> False)
      | VObject as \<Rightarrow>
          (case w of VObject bs \<Rightarrow> list_all2 (\<lambda>a b. fst a = fst b \<and> val_eq (snd a) (snd b)) as bs | _ \<Rightarrow> False)
      | VVector as \<Rightarrow> (case w of VVector bs \<Rightarrow> list_all2 f32_eq as bs | _ \<Rightarrow> False)
      | VGeoPoint lon lat \<Rightarrow> (case w of VGeoPoint x y \<Rightarrow> f64_eq lon x \<and> f64_eq lat y | _ \<Rightarrow> False))"

declare val_eq.simps [simp del]

fun predicate_path :: "doc_predicate \<Rightarrow> field_path" where
  "predicate_path (PEq path _) = path"
| "predicate_path (PRange path _ _) = path"

fun predicate_matches :: "doc_predicate \<Rightarrow> val \<Rightarrow> bool" where
  "predicate_matches (PEq path v) doc = (case extract_path doc path of None \<Rightarrow> False | Some found \<Rightarrow> val_eq found v)"
| "predicate_matches (PRange path start stop) doc =
     (case extract_path doc path of
        None \<Rightarrow> False
      | Some found \<Rightarrow>
          (case (encode_index_value found, encode_index_value start, encode_index_value stop) of
             (Inr encoded, Inr start, Inr stop) \<Rightarrow> start \<le> encoded \<and> encoded < stop
           | _ \<Rightarrow> False))"

definition find_index :: "document_collection \<Rightarrow> field_path \<Rightarrow> index_spec option" where
  "find_index c path = find (\<lambda>index. ix_path index = path) (dc_indexes c)"

definition range_index_ids_between :: "'n replication \<Rightarrow> 'n \<Rightarrow> bytes \<Rightarrow> bytes \<Rightarrow> model_error + document_id list" where
  "range_index_ids_between rp n start stop =
     rbind (map_err MRepl (rp_range rp n INDEX_TABLE start stop Strong)) (\<lambda>rows.
       rmap (\<lambda>(key, _). document_id_from_index_key key) rows)"

definition range_index_ids :: "'n replication \<Rightarrow> 'n \<Rightarrow> bytes \<Rightarrow> model_error + document_id list" where
  "range_index_ids rp n pre = range_index_ids_between rp n pre (range_end pre)"

definition index_ids :: "'n replication \<Rightarrow> 'n \<Rightarrow> document_collection \<Rightarrow> index_spec \<Rightarrow> doc_predicate \<Rightarrow> model_error + document_id list" where
  "index_ids rp n c index p =
     (case p of
        PEq _ v \<Rightarrow>
          rbind (make_index_prefix (dc_collection_id c) (ix_id index) v) (\<lambda>pre. range_index_ids rp n pre)
      | PRange _ start stop \<Rightarrow>
          rbind (make_index_prefix (dc_collection_id c) (ix_id index) start) (\<lambda>start_key.
          rbind (make_index_prefix (dc_collection_id c) (ix_id index) stop) (\<lambda>stop_key.
            if stop_key \<le> start_key then Inl InvalidRange else range_index_ids_between rp n start_key stop_key)))"

definition query_with_index ::
  "value_libs \<Rightarrow> 'n replication \<Rightarrow> 'n \<Rightarrow> document_collection \<Rightarrow> index_spec \<Rightarrow> doc_predicate \<Rightarrow> model_error + query_result" where
  "query_with_index libs rp n c index p =
     rbind (index_ids rp n c index p) (\<lambda>ids.
     rbind (rfold (\<lambda>doc_id documents.
              rbind (doc_get libs rp n c doc_id) (\<lambda>found.
                case found of
                  Some document \<Rightarrow> Inr (if predicate_matches p document then documents @ [(doc_id, document)] else documents)
                | None \<Rightarrow> Inr documents)) ids []) (\<lambda>documents.
       Inr \<lparr>qr_plan = IndexScan (ix_id index), qr_examined_documents = length documents, qr_documents = documents\<rparr>))"

definition scan_document ::
  "value_libs \<Rightarrow> doc_predicate \<Rightarrow> row \<Rightarrow> (document_id \<times> val) list \<times> nat \<Rightarrow> model_error + (document_id \<times> val) list \<times> nat" where
  "scan_document libs p r st =
     (case (r, st) of ((key, bs), (documents, examined)) \<Rightarrow>
        (case document_id_from_key key of
           None \<Rightarrow> Inr st
         | Some doc_id \<Rightarrow>
             rbind (map_err MStorage (decode_value libs bs)) (\<lambda>document.
               Inr (if predicate_matches p document then documents @ [(doc_id, document)] else documents, Suc examined))))"

definition query_full_scan ::
  "value_libs \<Rightarrow> 'n replication \<Rightarrow> 'n \<Rightarrow> document_collection \<Rightarrow> doc_predicate \<Rightarrow> model_error + query_result" where
  "query_full_scan libs rp n c p =
     (case collection_range_bounds (dc_collection_id c) of (start, stop) \<Rightarrow>
        rbind (map_err MRepl (rp_range rp n DOCUMENT_TABLE start stop Strong)) (\<lambda>rows.
        rbind (rfold (scan_document libs p) rows ([], 0)) (\<lambda>(documents, examined).
          Inr \<lparr>qr_plan = FullScan, qr_examined_documents = examined, qr_documents = documents\<rparr>)))"

definition doc_query ::
  "value_libs \<Rightarrow> 'n replication \<Rightarrow> 'n \<Rightarrow> document_collection \<Rightarrow> doc_predicate \<Rightarrow> model_error + query_result" where
  "doc_query libs rp n c p =
     (case find_index c (predicate_path p) of
        Some index \<Rightarrow> query_with_index libs rp n c index p
      | None \<Rightarrow> query_full_scan libs rp n c p)"

end
