(* ===== verification/Document_Facts.thy ===== *)
theory Document_Facts
  imports Documents Backend
begin

text \<open>
  The secondary indexes of a collection stay consistent with its documents under concurrent
  inserts, updates and deletes, and a query that uses an index answers as one that scans.
\<close>

section \<open>Encoded index values\<close>

lemma length_encode_ordered [simp]: "length (encode_i64_ordered i) = 8" "length (encode_f64_ordered f) = 8"
  by (simp_all add: encode_i64_ordered_def encode_f64_ordered_def Let_def)

lemma u32_to_be_inject [simp]: "u32_to_be x = u32_to_be y \<longleftrightarrow> x = y"
  using u32_round by metis

lemma terminated_inject: "terminated a @ x = terminated b @ y \<longleftrightarrow> a = b \<and> x = y"
proof
  assume eq: "terminated a @ x = terminated b @ y"
  then have "\<not> terminated a @ x < terminated b @ y" "\<not> terminated b @ y < terminated a @ x"
    by simp_all
  then show "a = b \<and> x = y"
    unfolding terminated_less_iff by auto
qed simp

text \<open>No encoded value is a proper prefix of another, so what follows it in a key does not matter.\<close>

lemma encoded_prefix_free:
  assumes "encode_index_value v = Inr a" and "encode_index_value w = Inr b" and "a @ x = b @ y"
  shows "a = b \<and> x = y"
  using assms
  by (cases v; cases w) (auto simp: encode_terminated_bytes_eq terminated_inject split: if_splits)

lemma prefix_free_less:
  fixes a b :: bytes
  assumes "\<And>x y. a @ x = b @ y \<Longrightarrow> a = b"
  shows "a @ x < b \<longleftrightarrow> a < b" and "b \<le> a @ x \<longleftrightarrow> b \<le> a"
proof -
  show less: "a @ x < b \<longleftrightarrow> a < b"
    using assms
  proof (induction a arbitrary: b)
    case Nil
    then show ?case
      using Nil [of b "[]"] by (auto simp: prefix_le)
  next
    case (Cons c a)
    show ?case
    proof (cases b)
      case (Cons d b')
      have "a @ x < b' \<longleftrightarrow> a < b'" if "c = d"
        using Cons.IH Cons.prems that local.Cons by auto
      then show ?thesis
        by (auto simp: local.Cons)
    qed simp
  qed
  show "b \<le> a @ x \<longleftrightarrow> b \<le> a"
    using less by (simp flip: not_less)
qed

lemma encoded_order:
  assumes "encode_index_value v = Inr a" and "encode_index_value w = Inr b"
  shows "a @ x < b \<longleftrightarrow> a < b" and "b \<le> a @ x \<longleftrightarrow> b \<le> a"
  using prefix_free_less [of a b] encoded_prefix_free [OF assms] by blast+

lemma encode_index_normalized: "f64_is_finite (normalize_f64 f) = f64_is_finite f" "encode_f64_ordered (normalize_f64 f) = encode_f64_ordered f"
  by (auto simp: normalize_f64_def f64_is_zero_def f64_is_finite_def f64_exponent_def encode_f64_ordered_def)

lemma encode_canonical: "encode_index_value (canonical v) = encode_index_value v"
  by (cases v) (simp_all add: encode_index_normalized)

lemma val_eq_encoded:
  assumes "val_eq v w"
  shows "encode_index_value v = encode_index_value w"
proof -
  have "encode_f64_ordered a = encode_f64_ordered b \<and> f64_is_finite a = f64_is_finite b" if "f64_eq a b" for a b
    using that encode_index_normalized [of a] encode_index_normalized [of b] by (auto simp: f64_eq_def normalize_f64_def)
  with assms show ?thesis
    by (subst (asm) val_eq.simps) (auto split: val.splits)
qed

lemma extract_canonical: "extract_path (canonical v) path = map_option canonical (extract_path v path)"
proof (induction v path rule: extract_path.induct)
  case (2 es segment path)
  have "map_of (map (\<lambda>(k, v). (k, canonical v)) es) segment = map_option canonical (map_of es segment)"
    by (induction es) auto
  then show ?case
    using 2 by (cases "map_of es segment") auto
qed simp_all

section \<open>Consistent indexes\<close>

lemma document_tables [simp]:
  "DOCUMENT_TABLE \<noteq> INDEX_TABLE" "INDEX_TABLE \<noteq> DOCUMENT_TABLE"
  by (simp_all add: DOCUMENT_TABLE_def INDEX_TABLE_def)

definition entry_keys :: "document_collection \<Rightarrow> document_id \<Rightarrow> val \<Rightarrow> bytes set" where
  "entry_keys c i doc =
     {k. \<exists>ix \<in> set (dc_indexes c). \<exists>v. extract_path doc (ix_path ix) = Some v \<and> make_index_key (dc_collection_id c) (ix_id ix) v i = Inr k}"

definition indexable :: "document_collection \<Rightarrow> val \<Rightarrow> bool" where
  "indexable c doc \<longleftrightarrow>
     (\<forall>ix \<in> set (dc_indexes c). \<forall>v. extract_path doc (ix_path ix) = Some v \<longrightarrow> (\<exists>e. encode_index_value v = Inr e))"

definition doc_at :: "value_libs \<Rightarrow> store \<Rightarrow> collection_id \<Rightarrow> document_id \<Rightarrow> val option" where
  "doc_at libs s cid i = Option.bind (bt_get (s DOCUMENT_TABLE) (make_document_key cid i)) (\<lambda>bs. case decode_value libs bs of Inr v \<Rightarrow> Some v | Inl _ \<Rightarrow> None)"

text \<open>
  A collection is consistent when its documents can be read and indexed, and its index entries are
  exactly those its documents call for.
\<close>

definition coll_ok :: "value_libs \<Rightarrow> document_collection \<Rightarrow> store \<Rightarrow> bool" where
  "coll_ok libs c s \<longleftrightarrow>
     (\<forall>k bs. prefix (u32_to_be (dc_collection_id c)) k \<and> bt_get (s DOCUMENT_TABLE) k = Some bs \<longrightarrow>
        length k = 20 \<and> (\<exists>doc. decode_value libs bs = Inr doc \<and> indexable c doc)) \<and>
     (\<forall>k. prefix (u32_to_be (dc_collection_id c)) k \<longrightarrow>
        (bt_get (s INDEX_TABLE) k \<noteq> None \<longleftrightarrow>
         (\<exists>i doc. length i = 16 \<and> doc_at libs s (dc_collection_id c) i = Some doc \<and> k \<in> entry_keys c i doc)))"

lemma coll_okD:
  assumes "coll_ok libs c s"
  shows "prefix (u32_to_be (dc_collection_id c)) k \<Longrightarrow> bt_get (s DOCUMENT_TABLE) k = Some bs \<Longrightarrow>
      length k = 20 \<and> (\<exists>doc. decode_value libs bs = Inr doc \<and> indexable c doc)"
    and "prefix (u32_to_be (dc_collection_id c)) k \<Longrightarrow> bt_get (s INDEX_TABLE) k \<noteq> None \<longleftrightarrow>
      (\<exists>i doc. length i = 16 \<and> doc_at libs s (dc_collection_id c) i = Some doc \<and> k \<in> entry_keys c i doc)"
  using assms unfolding coll_ok_def by blast+

lemma entry_key_parts:
  assumes "k \<in> entry_keys c i doc"
  obtains ix v e where "ix \<in> set (dc_indexes c)" and "extract_path doc (ix_path ix) = Some v" and "encode_index_value v = Inr e"
    and "k = u32_to_be (dc_collection_id c) @ u32_to_be (ix_id ix) @ e @ i"
  using assms by (auto simp: entry_keys_def make_index_key_def make_index_prefix_def rbind_eq_Inr)

lemma entry_keys_prefix: "k \<in> entry_keys c i doc \<Longrightarrow> prefix (u32_to_be (dc_collection_id c)) k"
  by (erule entry_key_parts) simp

lemma entry_keys_id:
  assumes "k \<in> entry_keys c i doc" and "k \<in> entry_keys c' j doc'" and "length i = length j"
  shows "i = j"
proof -
  have "\<exists>p. k = p @ i" if "k \<in> entry_keys c i doc" for c i doc
    using that by (rule entry_key_parts) (metis append_assoc)
  from this [OF assms(1)] this [OF assms(2)] show ?thesis
    using assms(3) by (auto simp: append_eq_append_conv)
qed

text \<open>Only the rows of the collection matter.\<close>

lemma coll_ok_cong:
  assumes "\<And>k. prefix (u32_to_be (dc_collection_id c)) k \<Longrightarrow> bt_get (s' DOCUMENT_TABLE) k = bt_get (s DOCUMENT_TABLE) k"
    and "\<And>k. prefix (u32_to_be (dc_collection_id c)) k \<Longrightarrow> bt_get (s' INDEX_TABLE) k = bt_get (s INDEX_TABLE) k"
  shows "coll_ok libs c s' \<longleftrightarrow> coll_ok libs c s"
proof -
  have "doc_at libs s' (dc_collection_id c) = doc_at libs s (dc_collection_id c)"
    by (simp add: doc_at_def fun_eq_iff make_document_key_def assms(1))
  then show ?thesis
    unfolding coll_ok_def using assms by (simp cong: conj_cong imp_cong)
qed

text \<open>Changing one document and its entries.\<close>

definition old_keys :: "value_libs \<Rightarrow> document_collection \<Rightarrow> document_id \<Rightarrow> bytes option \<Rightarrow> bytes set" where
  "old_keys libs c i stored = (case stored of None \<Rightarrow> {} | Some bs \<Rightarrow> (case decode_value libs bs of Inl _ \<Rightarrow> {} | Inr doc \<Rightarrow> entry_keys c i doc))"

lemma coll_ok_change:
  assumes ok: "coll_ok libs c s" and i: "length i = 16"
    and docs: "\<And>k. bt_get (s' DOCUMENT_TABLE) k = (if k = make_document_key (dc_collection_id c) i then stored else bt_get (s DOCUMENT_TABLE) k)"
    and new: "\<And>bs. stored = Some bs \<Longrightarrow> \<exists>doc. decode_value libs bs = Inr doc \<and> indexable c doc"
    and entries: "\<And>k. bt_get (s' INDEX_TABLE) k \<noteq> None \<longleftrightarrow>
      k \<in> old_keys libs c i stored \<or>
      k \<notin> old_keys libs c i (bt_get (s DOCUMENT_TABLE) (make_document_key (dc_collection_id c) i)) \<and> bt_get (s INDEX_TABLE) k \<noteq> None"
  shows "coll_ok libs c s'"
proof -
  let ?cid = "dc_collection_id c"
  have at: "doc_at libs s' ?cid j = (if j = i then Option.bind stored (\<lambda>bs. case decode_value libs bs of Inr v \<Rightarrow> Some v | Inl _ \<Rightarrow> None) else doc_at libs s ?cid j)" for j
    by (simp add: doc_at_def docs make_document_key_def)
  have keys: "k \<in> old_keys libs c i (bt_get (t DOCUMENT_TABLE) (make_document_key ?cid i)) \<longleftrightarrow>
      (\<exists>doc. doc_at libs t ?cid i = Some doc \<and> k \<in> entry_keys c i doc)" for k t
    by (auto simp: old_keys_def doc_at_def split: option.splits sum.splits)
  have stored: "bt_get (s' DOCUMENT_TABLE) (make_document_key ?cid i) = stored"
    by (simp add: docs)
  show ?thesis
    unfolding coll_ok_def
  proof (intro conjI allI impI)
    fix k bs
    assume "prefix (u32_to_be ?cid) k \<and> bt_get (s' DOCUMENT_TABLE) k = Some bs"
    then show "length k = 20" "\<exists>doc. decode_value libs bs = Inr doc \<and> indexable c doc"
      using coll_okD(1) [OF ok, of k bs] new i by (auto simp: docs make_document_key_def split: if_splits)
  next
    fix k
    assume k: "prefix (u32_to_be ?cid) k"
    show "bt_get (s' INDEX_TABLE) k \<noteq> None \<longleftrightarrow> (\<exists>j doc. length j = 16 \<and> doc_at libs s' ?cid j = Some doc \<and> k \<in> entry_keys c j doc)"
    proof -
      have same: "doc_at libs s' ?cid j = doc_at libs s ?cid j" if "j \<noteq> i" for j
        using that by (simp add: at)
      have other: "j = i" if "k \<in> entry_keys c i doc" "k \<in> entry_keys c j doc'" "length j = 16" for j doc doc'
        using entry_keys_id [OF that(2,1)] that(3) i by simp
      show ?thesis
        unfolding entries keys [of k s', unfolded stored] keys [of k s] coll_okD(2) [OF ok k]
      proof (intro iffI; elim disjE exE conjE)
        fix j doc
        assume *: "\<nexists>doc. doc_at libs s ?cid i = Some doc \<and> k \<in> entry_keys c i doc"
          "length j = 16" "doc_at libs s ?cid j = Some doc" "k \<in> entry_keys c j doc"
        then have "j \<noteq> i"
          by blast
        with * show "\<exists>j doc. length j = 16 \<and> doc_at libs s' ?cid j = Some doc \<and> k \<in> entry_keys c j doc"
          using same by auto
      next
        fix j doc
        assume *: "length j = 16" "doc_at libs s' ?cid j = Some doc" "k \<in> entry_keys c j doc"
        show "(\<exists>doc. doc_at libs s' ?cid i = Some doc \<and> k \<in> entry_keys c i doc) \<or>
          (\<nexists>doc. doc_at libs s ?cid i = Some doc \<and> k \<in> entry_keys c i doc) \<and>
          (\<exists>j doc. length j = 16 \<and> doc_at libs s ?cid j = Some doc \<and> k \<in> entry_keys c j doc)"
          using * same [of j] other [OF _ *(3,1)] by (cases "j = i") auto
      qed (use i in blast)
    qed
  qed
qed

section \<open>The operations of a change\<close>

lemma new_index_ops:
  assumes "append_new_index_ops (dc_collection_id c) (dc_indexes c) i doc ops = Inr ops'"
  shows "\<exists>ks. ops' = ops @ map (\<lambda>k. OpPut INDEX_TABLE k EMPTY_INDEX_VALUE) ks \<and> set ks = entry_keys c i doc" and "indexable c doc"
proof -
  have "\<exists>ks. ops' = ops @ map (\<lambda>k. OpPut INDEX_TABLE k EMPTY_INDEX_VALUE) ks \<and>
      set ks = {k. \<exists>ix \<in> set ixs. \<exists>v. extract_path doc (ix_path ix) = Some v \<and> make_index_key cid (ix_id ix) v i = Inr k} \<and>
      (\<forall>ix \<in> set ixs. \<forall>v. extract_path doc (ix_path ix) = Some v \<longrightarrow> (\<exists>e. encode_index_value v = Inr e))"
    if "append_new_index_ops cid ixs i doc ops = Inr ops'" for cid ixs
    using that
  proof (induction ixs arbitrary: ops)
    case (Cons ix ixs)
    show ?case
    proof (cases "extract_path doc (ix_path ix)")
      case None
      with Cons show ?thesis
        by (simp add: append_new_index_ops_def)
    next
      case (Some v)
      then obtain key where key: "make_index_key cid (ix_id ix) v i = Inr key"
          "append_new_index_ops cid ixs i doc (ops @ [OpPut INDEX_TABLE key EMPTY_INDEX_VALUE]) = Inr ops'"
        using Cons.prems by (auto simp: append_new_index_ops_def rbind_eq_Inr)
      from Cons.IH [OF key(2)] obtain ks where ks: "ops' = (ops @ [OpPut INDEX_TABLE key EMPTY_INDEX_VALUE]) @ map (\<lambda>k. OpPut INDEX_TABLE k EMPTY_INDEX_VALUE) ks"
          "set ks = {k. \<exists>ix \<in> set ixs. \<exists>v. extract_path doc (ix_path ix) = Some v \<and> make_index_key cid (ix_id ix) v i = Inr k}"
          "\<forall>ix \<in> set ixs. \<forall>v. extract_path doc (ix_path ix) = Some v \<longrightarrow> (\<exists>e. encode_index_value v = Inr e)"
        by blast
      moreover have "\<exists>e. encode_index_value v = Inr e"
        using key(1) by (auto simp: make_index_key_def make_index_prefix_def rbind_eq_Inr)
      ultimately show ?thesis
        using Some key(1) by (intro exI [of _ "key # ks"]) auto
    qed
  qed (simp add: append_new_index_ops_def)
  from this [OF assms] show "\<exists>ks. ops' = ops @ map (\<lambda>k. OpPut INDEX_TABLE k EMPTY_INDEX_VALUE) ks \<and> set ks = entry_keys c i doc"
    and "indexable c doc"
    unfolding entry_keys_def indexable_def by blast+
qed

lemma old_index_ops:
  assumes "append_old_index_delete_ops (dc_collection_id c) (dc_indexes c) i doc ops = Inr ops'"
  shows "\<exists>ks. ops' = ops @ map (OpDelete INDEX_TABLE) ks \<and> set ks = entry_keys c i doc"
proof -
  have "\<exists>ks. ops' = ops @ map (OpDelete INDEX_TABLE) ks \<and>
      set ks = {k. \<exists>ix \<in> set ixs. \<exists>v. extract_path doc (ix_path ix) = Some v \<and> make_index_key cid (ix_id ix) v i = Inr k}"
    if "append_old_index_delete_ops cid ixs i doc ops = Inr ops'" for cid ixs
    using that
  proof (induction ixs arbitrary: ops)
    case (Cons ix ixs)
    show ?case
    proof (cases "extract_path doc (ix_path ix)")
      case None
      with Cons show ?thesis
        by (simp add: append_old_index_delete_ops_def)
    next
      case (Some v)
      then obtain key where key: "make_index_key cid (ix_id ix) v i = Inr key"
          "append_old_index_delete_ops cid ixs i doc (ops @ [OpDelete INDEX_TABLE key]) = Inr ops'"
        using Cons.prems by (auto simp: append_old_index_delete_ops_def rbind_eq_Inr)
      from Cons.IH [OF key(2)] obtain ks where "ops' = (ops @ [OpDelete INDEX_TABLE key]) @ map (OpDelete INDEX_TABLE) ks"
          "set ks = {k. \<exists>ix \<in> set ixs. \<exists>v. extract_path doc (ix_path ix) = Some v \<and> make_index_key cid (ix_id ix) v i = Inr k}"
        by blast
      then show ?thesis
        using Some key(1) by (intro exI [of _ "key # ks"]) auto
    qed
  qed (simp add: append_old_index_delete_ops_def)
  from this [OF assms] show ?thesis
    unfolding entry_keys_def .
qed

text \<open>What a committed batch does to the tables of users.\<close>

definition plain_table :: "string \<Rightarrow> bool" where
  "plain_table t \<longleftrightarrow> sized_table t \<and> \<not> table_is_reserved t"

lemma document_tables_plain [simp]: "plain_table DOCUMENT_TABLE" "plain_table INDEX_TABLE"
  by (simp_all add: plain_table_def DOCUMENT_TABLE_def INDEX_TABLE_def sized_table_def table_is_reserved_def RESERVED_KEYSPACE_PREFIX_def)

definition applied :: "op list \<Rightarrow> store \<Rightarrow> store \<Rightarrow> bool" where
  "applied ops s s' \<longleftrightarrow>
     (\<forall>t k. plain_table t \<longrightarrow> bt_get (s' t) k = (case bt_get (ops_to_write_set ops) (t, k) of Some v \<Rightarrow> v | None \<Rightarrow> bt_get (s t) k))"

lemma write_set_index_ops:
  "bt_get (fold op_to_write (map (\<lambda>k. OpPut INDEX_TABLE k EMPTY_INDEX_VALUE) ks) ws) (t, k) =
     (if t = INDEX_TABLE \<and> k \<in> set ks then Some (Some EMPTY_INDEX_VALUE) else bt_get ws (t, k))"
  "bt_get (fold op_to_write (map (OpDelete INDEX_TABLE) ks) ws) (t, k) =
     (if t = INDEX_TABLE \<and> k \<in> set ks then Some None else bt_get ws (t, k))"
  by (induction ks arbitrary: ws) auto

lemma applied_put:
  assumes "applied (map (OpDelete INDEX_TABLE) dels @ OpPut DOCUMENT_TABLE dk bs # map (\<lambda>k. OpPut INDEX_TABLE k EMPTY_INDEX_VALUE) puts) s s'"
  shows "bt_get (s' DOCUMENT_TABLE) k = (if k = dk then Some bs else bt_get (s DOCUMENT_TABLE) k)"
    and "bt_get (s' INDEX_TABLE) k \<noteq> None \<longleftrightarrow> k \<in> set puts \<or> k \<notin> set dels \<and> bt_get (s INDEX_TABLE) k \<noteq> None"
proof -
  note eq = assms [unfolded applied_def ops_to_write_set_def, rule_format]
  show "bt_get (s' DOCUMENT_TABLE) k = (if k = dk then Some bs else bt_get (s DOCUMENT_TABLE) k)"
    unfolding eq [OF document_tables_plain(1)] by (simp add: write_set_index_ops)
  show "bt_get (s' INDEX_TABLE) k \<noteq> None \<longleftrightarrow> k \<in> set puts \<or> k \<notin> set dels \<and> bt_get (s INDEX_TABLE) k \<noteq> None"
    unfolding eq [OF document_tables_plain(2)] by (simp add: write_set_index_ops)
qed

lemma applied_delete:
  assumes "applied (map (OpDelete INDEX_TABLE) dels @ [OpDelete DOCUMENT_TABLE dk]) s s'"
  shows "bt_get (s' DOCUMENT_TABLE) k = (if k = dk then None else bt_get (s DOCUMENT_TABLE) k)"
    and "bt_get (s' INDEX_TABLE) k \<noteq> None \<longleftrightarrow> k \<notin> set dels \<and> bt_get (s INDEX_TABLE) k \<noteq> None"
proof -
  note eq = assms [unfolded applied_def ops_to_write_set_def, rule_format]
  show "bt_get (s' DOCUMENT_TABLE) k = (if k = dk then None else bt_get (s DOCUMENT_TABLE) k)"
    unfolding eq [OF document_tables_plain(1)] by (simp add: write_set_index_ops)
  show "bt_get (s' INDEX_TABLE) k \<noteq> None \<longleftrightarrow> k \<notin> set dels \<and> bt_get (s INDEX_TABLE) k \<noteq> None"
    unfolding eq [OF document_tables_plain(2)] by (simp add: write_set_index_ops)
qed

text \<open>The shape of the batches of the writers.\<close>

lemma entry_keys_canonical: "entry_keys c i (canonical doc) = entry_keys c i doc" "indexable c (canonical doc) = indexable c doc"
proof -
  have "make_index_key cid ix (canonical v) i = make_index_key cid ix v i" for cid ix v
    by (simp add: make_index_key_def make_index_prefix_def encode_canonical)
  then show "entry_keys c i (canonical doc) = entry_keys c i doc" "indexable c (canonical doc) = indexable c doc"
    by (force simp: entry_keys_def indexable_def extract_canonical encode_canonical)+
qed

lemma put_ops_shape:
  assumes "put_ops_with_old c i old doc = Inr ops"
  obtains bs puts where "encode_value doc = Inr bs" and "indexable c doc" and "set puts = entry_keys c i doc"
    and "ops = OpPut DOCUMENT_TABLE (document_key c i) bs # map (\<lambda>k. OpPut INDEX_TABLE k EMPTY_INDEX_VALUE) puts"
proof -
  obtain bs where bs: "encode_value doc = Inr bs"
      "append_new_index_ops (dc_collection_id c) (dc_indexes c) i doc [OpPut DOCUMENT_TABLE (document_key c i) bs] = Inr ops"
    using assms by (auto simp: put_ops_with_old_def put_document_op_def document_key_def rbind_eq_Inr)
  from new_index_ops [OF bs(2)] bs(1) show thesis
    by (auto intro: that)
qed

lemma replace_ops_shape:
  assumes "replace_ops_with_old c i old doc = Inr ops"
  obtains dels bs puts where "encode_value doc = Inr bs" and "indexable c doc" and "set puts = entry_keys c i doc"
    and "set dels = (case old of None \<Rightarrow> {} | Some old \<Rightarrow> entry_keys c i old)"
    and "ops = map (OpDelete INDEX_TABLE) dels @
      OpPut DOCUMENT_TABLE (document_key c i) bs # map (\<lambda>k. OpPut INDEX_TABLE k EMPTY_INDEX_VALUE) puts"
proof -
  obtain d p where ops: "put_ops_with_old c i old doc = Inr p" "ops = d @ p"
    and d: "(case old of None \<Rightarrow> Inr [] | Some old \<Rightarrow> append_old_index_delete_ops (dc_collection_id c) (dc_indexes c) i old []) = Inr d"
    using assms by (auto simp: replace_ops_with_old_def rbind_eq_Inr)
  have "\<exists>dels. d = map (OpDelete INDEX_TABLE) dels \<and> set dels = (case old of None \<Rightarrow> {} | Some old \<Rightarrow> entry_keys c i old)"
    using d old_index_ops [of c i _ "[]" d] by (auto split: option.splits)
  with put_ops_shape [OF ops(1)] ops(2) show thesis
    by (metis that)
qed

lemma delete_ops_shape:
  assumes "delete_ops_with_old c i (Some old) = Inr ops"
  obtains dels where "set dels = entry_keys c i old"
    and "ops = map (OpDelete INDEX_TABLE) dels @ [OpDelete DOCUMENT_TABLE (document_key c i)]"
  using assms old_index_ops [of c i old "[]"]
  by (auto simp: delete_ops_with_old_def rbind_eq_Inr delete_document_op_def document_key_def intro: that)

text \<open>Such a batch keeps the collection consistent if it removes the entries of the document it replaces.\<close>

lemma stored_decodes:
  assumes "value_wf doc" and "encode_value doc = Inr bs"
  shows "decode_value libs bs = Inr (canonical doc)"
proof -
  have "max_document_bytes default_limits \<le> usize_max"
    by (simp add: default_limits_def usize_max_def)
  from decode_encoded [OF assms(1) assms(2) [unfolded encode_value_def] this] show ?thesis
    by (simp add: decode_value_def)
qed

lemma put_keeps_ok:
  assumes ok: "coll_ok libs c s" and "length i = 16" and "value_wf doc" and "encode_value doc = Inr bs" and "indexable c doc"
    and puts: "set puts = entry_keys c i doc" and dels: "set dels = old_keys libs c i (bt_get (s DOCUMENT_TABLE) (document_key c i))"
    and run: "applied (map (OpDelete INDEX_TABLE) dels @
      OpPut DOCUMENT_TABLE (document_key c i) bs # map (\<lambda>k. OpPut INDEX_TABLE k EMPTY_INDEX_VALUE) puts) s s'"
  shows "coll_ok libs c s'"
proof (rule coll_ok_change [OF ok assms(2), where stored = "Some bs"])
  note decoded = stored_decodes [OF assms(3,4)]
  show "\<exists>doc. decode_value libs b = Inr doc \<and> indexable c doc" if "Some bs = Some b" for b
    using that decoded assms(5) by (simp add: entry_keys_canonical)
  show "bt_get (s' INDEX_TABLE) k \<noteq> None \<longleftrightarrow> k \<in> old_keys libs c i (Some bs) \<or>
      k \<notin> old_keys libs c i (bt_get (s DOCUMENT_TABLE) (make_document_key (dc_collection_id c) i)) \<and> bt_get (s INDEX_TABLE) k \<noteq> None" for k
    using applied_put(2) [OF run, of k]
    by (simp add: puts dels old_keys_def [of _ _ _ "Some bs"] decoded entry_keys_canonical document_key_def)
qed (use applied_put(1) [OF run] in \<open>simp add: document_key_def\<close>)

lemma delete_keeps_ok:
  assumes ok: "coll_ok libs c s" and "length i = 16"
    and dels: "set dels = old_keys libs c i (bt_get (s DOCUMENT_TABLE) (document_key c i))"
    and run: "applied (map (OpDelete INDEX_TABLE) dels @ [OpDelete DOCUMENT_TABLE (document_key c i)]) s s'"
  shows "coll_ok libs c s'"
proof (rule coll_ok_change [OF ok assms(2), where stored = None])
  show "bt_get (s' INDEX_TABLE) k \<noteq> None \<longleftrightarrow> k \<in> old_keys libs c i None \<or>
      k \<notin> old_keys libs c i (bt_get (s DOCUMENT_TABLE) (make_document_key (dc_collection_id c) i)) \<and> bt_get (s INDEX_TABLE) k \<noteq> None" for k
    using applied_delete(2) [OF run, of k] by (simp add: dels old_keys_def [of _ _ _ None] document_key_def)
qed (use applied_delete(1) [OF run] in \<open>simp_all add: document_key_def\<close>)

text \<open>Batches of other collections.\<close>

definition ops_within :: "collection_id \<Rightarrow> op list \<Rightarrow> bool" where
  "ops_within cid ops \<longleftrightarrow>
     (\<forall>op \<in> set ops. op_table op \<in> {DOCUMENT_TABLE, INDEX_TABLE} \<and> prefix (u32_to_be cid) (op_key op))"

lemma ops_within_plain: "ops_within cid ops \<Longrightarrow> op \<in> set ops \<Longrightarrow> plain_table (op_table op)"
  unfolding ops_within_def by fastforce

lemma applied_elsewhere:
  assumes "applied ops s s'" and "ops_within cid ops" and "cid \<noteq> dc_collection_id c"
  shows "coll_ok libs c s' \<longleftrightarrow> coll_ok libs c s"
proof -
  have "bt_get (s' t) k = bt_get (s t) k" if "plain_table t" "prefix (u32_to_be (dc_collection_id c)) k" for t k
  proof -
    have "\<not> prefix (u32_to_be cid) k"
      using that(2) assms(3) by (auto simp: prefix_def)
    then have "bt_get (ops_to_write_set ops) (t, k) = None"
      using ops_to_write_set_keys [of ops "(t, k)"] assms(2) by (auto simp: ops_within_def)
    then show ?thesis
      using assms(1) that(1) by (simp add: applied_def)
  qed
  then show ?thesis
    by (intro coll_ok_cong) simp_all
qed

lemma ops_within_shapes:
  assumes "set puts = entry_keys c i doc"
  shows "ops_within (dc_collection_id c) (map (\<lambda>k. OpPut INDEX_TABLE k EMPTY_INDEX_VALUE) puts)"
    and "ops_within (dc_collection_id c) (map (OpDelete INDEX_TABLE) puts)"
  using assms entry_keys_prefix by (auto simp: ops_within_def)

section \<open>Writers over a backend\<close>

text \<open>
  A run of writers. Each update and delete is committed on the basis of the bytes \<open>seen\<close> it has
  read at some earlier moment, so the events of a run may come from any interleaving of clients.
  New documents get ids of 16 bytes that the collection does not hold yet, and all handles of
  the collection \<open>c\<close> declare its indexes; other collections may be written too.
\<close>

datatype doc_event =
    DocInsert document_collection document_id val
  | DocUpdate document_collection document_id val "bytes option"
  | DocDelete document_collection document_id "bytes option"

fun doc_step :: "value_libs \<Rightarrow> 'n replication \<Rightarrow> (u32 \<Rightarrow> op \<Rightarrow> ('n, unit) prog) \<Rightarrow> doc_event \<Rightarrow> 'n \<Rightarrow> 'n" where
  "doc_step libs rp lww (DocInsert c i doc) n = fst (doc_insert rp c i doc n)"
| "doc_step libs rp lww (DocUpdate c i doc seen) n = fst (update_seen libs rp lww c i doc seen n)"
| "doc_step libs rp lww (DocDelete c i seen) n = fst (delete_seen libs rp lww c i seen n)"

definition same_handle :: "document_collection \<Rightarrow> document_collection \<Rightarrow> bool" where
  "same_handle c c' \<longleftrightarrow> c' = c \<or> dc_collection_id c' \<noteq> dc_collection_id c"

fun doc_event_ok :: "'n replication \<Rightarrow> document_collection \<Rightarrow> doc_event \<Rightarrow> 'n \<Rightarrow> bool" where
  "doc_event_ok rp c (DocInsert c' i doc) n \<longleftrightarrow>
     same_handle c c' \<and> length i = 16 \<and> value_wf doc \<and> rp_read rp n DOCUMENT_TABLE (document_key c' i) Strong = Inr None"
| "doc_event_ok rp c (DocUpdate c' i doc seen) n \<longleftrightarrow> same_handle c c' \<and> length i = 16 \<and> value_wf doc"
| "doc_event_ok rp c (DocDelete c' i seen) n \<longleftrightarrow> same_handle c c' \<and> length i = 16"

fun doc_run_ok ::
  "value_libs \<Rightarrow> 'n replication \<Rightarrow> (u32 \<Rightarrow> op \<Rightarrow> ('n, unit) prog) \<Rightarrow> document_collection \<Rightarrow> doc_event list \<Rightarrow> 'n \<Rightarrow> bool" where
  "doc_run_ok libs rp lww c [] n \<longleftrightarrow> True"
| "doc_run_ok libs rp lww c (ev # evs) n \<longleftrightarrow>
     doc_event_ok rp c ev n \<and> doc_run_ok libs rp lww c evs (doc_step libs rp lww ev n)"

lemma applied_nothing: "applied [] s s' \<Longrightarrow> coll_ok libs c s' \<longleftrightarrow> coll_ok libs c s"
  by (intro coll_ok_cong) (simp_all add: applied_def ops_to_write_set_def)

text \<open>
  What the documents rely on in the backend. \<open>usable\<close> are the states in which it can be read;
  \<open>contents\<close> are its tables. A batch of rows of users is applied as a whole or leaves the tables
  of users alone, and a conditional batch is applied only if its condition holds.
\<close>

locale document_backend =
  fixes rp :: "'n replication" and usable :: "'n \<Rightarrow> bool" and contents :: "'n \<Rightarrow> store"
  assumes read_row: "\<lbrakk>usable n; plain_table t\<rbrakk> \<Longrightarrow> rp_read rp n t k con = Inr (bt_get (contents n t) k)"
    and read_range: "\<lbrakk>usable n; plain_table t\<rbrakk> \<Longrightarrow> rp_range rp n t start stop con = Inr (bt_range start stop (contents n t))"
    and propose: "\<lbrakk>usable n; \<forall>op \<in> set ops. plain_table (op_table op); ops \<noteq> []; rp_propose_batch rp ops n = (n', r)\<rbrakk> \<Longrightarrow>
      usable n' \<and> applied (if r = Inr () then ops else []) (contents n) (contents n')"
    and propose_if: "\<lbrakk>usable n; \<forall>op \<in> set ops. plain_table (op_table op); plain_table t;
        rp_propose_conditional_batch rp [ValueEquals t k v] ops n = (n', r)\<rbrakk> \<Longrightarrow>
      usable n' \<and> applied (if r = Inr () then ops else []) (contents n) (contents n') \<and>
      (r = Inr () \<longrightarrow> bt_get (contents n t) k = v) \<and> (\<forall>m. r \<noteq> Inl (Unsupported m))"
begin

lemma commit_change:
  assumes "usable n" and "\<forall>op \<in> set ops. plain_table (op_table op)"
    and "commit_document_change rp lww c i (ValueEquals DOCUMENT_TABLE (document_key c i) seen) ops n = (n', r)"
  shows "usable n'" and "applied (if r = Inr () then ops else []) (contents n) (contents n')"
    and "r = Inr () \<Longrightarrow> bt_get (contents n DOCUMENT_TABLE) (document_key c i) = seen"
proof -
  obtain m q where q: "rp_propose_conditional_batch rp [ValueEquals DOCUMENT_TABLE (document_key c i) seen] ops n = (m, q)"
    by (meson surj_pair)
  note facts = propose_if [OF assms(1,2) document_tables_plain(1) q]
  have "n' = m \<and> (r = Inr () \<longleftrightarrow> q = Inr ())"
    using assms(3) facts unfolding commit_document_change_def Let_def q
    by (cases q; auto split: repl_error.splits option.splits)
  with facts show "usable n'" and "applied (if r = Inr () then ops else []) (contents n) (contents n')"
    and "r = Inr () \<Longrightarrow> bt_get (contents n DOCUMENT_TABLE) (document_key c i) = seen"
    by auto
qed

text \<open>Every writer keeps the collection consistent, whether it commits or fails.\<close>

lemma insert_keeps:
  assumes "usable n" and "coll_ok libs c (contents n)" and "doc_event_ok rp c (DocInsert c' i doc) n"
    and "doc_insert rp c' i doc n = (n', r)"
  shows "usable n' \<and> coll_ok libs c (contents n')"
proof (cases "insert_ops c' i doc")
  case (Inr ops)
  then have "put_ops_with_old c' i None doc = Inr ops"
    by (simp add: insert_ops_def put_ops_with_old_def)
  from put_ops_shape [OF this] obtain bs puts where ops: "encode_value doc = Inr bs" "indexable c' doc" "set puts = entry_keys c' i doc"
      "ops = OpPut DOCUMENT_TABLE (document_key c' i) bs # map (\<lambda>k. OpPut INDEX_TABLE k EMPTY_INDEX_VALUE) puts" .
  have within: "ops_within (dc_collection_id c') ops"
    using ops_within_shapes(1) [OF ops(3)] by (simp add: ops(4) ops_within_def document_key_def make_document_key_def)
  obtain q where q: "rp_propose_batch rp ops n = (n', q)"
    using assms(4) by (auto simp: doc_insert_def Inr split: prod.splits)
  have run: "usable n' \<and> applied (if q = Inr () then ops else []) (contents n) (contents n')"
    using propose [OF assms(1) _ _ q] ops_within_plain [OF within] ops(4) by blast
  have event: "same_handle c c'" "length i = 16" "value_wf doc" "bt_get (contents n DOCUMENT_TABLE) (document_key c' i) = None"
    using assms(3) read_row [OF assms(1)] by simp_all
  have "coll_ok libs c (contents n')"
  proof (cases "q = Inr ()")
    case True
    then have run: "applied ops (contents n) (contents n')"
      using run by simp
    show ?thesis
    proof (cases "c' = c")
      case True
      from put_keeps_ok [OF assms(2) event(2,3) ops(1), of puts "[]"] run event(4) show ?thesis
        by (simp add: ops(4) ops(2,3) [unfolded True] True old_keys_def)
    next
      case False
      with applied_elsewhere [OF run within] event(1) assms(2) show ?thesis
        by (simp add: same_handle_def)
    qed
  qed (use run applied_nothing [of "contents n" "contents n'" libs c] assms(2) in simp)
  with run show ?thesis
    by simp
qed (use assms in \<open>simp add: doc_insert_def\<close>)

lemma commit_keeps:
  assumes "usable n" and "coll_ok libs c (contents n)" and "same_handle c c'" and within: "ops_within (dc_collection_id c') ops"
    and run: "commit_document_change rp lww c' i (ValueEquals DOCUMENT_TABLE (document_key c' i) seen) ops n = (n', r)"
    and keeps: "\<And>s s'. \<lbrakk>c' = c; coll_ok libs c s; bt_get (s DOCUMENT_TABLE) (document_key c i) = seen; applied ops s s'\<rbrakk> \<Longrightarrow> coll_ok libs c s'"
  shows "usable n' \<and> coll_ok libs c (contents n')"
proof -
  have "\<forall>op \<in> set ops. plain_table (op_table op)"
    using ops_within_plain [OF within] by blast
  note step = commit_change [OF assms(1) this run]
  have "coll_ok libs c (contents n')"
  proof (cases "r = Inr ()")
    case True
    then show ?thesis
      using step keeps [OF _ assms(2)] applied_elsewhere [OF _ within, of "contents n" "contents n'" c libs] assms(2,3)
      by (auto simp: same_handle_def)
  qed (use step(2) applied_nothing [of "contents n" "contents n'" libs c] assms(2) in simp)
  with step(1) show ?thesis ..
qed

lemma update_keeps:
  assumes "usable n" and "coll_ok libs c (contents n)" and "doc_event_ok rp c (DocUpdate c' i doc seen) n"
    and "update_seen libs rp lww c' i doc seen n = (n', r)"
  shows "usable n' \<and> coll_ok libs c (contents n')"
proof (cases "rbind (opt_transpose (\<lambda>bs. map_err MStorage (decode_value libs bs)) seen) (\<lambda>old. replace_ops_with_old c' i old doc)")
  case (Inr ops)
  then obtain old where old: "opt_transpose (\<lambda>bs. map_err MStorage (decode_value libs bs)) seen = Inr old" "replace_ops_with_old c' i old doc = Inr ops"
    by (auto simp: rbind_eq_Inr)
  from replace_ops_shape [OF old(2)] obtain dels bs puts where ops: "encode_value doc = Inr bs" "indexable c' doc" "set puts = entry_keys c' i doc"
      "set dels = (case old of None \<Rightarrow> {} | Some old \<Rightarrow> entry_keys c' i old)"
      "ops = map (OpDelete INDEX_TABLE) dels @ OpPut DOCUMENT_TABLE (document_key c' i) bs # map (\<lambda>k. OpPut INDEX_TABLE k EMPTY_INDEX_VALUE) puts" .
  have keys: "set dels = old_keys libs c' i seen"
    using old(1) unfolding ops(4) by (auto simp: old_keys_def opt_transpose_def rbind_eq_Inr split: option.splits sum.splits)
  have "ops_within (dc_collection_id c') (map (OpDelete INDEX_TABLE) dels)"
    using ops(4) ops_within_shapes(2) [of dels c' i] by (auto simp: ops_within_def split: option.splits)
  then have within: "ops_within (dc_collection_id c') ops"
    using ops_within_shapes(1) [OF ops(3)] by (auto simp: ops(5) ops_within_def document_key_def make_document_key_def)
  show ?thesis
  proof (rule commit_keeps [OF assms(1,2) _ within])
    show "coll_ok libs c s'" if "c' = c" "coll_ok libs c s" "bt_get (s DOCUMENT_TABLE) (document_key c i) = seen" "applied ops s s'" for s s'
      using put_keeps_ok [OF that(2) _ _ ops(1), of i puts dels s'] that assms(3) ops(2,3,5) keys by simp
  qed (use assms(3,4) Inr in \<open>simp_all add: update_seen_def\<close>)
qed (use assms in \<open>simp add: update_seen_def\<close>)

lemma delete_keeps:
  assumes "usable n" and "coll_ok libs c (contents n)" and "doc_event_ok rp c (DocDelete c' i seen) n"
    and "delete_seen libs rp lww c' i seen n = (n', r)"
  shows "usable n' \<and> coll_ok libs c (contents n')"
proof -
  consider "n' = n" | bs old ops where "seen = Some bs" "decode_value libs bs = Inr old" "delete_ops_with_old c' i (Some old) = Inr ops"
      "commit_document_change rp lww c' i (ValueEquals DOCUMENT_TABLE (document_key c' i) seen) ops n = (n', r)"
    using assms(4) by (auto simp: delete_seen_def rbind_eq_Inr split: option.splits sum.splits)
  then show ?thesis
  proof cases
    case (2 bs old ops)
    from delete_ops_shape [OF 2(3)] obtain dels where ops: "set dels = entry_keys c' i old"
        "ops = map (OpDelete INDEX_TABLE) dels @ [OpDelete DOCUMENT_TABLE (document_key c' i)]" .
    have within: "ops_within (dc_collection_id c') ops"
      using ops_within_shapes(2) [OF ops(1)] by (auto simp: ops(2) ops_within_def document_key_def make_document_key_def)
    have keys: "set dels = old_keys libs c' i seen"
      by (simp add: ops(1) old_keys_def 2(1,2))
    show ?thesis
    proof (rule commit_keeps [OF assms(1,2) _ within 2(4)])
      show "coll_ok libs c s'" if "c' = c" "coll_ok libs c s" "bt_get (s DOCUMENT_TABLE) (document_key c i) = seen" "applied ops s s'" for s s'
        using delete_keeps_ok [OF that(2), of i dels s'] that assms(3) ops(2) keys by simp
    qed (use assms(3) in simp)
  qed (use assms in simp)
qed

lemma run_keeps:
  assumes "usable n" and "coll_ok libs c (contents n)" and "doc_run_ok libs rp lww c evs n"
  shows "usable (fold (doc_step libs rp lww) evs n) \<and> coll_ok libs c (contents (fold (doc_step libs rp lww) evs n))"
  using assms
proof (induction evs arbitrary: n)
  case (Cons ev evs)
  have "usable (doc_step libs rp lww ev n) \<and> coll_ok libs c (contents (doc_step libs rp lww ev n))"
  proof (cases ev)
    case (DocInsert c' i doc)
    show ?thesis
      using insert_keeps [OF Cons.prems(1,2) _ prod.collapse [symmetric]] Cons.prems(3) unfolding DocInsert by simp
  next
    case (DocUpdate c' i doc seen)
    show ?thesis
      using update_keeps [OF Cons.prems(1,2) _ prod.collapse [symmetric]] Cons.prems(3) unfolding DocUpdate by simp
  next
    case (DocDelete c' i seen)
    show ?thesis
      using delete_keeps [OF Cons.prems(1,2) _ prod.collapse [symmetric]] Cons.prems(3) unfolding DocDelete by simp
  qed
  with Cons show ?case
    by simp
qed simp

lemma get_document:
  assumes "usable n" and "coll_ok libs c (contents n)"
  shows "doc_get libs rp n c i = Inr (doc_at libs (contents n) (dc_collection_id c) i)"
  using coll_okD(1) [OF assms(2), of "document_key c i"]
  by (auto simp: doc_get_def get_with_consistency_def read_row [OF assms(1)] doc_at_def document_key_def make_document_key_def
      split: option.split)

end

end
