(* ===== verification/Document_Query.thy ===== *)
theory Document_Query
  imports Document_Facts
begin

text \<open>
  Queries of \<open>src/model/mod.rs\<close> that use an index find exactly the documents a scan of the
  collection finds: the locale of \<open>Document_Facts\<close> carries the argument, its interpretation on
  \<open>SingleNode\<close> over the in-memory engine gives the theorem.
\<close>

section \<open>What a query selects\<close>

definition matching :: "value_libs \<Rightarrow> document_collection \<Rightarrow> doc_predicate \<Rightarrow> store \<Rightarrow> (document_id \<times> val) set" where
  "matching libs c p s =
     {(i, doc). length i = 16 \<and> doc_at libs s (dc_collection_id c) i = Some doc \<and> predicate_matches p doc}"

text \<open>The predicates an index can answer: their bounds can be encoded and are in order.\<close>

fun indexable_predicate :: "doc_predicate \<Rightarrow> bool" where
  "indexable_predicate (PEq path v) \<longleftrightarrow> (\<exists>e. encode_index_value v = Inr e)"
| "indexable_predicate (PRange path start stop) \<longleftrightarrow>
     (\<exists>a b. encode_index_value start = Inr a \<and> encode_index_value stop = Inr b \<and> a < b)"

fun selects :: "doc_predicate \<Rightarrow> bytes \<Rightarrow> bool" where
  "selects (PEq path v) e \<longleftrightarrow> encode_index_value v = Inr e"
| "selects (PRange path start stop) e \<longleftrightarrow>
     (\<forall>a b. encode_index_value start = Inr a \<longrightarrow> encode_index_value stop = Inr b \<longrightarrow> a \<le> e \<and> e < b)"

lemma matches_selects:
  assumes "predicate_matches p doc" and "indexable_predicate p"
  obtains v e where "extract_path doc (predicate_path p) = Some v" and "encode_index_value v = Inr e" and "selects p e"
  using assms by (cases p) (auto split: option.splits sum.splits dest: val_eq_encoded)

lemma range_distinct: "distinct (map fst (bt_range lo hi m))"
  using ordered_distinct [OF bt_range_ordered] .

lemma distinct_map_inj_key:
  assumes "distinct (map fst xs)" and "\<And>x y. x \<in> set xs \<Longrightarrow> y \<in> set xs \<Longrightarrow> f x = f y \<Longrightarrow> fst x = fst y"
  shows "distinct (map f xs)"
proof -
  have "inj_on fst (set xs)" "distinct xs"
    using assms(1) by (simp_all add: distinct_map)
  moreover from this(1) have "inj_on f (set xs)"
    using assms(2) unfolding inj_on_def by blast
  ultimately show ?thesis
    by (simp add: distinct_map)
qed

lemma doc_at_iff:
  "doc_at libs s cid i = Some doc \<longleftrightarrow>
     (\<exists>bs. bt_get (s DOCUMENT_TABLE) (make_document_key cid i) = Some bs \<and> decode_value libs bs = Inr doc)"
  by (cases "bt_get (s DOCUMENT_TABLE) (make_document_key cid i)") (simp_all add: doc_at_def split: sum.split)

definition no_documents :: "document_collection \<Rightarrow> store \<Rightarrow> bool" where
  "no_documents c s \<longleftrightarrow> (\<forall>k. prefix (u32_to_be (dc_collection_id c)) k \<longrightarrow>
     bt_get (s DOCUMENT_TABLE) k = None \<and> bt_get (s INDEX_TABLE) k = None)"

lemma no_documents_ok:
  assumes "no_documents c s"
  shows "coll_ok libs c s"
proof -
  have "doc_at libs s (dc_collection_id c) i = None" for i
    using assms by (simp add: no_documents_def doc_at_def make_document_key_def)
  then show ?thesis
    using assms by (auto simp: coll_ok_def no_documents_def)
qed

section \<open>The full scan\<close>

lemma scan_documents:
  assumes "\<forall>(k, bs) \<in> set rows. length k = 20 \<and> (\<exists>doc. decode_value libs bs = Inr doc)"
  shows "rfold (scan_document libs p) rows (ds, m) =
    Inr (ds @ filter (\<lambda>(i, doc). predicate_matches p doc) (map (\<lambda>(k, bs). (drop 4 k, projr (decode_value libs bs))) rows), m + length rows)"
  using assms
proof (induction rows arbitrary: ds m)
  case (Cons r rows)
  then show ?case
    by (cases r) (auto simp: scan_document_def document_id_from_key_def DOCUMENT_KEY_LEN_def)
qed simp

context document_backend
begin

lemma full_scan_exact:
  assumes "usable n" and ok: "coll_ok libs c (contents n)"
  obtains full where "query_full_scan libs rp n c p = Inr full" and "distinct (qr_documents full)"
    and "set (qr_documents full) = matching libs c p (contents n)"
proof -
  let ?cid = "dc_collection_id c"
  let ?rows = "bt_range (u32_to_be ?cid) (range_end (u32_to_be ?cid)) (contents n DOCUMENT_TABLE)"
  let ?f = "\<lambda>(k :: bytes, bs). (drop 4 k, projr (decode_value libs bs))"
  let ?docs = "filter (\<lambda>(i, doc). predicate_matches p doc) (map ?f ?rows)"
  have row: "(k, bs) \<in> set ?rows \<longleftrightarrow> prefix (u32_to_be ?cid) k \<and> bt_get (contents n DOCUMENT_TABLE) k = Some bs" for k bs
    by (simp add: bt_range_iff range_end_exact)
  have good: "\<forall>(k, bs) \<in> set ?rows. length k = 20 \<and> (\<exists>doc. decode_value libs bs = Inr doc)"
    using coll_okD(1) [OF ok] row by blast
  have scan: "query_full_scan libs rp n c p = Inr \<lparr>qr_plan = FullScan, qr_examined_documents = length ?rows, qr_documents = ?docs\<rparr>"
    by (simp add: query_full_scan_def collection_range_bounds_def u32_prefix_range_def Let_def read_range [OF assms(1)]
        scan_documents [OF good])
  have dist: "distinct (map ?f ?rows)"
  proof (rule distinct_map_inj_key [OF range_distinct])
    fix x y
    assume "x \<in> set ?rows" "y \<in> set ?rows" "?f x = ?f y"
    then show "fst x = fst y"
      using row [of "fst x" "snd x"] row [of "fst y" "snd y"] by (auto simp: case_prod_beta prefix_def)
  qed
  have docs: "set ?docs = matching libs c p (contents n)"
  proof -
    have "(i, doc) \<in> set (map ?f ?rows) \<longleftrightarrow> length i = 16 \<and> doc_at libs (contents n) ?cid i = Some doc" for i doc
    proof
      assume "(i, doc) \<in> set (map ?f ?rows)"
      then obtain k bs where k: "(k, bs) \<in> set ?rows" "i = drop 4 k" "doc = projr (decode_value libs bs)"
        by auto
      then have "k = make_document_key ?cid i" "length k = 20" "decode_value libs bs = Inr doc"
        using bspec [OF good k(1)] by (auto simp: row prefix_def make_document_key_def)
      with k(1) show "length i = 16 \<and> doc_at libs (contents n) ?cid i = Some doc"
        by (simp add: row doc_at_def make_document_key_def)
    next
      assume *: "length i = 16 \<and> doc_at libs (contents n) ?cid i = Some doc"
      then obtain bs where "bt_get (contents n DOCUMENT_TABLE) (make_document_key ?cid i) = Some bs" "decode_value libs bs = Inr doc"
        by (auto simp: doc_at_iff)
      then show "(i, doc) \<in> set (map ?f ?rows)"
        by (auto simp: row make_document_key_def intro!: rev_image_eqI [of "(make_document_key ?cid i, bs)"])
    qed
    then have "set (map ?f ?rows) = {(i, doc). length i = 16 \<and> doc_at libs (contents n) ?cid i = Some doc}"
      by (intro set_eqI) (simp only: split_paired_all mem_Collect_eq prod.case)
    then show ?thesis
      unfolding matching_def set_filter by auto
  qed
  show thesis
    by (rule that [OF scan]) (simp_all only: query_result.select_convs docs distinct_filter [OF dist])
qed

end

section \<open>The index scan\<close>

lemma keep_iff:
  "(i, d) \<in> set (concat (map (\<lambda>i. case at i of Some d \<Rightarrow> if P d then [(i, d)] else [] | None \<Rightarrow> []) ids)) \<longleftrightarrow>
     i \<in> set ids \<and> at i = Some d \<and> P d"
  by (induction ids) (auto split: option.splits)

lemma keep_distinct:
  "distinct ids \<Longrightarrow> distinct (concat (map (\<lambda>i. case at i of Some d \<Rightarrow> if P d then [(i, d)] else [] | None \<Rightarrow> []) ids))"
proof (induction ids)
  case (Cons i ids)
  have "(i, d) \<notin> set (concat (map (\<lambda>i. case at i of Some d \<Rightarrow> if P d then [(i, d)] else [] | None \<Rightarrow> []) ids))" for d
    using Cons.prems unfolding keep_iff by simp
  with Cons show ?case
    by (simp del: set_concat split: option.split)
qed simp

text \<open>The rows of the index that a predicate reads, by the documents they belong to.\<close>

definition entry_of :: "value_libs \<Rightarrow> document_collection \<Rightarrow> index_spec \<Rightarrow> doc_predicate \<Rightarrow> store \<Rightarrow> bytes \<Rightarrow> document_id \<Rightarrow> bool" where
  "entry_of libs c ix p s k i \<longleftrightarrow> length i = 16 \<and>
     (\<exists>doc v e. doc_at libs s (dc_collection_id c) i = Some doc \<and> extract_path doc (ix_path ix) = Some v \<and>
        encode_index_value v = Inr e \<and> selects p e \<and> k = u32_to_be (dc_collection_id c) @ u32_to_be (ix_id ix) @ e @ i)"

lemma entry_of_id:
  assumes "entry_of libs c ix p s k i"
  shows "document_id_from_index_key k = Inr i"
proof -
  obtain e where "k = (u32_to_be (dc_collection_id c) @ u32_to_be (ix_id ix) @ e) @ i" "length i = 16"
    using assms by (auto simp: entry_of_def)
  then show ?thesis
    by (simp add: document_id_from_index_key_def INDEX_PREFIX_LEN_def INDEX_KEY_DOC_ID_LEN_def)
qed

lemma entry_of_unique: "entry_of libs c ix p s k i \<Longrightarrow> entry_of libs c ix p s k' i \<Longrightarrow> k = k'"
  by (auto simp: entry_of_def)

lemma entry_rows:
  assumes ok: "coll_ok libs c s" and ix: "ix \<in> set (dc_indexes c)" "distinct (map ix_id (dc_indexes c))"
    and lo: "\<And>v e i. encode_index_value v = Inr e \<Longrightarrow>
      in_range lo hi (u32_to_be (dc_collection_id c) @ u32_to_be (ix_id ix) @ e @ i) \<longleftrightarrow> selects p e"
    and within: "\<And>k. in_range lo hi k \<Longrightarrow> prefix (u32_to_be (dc_collection_id c) @ u32_to_be (ix_id ix)) k"
  shows "in_range lo hi k \<and> bt_get (s INDEX_TABLE) k \<noteq> None \<longleftrightarrow> (\<exists>i. entry_of libs c ix p s k i)"
proof
  let ?cid = "dc_collection_id c"
  assume k: "in_range lo hi k \<and> bt_get (s INDEX_TABLE) k \<noteq> None"
  then have "prefix (u32_to_be ?cid) k"
    using within [of k] by (auto simp: prefix_def)
  with k obtain i doc where i: "length i = 16" "doc_at libs s ?cid i = Some doc" "k \<in> entry_keys c i doc"
    using coll_okD(2) [OF ok, of k] by auto
  from i(3) obtain ix' v e where e: "ix' \<in> set (dc_indexes c)" "extract_path doc (ix_path ix') = Some v"
      "encode_index_value v = Inr e" "k = u32_to_be ?cid @ u32_to_be (ix_id ix') @ e @ i"
    by (rule entry_key_parts)
  have "ix_id ix' = ix_id ix"
    using within [of k] k e(4) by (auto simp: prefix_def)
  then have "ix' = ix"
    using ix e(1) by (auto simp: distinct_map inj_on_def)
  with lo [OF e(3), of i] k i(1,2) e show "\<exists>i. entry_of libs c ix p s k i"
    unfolding entry_of_def by metis
next
  let ?cid = "dc_collection_id c"
  assume "\<exists>i. entry_of libs c ix p s k i"
  then obtain i doc v e where e: "length i = 16" "doc_at libs s ?cid i = Some doc" "extract_path doc (ix_path ix) = Some v"
      "encode_index_value v = Inr e" "selects p e" "k = u32_to_be ?cid @ u32_to_be (ix_id ix) @ e @ i"
    by (auto simp: entry_of_def)
  have "k \<in> entry_keys c i doc"
    using ix(1) e by (auto simp: entry_keys_def make_index_key_def make_index_prefix_def intro!: bexI [of _ ix])
  then show "in_range lo hi k \<and> bt_get (s INDEX_TABLE) k \<noteq> None"
    using coll_okD(2) [OF ok entry_keys_prefix] e lo [OF e(4), of i] by blast
qed

lemma eq_interval:
  assumes "encode_index_value w = Inr e0" and "encode_index_value v = Inr e"
  shows "in_range (P @ e0) (range_end (P @ e0)) (P @ e @ i) \<longleftrightarrow> selects (PEq path w) e"
proof -
  have "e0 = e" if "prefix e0 (e @ i)"
    using that encoded_prefix_free [OF assms(2,1), of i] unfolding prefix_def by metis
  then have "prefix (P @ e0) (P @ e @ i) \<longleftrightarrow> e0 = e"
    by auto
  then show ?thesis
    using assms(1) by (simp add: range_end_exact)
qed

lemma range_interval:
  assumes "encode_index_value start = Inr a" and "encode_index_value stop = Inr b" and "encode_index_value v = Inr e" and "P \<noteq> []"
  shows "in_range (P @ a) (P @ b) (P @ e @ i) \<longleftrightarrow> selects (PRange path start stop) e"
  unfolding in_range_def selects.simps lex_append_same lex_append_same_le encoded_order [OF assms(3,1)] encoded_order [OF assms(3,2)]
  using assms(1,2,4) by auto

lemma range_within:
  assumes "in_range (P @ a) (P @ b) k" and "P \<noteq> []"
  shows "prefix P k"
  using assms between_prefix [of P a k b] by (auto simp: in_range_def)

context document_backend
begin

lemma index_rows_ids:
  assumes "usable n" and "coll_ok libs c (contents n)" and "ix \<in> set (dc_indexes c)" and "distinct (map ix_id (dc_indexes c))"
    and "\<And>v e i. encode_index_value v = Inr e \<Longrightarrow>
      in_range lo hi (u32_to_be (dc_collection_id c) @ u32_to_be (ix_id ix) @ e @ i) \<longleftrightarrow> selects p e"
    and "\<And>k. in_range lo hi k \<Longrightarrow> prefix (u32_to_be (dc_collection_id c) @ u32_to_be (ix_id ix)) k"
  obtains ids where "range_index_ids_between rp n lo hi = Inr ids" and "distinct ids"
    and "set ids = {i. \<exists>k. entry_of libs c ix p (contents n) k i}"
proof -
  let ?rows = "bt_range lo hi (contents n INDEX_TABLE)" and ?entry = "entry_of libs c ix p (contents n)"
  let ?id = "\<lambda>r. projr (document_id_from_index_key (fst r))"
  have "in_range lo hi k \<and> bt_get (contents n INDEX_TABLE) k \<noteq> None \<longleftrightarrow> (\<exists>i. ?entry k i)" for k
    by (rule entry_rows) (fact assms)+
  then have row: "(\<exists>v. (k, v) \<in> set ?rows) \<longleftrightarrow> (\<exists>i. ?entry k i)" for k
    by (auto simp: bt_range_iff)
  have entry: "?entry (fst r) (?id r)" if "r \<in> set ?rows" for r
    using that row [of "fst r"] entry_of_id [of libs c ix p "contents n" "fst r"] by (metis prod.collapse sum.sel(2))
  have "document_id_from_index_key (fst r) = Inr (?id r)" if "r \<in> set ?rows" for r
    using entry_of_id [OF entry [OF that]] by simp
  then have "range_index_ids_between rp n lo hi = Inr (map ?id ?rows)"
    by (auto simp: range_index_ids_between_def read_range [OF assms(1)] case_prod_beta intro!: rmap_total)
  moreover have "distinct (map ?id ?rows)"
    using entry entry_of_unique by (intro distinct_map_inj_key [OF range_distinct]) metis
  moreover have "set (map ?id ?rows) = {i. \<exists>k. ?entry k i}"
  proof (intro equalityI subsetI)
    fix i
    assume "i \<in> {i. \<exists>k. ?entry k i}"
    then obtain k v where k: "?entry k i" "(k, v) \<in> set ?rows"
      using row by blast
    then have "i = ?id (k, v)"
      using entry_of_id [OF k(1)] by simp
    with k(2) show "i \<in> set (map ?id ?rows)"
      unfolding set_map by (rule rev_image_eqI)
  qed (use entry in auto)
  ultimately show thesis ..
qed

lemma index_ids_exact:
  assumes "usable n" and "coll_ok libs c (contents n)" and "ix \<in> set (dc_indexes c)" and "distinct (map ix_id (dc_indexes c))"
    and p: "indexable_predicate p"
  obtains ids where "index_ids rp n c ix p = Inr ids" and "distinct ids"
    and "set ids = {i. \<exists>k. entry_of libs c ix p (contents n) k i}"
proof -
  let ?P = "u32_to_be (dc_collection_id c) @ u32_to_be (ix_id ix)"
  have P: "?P \<noteq> []"
    by (metis append_is_Nil_conv length_u32_to_be list.size(3) zero_neq_numeral)
  show thesis
  proof (cases p)
    case (PEq path w)
    then obtain e0 where e0: "encode_index_value w = Inr e0"
      using p by auto
    have "index_ids rp n c ix p = range_index_ids_between rp n (?P @ e0) (range_end (?P @ e0))"
      by (simp add: index_ids_def PEq make_index_prefix_def e0 range_index_ids_def)
    note run = this
    show thesis
    proof (rule index_rows_ids [OF assms(1-4), where p = p and lo = "?P @ e0" and hi = "range_end (?P @ e0)"])
      show "in_range (?P @ e0) (range_end (?P @ e0)) (u32_to_be (dc_collection_id c) @ u32_to_be (ix_id ix) @ e @ i) \<longleftrightarrow> selects p e"
        if "encode_index_value v = Inr e" for v e i
        using eq_interval [OF e0 that, of ?P i path] unfolding PEq append_assoc .
      show "prefix ?P k" if "in_range (?P @ e0) (range_end (?P @ e0)) k" for k
        using that unfolding range_end_exact by (rule append_prefixD)
    qed (use run in \<open>auto intro: that\<close>)
  next
    case (PRange path start stop)
    then obtain a b where ab: "encode_index_value start = Inr a" "encode_index_value stop = Inr b" "a < b"
      using p by auto
    have "index_ids rp n c ix p = range_index_ids_between rp n (?P @ a) (?P @ b)"
      using ab(3) [folded not_le] by (simp add: index_ids_def PRange make_index_prefix_def ab(1,2) lex_append_same_le)
    note run = this
    show thesis
    proof (rule index_rows_ids [OF assms(1-4), where p = p and lo = "?P @ a" and hi = "?P @ b"])
      show "in_range (?P @ a) (?P @ b) (u32_to_be (dc_collection_id c) @ u32_to_be (ix_id ix) @ e @ i) \<longleftrightarrow> selects p e"
        if "encode_index_value v = Inr e" for v e i
        using range_interval [OF ab(1,2) that P, of i path] unfolding PRange append_assoc .
      show "prefix ?P k" if "in_range (?P @ a) (?P @ b) k" for k
        using that P by (rule range_within)
    qed (use run in \<open>auto intro: that\<close>)
  qed
qed

lemma index_query_exact:
  assumes "usable n" and ok: "coll_ok libs c (contents n)" and "distinct (map ix_id (dc_indexes c))"
    and ix: "find_index c (predicate_path p) = Some ix" and p: "indexable_predicate p"
  obtains r where "doc_query libs rp n c p = Inr r" and "qr_plan r = IndexScan (ix_id ix)" and "distinct (qr_documents r)"
    and "set (qr_documents r) = matching libs c p (contents n)"
proof -
  have in_c: "ix \<in> set (dc_indexes c)" "ix_path ix = predicate_path p"
    using ix by (auto simp: find_index_def find_Some_iff)
  from index_ids_exact [OF assms(1,2) in_c(1) assms(3) p] obtain ids where ids: "index_ids rp n c ix p = Inr ids" "distinct ids"
      "set ids = {i. \<exists>k. entry_of libs c ix p (contents n) k i}" .
  let ?at = "doc_at libs (contents n) (dc_collection_id c)"
  let ?keep = "\<lambda>i. case ?at i of Some doc \<Rightarrow> if predicate_matches p doc then [(i, doc)] else [] | None \<Rightarrow> []"
  have "rfold (\<lambda>doc_id documents. rbind (doc_get libs rp n c doc_id) (\<lambda>found. case found of
        Some document \<Rightarrow> Inr (if predicate_matches p document then documents @ [(doc_id, document)] else documents)
      | None \<Rightarrow> Inr documents)) is ds = Inr (ds @ concat (map ?keep is))" for "is" ds
    by (induction "is" arbitrary: ds) (auto simp: get_document [OF assms(1,2)] split: option.split)
  then have run: "doc_query libs rp n c p = Inr \<lparr>qr_plan = IndexScan (ix_id ix),
      qr_examined_documents = length (concat (map ?keep ids)), qr_documents = concat (map ?keep ids)\<rparr>"
    by (simp add: doc_query_def ix query_with_index_def ids(1))
  have "set (concat (map ?keep ids)) = matching libs c p (contents n)"
  proof -
    have "i \<in> set ids" if doc: "length i = 16" "?at i = Some doc" "predicate_matches p doc" for i doc
    proof -
      obtain v e where "extract_path doc (predicate_path p) = Some v" "encode_index_value v = Inr e" "selects p e"
        using matches_selects [OF doc(3) p] .
      with doc(1,2) show ?thesis
        by (simp add: ids(3) entry_of_def in_c(2))
    qed
    moreover have "length i = 16" if "i \<in> set ids" for i
      using that unfolding ids(3) entry_of_def by blast
    ultimately show ?thesis
      unfolding matching_def by (intro set_eqI) (auto simp only: split_paired_all mem_Collect_eq prod.case keep_iff)
  qed
  then show thesis
    by (intro that [OF run]) (simp_all only: query_result.select_convs keep_distinct [OF ids(2)])
qed

text \<open>After any run of writers that starts with an empty collection.\<close>

lemma query_after_run:
  assumes "usable n" and "no_documents c (contents n)" and "distinct (map ix_id (dc_indexes c))"
    and "doc_run_ok libs rp lww c evs n"
    and "find_index c (predicate_path p) = Some ix" and "indexable_predicate p"
    and "n' = fold (doc_step libs rp lww) evs n"
  shows "\<exists>r full. doc_query libs rp n' c p = Inr r \<and> query_full_scan libs rp n' c p = Inr full \<and>
    qr_plan r = IndexScan (ix_id ix) \<and> mset (qr_documents r) = mset (qr_documents full)"
proof -
  have n': "usable n'" "coll_ok libs c (contents n')"
    using run_keeps [OF assms(1) no_documents_ok [OF assms(2)] assms(4)] assms(7) by simp_all
  obtain r where r: "doc_query libs rp n' c p = Inr r" "qr_plan r = IndexScan (ix_id ix)" "distinct (qr_documents r)"
      "set (qr_documents r) = matching libs c p (contents n')"
    using index_query_exact [OF n' assms(3,5,6)] .
  obtain full where full: "query_full_scan libs rp n' c p = Inr full" "distinct (qr_documents full)"
      "set (qr_documents full) = matching libs c p (contents n')"
    using full_scan_exact [OF n'] .
  have "mset (qr_documents r) = mset (qr_documents full)"
    using set_eq_iff_mset_eq_distinct [OF r(3) full(2)] r(4) full(3) by simp
  with r(1,2) full(1) show ?thesis
    by blast
qed

end

section \<open>The single node\<close>

text \<open>A node without locks, over an engine that works.\<close>

definition doc_node :: "codecs \<Rightarrow> mem_engine clocked \<Rightarrow> bool" where
  "doc_node cs n \<longleftrightarrow> codecs_ok cs \<and> \<not> sn_lock_poisoned (fst n) \<and> mem_healthy (sn_storage (fst n)) \<and> sn_window (fst n) = 0 \<and>
     (\<exists>c. txn_wf cs c (mem_state (sn_storage (fst n)))) \<and> mem_state (sn_storage (fst n)) LOCKS_TABLE = bt_empty"

abbreviation doc_store :: "mem_engine clocked \<Rightarrow> store" where
  "doc_store n \<equiv> mem_state (sn_storage (fst n))"

lemma doc_node_reads:
  assumes "doc_node cs n" and "plain_table t"
  shows "sn_read mem_engine_ops (fst n) t k con = Inr (bt_get (doc_store n t) k)"
    and "sn_range mem_engine_ops (fst n) t start stop con = Inr (bt_range start stop (doc_store n t))"
proof -
  have start: "e_begin_read mem_engine_ops (sn_storage (fst n)) = Inr (store_reader (doc_store n))"
    using mem.begin_read assms(1) by (simp add: doc_node_def)
  have t: "sized_table t" "\<not> table_is_reserved t"
    using assms(2) by (simp_all add: plain_table_def)
  have legacy: "reject_legacy_prepares (store_reader (doc_store n)) = Inr ()"
    using assms(1) by (auto simp: doc_node_def txn_wf_def)
  have free: "doc_store n LOCKS_TABLE = bt_empty"
    using assms(1) by (simp add: doc_node_def)
  show "sn_read mem_engine_ops (fst n) t k con = Inr (bt_get (doc_store n t) k)"
    using t legacy by (simp add: sn_read_def start validate_read_key_def free)
  show "sn_range mem_engine_ops (fst n) t start stop con = Inr (bt_range start stop (doc_store n t))"
    using has_range_locks_store [OF legacy t] by (simp add: sn_range_def start validate_read_range_def row_locked_def free)
qed

lemma doc_node_batch:
  assumes n: "doc_node cs n" and ops: "\<forall>op \<in> set ops. plain_table (op_table op)"
    and run: "conditional_in_storage mem_engine_ops cs ck conditions ops (sn_storage (fst n)) = (db, r)"
    and n': "n' = ((fst n)\<lparr>sn_storage := db\<rparr>, clock)"
  shows "doc_node cs n'" and "applied (case r of Inr _ \<Rightarrow> ops | Inl _ \<Rightarrow> []) (doc_store n) (doc_store n')"
    and "r = Inr i \<Longrightarrow> \<forall>cond \<in> set conditions. condition_holds (\<lambda>t k. bt_get (doc_store n t) k) cond"
proof -
  let ?s = "doc_store n" and ?W = "ops_to_write_set ops"
  obtain c where c: "txn_wf cs c ?s"
    using n by (auto simp: doc_node_def)
  have node: "codecs_ok cs" "mem_healthy (sn_storage (fst n))" "?s LOCKS_TABLE = bt_empty"
    using n by (simp_all add: doc_node_def)
  have shape: "public_set ?W" "sized_set ?W"
    using ops unfolding public_set_def sized_set_def ops_to_write_set_keys plain_table_def by auto
  have sim: "mem_healthy db" "conditional_in_storage store_engine cs ck conditions ops ?s = (mem_state db, r)"
    using mem.conditional_in_storage_simulates [OF node(2), of cs ck conditions ops] run
    by (auto simp: mem.simulates_def prod_eq_iff)
  have "doc_node cs n' \<and> applied (case r of Inr _ \<Rightarrow> ops | Inl _ \<Rightarrow> []) ?s (mem_state db) \<and>
    (r = Inr i \<longrightarrow> (\<forall>cond \<in> set conditions. condition_holds (\<lambda>t k. bt_get (?s t) k) cond))"
  proof (cases "ops = []")
    case True
    have "mem_state db = ?s \<and> (r = Inr i \<longrightarrow> (\<forall>cond \<in> set conditions. condition_holds (\<lambda>t k. bt_get (?s t) k) cond))"
      using sim(2) txn_wfD(1) [OF c] by (auto simp: conditional_in_storage_def True check_conditions_store split: if_splits)
    then show ?thesis
      using n sim(1) by (simp add: doc_node_def n' applied_def True ops_to_write_set_def split: sum.split)
  next
    case False
    have "\<not> bt_is_empty ?W"
      using False by (metis bt_is_empty_iff list.set_sel(1) ops_to_write_set_keys)
    from lock_check_public [OF c shape(2,1) this] have locks: "validate_write_locks cs (store_reader ?s) ?W = Inr ()"
      by (simp add: row_locked_def node(3))
    note store = conditional_store [OF node(1) c shape(2) public_separate [OF shape(1)] locks False, of ck conditions, unfolded sim(2)]
    let ?s' = "commit_store cs (next_record cs ck c ?W ?s) ?s"
    consider (refused) "mem_state db = ?s" "\<exists>e. r = Inl e"
      | (commit) "mem_state db = ?s'" "c \<noteq> - 1" "r = Inr (c + 1)" "\<forall>cond \<in> set conditions. condition_holds (\<lambda>t k. bt_get (?s t) k) cond"
      using store by (auto split: if_splits)
    then show ?thesis
    proof cases
      case refused
      then show ?thesis
        using n sim(1) by (auto simp: doc_node_def n' applied_def ops_to_write_set_def)
    next
      case commit
      have "?s' LOCKS_TABLE = bt_empty"
        using public_setD [OF shape(1)] node(3) by (simp add: other_table_after)
      moreover have "applied ops ?s ?s'"
        using meta_table_reserved by (auto simp: applied_def plain_table_def intro!: rows_after)
      ultimately show ?thesis
        using n sim(1) commit txn_wf_after [OF node(1) c shape(1) commit(2), of ck] by (auto simp: doc_node_def n')
    qed
  qed
  then show "doc_node cs n'" and "applied (case r of Inr _ \<Rightarrow> ops | Inl _ \<Rightarrow> []) (doc_store n) (doc_store n')"
    and "r = Inr i \<Longrightarrow> \<forall>cond \<in> set conditions. condition_holds (\<lambda>t k. bt_get (doc_store n t) k) cond"
    by (simp_all add: n')
qed

lemma validate_plain_ops:
  assumes "\<forall>op \<in> set ops. plain_table (op_table op)"
  shows "validate_public_ops ops = Inr ()" and "validate_public_write_set (ops_to_write_set ops) = Inr ()"
  using assms unfolding validate_public_ops_iff validate_public_write_set_iff ops_to_write_set_keys plain_table_def by auto

interpretation node_documents: document_backend "node_replication mem_engine_ops cs describe" "doc_node cs" doc_store
  for cs describe
proof (unfold_locales, goal_cases)
  case (1 n t k con)
  then show ?case
    by (simp add: node_replication_def doc_node_reads)
next
  case (2 n t start stop con)
  then show ?case
    by (simp add: node_replication_def doc_node_reads)
next
  case (3 n ops n' r)
  obtain node where node: "propose_batch mem_engine_ops cs (snd n 0) (fst n) ([], []) ops = (node, r)" "n' = (node, \<lambda>k. snd n (Suc k))"
    using timedD 3(4) by (fastforce simp: node_replication_def)
  obtain db q where q: "conditional_in_storage mem_engine_ops cs (snd n 0) [] ops (sn_storage (fst n)) = (db, q)"
    by (meson surj_pair)
  have "\<not> sn_lock_poisoned (fst n)" "sn_window (fst n) = 0"
    using 3(1) by (simp_all add: doc_node_def)
  then have "node = (fst n)\<lparr>sn_storage := db\<rparr>" "r = rbind (storage_err q) (\<lambda>_. Inr ())"
    using node(1) q by (simp_all add: propose_batch_def discard_id_def sn_commit_ops_at_current_def commit_ops_direct_def with_commit_lock_def
        commit_ops_at_current_def validate_plain_ops [OF 3(2)] commit_write_set_at_current_def
        authorized_is_conditional [OF 3(3), unfolded commit_ops_at_current_authorized_def])
  with doc_node_batch(1,2) [OF 3(1,2) q] node(2) show ?case
    by (cases q) simp_all
next
  case (4 n ops t k v n' r)
  let ?cond = "[ValueEquals t k v]"
  obtain node where node: "propose_conditional_batch mem_engine_ops cs (snd n 0) (fst n) ?cond ops = (node, r)" "n' = (node, \<lambda>k. snd n (Suc k))"
    using timedD 4(4) by (fastforce simp: node_replication_def)
  obtain db q where q: "conditional_in_storage mem_engine_ops cs (snd n 0) ?cond ops (sn_storage (fst n)) = (db, q)"
    by (meson surj_pair)
  have "validate_public_conditions ?cond = Inr ()"
    using 4(3) by (simp add: validate_public_conditions_def validate_public_table_def plain_table_def)
  moreover have "\<not> sn_lock_poisoned (fst n)"
    using 4(1) by (simp add: doc_node_def)
  ultimately have "node = (fst n)\<lparr>sn_storage := db\<rparr>" "r = rbind (conflict_err q) (\<lambda>_. Inr ())"
    using node(1) q by (simp_all add: propose_conditional_batch_def commit_conditional_batch_def commit_conditional_batch_authorized_def
        with_commit_lock_def validate_plain_ops [OF 4(2)])
  with doc_node_batch [OF 4(1,2) q, of n'] node(2) show ?case
    by (cases q) (simp_all add: conflict_err_def condition_holds_def)
qed

text \<open>
  C7. A query that an index can answer returns exactly the documents that a scan of the whole
  collection returns, whatever sequence of inserts, updates and deletes has run before, also by
  clients that acted on outdated reads, and whichever of them failed. The order may differ.
\<close>

theorem indexed_query_exact:
  assumes "doc_node cs n" and "no_documents c (doc_store n)" and "distinct (map ix_id (dc_indexes c))"
    and "rp = node_replication mem_engine_ops cs describe" and "doc_run_ok libs rp lww c evs n"
    and "find_index c (predicate_path p) = Some ix" and "indexable_predicate p"
    and "n' = fold (doc_step libs rp lww) evs n"
  shows "\<exists>r full. doc_query libs rp n' c p = Inr r \<and> query_full_scan libs rp n' c p = Inr full \<and>
    qr_plan r = IndexScan (ix_id ix) \<and> mset (qr_documents r) = mset (qr_documents full)"
  using node_documents.query_after_run [OF assms(1-3) assms(5-8) [unfolded assms(4)]] unfolding assms(4) .

definition demo_collection :: document_collection where
  "demo_collection = collection_with_indexes 7 [\<lparr>ix_id = 1, ix_path = [''a'']\<rparr>]"

definition demo_doc_events :: "doc_event list" where
  "demo_doc_events =
     [DocInsert demo_collection (replicate 16 5) (VObject [(''a'', VBool True)]),
      DocUpdate demo_collection (replicate 16 5) (VObject [(''a'', VBool False)]) None]"

theorem indexed_query_exact_witness:
  "\<exists>r full. doc_query demo_libs (node_replication mem_engine_ops demo_codecs (\<lambda>_. []))
        (fold (doc_step demo_libs (node_replication mem_engine_ops demo_codecs (\<lambda>_. [])) (\<lambda>_ _ n. (n, Inr ())))
          demo_doc_events (sn_new mem_new, \<lambda>_. demo_clocks)) demo_collection (PEq [''a''] (VBool True)) = Inr r \<and>
     query_full_scan demo_libs (node_replication mem_engine_ops demo_codecs (\<lambda>_. []))
        (fold (doc_step demo_libs (node_replication mem_engine_ops demo_codecs (\<lambda>_. [])) (\<lambda>_ _ n. (n, Inr ())))
          demo_doc_events (sn_new mem_new, \<lambda>_. demo_clocks)) demo_collection (PEq [''a''] (VBool True)) = Inr full \<and>
     qr_plan r = IndexScan 1 \<and> mset (qr_documents r) = mset (qr_documents full)"
proof -
  let ?n = "(sn_new mem_new, \<lambda>_ :: nat. demo_clocks)"
  have store: "doc_store ?n = (\<lambda>_. bt_empty)"
    by (simp add: sn_new_def sn_with_group_commit_window_def mem_new_facts)
  have node: "doc_node demo_codecs ?n"
    using empty_store_wf(1) [of demo_codecs] mem_new_facts demo_codecs_ok
    by (auto simp: doc_node_def sn_new_def sn_with_group_commit_window_def)
  have "rp_read (node_replication mem_engine_ops demo_codecs (\<lambda>_. [])) ?n DOCUMENT_TABLE key Strong = Inr None" for key
    using node_documents.read_row [OF node document_tables_plain(1)] store by simp
  then have "doc_run_ok demo_libs (node_replication mem_engine_ops demo_codecs (\<lambda>_. [])) (\<lambda>_ _ n. (n, Inr ())) demo_collection demo_doc_events ?n"
    by (simp add: demo_doc_events_def same_handle_def as_bytes_def)
  then show ?thesis
    using indexed_query_exact [OF node _ _ refl _ _ _ refl, where c = demo_collection and p = "PEq [''a''] (VBool True)"
        and ix = "\<lparr>ix_id = 1, ix_path = [''a'']\<rparr>"] store
    by (simp add: demo_collection_def collection_with_indexes_def find_index_def no_documents_def)
qed

end
