(* ===== verification/Spec2Isabelle.thy ===== *)
theory Spec2Isabelle
  imports Two_Phase Group_Commit Router_Migrate Db_History_Facts Document_Query
begin

text \<open>
  A verification of the core of multidb: the storage engine, the transaction layer with its version
  history and commit log, distributed transactions, replication on a single node and over shards,
  the collector of old history, time travel, and document collections with secondary indexes.
  File names below are relative to \<open>src/\<close> of the crate.

  \<^bold>\<open>The program.\<close> Clients propose batches of operations (\<open>Op\<close>) to a backend of the trait
  \<open>Replication\<close> (\<open>repl/mod.rs\<close>). \<open>SingleNode\<close> commits a batch to a \<open>StorageEngine\<close>
  (\<open>storage/traits.rs\<close>, \<open>storage/memory.rs\<close>) under its commit lock, alone or in a group. The commit
  (\<open>txn/mod.rs\<close>) checks key locks and versions, writes the rows and records a version of each row, an
  entry of the commit log and the hybrid logical clock (\<open>phase30.rs\<close>). The sharded router
  (\<open>repl/shard.rs\<close>) places keys on several backends; a batch over several shards runs two-phase
  commit, in which each shard is a participant (\<open>repl/dist_txn.rs\<close>, \<open>repl/dist_txn/locks.rs\<close>). The
  collector (\<open>txn/history.rs\<close>, \<open>db/history.rs\<close>) removes versions that no reader needs; temporal reads
  (\<open>temporal.rs\<close>) use the versions that remain. Collections (\<open>model/mod.rs\<close>) store encoded documents
  and index entries through a backend. All keys are built by \<open>keyenc.rs\<close>.

  \<^bold>\<open>Conventions.\<close> Machine integers are words, \<open>usize\<close> is a natural number with its saturation written
  out, byte strings are lists of 8-bit words, a \<open>String\<close> is a HOL string whose characters are its
  bytes. A fallible function returns a sum, \<open>Inl\<close> being the error; \<open>rbind\<close> is the question mark of
  Rust. Mutable state is passed and returned; an effect that precedes an error stays. Readings of the
  clock are arguments (\<open>clocks\<close>). Traits are records of operations. The serializers postcard and
  serde_json are parameters (\<open>codecs\<close>, \<open>value_libs\<close>, \<open>consumer_libs\<close>); the theorems that depend on
  their round trip assume \<open>codecs_ok\<close>, and \<open>Demo_Codecs\<close> has concrete ones that satisfy it.

  \<^bold>\<open>Theories, in the order of their imports.\<close>
  \<^item> \<open>Prelude\<close>, \<open>BTreeMap\<close>: words, results and ordered maps; the contract \<open>ordered_map\<close> of the map of
    Rust's library, interpreted on sorted association lists.
  \<^item> \<open>KeyEnc\<close> (\<open>keyenc.rs\<close>): the encodings keep the order, are prefix free and can be read back; the
    range of a prefix is exact.
  \<^item> \<open>Storage\<close> (\<open>storage/traits.rs\<close>), \<open>Mem_Engine\<close> (\<open>storage/memory.rs\<close>): the locale \<open>storage_engine\<close>
    is the contract of an engine, with the lemmas of its clients. It is interpreted on the abstract
    store and on the in-memory engine. The engine refines a multi-version specification; its native
    visitor makes the run of the derived one without the reservations.
  \<^item> \<open>Hlc\<close> (\<open>phase30.rs\<close>), \<open>Txn_Base\<close>, \<open>Txn_Commit\<close>, \<open>Commit_Facts\<close> (\<open>txn/mod.rs\<close>,
    \<open>txn/table_version.rs\<close>): the data and the commit paths; the outcome of a commit in every case, the
    history gives back every past state, the log replays to the same store.
  \<^item> \<open>Dist_Locks\<close>, \<open>Dist_Participant\<close>, \<open>Participant_Run\<close> (\<open>repl/dist_txn.rs\<close>,
    \<open>repl/dist_txn/locks.rs\<close>): a participant refines a specification of rows, prepared and finished
    transactions; prepared rows are isolated and decisions are final. The locale \<open>guarded_visits\<close>
    is what the budgeted lock checks need of a reader; it is interpreted on the visitors of the trait
    and on those of the in-memory engine.
  \<^item> \<open>Two_Phase\<close>: the coordinator \<open>two_phase_commit\<close> over the contract \<open>coordinator\<close> of its log.
  \<^item> \<open>Single_Node\<close>, \<open>Replication\<close>, \<open>Group_Commit\<close> (\<open>repl/mod.rs\<close>): the node, its scans, the trait as
    a record, and the group commit as a step relation of callers and leader, for any interleaving.
  \<^item> \<open>Shard\<close>, \<open>Shard_Map\<close>, \<open>Backend\<close>, \<open>Router\<close>, \<open>Router_Batch\<close>, \<open>Router_Read\<close>, \<open>Router_Recover\<close>,
    \<open>Router_Migrate\<close> (\<open>repl/shard.rs\<close>): the router is proved over the contract \<open>backend\<close>, which is
    interpreted on single nodes over the in-memory engine. Batches are atomic, reads and merging
    scans exact, recovery settles every decision, migration keeps every row, and keeps the answers
    of reads where the locks it has to move are on tables the shards have registered.
  \<^item> \<open>History\<close>, \<open>History_Facts\<close>, \<open>History_Runs\<close> (\<open>txn/history.rs\<close>), \<open>Temporal\<close>, \<open>Temporal_Facts\<close>
    (\<open>temporal.rs\<close>), \<open>Db_History\<close>, \<open>Db_History_Facts\<close> (\<open>db/history.rs\<close> and the consumers it asks):
    collection removes only what no reader above the horizon can see, respects pins and retention,
    comes to an end; reads of the past answer correctly or are refused, while others commit. That
    answer is stated by applying the same decoding and sorting of rows to the rows of the past, so it
    pins which rows are returned and not the order in which the code sorts them.
  \<^item> \<open>Value_Codec\<close>, \<open>Documents\<close>, \<open>Document_Facts\<close>, \<open>Document_Query\<close> (\<open>model/mod.rs\<close>): the codec of
    values and its round trip; index entries agree with the documents after any run of writers, over
    the contract \<open>document_backend\<close>, interpreted on the single node; queries by index are exact.

  \<^bold>\<open>Concurrency.\<close> Operations under a lock are atomic steps. Where the code reads or commits several
  times without holding a lock, the model lets other threads act in between: the backend states of
  the successive reads of a temporal query, the actions of other threads before each batch of the
  collector, the outdated bytes on which a writer of documents bases its condition, and the steps of
  other callers in the group commit are arbitrary. The other operations are runs of their own: a
  batch, a read, a scan or a recovery of the router is one sequential run over the shards, although
  the code holds only the shared side of the routing lock during it, so that two of them may overlap
  on different shards (a migration takes the exclusive side); and a query by index reads the index
  entries and the documents in one state of the backend, although the code holds no lock between the
  two reads. The theorems on these operations speak of runs that do not overlap.

  \<^bold>\<open>Bounds.\<close> The merging scan of the router takes the number of its rounds as \<open>fuel\<close>; the theorem on
  it shows that one more than the number of rows in the range is enough. The loop of the collector is
  a partial function whose termination is proved. \<open>node_room\<close> is the number of commits before the
  64-bit transaction id is exhausted; theorems that promise success of a protocol ask for enough of
  it. Every other loop is a total function.

  \<^bold>\<open>Not modelled.\<close> Replication by consensus (\<open>repl/cp.rs\<close>, \<open>repl/cp_live.rs\<close>) is driven by callbacks of
  the crate openraft, and anti-entropy (\<open>repl/ap.rs\<close>, \<open>repl/healing.rs\<close>) by threads and a transport of
  their own. SQL (\<open>query/\<close>) is executed by DataFusion and Arrow. The other engines are adapters to
  redb, ciphers and zstd. Full-text, geo, graph, vector, tensor and time-series models, change feeds
  (beyond the positions that hold back the collector), backup, federation, network, administration,
  configuration and provisioning are input and output, declarative tables, floating-point scoring or
  calls of libraries. The budgeted (guarded) variants of readers are modelled for key locks only.
  Collections with derived full-text or geo indexes, which only the crate itself can attach, are left
  out. The group commit is modelled without the error paths of its poisoned queue and result locks.
  Times of the clock are natural numbers since the epoch, so the branch of \<open>system_time_to_millis\<close>
  for an earlier time is not there.
\<close>

end
